(* ===== verification/BufferCache.thy ===== *)
theory BufferCache
  imports GoPrelude
begin

text \<open>
  The in-memory block cache, \<^verbatim>\<open>api/drive/buffercache.go\<close>.  Slots are heap objects shared by
  pointer between the slot map and the LRU list, so the model keeps an explicit heap:
  \<open>bc_heap\<close> is the list of all slots ever allocated, a slot's identity is its index, the map
  \<open>bc_slots\<close> and the list \<open>bc_lru\<close> hold identities.  Every operation runs under the cache
  mutex, so each one is an atomic step; \<^verbatim>\<open>Get\<close> releases the mutex when it blocks on a slot's
  \<^verbatim>\<open>ready\<close> channel, so it is two steps with the other goroutines' steps in between.
\<close>

section \<open>State\<close>

datatype slotState = slotEmpty | slotFetching | slotClean

record cacheKey =
  ck_linkID :: string
  ck_index :: int

text \<open>\<open>s_ready\<close>: the ready channel has been closed.  \<open>s_elem\<close>: the slot's LRU element is
  not nil.  \<open>s_data\<close> is nil (\<open>None\<close>) or the block.\<close>

record ('d, 'e) cacheSlot =
  s_key :: cacheKey
  s_data :: "'d option"
  s_ready :: bool
  s_err :: "'e option"
  s_elem :: bool
  s_state :: slotState

record ('d, 'e) bufferCache =
  bc_slots :: "(cacheKey, nat) gomap"
  bc_heap :: "('d, 'e) cacheSlot list"
  bc_lru :: "nat list"
  bc_cap :: int

definition newBufferCache :: "int \<Rightarrow> ('d, 'e) bufferCache" where
  "newBufferCache capacity = \<lparr>bc_slots = [], bc_heap = [], bc_lru = [], bc_cap = capacity\<rparr>"

section \<open>Operations\<close>

text \<open>\<^verbatim>\<open>container/list\<close>: \<^verbatim>\<open>MoveToFront\<close> and \<^verbatim>\<open>Remove\<close> ignore an element that is not in
  the list.\<close>

definition moveToFront :: "nat \<Rightarrow> nat list \<Rightarrow> nat list" where
  "moveToFront i l = (if i \<in> set l then i # remove1 i l else l)"

definition set_slot :: "nat \<Rightarrow> ('d, 'e) cacheSlot \<Rightarrow> ('d, 'e) bufferCache \<Rightarrow> ('d, 'e) bufferCache" where
  "set_slot i s bc = bc\<lparr>bc_heap := (bc_heap bc)[i := s]\<rparr>"

definition evictLocked :: "('d, 'e) bufferCache \<Rightarrow> bool \<times> ('d, 'e) bufferCache" where
  "evictLocked bc =
     (if bc_lru bc = [] then (False, bc)
      else let i = last (bc_lru bc)
           in (True, bc\<lparr>bc_lru := butlast (bc_lru bc),
                        bc_slots := AList.delete (s_key (bc_heap bc ! i)) (bc_slots bc)\<rparr>))"

text \<open>\<^verbatim>\<open>Get\<close>, up to the point where it returns or blocks on the slot's ready channel.\<close>

datatype ('d, 'e) getOutcome = GetDone "'d option" "'e option" | GetBlocked nat

definition bufferCache_Get_enter ::
    "cacheKey \<Rightarrow> ('d, 'e) bufferCache \<Rightarrow> ('d, 'e) getOutcome \<times> ('d, 'e) bufferCache" where
  "bufferCache_Get_enter k bc =
     (case map_of (bc_slots bc) k of
        None \<Rightarrow> (GetDone None None, bc)
      | Some i \<Rightarrow>
          let s = bc_heap bc ! i in
          (case s_state s of
             slotClean \<Rightarrow> (GetDone (s_data s) (s_err s), bc\<lparr>bc_lru := moveToFront i (bc_lru bc)\<rparr>)
           | slotFetching \<Rightarrow> (GetBlocked i, bc)
           | slotEmpty \<Rightarrow> (GetDone None None, bc)))"

text \<open>\<^verbatim>\<open>Get\<close> after the ready channel was closed: the slot is looked up again by key.\<close>

definition bufferCache_Get_resume ::
    "cacheKey \<Rightarrow> ('d, 'e) bufferCache \<Rightarrow> ('d option \<times> 'e option) \<times> ('d, 'e) bufferCache" where
  "bufferCache_Get_resume k bc =
     (case map_of (bc_slots bc) k of
        None \<Rightarrow> ((None, None), bc)
      | Some i \<Rightarrow>
          let s = bc_heap bc ! i;
              bc' = (if s_state s = slotClean then bc\<lparr>bc_lru := moveToFront i (bc_lru bc)\<rparr> else bc)
          in ((s_data s, s_err s), bc'))"

text \<open>
  The whole call: \<open>env\<close> is what the other goroutines do to the cache between the moment the
  mutex is released and the moment it is taken again after the wake-up.
\<close>

definition bufferCache_Get ::
    "(('d, 'e) bufferCache \<Rightarrow> ('d, 'e) bufferCache) \<Rightarrow> cacheKey \<Rightarrow> ('d, 'e) bufferCache
      \<Rightarrow> ('d option \<times> 'e option) \<times> ('d, 'e) bufferCache" where
  "bufferCache_Get env k bc =
     (case bufferCache_Get_enter k bc of
        (GetDone d e, bc') \<Rightarrow> ((d, e), bc')
      | (GetBlocked i, bc') \<Rightarrow> bufferCache_Get_resume k (env bc'))"

definition bufferCache_Put :: "cacheKey \<Rightarrow> 'd option \<Rightarrow> ('d, 'e) bufferCache \<Rightarrow> ('d, 'e) bufferCache" where
  "bufferCache_Put k d bc =
     (case map_of (bc_slots bc) k of
        Some i \<Rightarrow>
          let s = bc_heap bc ! i;
              lru' = (if s_elem s then moveToFront i (bc_lru bc) else i # bc_lru bc)
          in (set_slot i (s\<lparr>s_data := d, s_err := None, s_state := slotClean,
                            s_elem := True, s_ready := True\<rparr>) bc)\<lparr>bc_lru := lru'\<rparr>
      | None \<Rightarrow>
          let bc1 = (if int (length (bc_slots bc)) \<ge> bc_cap bc then snd (evictLocked bc) else bc);
              i = length (bc_heap bc1)
          in bc1\<lparr>bc_heap := bc_heap bc1 @
                   [\<lparr>s_key = k, s_data = d, s_ready = True, s_err = None, s_elem = True,
                     s_state = slotClean\<rparr>],
                 bc_lru := i # bc_lru bc1,
                 bc_slots := AList.update k i (bc_slots bc1)\<rparr>)"

definition bufferCache_PutError :: "cacheKey \<Rightarrow> 'e option \<Rightarrow> ('d, 'e) bufferCache \<Rightarrow> ('d, 'e) bufferCache" where
  "bufferCache_PutError k e bc =
     (case map_of (bc_slots bc) k of
        None \<Rightarrow> bc
      | Some i \<Rightarrow>
          let s = bc_heap bc ! i
          in (set_slot i (s\<lparr>s_data := None, s_err := e, s_state := slotClean, s_ready := True\<rparr>) bc)
               \<lparr>bc_slots := AList.delete k (bc_slots bc)\<rparr>)"

definition bufferCache_Reserve :: "cacheKey \<Rightarrow> ('d, 'e) bufferCache \<Rightarrow> bool \<times> ('d, 'e) bufferCache" where
  "bufferCache_Reserve k bc =
     (if map_of (bc_slots bc) k \<noteq> None then (False, bc)
      else let (evicted, bc1) = (if int (length (bc_slots bc)) \<ge> bc_cap bc then evictLocked bc else (True, bc))
           in if \<not> evicted then (False, bc1)
              else let i = length (bc_heap bc1)
                   in (True, bc1\<lparr>bc_heap := bc_heap bc1 @
                          [\<lparr>s_key = k, s_data = None, s_ready = False, s_err = None, s_elem = False,
                            s_state = slotFetching\<rparr>],
                        bc_slots := AList.update k i (bc_slots bc1)\<rparr>))"

text \<open>The loop body of \<^verbatim>\<open>Invalidate\<close> for one slot of the map, and the loop.  Go's map order
  does not matter: the visited slots are removed one by one.\<close>

definition invalidate_slot :: "cacheKey \<Rightarrow> nat \<Rightarrow> ('d, 'e) bufferCache \<Rightarrow> ('d, 'e) bufferCache" where
  "invalidate_slot k i bc =
     (let s = bc_heap bc ! i
      in (set_slot i (s\<lparr>s_ready := True\<rparr>) bc)
           \<lparr>bc_lru := (if s_elem s then remove1 i (bc_lru bc) else bc_lru bc),
            bc_slots := AList.delete k (bc_slots bc)\<rparr>)"

definition bufferCache_Invalidate :: "string \<Rightarrow> ('d, 'e) bufferCache \<Rightarrow> ('d, 'e) bufferCache" where
  "bufferCache_Invalidate linkID bc =
     fold (\<lambda>(k, i) c. if ck_linkID k \<noteq> linkID then c else invalidate_slot k i c) (bc_slots bc) bc"

section \<open>The step relation of the shared cache\<close>

text \<open>One step is one critical section; any goroutine may take any step.\<close>

datatype ('d, 'e) cacheOp =
    OpGetEnter cacheKey | OpGetResume cacheKey | OpPut cacheKey "'d option"
  | OpPutError cacheKey "'e option" | OpReserve cacheKey | OpInvalidate string

fun cache_exec :: "('d, 'e) cacheOp \<Rightarrow> ('d, 'e) bufferCache \<Rightarrow> ('d, 'e) bufferCache" where
  "cache_exec (OpGetEnter k) bc = snd (bufferCache_Get_enter k bc)"
| "cache_exec (OpGetResume k) bc = snd (bufferCache_Get_resume k bc)"
| "cache_exec (OpPut k d) bc = bufferCache_Put k d bc"
| "cache_exec (OpPutError k e) bc = bufferCache_PutError k e bc"
| "cache_exec (OpReserve k) bc = snd (bufferCache_Reserve k bc)"
| "cache_exec (OpInvalidate l) bc = bufferCache_Invalidate l bc"

fun cache_run :: "('d, 'e) cacheOp list \<Rightarrow> ('d, 'e) bufferCache \<Rightarrow> ('d, 'e) bufferCache" where
  "cache_run [] bc = bc"
| "cache_run (x # xs) bc = cache_run xs (cache_exec x bc)"

section \<open>The invariant\<close>

text \<open>
  A mapped slot is either being fetched (not in the LRU list, channel open) or clean (in the LRU
  list, channel closed); every LRU element and every open channel belongs to a mapped slot.  The
  last clause is what a waiter in \<^verbatim>\<open>Get\<close> relies on: the slot it blocks on can still be found,
  so the owner's \<^verbatim>\<open>Put\<close>, \<^verbatim>\<open>PutError\<close> or an \<^verbatim>\<open>Invalidate\<close> will wake it.
\<close>

fun slot_shape :: "('d, 'e) cacheSlot \<Rightarrow> bool \<Rightarrow> bool" where
  "slot_shape s inLRU =
     (case s_state s of
        slotFetching \<Rightarrow> \<not> s_elem s \<and> \<not> s_ready s \<and> \<not> inLRU
      | slotClean \<Rightarrow> s_elem s \<and> s_ready s \<and> inLRU
      | slotEmpty \<Rightarrow> False)"

definition slot_ok :: "('d, 'e) bufferCache \<Rightarrow> cacheKey \<Rightarrow> nat \<Rightarrow> bool" where
  "slot_ok bc k i \<longleftrightarrow> i < length (bc_heap bc) \<and> s_key (bc_heap bc ! i) = k \<and>
     slot_shape (bc_heap bc ! i) (i \<in> set (bc_lru bc))"

definition owned :: "('d, 'e) bufferCache \<Rightarrow> nat \<Rightarrow> bool" where
  "owned bc i \<longleftrightarrow> i < length (bc_heap bc) \<and> map_of (bc_slots bc) (s_key (bc_heap bc ! i)) = Some i"

definition cache_inv :: "('d, 'e) bufferCache \<Rightarrow> bool" where
  "cache_inv bc \<longleftrightarrow> distinct (keys (bc_slots bc)) \<and> distinct (bc_lru bc) \<and>
     (\<forall>k i. map_of (bc_slots bc) k = Some i \<longrightarrow> slot_ok bc k i) \<and>
     (\<forall>i \<in> set (bc_lru bc). owned bc i) \<and>
     (\<forall>i < length (bc_heap bc). \<not> s_ready (bc_heap bc ! i) \<longrightarrow> owned bc i)"

lemma cache_invD:
  assumes "cache_inv bc"
  shows "distinct (keys (bc_slots bc))" "distinct (bc_lru bc)"
    "map_of (bc_slots bc) k = Some i \<Longrightarrow> i < length (bc_heap bc)"
    "map_of (bc_slots bc) k = Some i \<Longrightarrow> s_key (bc_heap bc ! i) = k"
    "map_of (bc_slots bc) k = Some i \<Longrightarrow> slot_shape (bc_heap bc ! i) (i \<in> set (bc_lru bc))"
    "i \<in> set (bc_lru bc) \<Longrightarrow> i < length (bc_heap bc)"
    "i \<in> set (bc_lru bc) \<Longrightarrow> map_of (bc_slots bc) (s_key (bc_heap bc ! i)) = Some i"
    "i < length (bc_heap bc) \<Longrightarrow> \<not> s_ready (bc_heap bc ! i) \<Longrightarrow>
       map_of (bc_slots bc) (s_key (bc_heap bc ! i)) = Some i"
  using assms by (auto simp: cache_inv_def slot_ok_def owned_def)

lemma cache_invI:
  assumes "distinct (keys (bc_slots bc))" "distinct (bc_lru bc)"
    "\<And>k i. map_of (bc_slots bc) k = Some i \<Longrightarrow> slot_ok bc k i"
    "\<And>i. i \<in> set (bc_lru bc) \<Longrightarrow> owned bc i"
    "\<And>i. i < length (bc_heap bc) \<Longrightarrow> \<not> s_ready (bc_heap bc ! i) \<Longrightarrow> owned bc i"
  shows "cache_inv bc"
  using assms by (auto simp: cache_inv_def)

lemmas cache_unfold = slot_ok_def owned_def set_slot_def

lemma set_moveToFront [simp]: "set (moveToFront i l) = set l"
  by (auto simp: moveToFront_def in_set_remove1 dest: set_remove1_subset[THEN subsetD])
     (metis in_set_remove1)

lemma distinct_moveToFront [simp]: "distinct l \<Longrightarrow> distinct (moveToFront i l)"
  by (simp add: moveToFront_def)

lemma cache_inv_new [preserves]: "cache_inv (newBufferCache c)"
  by (simp add: newBufferCache_def cache_inv_def)

text \<open>Reordering the LRU list keeps the invariant.\<close>

lemma cache_inv_lru_order:
  assumes "cache_inv bc" "set l = set (bc_lru bc)" "distinct l"
  shows "cache_inv (bc\<lparr>bc_lru := l\<rparr>)"
  using assms by (auto simp: cache_inv_def slot_ok_def owned_def)

lemma cache_inv_Get_enter [preserves]:
  "cache_inv bc \<Longrightarrow> cache_inv (snd (bufferCache_Get_enter k bc))"
  by (auto simp: bufferCache_Get_enter_def Let_def cache_invD
      intro: cache_inv_lru_order split: option.split slotState.split)

lemma cache_inv_Get_resume [preserves]:
  "cache_inv bc \<Longrightarrow> cache_inv (snd (bufferCache_Get_resume k bc))"
  by (auto simp: bufferCache_Get_resume_def Let_def cache_invD
      intro: cache_inv_lru_order split: option.split)

lemma cache_inv_evict [preserves]:
  assumes "cache_inv bc"
  shows "cache_inv (snd (evictLocked bc))"
proof (cases "bc_lru bc = []")
  case True
  with assms show ?thesis by (simp add: evictLocked_def)
next
  case False
  define i where "i = last (bc_lru bc)"
  note inv = cache_invD[OF assms]
  have i: "i \<in> set (bc_lru bc)" using False by (simp add: i_def)
  have rest: "set (butlast (bc_lru bc)) = set (bc_lru bc) - {i}"
    using inv(2) False by (simp add: i_def butlast_remove_last)
  have own: "map_of (bc_slots bc) (s_key (bc_heap bc ! i)) = Some i" by (rule inv(7)[OF i])
  have rdy: "s_ready (bc_heap bc ! i)"
    using inv(5)[OF own] i by (auto split: slotState.splits)
  have keq: "s_key (bc_heap bc ! j) \<noteq> s_key (bc_heap bc ! i)"
    if "map_of (bc_slots bc) (s_key (bc_heap bc ! j)) = Some j" "j \<noteq> i" for j
    using that own by auto
  show ?thesis
    unfolding evictLocked_def if_not_P[OF False] Let_def snd_conv i_def[symmetric]
  proof (rule cache_invI, goal_cases)
    case 1 show ?case using inv(1) by simp
  next
    case 2 show ?case using inv(2) by (simp add: distinct_butlast)
  next
    case (3 k j)
    then have "map_of (bc_slots bc) k = Some j" "k \<noteq> s_key (bc_heap bc ! i)"
      by (auto split: if_splits)
    with inv(3,4,5)[of k j] show ?case by (auto simp: slot_ok_def rest split: slotState.splits)
  next
    case (4 j)
    with inv(6,7)[of j] keq[of j] show ?case by (auto simp: owned_def rest)
  next
    case (5 j)
    with inv(8)[of j] keq[of j] rdy show ?case by (auto simp: owned_def)
  qed
qed

lemma evict_absent: "map_of (bc_slots bc) k = None \<Longrightarrow> map_of (bc_slots (snd (evictLocked bc))) k = None"
  by (auto simp: evictLocked_def Let_def)

lemma cache_inv_add:
  assumes inv: "cache_inv bc" and new: "map_of (bc_slots bc) k = None"
    and s: "s_key s = k" "slot_shape s b"
    and l: "l = (if b then length (bc_heap bc) # bc_lru bc else bc_lru bc)"
  shows "cache_inv (bc\<lparr>bc_heap := bc_heap bc @ [s], bc_lru := l,
                       bc_slots := AList.update k (length (bc_heap bc)) (bc_slots bc)\<rparr>)"
proof (rule cache_invI, goal_cases)
  note I = cache_invD[OF inv]
  have lt: "i < length (bc_heap bc)" if "i \<in> set (bc_lru bc)" for i using I(6)[OF that] .
  case 1 show ?case using I(1) by simp
  case 2 show ?case using I(2) lt by (auto simp: l)
  case (3 k' i)
  show ?case
  proof (cases "k' = k")
    case True
    with 3 s lt[of "length (bc_heap bc)"] show ?thesis
      by (auto simp: slot_ok_def l split: slotState.splits)
  next
    case False
    with 3 have m: "map_of (bc_slots bc) k' = Some i" by simp
    with I(3,4,5)[OF m] show ?thesis by (auto simp: slot_ok_def l nth_append split: slotState.splits)
  qed
next
  note I = cache_invD[OF inv]
  case (4 i)
  then consider "i = length (bc_heap bc)" | "i \<in> set (bc_lru bc)" by (auto simp: l split: if_splits)
  then show ?case
  proof cases
    case 1 with s show ?thesis by (simp add: owned_def)
  next
    case 2 with I(6,7)[OF 2] new show ?thesis by (auto simp: owned_def nth_append)
  qed
next
  note I = cache_invD[OF inv]
  case (5 i)
  show ?case
  proof (cases "i = length (bc_heap bc)")
    case True with s show ?thesis by (simp add: owned_def)
  next
    case False
    with 5 have "i < length (bc_heap bc)" "\<not> s_ready (bc_heap bc ! i)" by (auto simp: nth_append)
    with I(8)[OF this] new show ?thesis by (auto simp: owned_def nth_append)
  qed
qed

lemma cache_inv_drop:
  assumes inv: "cache_inv bc" and m: "map_of (bc_slots bc) k = Some i"
    and s: "s_key s = k" "s_ready s"
  shows "cache_inv (bc\<lparr>bc_heap := (bc_heap bc)[i := s], bc_lru := remove1 i (bc_lru bc),
                       bc_slots := AList.delete k (bc_slots bc)\<rparr>)"
proof (rule cache_invI, goal_cases)
  note I = cache_invD[OF inv]
  have i: "i < length (bc_heap bc)" and ki: "s_key (bc_heap bc ! i) = k"
    using I(3,4)[OF m] by auto
  case 1 show ?case using I(1) by simp
  case 2 show ?case using I(2) by simp
  case (3 k' j)
  then have m': "map_of (bc_slots bc) k' = Some j" and ne: "k' \<noteq> k" by (auto split: if_splits)
  then have "j \<noteq> i" using I(4)[OF m'] ki by auto
  with ne I(3,4,5)[OF m'] I(2) show ?case by (auto simp: slot_ok_def)
next
  note I = cache_invD[OF inv]
  case (4 j)
  then have j: "j \<in> set (bc_lru bc)" "j \<noteq> i" using I(2) by auto
  with I(6,7)[OF j(1)] m show ?case by (auto simp: owned_def)
next
  note I = cache_invD[OF inv]
  case (5 j)
  then have j: "j < length (bc_heap bc)" "\<not> s_ready (bc_heap bc ! j)" "j \<noteq> i"
    using s I(3)[OF m] by (auto simp: nth_list_update split: if_splits)
  with I(8)[OF j(1,2)] m show ?case by (auto simp: owned_def)
qed

lemma cache_inv_fill:
  assumes inv: "cache_inv bc" and m: "map_of (bc_slots bc) k = Some i"
    and s: "s_key s = k" "slot_shape s True" and l: "set l = insert i (set (bc_lru bc))" "distinct l"
  shows "cache_inv (bc\<lparr>bc_heap := (bc_heap bc)[i := s], bc_lru := l\<rparr>)"
proof (rule cache_invI, goal_cases)
  note I = cache_invD[OF inv]
  case 1 show ?case using I(1) by simp
  case 2 show ?case using l by simp
  case (3 k' j)
  with I(3,4,5)[of k' j] I(4)[OF m] m s l show ?case by (cases "j = i") (auto simp: slot_ok_def)
next
  note I = cache_invD[OF inv]
  case (4 j)
  with I(6,7)[of j] I(3)[OF m] m s l show ?case by (cases "j = i") (auto simp: owned_def)
next
  note I = cache_invD[OF inv]
  case (5 j)
  with I(8)[of j] I(3)[OF m] m s show ?case by (cases "j = i") (auto simp: owned_def)
qed

lemma cache_inv_Put [preserves]:
  assumes inv: "cache_inv bc"
  shows "cache_inv (bufferCache_Put k d bc)"
proof (cases "map_of (bc_slots bc) k")
  case None
  define bc1 where "bc1 = (if bc_cap bc \<le> int (length (bc_slots bc)) then snd (evictLocked bc) else bc)"
  have "cache_inv bc1" using inv by (simp add: bc1_def preserves)
  moreover have "map_of (bc_slots bc1) k = None" using None by (simp add: bc1_def evict_absent)
  ultimately show ?thesis
    unfolding bufferCache_Put_def None option.case Let_def bc1_def[symmetric]
    by (auto intro!: cache_inv_add[where b = True])
next
  case (Some i)
  have k: "s_key (bc_heap bc ! i) = k" "distinct (bc_lru bc)"
    "slot_shape (bc_heap bc ! i) (i \<in> set (bc_lru bc))"
    using cache_invD[OF inv] Some by blast+
  show ?thesis
    unfolding bufferCache_Put_def Some option.case Let_def set_slot_def
    using k by (auto intro!: cache_inv_fill[OF inv Some] split: slotState.splits)
qed

text \<open>
  \<^verbatim>\<open>PutError\<close> deletes the slot from the map but leaves the LRU list alone, so it keeps the
  invariant only on a slot that is still being fetched (or gone).
\<close>

definition fetching_or_absent :: "cacheKey \<Rightarrow> ('d, 'e) bufferCache \<Rightarrow> bool" where
  "fetching_or_absent k bc \<longleftrightarrow>
     (case map_of (bc_slots bc) k of None \<Rightarrow> True | Some i \<Rightarrow> s_state (bc_heap bc ! i) = slotFetching)"

lemma cache_inv_PutError [preserves]:
  assumes inv: "cache_inv bc" and f: "fetching_or_absent k bc"
  shows "cache_inv (bufferCache_PutError k e bc)"
proof (cases "map_of (bc_slots bc) k")
  case None
  with inv show ?thesis by (simp add: bufferCache_PutError_def)
next
  case (Some i)
  have "slot_shape (bc_heap bc ! i) (i \<in> set (bc_lru bc))" "s_key (bc_heap bc ! i) = k"
    using cache_invD[OF inv] Some by blast+
  with f Some have "remove1 i (bc_lru bc) = bc_lru bc"
    by (auto simp: fetching_or_absent_def intro: remove1_idem)
  then show ?thesis
    using cache_inv_drop[OF inv Some, of "(bc_heap bc ! i)\<lparr>s_data := None, s_err := e,
        s_state := slotClean, s_ready := True\<rparr>"] \<open>s_key (bc_heap bc ! i) = k\<close>
    by (simp add: bufferCache_PutError_def Some Let_def set_slot_def)
qed

lemma cache_inv_Reserve [preserves]:
  assumes inv: "cache_inv bc"
  shows "cache_inv (snd (bufferCache_Reserve k bc))"
proof (cases "map_of (bc_slots bc) k")
  case (Some i)
  with inv show ?thesis by (simp add: bufferCache_Reserve_def)
next
  case None
  obtain ev bc1 where e: "(if bc_cap bc \<le> int (length (bc_slots bc)) then evictLocked bc else (True, bc)) = (ev, bc1)"
    by (cases "if bc_cap bc \<le> int (length (bc_slots bc)) then evictLocked bc else (True, bc)")
  have i1: "cache_inv bc1" and n1: "map_of (bc_slots bc1) k = None"
    using e inv None cache_inv_evict[OF inv] evict_absent[OF None] by (auto split: if_splits)
  show ?thesis
    using i1 cache_inv_add[OF i1 n1, where b = False]
    by (auto simp: bufferCache_Reserve_def None Let_def e)
qed

text \<open>\<^verbatim>\<open>Invalidate\<close>: one loop iteration, then the loop over the slots the map held at entry.\<close>

abbreviation inv_body :: "string \<Rightarrow> cacheKey \<times> nat \<Rightarrow> ('d, 'e) bufferCache \<Rightarrow> ('d, 'e) bufferCache" where
  "inv_body l \<equiv> \<lambda>(k, i) c. if ck_linkID k \<noteq> l then c else invalidate_slot k i c"

lemma invalidate_slot_slots [simp]:
  "bc_slots (invalidate_slot k i bc) = AList.delete k (bc_slots bc)"
  by (simp add: invalidate_slot_def Let_def)

lemma cache_inv_invalidate_slot:
  assumes inv: "cache_inv bc" and m: "map_of (bc_slots bc) k = Some i"
  shows "cache_inv (invalidate_slot k i bc)"
proof -
  have k: "s_key (bc_heap bc ! i) = k" "slot_shape (bc_heap bc ! i) (i \<in> set (bc_lru bc))"
    using cache_invD[OF inv] m by blast+
  then have "(if s_elem (bc_heap bc ! i) then remove1 i (bc_lru bc) else bc_lru bc) = remove1 i (bc_lru bc)"
    by (auto simp: remove1_idem split: slotState.splits)
  then show ?thesis
    using cache_inv_drop[OF inv m, of "(bc_heap bc ! i)\<lparr>s_ready := True\<rparr>"] k
    by (simp add: invalidate_slot_def set_slot_def Let_def)
qed

lemma invalidate_loop:
  assumes "cache_inv c" "distinct (keys xs)" "\<forall>(k, i) \<in> set xs. map_of (bc_slots c) k = Some i"
  shows "cache_inv (fold (inv_body l) xs c) \<and>
    (\<forall>k. map_of (bc_slots (fold (inv_body l) xs c)) k =
           (if k \<in> set (keys xs) \<and> ck_linkID k = l then None else map_of (bc_slots c) k))"
  using assms
proof (induction xs arbitrary: c)
  case (Cons x xs)
  obtain k' i where x: "x = (k', i)" by force
  have c': "cache_inv (inv_body l x c)"
    using Cons.prems by (auto simp: x cache_inv_invalidate_slot)
  have rest: "\<forall>(k, i) \<in> set xs. map_of (bc_slots (inv_body l x c)) k = Some i"
    using Cons.prems by (force simp: x)
  have d: "distinct (keys xs)" using Cons.prems by simp
  show ?case using Cons.IH[OF c' d rest] Cons.prems(2) by (auto simp: x)
qed simp_all

lemma cache_inv_Invalidate [preserves]:
  "cache_inv bc \<Longrightarrow> cache_inv (bufferCache_Invalidate l bc)"
  unfolding bufferCache_Invalidate_def
  by (rule invalidate_loop[THEN conjunct1]) (auto dest: cache_invD(1))

lemma Invalidate_slots:
  "cache_inv bc \<Longrightarrow> map_of (bc_slots (bufferCache_Invalidate l bc)) k =
     (if ck_linkID k = l then None else map_of (bc_slots bc) k)"
  unfolding bufferCache_Invalidate_def
  using invalidate_loop[of bc "bc_slots bc" l, OF _ cache_invD(1)]
  by (cases "map_of (bc_slots bc) k") (auto simp: map_of_eq_None_iff cache_invD(1) image_iff
      dest: map_of_SomeD)

lemma invalidate_heap:
  "length (bc_heap (fold (inv_body l) xs c)) = length (bc_heap c)"
  "s_key (bc_heap (fold (inv_body l) xs c) ! i) = s_key (bc_heap c ! i)"
  by (induction xs arbitrary: c)
     (auto simp: invalidate_slot_def set_slot_def Let_def nth_update_if split: prod.split)

text \<open>Every waiter on an invalidated block is woken: an open channel would still be mapped.\<close>

lemma Invalidate_wakes:
  assumes inv: "cache_inv bc" and i: "i < length (bc_heap bc)" and l: "ck_linkID (s_key (bc_heap bc ! i)) = l"
  shows "s_ready (bc_heap (bufferCache_Invalidate l bc) ! i)"
proof (rule ccontr)
  assume nr: "\<not> ?thesis"
  have inv': "cache_inv (bufferCache_Invalidate l bc)" using inv by (rule cache_inv_Invalidate)
  have i': "i < length (bc_heap (bufferCache_Invalidate l bc))"
    and k: "s_key (bc_heap (bufferCache_Invalidate l bc) ! i) = s_key (bc_heap bc ! i)"
    using i by (simp_all add: bufferCache_Invalidate_def invalidate_heap)
  from cache_invD(8)[OF inv' i' nr] show False
    by (simp add: Invalidate_slots[OF inv] k l)
qed

section \<open>Reachable caches\<close>

text \<open>
  The steps any number of goroutines take on one shared cache.  The only restriction is on
  \<^verbatim>\<open>PutError\<close>: the goroutine that reports a failed fetch finds its slot still being fetched
  (or already invalidated).
\<close>

inductive cache_step :: "('d, 'e) bufferCache \<Rightarrow> ('d, 'e) bufferCache \<Rightarrow> bool" where
  get_enter: "cache_step bc (snd (bufferCache_Get_enter k bc))"
| get_resume: "cache_step bc (snd (bufferCache_Get_resume k bc))"
| put: "cache_step bc (bufferCache_Put k d bc)"
| put_error: "fetching_or_absent k bc \<Longrightarrow> cache_step bc (bufferCache_PutError k e bc)"
| reserve: "cache_step bc (snd (bufferCache_Reserve k bc))"
| invalidate: "cache_step bc (bufferCache_Invalidate l bc)"

inductive cache_reachable :: "int \<Rightarrow> ('d, 'e) bufferCache \<Rightarrow> bool" for cap where
  init: "cache_reachable cap (newBufferCache cap)"
| step: "cache_reachable cap s \<Longrightarrow> cache_step s t \<Longrightarrow> cache_reachable cap t"

lemma cache_step_inv [preserves]: "cache_step s t \<Longrightarrow> cache_inv s \<Longrightarrow> cache_inv t"
  by (induction rule: cache_step.induct) (simp_all add: preserves)

lemma cache_steps_inv: "cache_step\<^sup>*\<^sup>* s t \<Longrightarrow> cache_inv s \<Longrightarrow> cache_inv t"
  by (induction rule: rtranclp_induct) (auto intro: preserves)

lemma cache_reachable_inv: "cache_reachable cap bc \<Longrightarrow> cache_inv bc"
  by (induction rule: cache_reachable.induct) (auto intro: preserves)

text \<open>Slots are never freed and keep their key; an open channel stays open only while mapped.\<close>

lemma evict_heap [simp, frame]: "bc_heap (snd (evictLocked bc)) = bc_heap bc"
  by (simp add: evictLocked_def Let_def)

lemma evict_cap [simp, frame]: "bc_cap (snd (evictLocked bc)) = bc_cap bc"
  by (simp add: evictLocked_def Let_def)

definition heap_grows :: "('d, 'e) bufferCache \<Rightarrow> ('d, 'e) bufferCache \<Rightarrow> bool" where
  "heap_grows s t \<longleftrightarrow> length (bc_heap s) \<le> length (bc_heap t) \<and>
     (\<forall>i < length (bc_heap s). s_key (bc_heap t ! i) = s_key (bc_heap s ! i))"

lemma heap_grows_trans: "heap_grows s t \<Longrightarrow> heap_grows t u \<Longrightarrow> heap_grows s u"
  by (auto simp: heap_grows_def)

lemma heap_grows_exec: "heap_grows bc (cache_exec x bc)"
  by (cases x)
    (auto simp: heap_grows_def bufferCache_Get_enter_def bufferCache_Get_resume_def bufferCache_Put_def
      bufferCache_PutError_def bufferCache_Reserve_def bufferCache_Invalidate_def invalidate_heap
      set_slot_def Let_def nth_append nth_update_if evictLocked_def
      split: option.split slotState.split prod.split)

lemma cache_step_exec: "cache_step s t \<Longrightarrow> \<exists>x. t = cache_exec x s"
proof (induction rule: cache_step.induct)
  case (get_enter bc k) show ?case by (rule exI[of _ "OpGetEnter k"]) simp
next
  case (get_resume bc k) show ?case by (rule exI[of _ "OpGetResume k"]) simp
next
  case (put bc k d) show ?case by (rule exI[of _ "OpPut k d"]) simp
next
  case (put_error k bc e) show ?case by (rule exI[of _ "OpPutError k e"]) simp
next
  case (reserve bc k) show ?case by (rule exI[of _ "OpReserve k"]) simp
next
  case (invalidate bc l) show ?case by (rule exI[of _ "OpInvalidate l"]) simp
qed

lemma cache_steps_grow: "cache_step\<^sup>*\<^sup>* s t \<Longrightarrow> heap_grows s t"
proof (induction rule: rtranclp_induct)
  case base show ?case by (simp add: heap_grows_def)
next
  case (step t u)
  then show ?case using cache_step_exec heap_grows_exec heap_grows_trans by blast
qed

section \<open>What each operation does\<close>

lemma Put_lookup:
  assumes "cache_inv bc"
  shows "\<exists>i. map_of (bc_slots (bufferCache_Put k d bc)) k = Some i \<and>
    i < length (bc_heap (bufferCache_Put k d bc)) \<and>
    bc_heap (bufferCache_Put k d bc) ! i =
      \<lparr>s_key = k, s_data = d, s_ready = True, s_err = None, s_elem = True, s_state = slotClean\<rparr>"
  using cache_invD(3,4)[OF assms, of k]
  by (cases "map_of (bc_slots bc) k") (auto simp: bufferCache_Put_def set_slot_def Let_def)

lemma Get_clean:
  assumes "map_of (bc_slots bc) k = Some i" "s_state (bc_heap bc ! i) = slotClean"
  shows "bufferCache_Get env k bc =
    ((s_data (bc_heap bc ! i), s_err (bc_heap bc ! i)), bc\<lparr>bc_lru := moveToFront i (bc_lru bc)\<rparr>)"
  using assms by (simp add: bufferCache_Get_def bufferCache_Get_enter_def Let_def)

lemma Get_miss: "map_of (bc_slots bc) k = None \<Longrightarrow> bufferCache_Get env k bc = ((None, None), bc)"
  by (simp add: bufferCache_Get_def bufferCache_Get_enter_def)

lemma Get_enter_blocked:
  assumes "cache_inv bc" "bufferCache_Get_enter k bc = (GetBlocked i, bc')"
  shows "map_of (bc_slots bc) k = Some i" "\<not> s_ready (bc_heap bc ! i)" "bc' = bc"
    "i < length (bc_heap bc)" "s_key (bc_heap bc ! i) = k"
  using assms cache_invD(3,4,5)[OF assms(1), of k]
  by (fastforce simp: bufferCache_Get_enter_def Let_def split: option.splits slotState.splits)+

lemma Put_wakes:
  "cache_inv bc \<Longrightarrow> map_of (bc_slots bc) k = Some i \<Longrightarrow> s_ready (bc_heap (bufferCache_Put k d bc) ! i)"
  using cache_invD(3)[of bc k i] by (simp add: bufferCache_Put_def set_slot_def Let_def)

lemma PutError_wakes:
  "cache_inv bc \<Longrightarrow> map_of (bc_slots bc) k = Some i \<Longrightarrow> s_ready (bc_heap (bufferCache_PutError k e bc) ! i)"
  using cache_invD(3)[of bc k i] by (simp add: bufferCache_PutError_def set_slot_def Let_def)

text \<open>Under the invariant the LRU list holds exactly the clean slots, so an eviction can fail
  only when every slot is being fetched, and it never drops one that is.\<close>

lemma evict_succeeds_iff:
  assumes "cache_inv bc"
  shows "fst (evictLocked bc) \<longleftrightarrow> (\<exists>k i. map_of (bc_slots bc) k = Some i \<and> s_state (bc_heap bc ! i) = slotClean)"
proof
  assume "fst (evictLocked bc)"
  then have "last (bc_lru bc) \<in> set (bc_lru bc)" by (auto simp: evictLocked_def split: if_splits)
  with cache_invD(7)[OF assms this] cache_invD(5)[OF assms]
  show "\<exists>k i. map_of (bc_slots bc) k = Some i \<and> s_state (bc_heap bc ! i) = slotClean"
    by (fastforce split: slotState.splits)
next
  assume "\<exists>k i. map_of (bc_slots bc) k = Some i \<and> s_state (bc_heap bc ! i) = slotClean"
  then obtain k i where "map_of (bc_slots bc) k = Some i" "s_state (bc_heap bc ! i) = slotClean" by blast
  with cache_invD(5)[OF assms, of k i] have "bc_lru bc \<noteq> []" by auto
  then show "fst (evictLocked bc)" by (simp add: evictLocked_def Let_def)
qed

lemma evict_length:
  "cache_inv bc \<Longrightarrow> fst (evictLocked bc) \<Longrightarrow> length (bc_slots (snd (evictLocked bc))) < length (bc_slots bc)"
  using cache_invD(7)[of bc "last (bc_lru bc)"]
  by (auto simp: evictLocked_def Let_def intro: length_delete_present split: if_splits)

section \<open>Where the data comes from\<close>

text \<open>
  \<open>cache_holds P\<close>: every block the cache can hand out for a key satisfies \<open>P\<close>.  It needs no
  discipline at all from the callers, so it also covers the interleavings the invariant excludes.
\<close>

definition cache_holds :: "(cacheKey \<Rightarrow> 'd \<Rightarrow> bool) \<Rightarrow> ('d, 'e) bufferCache \<Rightarrow> bool" where
  "cache_holds P bc \<longleftrightarrow> (\<forall>(k, i) \<in> set (bc_slots bc). i < length (bc_heap bc) \<and> s_key (bc_heap bc ! i) = k) \<and>
     (\<forall>i < length (bc_heap bc). \<forall>x. s_data (bc_heap bc ! i) = Some x \<longrightarrow> P (s_key (bc_heap bc ! i)) x)"

lemma cache_holdsD:
  assumes "cache_holds P bc" "map_of (bc_slots bc) k = Some i"
  shows "i < length (bc_heap bc)" "s_key (bc_heap bc ! i) = k"
    "s_data (bc_heap bc ! i) = Some x \<Longrightarrow> P k x"
  using assms map_of_SomeD[OF assms(2)] by (auto simp: cache_holds_def)

lemma cache_holds_new: "cache_holds P (newBufferCache c)"
  by (simp add: cache_holds_def newBufferCache_def)

lemma cache_holds_shrink:
  assumes "cache_holds P bc" "set sl \<subseteq> set (bc_slots bc)"
  shows "cache_holds P (bc\<lparr>bc_lru := l, bc_slots := sl\<rparr>)"
  using assms by (fastforce simp: cache_holds_def)

lemma cache_holds_lru [simp]: "cache_holds P (bc\<lparr>bc_lru := l\<rparr>) = cache_holds P bc"
  by (simp add: cache_holds_def)

lemma cache_holds_evict: "cache_holds P bc \<Longrightarrow> cache_holds P (snd (evictLocked bc))"
  by (auto simp: evictLocked_def Let_def cache_holds_def)

lemma cache_holds_add:
  assumes "cache_holds P bc" "s_key s = k" "\<And>x. s_data s = Some x \<Longrightarrow> P k x"
  shows "cache_holds P (bc\<lparr>bc_heap := bc_heap bc @ [s], bc_lru := l,
                           bc_slots := AList.update k (length (bc_heap bc)) (bc_slots bc)\<rparr>)"
  using assms set_update_subset[of k "length (bc_heap bc)" "bc_slots bc"]
  by (fastforce simp: cache_holds_def nth_append less_Suc_eq)

lemma cache_holds_set:
  assumes "cache_holds P bc" "s_key s = s_key (bc_heap bc ! i)"
    "\<And>x. s_data s = Some x \<Longrightarrow> i < length (bc_heap bc) \<Longrightarrow> P (s_key s) x"
  shows "cache_holds P (bc\<lparr>bc_heap := (bc_heap bc)[i := s]\<rparr>)"
  using assms by (fastforce simp: cache_holds_def nth_update_if)

lemma cache_holds_invalidate_slot: "cache_holds P bc \<Longrightarrow> cache_holds P (invalidate_slot k i bc)"
  unfolding invalidate_slot_def set_slot_def Let_def
  by (intro cache_holds_shrink cache_holds_set) (auto simp: cache_holds_def)

lemma cache_holds_loop: "cache_holds P c \<Longrightarrow> cache_holds P (fold (inv_body l) xs c)"
  by (induction xs arbitrary: c) (auto simp: cache_holds_invalidate_slot)

lemma cache_holds_Put:
  assumes h: "cache_holds P bc" and d: "\<And>x. d = Some x \<Longrightarrow> P k x"
  shows "cache_holds P (bufferCache_Put k d bc)"
proof (cases "map_of (bc_slots bc) k")
  case None
  define bc1 where "bc1 = (if bc_cap bc \<le> int (length (bc_slots bc)) then snd (evictLocked bc) else bc)"
  have "cache_holds P bc1" using h by (simp add: bc1_def cache_holds_evict)
  with d show ?thesis
    unfolding bufferCache_Put_def None option.case Let_def bc1_def[symmetric]
    by (auto intro!: cache_holds_add)
next
  case (Some i)
  show ?thesis
    using cache_holdsD(2)[OF h Some] d
    by (auto simp: bufferCache_Put_def Some Let_def set_slot_def intro!: cache_holds_set[OF h])
qed

lemma cache_holds_PutError:
  assumes h: "cache_holds P bc"
  shows "cache_holds P (bufferCache_PutError k e bc)"
proof (cases "map_of (bc_slots bc) k")
  case (Some i)
  let ?s = "(bc_heap bc ! i)\<lparr>s_data := None, s_err := e, s_state := slotClean, s_ready := True\<rparr>"
  have "cache_holds P (bc\<lparr>bc_heap := (bc_heap bc)[i := ?s]\<rparr>)"
    by (rule cache_holds_set[OF h]) simp_all
  from cache_holds_shrink[OF this, of "AList.delete k (bc_slots bc)" "bc_lru bc"]
  show ?thesis by (auto simp: bufferCache_PutError_def Some Let_def set_slot_def)
qed (simp add: bufferCache_PutError_def h)

lemma cache_holds_Reserve:
  assumes h: "cache_holds P bc"
  shows "cache_holds P (snd (bufferCache_Reserve k bc))"
proof (cases "map_of (bc_slots bc) k")
  case (Some i)
  with h show ?thesis by (simp add: bufferCache_Reserve_def)
next
  case None
  obtain ev bc1 where e: "(if bc_cap bc \<le> int (length (bc_slots bc)) then evictLocked bc else (True, bc)) = (ev, bc1)"
    by (cases "if bc_cap bc \<le> int (length (bc_slots bc)) then evictLocked bc else (True, bc)")
  have h1: "cache_holds P bc1"
    using e h cache_holds_evict[OF h] by (auto split: if_splits)
  then show ?thesis
    by (auto simp: bufferCache_Reserve_def None Let_def e
        intro!: cache_holds_add[OF h1, where l = "bc_lru bc1" and k = k, simplified])
qed

lemma cache_holds_Get_enter: "cache_holds P bc \<Longrightarrow> cache_holds P (snd (bufferCache_Get_enter k bc))"
  by (auto simp: bufferCache_Get_enter_def Let_def split: option.split slotState.split)

lemma cache_holds_Get_resume: "cache_holds P bc \<Longrightarrow> cache_holds P (snd (bufferCache_Get_resume k bc))"
  by (auto simp: bufferCache_Get_resume_def Let_def split: option.split)

lemma cache_holds_exec:
  assumes "cache_holds P bc" "\<And>k d. x = OpPut k (Some d) \<Longrightarrow> P k d"
  shows "cache_holds P (cache_exec x bc)"
  using assms
  by (cases x) (auto simp: cache_holds_Put cache_holds_PutError cache_holds_Reserve cache_holds_loop
      cache_holds_Get_enter cache_holds_Get_resume bufferCache_Invalidate_def)

lemma cache_holds_run:
  "cache_holds P bc \<Longrightarrow> (\<And>k d. OpPut k (Some d) \<in> set xs \<Longrightarrow> P k d) \<Longrightarrow> cache_holds P (cache_run xs bc)"
  by (induction xs arbitrary: bc) (simp_all add: cache_holds_exec)

text \<open>A \<^verbatim>\<open>Get\<close> returns data the cache holds, whatever the others do while it is blocked.\<close>

lemma cache_holds_Get:
  assumes h: "cache_holds P bc" and env: "\<And>c. cache_holds P c \<Longrightarrow> cache_holds P (env c)"
    and g: "bufferCache_Get env k bc = ((d, e), bc')"
  shows "cache_holds P bc'" "d = Some x \<Longrightarrow> P k x"
proof -
  have res: "cache_holds P c' \<and> (d = Some x \<longrightarrow> P k x)"
    if "cache_holds P c" "bufferCache_Get_resume k c = ((d, e), c')" for c c' x
    using that cache_holdsD(3)[OF that(1)]
    by (auto simp: bufferCache_Get_resume_def Let_def split: option.splits if_splits)
  have "cache_holds P bc' \<and> (d = Some x \<longrightarrow> P k x)" for x
    using g h cache_holdsD(3)[OF h] res[OF env]
    by (auto simp: bufferCache_Get_def bufferCache_Get_enter_def Let_def
        split: option.splits slotState.splits)
  then show "cache_holds P bc'" "d = Some x \<Longrightarrow> P k x" by blast+
qed

section \<open>Orphaned slots\<close>

text \<open>
  A slot that left the map with its channel still open is out of reach of every operation:
  whoever waits on it waits for ever.  The invariant excludes it, but the invariant needs the
  restriction on \<^verbatim>\<open>PutError\<close>; \<open>orphan_trace\<close> is a run of the cache's own operations, every call
  made by the owner of a reservation as the code makes it, that ends with such a slot.
\<close>

definition orphaned :: "('d, 'e) bufferCache \<Rightarrow> nat \<Rightarrow> bool" where
  "orphaned bc i \<longleftrightarrow> i < length (bc_heap bc) \<and> \<not> s_ready (bc_heap bc ! i) \<and> i \<notin> snd ` set (bc_slots bc)"

lemma orphaned_invalidate_slot:
  "orphaned bc i \<Longrightarrow> j \<noteq> i \<Longrightarrow> orphaned (invalidate_slot k j bc) i"
  by (auto simp: orphaned_def invalidate_slot_def set_slot_def Let_def nth_update_if)

lemma orphaned_loop:
  "orphaned bc i \<Longrightarrow> i \<notin> snd ` set xs \<Longrightarrow> orphaned (fold (inv_body l) xs bc) i"
  by (induction xs arbitrary: bc) (auto simp: orphaned_invalidate_slot split: prod.split)

lemma orphaned_add:
  assumes "orphaned bc i"
  shows "orphaned (bc\<lparr>bc_heap := bc_heap bc @ [s], bc_lru := l,
                      bc_slots := AList.update k (length (bc_heap bc)) (bc_slots bc)\<rparr>) i"
  using assms set_update_subset[of k "length (bc_heap bc)" "bc_slots bc"]
  by (fastforce simp: orphaned_def nth_append)

lemma orphaned_add':
  "orphaned bc i \<Longrightarrow> orphaned (bc\<lparr>bc_heap := bc_heap bc @ [s],
                      bc_slots := AList.update k (length (bc_heap bc)) (bc_slots bc)\<rparr>) i"
  using orphaned_add[of bc i, where l = "bc_lru bc"] by simp

lemma orphaned_evict: "orphaned bc i \<Longrightarrow> orphaned (snd (evictLocked bc)) i"
  by (auto simp: orphaned_def evictLocked_def Let_def)

lemma orphaned_mapped: "orphaned bc i \<Longrightarrow> map_of (bc_slots bc) k = Some j \<Longrightarrow> j \<noteq> i"
  by (force simp: orphaned_def dest: map_of_SomeD)

lemma orphaned_Put: "orphaned bc i \<Longrightarrow> orphaned (bufferCache_Put k d bc) i"
  using orphaned_mapped[of bc i k] orphaned_add[OF orphaned_evict[of bc i]]
  by (auto simp: bufferCache_Put_def Let_def set_slot_def intro: orphaned_add split: option.split)
     (auto simp: orphaned_def nth_update_if)

lemma orphaned_Reserve: "orphaned bc i \<Longrightarrow> orphaned (snd (bufferCache_Reserve k bc)) i"
  using orphaned_add'[OF orphaned_evict[of bc i]] orphaned_evict[of bc i]
  by (auto simp: bufferCache_Reserve_def Let_def intro: orphaned_add' split: prod.split
      dest: arg_cong[of _ _ snd])

lemma orphaned_exec: "orphaned bc i \<Longrightarrow> orphaned (cache_exec x bc) i"
  using orphaned_mapped[of bc i]
  by (cases x)
    (auto simp: orphaned_Put orphaned_Reserve bufferCache_Invalidate_def
       intro!: orphaned_loop[of bc i "bc_slots bc", OF _ orphaned_def[THEN iffD1, THEN conjunct2, THEN conjunct2]],
     auto simp: orphaned_def image_iff bufferCache_Get_enter_def bufferCache_Get_resume_def
       bufferCache_PutError_def set_slot_def Let_def nth_update_if
       split: option.split slotState.split)

lemma orphaned_run: "orphaned bc i \<Longrightarrow> orphaned (cache_run xs bc) i"
  by (induction xs arbitrary: bc) (simp_all add: orphaned_exec)

section \<open>The interface the readers use\<close>

text \<open>
  What a reader relies on when it goes through a shared block cache: \<^verbatim>\<open>Get\<close> hands out only
  data that satisfies \<open>P\<close> for its key, and every operation keeps the cache that way.  The
  goroutines that run meanwhile are the functions \<open>env\<close>.
\<close>

locale block_cache =
  fixes cget :: "('s \<Rightarrow> 's) \<Rightarrow> cacheKey \<Rightarrow> 's \<Rightarrow> ('d option \<times> 'e option) \<times> 's"
    and creserve :: "cacheKey \<Rightarrow> 's \<Rightarrow> bool \<times> 's"
    and cput :: "cacheKey \<Rightarrow> 'd option \<Rightarrow> 's \<Rightarrow> 's"
    and cput_error :: "cacheKey \<Rightarrow> 'e option \<Rightarrow> 's \<Rightarrow> 's"
    and holds :: "(cacheKey \<Rightarrow> 'd \<Rightarrow> bool) \<Rightarrow> 's \<Rightarrow> bool"
  assumes get_holds: "holds P s \<Longrightarrow> (\<And>c. holds P c \<Longrightarrow> holds P (env c)) \<Longrightarrow>
            cget env k s = (r, s') \<Longrightarrow> holds P s'"
    and get_data: "holds P s \<Longrightarrow> (\<And>c. holds P c \<Longrightarrow> holds P (env c)) \<Longrightarrow>
            cget env k s = ((Some x, e), s') \<Longrightarrow> P k x"
    and reserve_holds: "holds P s \<Longrightarrow> creserve k s = (b, s') \<Longrightarrow> holds P s'"
    and put_holds: "holds P s \<Longrightarrow> P k x \<Longrightarrow> holds P (cput k (Some x) s)"
    and put_error_holds: "holds P s \<Longrightarrow> holds P (cput_error k err s)"

text \<open>
  The protocol both readers of the code follow (\<^verbatim>\<open>httpBlockStore.GetBlock\<close> for ciphertext,
  \<^verbatim>\<open>FileDescriptor.getDecryptedBlock\<close> for plaintext): \<^verbatim>\<open>Get\<close>; on a miss \<^verbatim>\<open>Reserve\<close>; the owner
  fetches and stores the block or the error, anyone else waits with a second \<^verbatim>\<open>Get\<close> and falls
  back to a fetch of its own.  \<open>env n\<close> is the interference at the n-th point where the cache
  mutex is free.
\<close>

definition cached_fetch ::
    "(('s \<Rightarrow> 's) \<Rightarrow> cacheKey \<Rightarrow> 's \<Rightarrow> ('d option \<times> 'e option) \<times> 's) \<Rightarrow> (cacheKey \<Rightarrow> 's \<Rightarrow> bool \<times> 's)
      \<Rightarrow> (cacheKey \<Rightarrow> 'd option \<Rightarrow> 's \<Rightarrow> 's) \<Rightarrow> (cacheKey \<Rightarrow> 'e option \<Rightarrow> 's \<Rightarrow> 's)
      \<Rightarrow> (nat \<Rightarrow> 's \<Rightarrow> 's) \<Rightarrow> ('s \<Rightarrow> ('e + 'd) \<times> 's) \<Rightarrow> cacheKey \<Rightarrow> 's \<Rightarrow> ('d option \<times> 'e option) \<times> 's" where
  "cached_fetch cget creserve cput cput_error env fetch k s0 =
     (let fall_through = (\<lambda>s. case fetch s of
            (Inl e, s') \<Rightarrow> ((None, Some e), s')
          | (Inr x, s') \<Rightarrow> ((Some x, None), s'));
          ((d, e), s1) = cget (env 0) k s0
      in if d \<noteq> None \<or> e \<noteq> None then ((d, e), s1)
         else case creserve k (env 1 s1) of
           (False, s2) \<Rightarrow>
             (let ((d, e), s3) = cget (env 2) k (env 3 s2)
              in if d \<noteq> None \<or> e \<noteq> None then ((d, e), s3) else fall_through (env 4 s3))
         | (True, s2) \<Rightarrow>
             (case fetch (env 5 s2) of
                (Inl e, s3) \<Rightarrow> ((None, Some e), cput_error k (Some e) (env 6 s3))
              | (Inr x, s3) \<Rightarrow> ((Some x, None), cput k (Some x) (env 6 s3))))"

context block_cache
begin

lemma cached_fetch_sound:
  assumes h: "holds P s" and env: "\<And>n c. holds P c \<Longrightarrow> holds P (env n c)"
    and fetch: "\<And>c r c'. holds P c \<Longrightarrow> fetch c = (r, c') \<Longrightarrow> holds P c'"
      "\<And>c x c'. holds P c \<Longrightarrow> fetch c = (Inr x, c') \<Longrightarrow> P k x"
    and run: "cached_fetch cget creserve cput cput_error env fetch k s = ((d, e), s')"
  shows "holds P s' \<and> (\<forall>x. d = Some x \<longrightarrow> P k x) \<and> (d \<noteq> None \<or> e \<noteq> None)"
proof -
  obtain d1 e1 s1 where g1: "cget (env 0) k s = ((d1, e1), s1)" by (metis surj_pair)
  have h1: "holds P s1" using get_holds[OF h _ g1] env by blast
  have p1: "P k x" if "d1 = Some x" for x using get_data[OF h _ g1[unfolded that]] env by blast
  obtain b s2 where r: "creserve k (env 1 s1) = (b, s2)" by force
  have h2: "holds P s2" using reserve_holds[OF env[OF h1] r] .
  obtain d3 e3 s3 where g3: "cget (env 2) k (env 3 s2) = ((d3, e3), s3)" by (metis surj_pair)
  have h3: "holds P s3" using get_holds[OF env[OF h2] _ g3] env by blast
  have p3: "P k x" if "d3 = Some x" for x using get_data[OF env[OF h2] _ g3[unfolded that]] env by blast
  obtain f4 s4 where f4: "fetch (env 4 s3) = (f4, s4)" by force
  obtain f5 s5 where f5: "fetch (env 5 s2) = (f5, s5)" by force
  note h4 = fetch(1)[OF env[OF h3] f4] and h5 = env[OF fetch(1)[OF env[OF h2] f5], of 6]
  have p4: "P k x" if "f4 = Inr x" for x using fetch(2)[OF env[OF h3] f4[unfolded that]] .
  have p5: "P k x" if "f5 = Inr x" for x using fetch(2)[OF env[OF h2] f5[unfolded that]] .
  show ?thesis
    using run h1 p1 h3 p3 h4 p4 h5 p5 put_holds[OF h5] put_error_holds[OF h5]
    by (auto simp: cached_fetch_def g1 r[unfolded One_nat_def] g3 f4 f5 Let_def split: if_splits bool.splits sum.splits)
qed

end

interpretation buf: block_cache bufferCache_Get bufferCache_Reserve bufferCache_Put bufferCache_PutError cache_holds
proof
  fix P :: "cacheKey \<Rightarrow> 'a \<Rightarrow> bool" and s s' :: "('a, 'b) bufferCache" and env k r
  assume a: "cache_holds P s" "\<And>c. cache_holds P c \<Longrightarrow> cache_holds P (env c)"
    "bufferCache_Get env k s = (r, s')"
  obtain d e where r: "r = (d, e)" by force
  show "cache_holds P s'" by (rule cache_holds_Get(1)[OF a[unfolded r]])
next
  fix P :: "cacheKey \<Rightarrow> 'a \<Rightarrow> bool" and s s' :: "('a, 'b) bufferCache" and env k x e
  assume a: "cache_holds P s" "\<And>c. cache_holds P c \<Longrightarrow> cache_holds P (env c)"
    "bufferCache_Get env k s = ((Some x, e), s')"
  show "P k x" by (rule cache_holds_Get(2)[OF a refl])
qed (auto intro!: cache_holds_Put cache_holds_PutError, metis cache_holds_Reserve snd_conv)

section \<open>Properties\<close>

text \<open>
  C4: no waiter of the block cache is lost.  If \<^verbatim>\<open>Get\<close> blocks on a slot in a reachable cache, then
  after any further steps of any goroutines the slot's channel is closed, or the slot is still the
  one mapped under the key, so that the owner's \<^verbatim>\<open>Put\<close> or \<^verbatim>\<open>PutError\<close> and every \<^verbatim>\<open>Invalidate\<close> of
  the link closes it.
\<close>

theorem waiter_not_lost:
  assumes "cache_reachable cap s" "bufferCache_Get_enter k s = (GetBlocked i, s')" "cache_step\<^sup>*\<^sup>* s t"
  shows "s_ready (bc_heap t ! i) \<or>
    (map_of (bc_slots t) k = Some i \<and> s_ready (bc_heap (bufferCache_Put k d t) ! i) \<and>
     s_ready (bc_heap (bufferCache_PutError k e t) ! i) \<and>
     s_ready (bc_heap (bufferCache_Invalidate (ck_linkID k) t) ! i))"
proof (rule disjCI)
  assume "\<not> (map_of (bc_slots t) k = Some i \<and> s_ready (bc_heap (bufferCache_Put k d t) ! i) \<and>
     s_ready (bc_heap (bufferCache_PutError k e t) ! i) \<and>
     s_ready (bc_heap (bufferCache_Invalidate (ck_linkID k) t) ! i))"
  moreover have inv: "cache_inv s" using assms(1) by (rule cache_reachable_inv)
  then have inv': "cache_inv t" using assms(3) by (blast intro: cache_steps_inv)
  have i: "i < length (bc_heap t)" "s_key (bc_heap t ! i) = k"
    using Get_enter_blocked[OF inv assms(2)] cache_steps_grow[OF assms(3)] by (auto simp: heap_grows_def)
  ultimately show "s_ready (bc_heap t ! i)"
    using cache_invD(8)[OF inv' i(1)] Put_wakes[OF inv'] PutError_wakes[OF inv']
      Invalidate_wakes[OF inv' i(1)] i(2) by blast
qed

text \<open>
  Every open or clean slot of a reachable block cache is accounted for: the LRU list holds
  exactly the clean slots of the map, each once, and a slot that is being fetched is mapped, is
  not in the LRU list and has an open channel, so an eviction never drops a fetch in progress.
\<close>

theorem eviction_spares_fetches:
  assumes "cache_reachable cap bc" "map_of (bc_slots bc) k = Some i"
    "s_state (bc_heap bc ! i) = slotFetching"
  shows "map_of (bc_slots (snd (evictLocked bc))) k = Some i \<and> i \<notin> set (bc_lru bc) \<and>
    \<not> s_ready (bc_heap bc ! i) \<and>
    (\<forall>k' j. map_of (bc_slots bc) k' = Some j \<longrightarrow>
       (j \<in> set (bc_lru bc) \<longleftrightarrow> s_state (bc_heap bc ! j) = slotClean))"
proof -
  have inv: "cache_inv bc" using assms(1) by (rule cache_reachable_inv)
  note I = cache_invD[OF inv]
  have shape: "j \<in> set (bc_lru bc) \<longleftrightarrow> s_state (bc_heap bc ! j) = slotClean"
    if "map_of (bc_slots bc) k' = Some j" for k' j
    using I(5)[OF that] by (auto split: slotState.splits)
  have "k \<noteq> s_key (bc_heap bc ! last (bc_lru bc))" if "bc_lru bc \<noteq> []"
    using I(7)[of "last (bc_lru bc)"] shape[of k i] assms(2,3) that by auto
  then have "map_of (bc_slots (snd (evictLocked bc))) k = Some i"
    using assms(2) by (auto simp: evictLocked_def Let_def)
  with shape[of k i] shape I(5)[OF assms(2)] assms(2,3) show ?thesis by auto
qed

text \<open>Concrete caches for the witnesses: one slot, a block being fetched, a block stored.\<close>

definition key1 :: cacheKey where "key1 = \<lparr>ck_linkID = ''L1'', ck_index = 1\<rparr>"
definition key2 :: cacheKey where "key2 = \<lparr>ck_linkID = ''L2'', ck_index = 1\<rparr>"

definition reserved_cache :: "(bytes, string) bufferCache" where
  "reserved_cache = snd (bufferCache_Reserve key1 (newBufferCache 1))"

lemma reserved_reachable: "cache_reachable 1 reserved_cache"
  unfolding reserved_cache_def
  by (rule cache_reachable.step[OF cache_reachable.init cache_step.reserve])

lemmas cache_eval = reserved_cache_def key1_def key2_def newBufferCache_def bufferCache_Reserve_def
  bufferCache_Put_def bufferCache_PutError_def bufferCache_Invalidate_def invalidate_slot_def
  bufferCache_Get_enter_def bufferCache_Get_resume_def bufferCache_Get_def evictLocked_def
  set_slot_def moveToFront_def

theorem waiter_not_lost_witness:
  "bufferCache_Get_enter key1 reserved_cache = (GetBlocked 0, reserved_cache) \<and>
   (s_ready (bc_heap reserved_cache ! 0) \<or>
    (map_of (bc_slots reserved_cache) key1 = Some 0 \<and>
     s_ready (bc_heap (bufferCache_Put key1 None reserved_cache) ! 0) \<and>
     s_ready (bc_heap (bufferCache_PutError key1 None reserved_cache) ! 0) \<and>
     s_ready (bc_heap (bufferCache_Invalidate (ck_linkID key1) reserved_cache) ! 0)))"
proof -
  have g: "bufferCache_Get_enter key1 reserved_cache = (GetBlocked 0, reserved_cache)"
    by (simp add: cache_eval)
  with waiter_not_lost[OF reserved_reachable g rtranclp.rtrancl_refl] show ?thesis by blast
qed

theorem eviction_spares_fetches_witness:
  "map_of (bc_slots (snd (evictLocked reserved_cache))) key1 = Some 0 \<and>
   \<not> s_ready (bc_heap reserved_cache ! 0)"
proof -
  have "map_of (bc_slots reserved_cache) key1 = Some 0"
    "s_state (bc_heap reserved_cache ! 0) = slotFetching"
    by (simp_all add: cache_eval)
  from eviction_spares_fetches[OF reserved_reachable this] show ?thesis by blast
qed

text \<open>
  C10: the cache never mixes up blocks.  Whatever sequence of operations, disciplined or not, runs
  on a new cache, the data a \<^verbatim>\<open>Get\<close> for a key returns was stored by a \<^verbatim>\<open>Put\<close> for that same key,
  also when the \<^verbatim>\<open>Get\<close> blocked and any further operations ran before it resumed.
\<close>

theorem get_returns_put_data:
  assumes "bufferCache_Get (cache_run ys) k (cache_run xs (newBufferCache cap)) = ((Some x, e), bc')"
  shows "OpPut k (Some x) \<in> set (xs @ ys)"
proof -
  let ?P = "\<lambda>k d. OpPut k (Some d) \<in> set (xs @ ys)"
  have "cache_holds ?P (cache_run xs (newBufferCache cap))"
    by (rule cache_holds_run) (auto simp: cache_holds_new)
  moreover have "cache_holds ?P (cache_run ys c)" if "cache_holds ?P c" for c
    using that by (rule cache_holds_run) simp
  ultimately show ?thesis using assms by (rule buf.get_data)
qed

theorem get_returns_put_data_witness:
  "OpPut key1 (Some [7]) \<in> set ([OpReserve key1] @ [OpPut key1 (Some [7 :: byte]) :: (bytes, string) cacheOp])"
proof -
  have "bufferCache_Get (cache_run [OpPut key1 (Some [7 :: byte])]) key1
          (cache_run [OpReserve key1] (newBufferCache 1)) =
        ((Some [7], None :: string option),
         snd (bufferCache_Get (cache_run [OpPut key1 (Some [7])]) key1
          (cache_run [OpReserve key1] (newBufferCache 1))))"
    by (simp add: cache_eval)
  then show ?thesis by (rule get_returns_put_data)
qed

text \<open>
  a stored block is served.  Right after \<^verbatim>\<open>Put\<close>, \<^verbatim>\<open>Get\<close> returns exactly the stored data
  without blocking and a second \<^verbatim>\<open>Reserve\<close> is refused; after \<^verbatim>\<open>PutError\<close> or \<^verbatim>\<open>Invalidate\<close> the
  block is a miss again; and a granted \<^verbatim>\<open>Reserve\<close> makes every other one wait.
\<close>

theorem put_then_get:
  assumes "cache_reachable cap bc"
  shows "fst (bufferCache_Get env k (bufferCache_Put k d bc)) = (d, None) \<and>
    \<not> fst (bufferCache_Reserve k (bufferCache_Put k d bc)) \<and>
    fst (bufferCache_Get env k (bufferCache_PutError k e bc)) = (None, None) \<and>
    fst (bufferCache_Get env k (bufferCache_Invalidate (ck_linkID k) bc)) = (None, None) \<and>
    (fst (bufferCache_Reserve k bc) \<longrightarrow>
       \<not> fst (bufferCache_Reserve k (snd (bufferCache_Reserve k bc))) \<and>
       (\<exists>i. fst (bufferCache_Get_enter k (snd (bufferCache_Reserve k bc))) = GetBlocked i))"
proof (intro conjI impI)
  have inv: "cache_inv bc" using assms by (rule cache_reachable_inv)
  obtain i where i: "map_of (bc_slots (bufferCache_Put k d bc)) k = Some i"
    "bc_heap (bufferCache_Put k d bc) ! i =
      \<lparr>s_key = k, s_data = d, s_ready = True, s_err = None, s_elem = True, s_state = slotClean\<rparr>"
    using Put_lookup[OF inv] by blast
  show "fst (bufferCache_Get env k (bufferCache_Put k d bc)) = (d, None)"
    using Get_clean[OF i(1)] i(2) by simp
  show "\<not> fst (bufferCache_Reserve k (bufferCache_Put k d bc))"
    using i(1) by (simp add: bufferCache_Reserve_def)
  have "map_of (bc_slots (bufferCache_PutError k e bc)) k = None"
    by (simp add: bufferCache_PutError_def Let_def split: option.split)
  from Get_miss[OF this] show "fst (bufferCache_Get env k (bufferCache_PutError k e bc)) = (None, None)"
    by simp
  have "map_of (bc_slots (bufferCache_Invalidate (ck_linkID k) bc)) k = None"
    by (simp add: Invalidate_slots[OF inv])
  from Get_miss[OF this] show "fst (bufferCache_Get env k (bufferCache_Invalidate (ck_linkID k) bc)) = (None, None)"
    by simp
  assume "fst (bufferCache_Reserve k bc)"
  then show "\<not> fst (bufferCache_Reserve k (snd (bufferCache_Reserve k bc)))"
    "\<exists>i. fst (bufferCache_Get_enter k (snd (bufferCache_Reserve k bc))) = GetBlocked i"
    by (auto simp: bufferCache_Reserve_def bufferCache_Get_enter_def Let_def nth_append
        split: if_splits prod.splits)
qed

theorem put_then_get_witness:
  "fst (bufferCache_Get id key1 (bufferCache_Put key1 (Some [7]) reserved_cache)) = (Some [7], None)"
  using put_then_get[OF reserved_reachable, of id key1 "Some [7]"] by blast

text \<open>
  the size of the block cache.  \<^verbatim>\<open>Reserve\<close> never takes a reachable cache beyond its capacity;
  a \<^verbatim>\<open>Put\<close> on a cache within its capacity goes beyond it exactly when the key is unmapped (its
  reservation was invalidated), the cache is full and every slot is being fetched.
\<close>

theorem capacity_exceeded_iff:
  assumes "cache_reachable cap bc" "int (length (bc_slots bc)) \<le> bc_cap bc"
  shows "int (length (bc_slots (snd (bufferCache_Reserve k bc)))) \<le> bc_cap bc \<and>
    (bc_cap bc < int (length (bc_slots (bufferCache_Put k d bc))) \<longleftrightarrow>
       map_of (bc_slots bc) k = None \<and> int (length (bc_slots bc)) = bc_cap bc \<and>
       (\<forall>k' i. map_of (bc_slots bc) k' = Some i \<longrightarrow> s_state (bc_heap bc ! i) = slotFetching))"
proof -
  have inv: "cache_inv bc" using assms(1) by (rule cache_reachable_inv)
  have new: "length (AList.update k i m) = Suc (length m)" if "map_of m k = None" for i and m :: "(cacheKey, nat) gomap"
    using that by (simp add: update_fresh)
  have shape: "s_state (bc_heap bc ! i) = slotFetching \<longleftrightarrow> s_state (bc_heap bc ! i) \<noteq> slotClean"
    if "map_of (bc_slots bc) k' = Some i" for k' i
    using cache_invD(5)[OF inv that] by (auto split: slotState.splits)
  have ev: "fst (evictLocked bc) \<longleftrightarrow>
      \<not> (\<forall>k' i. map_of (bc_slots bc) k' = Some i \<longrightarrow> s_state (bc_heap bc ! i) = slotFetching)"
    unfolding evict_succeeds_iff[OF inv] using shape by blast
  have stuck: "\<not> fst (evictLocked bc) \<Longrightarrow> snd (evictLocked bc) = bc"
    by (simp add: evictLocked_def split: if_splits)
  have r: "int (length (bc_slots (snd (bufferCache_Reserve k bc)))) \<le> bc_cap bc"
    using assms(2) evict_length[OF inv] stuck evict_absent[of bc k]
    by (cases "map_of (bc_slots bc) k"; cases "evictLocked bc")
       (auto simp: bufferCache_Reserve_def Let_def new)
  show ?thesis
  proof (cases "map_of (bc_slots bc) k")
    case (Some i)
    with r assms(2) show ?thesis by (simp add: bufferCache_Put_def set_slot_def Let_def)
  next
    case None
    note ab = evict_absent[OF None]
    show ?thesis
      using r assms(2) None ab evict_length[OF inv] stuck ev
      by (cases "fst (evictLocked bc)") (auto simp: bufferCache_Put_def Let_def new)
  qed
qed

theorem capacity_exceeded_iff_witness:
  "bc_cap reserved_cache < int (length (bc_slots (bufferCache_Put key2 None reserved_cache)))"
proof -
  have c: "int (length (bc_slots reserved_cache)) \<le> bc_cap reserved_cache"
    by (simp add: cache_eval)
  have "map_of (bc_slots reserved_cache) key2 = None" "int (length (bc_slots reserved_cache)) = bc_cap reserved_cache"
    "\<forall>k' i. map_of (bc_slots reserved_cache) k' = Some i \<longrightarrow> s_state (bc_heap reserved_cache ! i) = slotFetching"
    by (simp_all add: cache_eval)
  with capacity_exceeded_iff[OF reserved_reachable c, of key2 None] show ?thesis by blast
qed

text \<open>
  least recently used first.  After a \<^verbatim>\<open>Get\<close> hit on a clean block, an eviction takes another
  block as long as there is another clean one: the block just read stays in the cache.
\<close>

theorem recent_block_survives:
  assumes "cache_reachable cap bc" "map_of (bc_slots bc) k = Some i" "s_state (bc_heap bc ! i) = slotClean"
    "map_of (bc_slots bc) k' = Some j" "s_state (bc_heap bc ! j) = slotClean" "k' \<noteq> k"
  shows "map_of (bc_slots (snd (evictLocked (snd (bufferCache_Get env k bc))))) k = Some i"
proof -
  have inv: "cache_inv bc" using assms(1) by (rule cache_reachable_inv)
  note I = cache_invD[OF inv]
  have in_lru: "i \<in> set (bc_lru bc)" "j \<in> set (bc_lru bc)" "i \<noteq> j"
    using I(4,5)[OF assms(2)] I(4,5)[OF assms(4)] assms(3,5,6) by auto
  let ?l = "remove1 i (bc_lru bc)"
  have l: "j \<in> set ?l" "set ?l = set (bc_lru bc) - {i}" using in_lru I(2) by auto
  then have "last ?l \<in> set (bc_lru bc)" "last ?l \<noteq> i"
    by (metis DiffD1 DiffD2 empty_iff empty_set last_in_set singletonI)+
  then have "s_key (bc_heap bc ! last ?l) \<noteq> k"
    using I(7)[of "last ?l"] assms(2) by auto
  then show ?thesis
    using l(1) in_lru(1) assms(2)
    by (auto simp: Get_clean[OF assms(2,3)] evictLocked_def Let_def moveToFront_def)
qed

definition two_clean :: "(bytes, string) bufferCache" where
  "two_clean = bufferCache_Put key2 (Some [2]) (bufferCache_Put key1 (Some [1]) (newBufferCache 2))"

theorem recent_block_survives_witness:
  "map_of (bc_slots (snd (evictLocked (snd (bufferCache_Get id key1 two_clean))))) key1 = Some 0"
proof -
  have r: "cache_reachable 2 two_clean"
    unfolding two_clean_def
    by (rule cache_reachable.step[OF cache_reachable.step[OF cache_reachable.init cache_step.put] cache_step.put])
  have "map_of (bc_slots two_clean) key1 = Some 0" "s_state (bc_heap two_clean ! 0) = slotClean"
    "map_of (bc_slots two_clean) key2 = Some 1" "s_state (bc_heap two_clean ! 1) = slotClean" "key2 \<noteq> key1"
    by (simp_all add: two_clean_def cache_eval)
  from recent_block_survives[OF r this] show ?thesis .
qed

text \<open>
  The run: A reserves a block; the link is invalidated (a writer opened a new revision); B reserves
  the block again; A's fetch ends, its \<^verbatim>\<open>Put\<close> fills B's slot; B's fetch fails, its \<^verbatim>\<open>PutError\<close>
  unmaps the slot but leaves its LRU element; C reserves the block; D's \<^verbatim>\<open>Get\<close> blocks on C's
  slot; E reserves another block, the cache is full, and the eviction of the stale element
  deletes C's slot from the map.
\<close>

definition orphan_trace :: "(bytes, string) cacheOp list" where
  "orphan_trace = [OpReserve key1, OpInvalidate ''L1'', OpReserve key1, OpPut key1 (Some [1]),
     OpPutError key1 (Some ''fetch failed''), OpReserve key1, OpGetEnter key1, OpReserve key2]"

text \<open>
  A lost waiter.  When an \<^verbatim>\<open>Invalidate\<close> falls between a reservation and its completion, the
  block cache can reach a state in which a goroutine blocked in \<^verbatim>\<open>Get\<close> is never woken, whatever
  happens next: \<^verbatim>\<open>PutError\<close> on a slot that another owner has already filled leaves a stale LRU
  element, whose eviction deletes a later reservation of the same key.
\<close>

theorem lost_waiter:
  "fst (bufferCache_Get_enter key1 (cache_run (take 6 orphan_trace) (newBufferCache 1))) = GetBlocked 2 \<and>
   (\<forall>ops. \<not> s_ready (bc_heap (cache_run ops (cache_run orphan_trace (newBufferCache 1))) ! 2))"
proof
  show "fst (bufferCache_Get_enter key1 (cache_run (take 6 orphan_trace) (newBufferCache 1))) = GetBlocked 2"
    by (simp add: orphan_trace_def cache_eval)
  have "orphaned (cache_run orphan_trace (newBufferCache 1)) 2"
    by (simp add: orphan_trace_def cache_eval orphaned_def)
  then show "\<forall>ops. \<not> s_ready (bc_heap (cache_run ops (cache_run orphan_trace (newBufferCache 1))) ! 2)"
    using orphaned_run unfolding orphaned_def by blast
qed

end
