(* ===== verification/ObjectCache.thy ===== *)
theory ObjectCache
  imports GoPrelude
begin

text \<open>
  The nil-safe on-disk key/value store of \<^verbatim>\<open>api/objectcache.go\<close>.  It wraps the \<^verbatim>\<open>diskv\<close> package,
  which is not part of the repository: \<open>diskv\<close> is a record of the operations the code calls, over
  a state type \<open>'dv\<close> of their own, and a parameter of everything that uses it.  A nil receiver is
  \<open>None\<close>.
\<close>

section \<open>The wrapped store\<close>

text \<open>\<open>dvRead\<close> is \<open>None\<close> for any read error; \<open>dvWrite\<close> and \<open>dvErase\<close> return \<open>True\<close> for a nil
  error; \<open>dvKeys\<close> is the sequence the key channel yields.\<close>

record 'dv diskv =
  dvRead :: "'dv \<Rightarrow> string \<Rightarrow> bytes option"
  dvWrite :: "'dv \<Rightarrow> string \<Rightarrow> bytes \<Rightarrow> bool \<times> 'dv"
  dvErase :: "'dv \<Rightarrow> string \<Rightarrow> bool \<times> 'dv"
  dvEraseAll :: "'dv \<Rightarrow> bool \<times> 'dv"
  dvHas :: "'dv \<Rightarrow> string \<Rightarrow> bool"
  dvKeys :: "'dv \<Rightarrow> string list"

section \<open>Operations\<close>

text \<open>A key of two or more characters lives in the subdirectory named by its first two.\<close>

definition prefixTransform :: "string \<Rightarrow> string list" where
  "prefixTransform key = (if length key < 2 then [] else [take 2 key])"

definition objectCache_Read :: "'dv diskv \<Rightarrow> 'dv option \<Rightarrow> string \<Rightarrow> bytes option" where
  "objectCache_Read D c key =
     (case c of None \<Rightarrow> None
      | Some dv \<Rightarrow> (case dvRead D dv key of None \<Rightarrow> None | Some data \<Rightarrow> Some data))"

definition objectCache_Write :: "'dv diskv \<Rightarrow> 'dv option \<Rightarrow> string \<Rightarrow> bytes \<Rightarrow> bool \<times> 'dv option" where
  "objectCache_Write D c key data =
     (case c of None \<Rightarrow> (True, None) | Some dv \<Rightarrow> apsnd Some (dvWrite D dv key data))"

definition objectCache_Erase :: "'dv diskv \<Rightarrow> 'dv option \<Rightarrow> string \<Rightarrow> bool \<times> 'dv option" where
  "objectCache_Erase D c key =
     (case c of None \<Rightarrow> (True, None) | Some dv \<Rightarrow> apsnd Some (dvErase D dv key))"

definition objectCache_EraseAll :: "'dv diskv \<Rightarrow> 'dv option \<Rightarrow> bool \<times> 'dv option" where
  "objectCache_EraseAll D c =
     (case c of None \<Rightarrow> (True, None) | Some dv \<Rightarrow> apsnd Some (dvEraseAll D dv))"

definition objectCache_Has :: "'dv diskv \<Rightarrow> 'dv option \<Rightarrow> string \<Rightarrow> bool" where
  "objectCache_Has D c key = (case c of None \<Rightarrow> False | Some dv \<Rightarrow> dvHas D dv key)"

definition objectCache_Keys :: "'dv diskv \<Rightarrow> 'dv option \<Rightarrow> string list" where
  "objectCache_Keys D c = (case c of None \<Rightarrow> [] | Some dv \<Rightarrow> dvKeys D dv)"

section \<open>What the code relies on\<close>

text \<open>
  The documented behaviour of the store that the callers rely on: a read returns what was last
  written under the key; a failed write or erase may leave the old value, the new one, or none;
  other keys are unaffected.
\<close>

definition diskv_laws :: "'dv diskv \<Rightarrow> bool" where
  "diskv_laws D \<longleftrightarrow>
     (\<forall>dv k x. fst (dvWrite D dv k x) \<longrightarrow> dvRead D (snd (dvWrite D dv k x)) k = Some x) \<and>
     (\<forall>dv k x. dvRead D (snd (dvWrite D dv k x)) k \<in> {None, dvRead D dv k, Some x}) \<and>
     (\<forall>dv k k' x. k' \<noteq> k \<longrightarrow> dvRead D (snd (dvWrite D dv k x)) k' = dvRead D dv k') \<and>
     (\<forall>dv k. fst (dvErase D dv k) \<longrightarrow> dvRead D (snd (dvErase D dv k)) k = None) \<and>
     (\<forall>dv k. dvRead D (snd (dvErase D dv k)) k \<in> {None, dvRead D dv k}) \<and>
     (\<forall>dv k k'. k' \<noteq> k \<longrightarrow> dvRead D (snd (dvErase D dv k)) k' = dvRead D dv k')"

text \<open>A store that satisfies the laws: an association list that never fails.\<close>

definition mem_diskv :: "(string, bytes) gomap diskv" where
  "mem_diskv = \<lparr>dvRead = map_of, dvWrite = (\<lambda>m k x. (True, AList.update k x m)),
     dvErase = (\<lambda>m k. (True, AList.delete k m)), dvEraseAll = (\<lambda>m. (True, [])),
     dvHas = (\<lambda>m k. map_of m k \<noteq> None), dvKeys = map fst\<rparr>"

lemma mem_diskv_laws: "diskv_laws mem_diskv"
  by (simp add: diskv_laws_def mem_diskv_def)

definition disk_holds :: "'dv diskv \<Rightarrow> (string \<Rightarrow> bytes \<Rightarrow> bool) \<Rightarrow> 'dv option \<Rightarrow> bool" where
  "disk_holds D Q c \<longleftrightarrow> (\<forall>key x. objectCache_Read D c key = Some x \<longrightarrow> Q key x)"

lemma objectCache_Read_nil [simp]: "objectCache_Read D None key = None"
  by (simp add: objectCache_Read_def)

lemma objectCache_Read_Some [simp]: "objectCache_Read D (Some dv) key = dvRead D dv key"
  by (simp add: objectCache_Read_def split: option.split)

lemma disk_holds_nil [simp]: "disk_holds D Q None"
  by (simp add: disk_holds_def)

lemma disk_holds_Write [preserves]:
  assumes D: "diskv_laws D" and h: "disk_holds D Q c" and q: "Q key x"
  shows "disk_holds D Q (snd (objectCache_Write D c key x))"
proof (cases c)
  case (Some dv)
  have "dvRead D (snd (dvWrite D dv key x)) key \<in> {None, dvRead D dv key, Some x}"
    "k' \<noteq> key \<Longrightarrow> dvRead D (snd (dvWrite D dv key x)) k' = dvRead D dv k'" for k'
    using D unfolding diskv_laws_def by blast+
  then have r: "dvRead D (snd (dvWrite D dv key x)) k = Some y \<Longrightarrow> dvRead D dv k = Some y \<or> k = key \<and> y = x" for k y
    by (cases "k = key") auto
  show ?thesis
    using h q r by (simp add: disk_holds_def objectCache_Write_def Some) blast
qed (simp add: objectCache_Write_def)

lemma disk_holds_Erase [preserves]:
  assumes D: "diskv_laws D" and h: "disk_holds D Q c"
  shows "disk_holds D Q (snd (objectCache_Erase D c key))"
proof (cases c)
  case (Some dv)
  have "dvRead D (snd (dvErase D dv key)) key \<in> {None, dvRead D dv key}"
    "k' \<noteq> key \<Longrightarrow> dvRead D (snd (dvErase D dv key)) k' = dvRead D dv k'" for k'
    using D unfolding diskv_laws_def by blast+
  then have r: "dvRead D (snd (dvErase D dv key)) k = Some y \<Longrightarrow> dvRead D dv k = Some y" for k y
    by (cases "k = key") auto
  show ?thesis
    using h r by (auto simp: disk_holds_def objectCache_Erase_def Some)
qed (simp add: objectCache_Erase_def)

end
