(* ===== verification/Strconv.thy ===== *)
theory Strconv
  imports GoPrelude
begin

text \<open>
  The parts of Go's \<^verbatim>\<open>strconv\<close>, \<^verbatim>\<open>fmt\<close> and \<^verbatim>\<open>strings\<close> the components use: decimal printing and
  parsing of 64-bit integers with the range check, prefix tests, trimming and splitting.
\<close>

section \<open>Decimal integers\<close>

definition digit_char :: "nat \<Rightarrow> char" where
  "digit_char d = char_of (48 + d)"

definition digit_val :: "char \<Rightarrow> nat option" where
  "digit_val c = (let n = of_char c :: nat in if 48 \<le> n \<and> n \<le> 57 then Some (n - 48) else None)"

fun showNat :: "nat \<Rightarrow> string" where
  "showNat n = (if n < 10 then [digit_char n] else showNat (n div 10) @ [digit_char (n mod 10)])"

declare showNat.simps [simp del]

text \<open>\<^verbatim>\<open>strconv.Itoa\<close> and the verb \<^verbatim>\<open>%d\<close>.\<close>

definition itoa :: "int \<Rightarrow> string" where
  "itoa i = (if i < 0 then CHR ''-'' # showNat (nat (- i)) else showNat (nat i))"

fun parse_digits :: "nat \<Rightarrow> string \<Rightarrow> nat option" where
  "parse_digits acc [] = Some acc"
| "parse_digits acc (c # cs) =
     (case digit_val c of None \<Rightarrow> None | Some d \<Rightarrow> parse_digits (acc * 10 + d) cs)"

definition parse_nat :: "string \<Rightarrow> nat option" where
  "parse_nat s = (if s = [] then None else parse_digits 0 s)"

text \<open>\<^verbatim>\<open>strconv.Atoi\<close> and \<^verbatim>\<open>strconv.ParseInt(s, 10, 64)\<close>: an optional sign, at least one digit,
  digits only, and the value in range; \<open>None\<close> is any error.\<close>

definition atoi :: "string \<Rightarrow> int option" where
  "atoi s =
     (case s of
        [] \<Rightarrow> None
      | c # t \<Rightarrow>
          if c = CHR ''-'' then
            (case parse_nat t of None \<Rightarrow> None
             | Some n \<Rightarrow> if int n \<le> 2 ^ 63 then Some (- int n) else None)
          else
            (case parse_nat (if c = CHR ''+'' then t else s) of None \<Rightarrow> None
             | Some n \<Rightarrow> if int n \<le> maxInt64 then Some (int n) else None))"

lemma digit_val_char [simp]: "d < 10 \<Longrightarrow> digit_val (digit_char d) = Some d"
  by (simp add: digit_val_def digit_char_def Let_def)

lemma digit_val_range: "digit_val c = Some d \<Longrightarrow> c \<noteq> CHR ''-'' \<and> c \<noteq> CHR ''+'' \<and> c \<noteq> CHR ''.'' \<and> c \<noteq> CHR '':''"
  by (auto simp: digit_val_def Let_def split: if_splits)

lemma parse_digits_snoc:
  "parse_digits a (xs @ [c]) =
     (case parse_digits a xs of None \<Rightarrow> None
      | Some b \<Rightarrow> (case digit_val c of None \<Rightarrow> None | Some d \<Rightarrow> Some (b * 10 + d)))"
  by (induction xs arbitrary: a) (auto split: option.split)

lemma showNat_nonempty [simp]: "showNat n \<noteq> []"
  by (subst showNat.simps) simp

lemma parse_showNat [simp]: "parse_digits 0 (showNat n) = Some n"
proof (induction n rule: showNat.induct)
  case (1 n)
  then show ?case
    by (cases "n < 10") (simp_all add: showNat.simps[of n] parse_digits_snoc)
qed

lemma showNat_digits: "c \<in> set (showNat n) \<Longrightarrow> \<exists>d < 10. c = digit_char d"
proof (induction n rule: showNat.induct)
  case (1 n)
  show ?case
  proof (cases "n < 10")
    case True
    with "1.prems" show ?thesis by (auto simp: showNat.simps[of n])
  next
    case False
    with "1.prems" have "c \<in> set (showNat (n div 10)) \<or> c = digit_char (n mod 10)"
      by (auto simp: showNat.simps[of n])
    with "1.IH"[OF False] show ?thesis by (metis mod_less_divisor zero_less_numeral)
  qed
qed

lemma showNat_inj: "showNat m = showNat n \<longleftrightarrow> m = n"
  by (metis option.inject parse_showNat)

lemma showNat_no:
  assumes "c \<in> {CHR ''-'', CHR ''+'', CHR ''.'', CHR '':'', CHR '' '', CHR '']''}"
  shows "c \<notin> set (showNat n)"
proof
  assume "c \<in> set (showNat n)"
  then obtain d where "d < 10" "c = digit_char d" using showNat_digits by blast
  then have "digit_val c = Some d" by simp
  with assms show False by (auto simp: digit_val_def Let_def)
qed

lemma hd_showNat: "\<exists>c t. showNat n = c # t \<and> c \<noteq> CHR ''-'' \<and> c \<noteq> CHR ''+''"
  by (metis list.exhaust list.set_intros(1) showNat_no showNat_nonempty insertCI)

lemma itoa_inj: "itoa i = itoa j \<longleftrightarrow> i = j"
proof
  assume "itoa i = itoa j"
  moreover have "showNat n \<noteq> CHR ''-'' # t" "CHR ''-'' # t \<noteq> showNat n" for n t
    by (metis hd_showNat list.inject)+
  ultimately show "i = j"
    by (cases "i < 0"; cases "j < 0") (simp_all add: itoa_def showNat_inj)
qed simp

lemma atoi_itoa:
  assumes "- (2 ^ 63) \<le> i" "i \<le> maxInt64"
  shows "atoi (itoa i) = Some i"
proof (cases "i < 0")
  case True
  with assms show ?thesis by (simp add: atoi_def itoa_def parse_nat_def)
next
  case False
  obtain c t where c: "showNat (nat i) = c # t" "c \<noteq> CHR ''-''" "c \<noteq> CHR ''+''"
    using hd_showNat by blast
  with parse_showNat[of "nat i"] have "parse_digits 0 (c # t) = Some (nat i)" by metis
  with c False assms show ?thesis by (simp add: atoi_def itoa_def parse_nat_def)
qed

lemma atoi_range: "atoi s = Some i \<Longrightarrow> - (2 ^ 63) \<le> i \<and> i \<le> maxInt64"
  by (auto simp: atoi_def maxInt64_def split: list.splits option.splits if_splits)

section \<open>Strings\<close>

text \<open>\<^verbatim>\<open>strings.HasPrefix\<close> is \<open>prefix\<close> with the arguments swapped; \<^verbatim>\<open>strings.TrimRight(s, "c")\<close>
  for a one-character cutset.\<close>

definition hasPrefix :: "string \<Rightarrow> string \<Rightarrow> bool" where
  "hasPrefix s p = (take (length p) s = p)"

definition trimRight :: "char \<Rightarrow> string \<Rightarrow> string" where
  "trimRight c s = rev (dropWhile (\<lambda>x. x = c) (rev s))"

text \<open>\<^verbatim>\<open>strings.IndexByte\<close>, with \<open>None\<close> for -1.\<close>

fun indexByte :: "char \<Rightarrow> string \<Rightarrow> nat option" where
  "indexByte c [] = None"
| "indexByte c (x # xs) = (if x = c then Some 0 else map_option Suc (indexByte c xs))"

text \<open>\<^verbatim>\<open>strings.TrimSpace\<close> on the ASCII white space.\<close>

definition isSpace :: "char \<Rightarrow> bool" where
  "isSpace c = (c \<in> {CHR '' '', CHR 0x09, CHR 0x0A, CHR 0x0B, CHR 0x0C, CHR 0x0D})"

definition trimSpace :: "string \<Rightarrow> string" where
  "trimSpace s = rev (dropWhile isSpace (rev (dropWhile isSpace s)))"

lemma hasPrefix_iff: "hasPrefix s p \<longleftrightarrow> (\<exists>r. s = p @ r)"
  by (metis append_eq_conv_conj hasPrefix_def)

lemma hasPrefix_empty [simp]: "hasPrefix s []"
  by (simp add: hasPrefix_def)

lemma hasPrefix_refl [simp]: "hasPrefix s s"
  by (simp add: hasPrefix_def)

lemma indexByte_Some:
  "indexByte c s = Some n \<Longrightarrow> n < length s \<and> s = take n s @ c # drop (Suc n) s \<and> c \<notin> set (take n s)"
  by (induction s arbitrary: n) (auto split: if_splits)

lemma indexByte_None: "indexByte c s = None \<longleftrightarrow> c \<notin> set s"
  by (induction s) auto

lemma indexByte_append: "c \<notin> set a \<Longrightarrow> indexByte c (a @ c # b) = Some (length a)"
  by (induction a) auto

end
