(* ===== verification/BlockStore.thy ===== *)
theory BlockStore
  imports BufferCache ObjectCache Strconv
begin

text \<open>
  The session's block store, \<^verbatim>\<open>api/drive/blockstore.go\<close>: buffer cache, then disk cache, then
  HTTP.  The HTTP client belongs to another package; it is the parameter \<open>http\<close>, a function of
  the network's state, the URL and the token, whose outcome is a request error, an error while
  reading the body, or the body.
\<close>

section \<open>State and errors\<close>

datatype driveErr =
    GetBlockErr string int string       \<comment> \<open>\<^verbatim>\<open>blockstore.GetBlock %s block %d: %w\<close>\<close>
  | GetBlockReadErr string int string   \<comment> \<open>\<^verbatim>\<open>blockstore.GetBlock %s block %d: read: %w\<close>\<close>
  | RequestUploadErr string
  | UploadBlockErr string int string
  | DecryptErr string
  | BlockOutOfRange int int             \<comment> \<open>\<^verbatim>\<open>block index %d out of range (have %d blocks)\<close>\<close>
  | FdReadErr int driveErr | FdReadAtErr int driveErr
  | EOF | ErrClosed | ErrInvalid | EBADF
  | EncryptErr int string | SignErr int string | ArmorErr int string
  | RequestBlockErr int driveErr | NoUploadLink int | UploadErr int driveErr
  | MissingBlock int | SignManifestErr string | ArmorManifestErr string | EncXAttrErr string
  | CommitErr string
  | SyncRevisionErr string | SyncVerificationErr string | SyncDecodeErr
  | Panic

type_synonym 'h httpClient = "'h \<Rightarrow> string \<Rightarrow> string \<Rightarrow> (string + (string + bytes)) \<times> 'h"
type_synonym blockCache = "(bytes, driveErr) bufferCache"

record ('dv, 'h) blockStore =
  bs_bufCache :: "blockCache option"
  bs_cache :: "'dv option"
  bs_net :: 'h

definition blockCacheKey :: "string \<Rightarrow> int \<Rightarrow> string" where
  "blockCacheKey linkID index = linkID @ ''.block.'' @ itoa index"

section \<open>Operations\<close>

definition fetchBlock ::
    "'dv diskv \<Rightarrow> 'h httpClient \<Rightarrow> string \<Rightarrow> int \<Rightarrow> string \<Rightarrow> string
      \<Rightarrow> ('dv, 'h) blockStore \<Rightarrow> (driveErr + bytes) \<times> ('dv, 'h) blockStore" where
  "fetchBlock D http linkID index bareURL token s =
     (let key = blockCacheKey linkID index
      in case objectCache_Read D (bs_cache s) key of
           Some data \<Rightarrow> (Inr data, s)
         | None \<Rightarrow>
             (case http (bs_net s) bareURL token of
                (Inl err, h) \<Rightarrow> (Inl (GetBlockErr linkID index err), s\<lparr>bs_net := h\<rparr>)
              | (Inr (Inl err), h) \<Rightarrow> (Inl (GetBlockReadErr linkID index err), s\<lparr>bs_net := h\<rparr>)
              | (Inr (Inr data), h) \<Rightarrow>
                  (Inr data, s\<lparr>bs_net := h, bs_cache := snd (objectCache_Write D (bs_cache s) key data)\<rparr>)))"

text \<open>The buffer cache of the store; the pointer may be nil.  While a \<^verbatim>\<open>Get\<close> is blocked, \<open>env\<close>
  is what the other goroutines do to the whole store.\<close>

definition store_Get ::
    "(('dv, 'h) blockStore \<Rightarrow> ('dv, 'h) blockStore) \<Rightarrow> cacheKey \<Rightarrow> ('dv, 'h) blockStore
      \<Rightarrow> (bytes option \<times> driveErr option) \<times> ('dv, 'h) blockStore" where
  "store_Get env k s =
     (case bs_bufCache s of
        None \<Rightarrow> ((None, None), s)
      | Some bc \<Rightarrow>
          (case bufferCache_Get_enter k bc of
             (GetDone d e, bc1) \<Rightarrow> ((d, e), s\<lparr>bs_bufCache := Some bc1\<rparr>)
           | (GetBlocked i, bc1) \<Rightarrow>
               let s2 = env (s\<lparr>bs_bufCache := Some bc1\<rparr>)
               in (case bs_bufCache s2 of
                     None \<Rightarrow> ((None, None), s2)
                   | Some bc2 \<Rightarrow> apsnd (\<lambda>bc3. s2\<lparr>bs_bufCache := Some bc3\<rparr>) (bufferCache_Get_resume k bc2))))"

definition store_Reserve :: "cacheKey \<Rightarrow> ('dv, 'h) blockStore \<Rightarrow> bool \<times> ('dv, 'h) blockStore" where
  "store_Reserve k s =
     (case bs_bufCache s of
        None \<Rightarrow> (False, s)
      | Some bc \<Rightarrow> apsnd (\<lambda>bc'. s\<lparr>bs_bufCache := Some bc'\<rparr>) (bufferCache_Reserve k bc))"

definition store_Put :: "cacheKey \<Rightarrow> bytes option \<Rightarrow> ('dv, 'h) blockStore \<Rightarrow> ('dv, 'h) blockStore" where
  "store_Put k d s = s\<lparr>bs_bufCache := map_option (bufferCache_Put k d) (bs_bufCache s)\<rparr>"

definition store_PutError :: "cacheKey \<Rightarrow> driveErr option \<Rightarrow> ('dv, 'h) blockStore \<Rightarrow> ('dv, 'h) blockStore" where
  "store_PutError k e s = s\<lparr>bs_bufCache := map_option (bufferCache_PutError k e) (bs_bufCache s)\<rparr>"

definition blockStore_GetBlock ::
    "'dv diskv \<Rightarrow> 'h httpClient \<Rightarrow> (nat \<Rightarrow> ('dv, 'h) blockStore \<Rightarrow> ('dv, 'h) blockStore)
      \<Rightarrow> string \<Rightarrow> int \<Rightarrow> string \<Rightarrow> string \<Rightarrow> ('dv, 'h) blockStore
      \<Rightarrow> (bytes option \<times> driveErr option) \<times> ('dv, 'h) blockStore" where
  "blockStore_GetBlock D http env linkID index bareURL token s =
     (let fetch = fetchBlock D http linkID index bareURL token
      in if bs_bufCache s \<noteq> None then
           cached_fetch store_Get store_Reserve store_Put store_PutError env fetch
             \<lparr>ck_linkID = linkID, ck_index = index\<rparr> s
         else (case fetch s of
                 (Inl e, s') \<Rightarrow> ((None, Some e), s')
               | (Inr x, s') \<Rightarrow> ((Some x, None), s')))"

text \<open>\<^verbatim>\<open>RequestUpload\<close> and the upload itself are calls of the HTTP client; \<open>request\<close> and \<open>upload\<close>
  are its outcomes.\<close>

definition blockStore_RequestUpload ::
    "('h \<Rightarrow> 'req \<Rightarrow> (string + (string \<times> string) list) \<times> 'h) \<Rightarrow> 'req \<Rightarrow> ('dv, 'h) blockStore
      \<Rightarrow> (driveErr + (string \<times> string) list) \<times> ('dv, 'h) blockStore" where
  "blockStore_RequestUpload request req s =
     (case request (bs_net s) req of
        (Inl err, h) \<Rightarrow> (Inl (RequestUploadErr err), s\<lparr>bs_net := h\<rparr>)
      | (Inr links, h) \<Rightarrow> (Inr links, s\<lparr>bs_net := h\<rparr>))"

definition blockStore_UploadBlock ::
    "'dv diskv \<Rightarrow> ('h \<Rightarrow> string \<Rightarrow> string \<Rightarrow> bytes \<Rightarrow> string option \<times> 'h) \<Rightarrow> string \<Rightarrow> int
      \<Rightarrow> string \<Rightarrow> string \<Rightarrow> bytes \<Rightarrow> ('dv, 'h) blockStore \<Rightarrow> driveErr option \<times> ('dv, 'h) blockStore" where
  "blockStore_UploadBlock D upload linkID index bareURL token data s =
     (case upload (bs_net s) bareURL token data of
        (Some err, h) \<Rightarrow> (Some (UploadBlockErr linkID index err), s\<lparr>bs_net := h\<rparr>)
      | (None, h) \<Rightarrow>
          (None, s\<lparr>bs_net := h,
                   bs_cache := snd (objectCache_Write D (bs_cache s) (blockCacheKey linkID index) data)\<rparr>))"

definition erase_blocks :: "'dv diskv \<Rightarrow> string \<Rightarrow> int list \<Rightarrow> 'dv option \<Rightarrow> 'dv option" where
  "erase_blocks D linkID is c = fold (\<lambda>i c. snd (objectCache_Erase D c (blockCacheKey linkID i))) is c"

definition blockStore_Invalidate :: "'dv diskv \<Rightarrow> string \<Rightarrow> int \<Rightarrow> ('dv, 'h) blockStore \<Rightarrow> ('dv, 'h) blockStore" where
  "blockStore_Invalidate D linkID blockCount s =
     (let s1 = s\<lparr>bs_bufCache := map_option (bufferCache_Invalidate linkID) (bs_bufCache s)\<rparr>
      in if bs_cache s1 \<noteq> None \<and> blockCount > 0
         then s1\<lparr>bs_cache := erase_blocks D linkID [1..blockCount] (bs_cache s1)\<rparr>
         else s1)"

section \<open>Cache keys\<close>

text \<open>The last dot of a block key separates the index, so two blocks never share a key, whatever
  the link identifiers contain.\<close>

lemma itoa_no_dot: "CHR ''.'' \<notin> set (itoa i)"
  by (auto simp: itoa_def showNat_no)

lemma last_sep_inj:
  assumes "a @ c # x = b @ c # y" "c \<notin> set x" "c \<notin> set y"
  shows "a = b \<and> x = y"
  using assms
proof (induction a arbitrary: b)
  case Nil then show ?case by (cases b) auto
next
  case (Cons z a) then show ?case by (cases b) auto
qed

lemma blockCacheKey_inj [simp]:
  "blockCacheKey l i = blockCacheKey l' i' \<longleftrightarrow> l = l' \<and> i = i'"
proof
  assume "blockCacheKey l i = blockCacheKey l' i'"
  then have "(l @ ''.block'') @ CHR ''.'' # itoa i = (l' @ ''.block'') @ CHR ''.'' # itoa i'"
    by (simp add: blockCacheKey_def)
  from last_sep_inj[OF this itoa_no_dot itoa_no_dot] show "l = l' \<and> i = i'"
    by (simp add: itoa_inj)
qed simp

section \<open>The store as a block cache\<close>

text \<open>
  \<open>store_holds D C P\<close>: the disk holds only ciphertext allowed by \<open>C\<close>, the buffer cache only data
  allowed by \<open>P\<close> (the same ciphertext in encrypted mode, plaintext in decrypted mode).
\<close>

definition block_ok :: "(cacheKey \<Rightarrow> bytes \<Rightarrow> bool) \<Rightarrow> string \<Rightarrow> bytes \<Rightarrow> bool" where
  "block_ok C key x \<longleftrightarrow> (\<forall>l i. key = blockCacheKey l i \<longrightarrow> C \<lparr>ck_linkID = l, ck_index = i\<rparr> x)"

definition store_holds ::
    "'dv diskv \<Rightarrow> (cacheKey \<Rightarrow> bytes \<Rightarrow> bool) \<Rightarrow> (cacheKey \<Rightarrow> bytes \<Rightarrow> bool) \<Rightarrow> ('dv, 'h) blockStore \<Rightarrow> bool" where
  "store_holds D C P s \<longleftrightarrow> (\<forall>bc. bs_bufCache s = Some bc \<longrightarrow> cache_holds P bc) \<and>
     disk_holds D (block_ok C) (bs_cache s)"

lemma store_holds_buf [simp]:
  "store_holds D C P (s\<lparr>bs_bufCache := b\<rparr>) \<longleftrightarrow>
     (\<forall>bc. b = Some bc \<longrightarrow> cache_holds P bc) \<and> disk_holds D (block_ok C) (bs_cache s)"
  by (simp add: store_holds_def)

lemma store_holds_net [simp]: "store_holds D C P (s\<lparr>bs_net := h\<rparr>) = store_holds D C P s"
  by (simp add: store_holds_def)

lemma store_Get_holds:
  assumes h: "store_holds D C P s" and env: "\<And>c. store_holds D C P c \<Longrightarrow> store_holds D C P (env c)"
    and g: "store_Get env k s = ((d, e), s')"
  shows "store_holds D C P s'" "d = Some x \<Longrightarrow> P k x"
proof -
  have res: "cache_holds P bc' \<and> (\<forall>x. d = Some x \<longrightarrow> P k x)"
    if "cache_holds P bc" "bufferCache_Get_resume k bc = ((d, e), bc')" for bc bc' d e
    using that cache_holds_Get_resume[OF that(1), of k] cache_holdsD(3)[OF that(1)]
    by (auto simp: bufferCache_Get_resume_def Let_def split: option.splits if_splits)
  have "store_holds D C P s' \<and> (\<forall>x. d = Some x \<longrightarrow> P k x)"
  proof (cases "bs_bufCache s")
    case None
    with g h show ?thesis by (simp add: store_Get_def)
  next
    case (Some bc)
    have hb: "cache_holds P bc" "disk_holds D (block_ok C) (bs_cache s)"
      using h Some by (auto simp: store_holds_def)
    obtain o1 bc1 where en: "bufferCache_Get_enter k bc = (o1, bc1)" by force
    then have h1: "cache_holds P bc1" using cache_holds_Get_enter[OF hb(1), of k] by simp
    show ?thesis
    proof (cases o1)
      case (GetDone d1 e1)
      then have "d1 = Some x \<Longrightarrow> P k x" for x
        using en cache_holdsD(3)[OF hb(1)]
        by (auto simp: bufferCache_Get_enter_def Let_def split: option.splits slotState.splits)
      with g GetDone h1 hb(2) show ?thesis by (auto simp: store_Get_def Some en)
    next
      case (GetBlocked i)
      define s2 where "s2 = env (s\<lparr>bs_bufCache := Some bc1\<rparr>)"
      have "store_holds D C P s2" unfolding s2_def using h1 hb(2) by (intro env) simp
      then have hs: "disk_holds D (block_ok C) (bs_cache s2)"
        "bs_bufCache s2 = Some bc2 \<Longrightarrow> cache_holds P bc2" for bc2
        by (auto simp: store_holds_def)
      show ?thesis
      proof (cases "bs_bufCache s2")
        case None
        with g GetBlocked \<open>store_holds D C P s2\<close> show ?thesis
          by (simp add: store_Get_def Some en Let_def s2_def[symmetric])
      next
        case (Some bc2)
        obtain d2 e2 bc3 where r: "bufferCache_Get_resume k bc2 = ((d2, e2), bc3)"
          by (metis surj_pair)
        from res[OF hs(2)[OF Some] r] hs(1) g GetBlocked show ?thesis
          by (auto simp: store_Get_def \<open>bs_bufCache s = Some bc\<close> en Let_def s2_def[symmetric] Some r)
      qed
    qed
  qed
  then show "store_holds D C P s'" "d = Some x \<Longrightarrow> P k x" by blast+
qed

interpretation store: block_cache store_Get store_Reserve store_Put store_PutError "store_holds D C" for D C
proof (standard, goal_cases)
  case (1 P s env k r s')
  then show ?case using store_Get_holds(1)[of D C P s env k "fst r" "snd r"] by simp
next
  case (2 P s env k x e s')
  then show ?case using store_Get_holds(2)[of D C P s env k "Some x" e] by simp
next
  case (3 P s k b s')
  then show ?case
    by (auto simp: store_Reserve_def store_holds_def apsnd_def map_prod_def
        dest: cache_holds_Reserve[of P _ k] split: option.splits prod.splits)
next
  case (4 P s k x)
  then show ?case by (auto simp: store_Put_def store_holds_def intro!: cache_holds_Put)
next
  case (5 P s k err)
  then show ?case by (auto simp: store_PutError_def store_holds_def intro!: cache_holds_PutError)
qed

section \<open>What the store returns\<close>

text \<open>The HTTP client is honest for a block: every body it returns satisfies \<open>C\<close>.\<close>

definition http_serves :: "'h httpClient \<Rightarrow> string \<Rightarrow> string \<Rightarrow> (bytes \<Rightarrow> bool) \<Rightarrow> bool" where
  "http_serves http url token Q \<longleftrightarrow> (\<forall>h data h'. http h url token = (Inr (Inr data), h') \<longrightarrow> Q data)"

lemma block_ok_key [simp]: "block_ok C (blockCacheKey l i) x \<longleftrightarrow> C \<lparr>ck_linkID = l, ck_index = i\<rparr> x"
  by (auto simp: block_ok_def)

lemma fetchBlock_holds:
  assumes D: "diskv_laws D" and h: "store_holds D C P s"
    and http: "http_serves http url token (C \<lparr>ck_linkID = linkID, ck_index = index\<rparr>)"
    and run: "fetchBlock D http linkID index url token s = (r, s')"
  shows "store_holds D C P s'" "r = Inr x \<Longrightarrow> C \<lparr>ck_linkID = linkID, ck_index = index\<rparr> x"
proof -
  have dh: "disk_holds D (block_ok C) (bs_cache s)" using h by (simp add: store_holds_def)
  then have rd: "objectCache_Read D (bs_cache s) (blockCacheKey linkID index) = Some y \<Longrightarrow>
      C \<lparr>ck_linkID = linkID, ck_index = index\<rparr> y" for y
    unfolding disk_holds_def using block_ok_key[of C linkID index y] by blast
  have ht: "http h url token = (Inr (Inr y), h') \<Longrightarrow> C \<lparr>ck_linkID = linkID, ck_index = index\<rparr> y" for h y h'
    using http by (simp add: http_serves_def) blast
  have wr: "C \<lparr>ck_linkID = linkID, ck_index = index\<rparr> y \<Longrightarrow>
      disk_holds D (block_ok C) (snd (objectCache_Write D (bs_cache s) (blockCacheKey linkID index) y))" for y
    by (rule disk_holds_Write[OF D dh]) simp
  have "store_holds D C P s' \<and> (\<forall>x. r = Inr x \<longrightarrow> C \<lparr>ck_linkID = linkID, ck_index = index\<rparr> x)"
    using run h rd wr[OF ht] ht
    by (auto simp: fetchBlock_def Let_def store_holds_def
        split: option.splits sum.splits prod.splits)
  then show "store_holds D C P s'" "r = Inr x \<Longrightarrow> C \<lparr>ck_linkID = linkID, ck_index = index\<rparr> x" by blast+
qed

lemma GetBlock_holds:
  assumes D: "diskv_laws D" and h: "store_holds D C C s"
    and env: "\<And>n c. store_holds D C C c \<Longrightarrow> store_holds D C C (env n c)"
    and http: "http_serves http url token (C \<lparr>ck_linkID = linkID, ck_index = index\<rparr>)"
    and run: "blockStore_GetBlock D http env linkID index url token s = ((d, e), s')"
  shows "store_holds D C C s' \<and> (\<forall>x. d = Some x \<longrightarrow> C \<lparr>ck_linkID = linkID, ck_index = index\<rparr> x) \<and>
    (d \<noteq> None \<or> e \<noteq> None)"
proof (cases "bs_bufCache s = None")
  case True
  obtain r s1 where f: "fetchBlock D http linkID index url token s = (r, s1)" by force
  from fetchBlock_holds[OF D h http f] run show ?thesis
    by (cases r) (auto simp: blockStore_GetBlock_def Let_def True f)
next
  case False
  then have run': "cached_fetch store_Get store_Reserve store_Put store_PutError env
      (fetchBlock D http linkID index url token) \<lparr>ck_linkID = linkID, ck_index = index\<rparr> s = ((d, e), s')"
    using run by (simp add: blockStore_GetBlock_def Let_def)
  have f: "store_holds D C C c'" "r = Inr x \<Longrightarrow> C \<lparr>ck_linkID = linkID, ck_index = index\<rparr> x"
    if "store_holds D C C c" "fetchBlock D http linkID index url token c = (r, c')" for c r c' x
    using fetchBlock_holds[OF D that(1) http that(2)] by blast+
  show ?thesis
    by (rule store.cached_fetch_sound[OF h _ _ _ run']) (use env f in blast)+
qed

section \<open>Properties\<close>


text \<open>A store for the witnesses: empty buffer cache and disk, a network that serves one body.\<close>

definition demo_http :: "nat httpClient" where
  "demo_http h url token = (if url = ''U'' \<and> token = ''T'' then Inr (Inr [1, 2, 3]) else Inl ''404'', Suc h)"

definition demo_store :: "((string, bytes) gomap, nat) blockStore" where
  "demo_store = \<lparr>bs_bufCache = Some (newBufferCache 64), bs_cache = Some [], bs_net = 0\<rparr>"

lemma demo_store_holds: "store_holds mem_diskv C P demo_store"
  by (simp add: demo_store_def store_holds_def cache_holds_new disk_holds_def mem_diskv_def)

lemma demo_http_serves: "http_serves demo_http ''U'' ''T'' (\<lambda>x. x = [1, 2, 3])"
  by (simp add: http_serves_def demo_http_def)

lemmas store_eval = demo_store_def demo_http_def mem_diskv_def blockStore_GetBlock_def cached_fetch_def
  store_Get_def store_Reserve_def store_Put_def store_PutError_def fetchBlock_def objectCache_Write_def
  blockStore_UploadBlock_def


text \<open>
  a fetched or uploaded block is not fetched again.  If the disk write succeeds, a second
  \<^verbatim>\<open>fetchBlock\<close> of the block returns the same bytes from disk without touching the network, whatever
  URL and token it is given; the same holds after a successful \<^verbatim>\<open>UploadBlock\<close>.
\<close>

theorem fetch_once:
  assumes "diskv_laws D" "bs_cache s = Some dv"
    "fst (dvWrite D dv (blockCacheKey linkID index) data)"
    "fetchBlock D http linkID index url token s = (Inr data, s1) \<or>
     blockStore_UploadBlock D upload linkID index url token data s = (None, s1)"
  shows "fetchBlock D http' linkID index url' token' s1 = (Inr data, s1)"
proof -
  let ?k = "blockCacheKey linkID index"
  have "dvRead D (snd (dvWrite D dv ?k data)) ?k = Some data"
    using assms(1,3) by (simp add: diskv_laws_def)
  then have "objectCache_Read D (bs_cache s1) ?k = Some data"
    using assms(2,4)
    by (auto simp: fetchBlock_def blockStore_UploadBlock_def objectCache_Write_def Let_def
        split: option.splits sum.splits prod.splits)
  then show ?thesis by (simp add: fetchBlock_def)
qed

theorem fetch_once_witness:
  "fetchBlock mem_diskv (\<lambda>h _ _. (Inl ''down'', h)) ''L'' 1 ''V'' ''X''
     (snd (fetchBlock mem_diskv demo_http ''L'' 1 ''U'' ''T'' demo_store)) =
   (Inr [1, 2, 3], snd (fetchBlock mem_diskv demo_http ''L'' 1 ''U'' ''T'' demo_store))"
proof -
  let ?f = "fetchBlock mem_diskv demo_http ''L'' 1 ''U'' ''T'' demo_store"
  have "?f = (Inr [1, 2, 3], snd ?f)" by (simp add: store_eval)
  then have "?f = (Inr [1, 2, 3], snd ?f) \<or>
    blockStore_UploadBlock mem_diskv (\<lambda>h _ _ _. (None, h)) ''L'' 1 ''U'' ''T'' [1, 2, 3] demo_store = (None, snd ?f)"
    by blast
  then show ?thesis
    by (rule fetch_once[OF mem_diskv_laws, rotated 2]) (simp_all add: demo_store_def mem_diskv_def)
qed

lemma erase_blocks_Cons [simp]:
  "erase_blocks D l (i # is) c = erase_blocks D l is (snd (objectCache_Erase D c (blockCacheKey l i)))"
  "erase_blocks D l [] c = c"
  by (simp_all add: erase_blocks_def)

lemma erase_blocks_read:
  assumes D: "diskv_laws D" and ok: "\<forall>dv k. fst (dvErase D dv k)"
  shows "objectCache_Read D (erase_blocks D l is c) key =
    (if key \<in> blockCacheKey l ` set is then None else objectCache_Read D c key)"
proof (induction "is" arbitrary: c)
  case (Cons i "is")
  have "objectCache_Read D (snd (objectCache_Erase D c (blockCacheKey l i))) key =
      (if key = blockCacheKey l i then None else objectCache_Read D c key)"
    using D ok by (cases c) (auto simp: objectCache_Erase_def diskv_laws_def)
  then show ?case using Cons.IH by auto
qed simp

text \<open>
  Invalidation is complete and exact.  After \<^verbatim>\<open>Invalidate(linkID, n)\<close> none of the link's blocks
  is in the buffer cache, none of its blocks 1 to n is on disk (when the erases succeed), and
  every block of every other link, and every block beyond n, is still there.
\<close>

theorem invalidate_exact:
  assumes "diskv_laws D" "\<forall>dv k. fst (dvErase D dv k)" "bs_bufCache s = Some bc" "cache_reachable cap bc"
  shows "map_of (bc_slots (the (bs_bufCache (blockStore_Invalidate D linkID n s)))) k =
      (if ck_linkID k = linkID then None else map_of (bc_slots bc) k) \<and>
    objectCache_Read D (bs_cache (blockStore_Invalidate D linkID n s)) (blockCacheKey l i) =
      (if l = linkID \<and> 1 \<le> i \<and> i \<le> n then None else objectCache_Read D (bs_cache s) (blockCacheKey l i))"
proof
  have inv: "cache_inv bc" using assms(4) by (rule cache_reachable_inv)
  show "map_of (bc_slots (the (bs_bufCache (blockStore_Invalidate D linkID n s)))) k =
      (if ck_linkID k = linkID then None else map_of (bc_slots bc) k)"
    using Invalidate_slots[OF inv, of linkID k]
    by (simp add: blockStore_Invalidate_def Let_def assms(3))
  show "objectCache_Read D (bs_cache (blockStore_Invalidate D linkID n s)) (blockCacheKey l i) =
      (if l = linkID \<and> 1 \<le> i \<and> i \<le> n then None else objectCache_Read D (bs_cache s) (blockCacheKey l i))"
    using erase_blocks_read[OF assms(1,2), of linkID "[1..n]" "bs_cache s" "blockCacheKey l i"]
    by (cases "bs_cache s") (auto simp: blockStore_Invalidate_def Let_def image_iff)
qed

theorem invalidate_exact_witness:
  "objectCache_Read mem_diskv (bs_cache (blockStore_Invalidate mem_diskv ''L'' 1
     (snd (fetchBlock mem_diskv demo_http ''L'' 1 ''U'' ''T'' demo_store)))) (blockCacheKey ''L'' 1) = None"
proof -
  let ?s = "snd (fetchBlock mem_diskv demo_http ''L'' 1 ''U'' ''T'' demo_store)"
  have "bs_bufCache ?s = Some (newBufferCache 64)" by (simp add: store_eval)
  moreover have "\<forall>dv k. fst (dvErase mem_diskv dv k)" by (simp add: mem_diskv_def)
  ultimately show ?thesis
    using invalidate_exact[OF mem_diskv_laws _ _ cache_reachable.init, where s = ?s and cap = 64
        and linkID = "''L''" and n = 1 and l = "''L''" and i = 1] by simp
qed

end
