(* ===== verification/RevisionXAttr.thy ===== *)
theory RevisionXAttr
  imports Strconv
begin

unbundle bit_operations_syntax

text \<open>
  Revision metadata: the POSIX section (\<^verbatim>\<open>api/drive/xattr_posix.go\<close>) and the blob a commit
  writes (\<^verbatim>\<open>buildRevisionXAttr\<close> in \<^verbatim>\<open>api/drive/upload_helpers.go\<close>).  The blob's type belongs to
  the API library: a common section and a map of raw JSON sections.
\<close>

section \<open>Data\<close>

record xattrCommon =
  xc_ModificationTime :: string
  xc_Size :: int
  xc_BlockSizes :: "int list"

record revisionXAttr =
  rx_Common :: xattrCommon
  rx_Extra :: "(string, string) gomap"

record PosixXAttr =
  px_Mode :: "32 word"
  px_Symlink :: bool

definition posixXAttrKey :: string where "posixXAttrKey = ''POSIX''"

section \<open>The POSIX section\<close>

text \<open>\<^verbatim>\<open>json.Marshal\<close> of the struct: both fields are \<^verbatim>\<open>omitempty\<close>.\<close>

definition posix_marshal :: "PosixXAttr \<Rightarrow> string" where
  "posix_marshal p = ''{'' @
     (if px_Mode p = 0 then [] else [CHR 0x22] @ ''Mode'' @ [CHR 0x22] @ '':'' @ itoa (uint (px_Mode p))) @
     (if px_Mode p \<noteq> 0 \<and> px_Symlink p then '','' else []) @
     (if px_Symlink p then [CHR 0x22] @ ''Symlink'' @ [CHR 0x22] @ '':true'' else []) @ ''}''"

text \<open>\<open>unmarshal\<close> is \<^verbatim>\<open>json.Unmarshal\<close> into the struct.\<close>

definition posixFromXAttr :: "(string \<Rightarrow> PosixXAttr option) \<Rightarrow> revisionXAttr option \<Rightarrow> PosixXAttr option" where
  "posixFromXAttr unmarshal x =
     (case x of
        None \<Rightarrow> None
      | Some x \<Rightarrow> (case map_of (rx_Extra x) posixXAttrKey of None \<Rightarrow> None | Some raw \<Rightarrow> unmarshal raw))"

definition setPosixXAttr :: "revisionXAttr \<Rightarrow> PosixXAttr \<Rightarrow> revisionXAttr" where
  "setPosixXAttr x pfs =
     (let raw = posix_marshal pfs
      in if raw = ''{}'' then x
         else x\<lparr>rx_Extra := AList.update posixXAttrKey raw (rx_Extra x)\<rparr>)"

section \<open>The blob of a new revision\<close>

definition buildRevisionXAttr ::
    "revisionXAttr option \<Rightarrow> string \<Rightarrow> int \<Rightarrow> int list \<Rightarrow> 32 word \<Rightarrow> bool \<Rightarrow> revisionXAttr" where
  "buildRevisionXAttr prior modTime sz blockSizes unixMode symlink =
     (let extra = (case prior of None \<Rightarrow> [] | Some p \<Rightarrow> rx_Extra p);
          x = \<lparr>rx_Common = \<lparr>xc_ModificationTime = modTime, xc_Size = sz, xc_BlockSizes = blockSizes\<rparr>,
               rx_Extra = extra\<rparr>
      in setPosixXAttr x \<lparr>px_Mode = unixMode AND 0xFFF, px_Symlink = symlink\<rparr>)"

lemma posix_marshal_empty: "posix_marshal p = ''{}'' \<longleftrightarrow> px_Mode p = 0 \<and> \<not> px_Symlink p"
  by (auto simp: posix_marshal_def)

lemma buildRevisionXAttr_Common [simp]:
  "rx_Common (buildRevisionXAttr prior mt sz bs m sl) =
     \<lparr>xc_ModificationTime = mt, xc_Size = sz, xc_BlockSizes = bs\<rparr>"
  by (simp add: buildRevisionXAttr_def setPosixXAttr_def Let_def)

lemma buildRevisionXAttr_Extra:
  "map_of (rx_Extra (buildRevisionXAttr prior mt sz bs m sl)) k =
     (if k = posixXAttrKey \<and> (m AND 0xFFF \<noteq> 0 \<or> sl)
      then Some (posix_marshal \<lparr>px_Mode = m AND 0xFFF, px_Symlink = sl\<rparr>)
      else case prior of None \<Rightarrow> None | Some p \<Rightarrow> map_of (rx_Extra p) k)"
  by (auto simp: buildRevisionXAttr_def setPosixXAttr_def Let_def posix_marshal_empty update_conv'
      split: option.splits)

text \<open>
  a commit is a non-destructive rewrite of the metadata.  Size, modification time and block
  sizes are the new revision's; every section of the previous revision other than POSIX is kept
  as it was; a mode or the symlink mark replaces the POSIX section, from which a reader then gets
  the low 12 bits of the mode and the mark; with neither, the POSIX section is inherited.
\<close>

theorem xattr_merge:
  assumes "unmarshal (posix_marshal \<lparr>px_Mode = m AND 0xFFF, px_Symlink = sl\<rparr>) =
    Some \<lparr>px_Mode = m AND 0xFFF, px_Symlink = sl\<rparr>"
  shows "rx_Common (buildRevisionXAttr prior mt sz bs m sl) =
      \<lparr>xc_ModificationTime = mt, xc_Size = sz, xc_BlockSizes = bs\<rparr> \<and>
    (\<forall>k. k \<noteq> posixXAttrKey \<longrightarrow>
      map_of (rx_Extra (buildRevisionXAttr prior mt sz bs m sl)) k =
      (case prior of None \<Rightarrow> None | Some p \<Rightarrow> map_of (rx_Extra p) k)) \<and>
    posixFromXAttr unmarshal (Some (buildRevisionXAttr prior mt sz bs m sl)) =
      (if m AND 0xFFF = 0 \<and> \<not> sl then posixFromXAttr unmarshal prior
       else Some \<lparr>px_Mode = m AND 0xFFF, px_Symlink = sl\<rparr>)"
  using assms by (auto simp: posixFromXAttr_def buildRevisionXAttr_Extra split: option.splits)

theorem xattr_merge_witness:
  "posixFromXAttr (\<lambda>s. Some \<lparr>px_Mode = 420, px_Symlink = False\<rparr>)
     (Some (buildRevisionXAttr
       (Some \<lparr>rx_Common = \<lparr>xc_ModificationTime = [], xc_Size = 1, xc_BlockSizes = [1]\<rparr>, rx_Extra = [(''Media'', ''{}'')]\<rparr>)
       [] 2 [2] 420 False)) = Some \<lparr>px_Mode = 420, px_Symlink = False\<rparr>"
  using xattr_merge[where unmarshal = "\<lambda>s. Some \<lparr>px_Mode = 420, px_Symlink = False\<rparr>" and m = 420 and sl = False]
  by simp

end
