(* ===== verification/Base64.thy ===== *)
theory Base64
  imports Strconv
begin

text \<open>
  The part of \<^verbatim>\<open>encoding/base64\<close>'s \<^verbatim>\<open>StdEncoding\<close> the source uses: \<^verbatim>\<open>EncodeToString\<close> and
  \<^verbatim>\<open>DecodeString\<close> (padding required, line breaks ignored, trailing bits not checked), with their
  round trip.
\<close>

definition b64_alphabet :: string where
  "b64_alphabet = ''ABCDEFGHIJKLMNOPQRSTUVWXYZabcdefghijklmnopqrstuvwxyz0123456789+/''"

definition b64_char :: "nat \<Rightarrow> char" where "b64_char n = b64_alphabet ! n"

definition b64_val :: "char \<Rightarrow> nat option" where
  "b64_val c = map_of (zip b64_alphabet [0..<64]) c"

fun b64_encode :: "bytes \<Rightarrow> string" where
  "b64_encode [] = []"
| "b64_encode [a] =
     [b64_char (unat a div 4), b64_char ((unat a mod 4) * 16), CHR ''='', CHR ''='']"
| "b64_encode [a, b] =
     [b64_char (unat a div 4), b64_char ((unat a mod 4) * 16 + unat b div 16),
      b64_char ((unat b mod 16) * 4), CHR ''='']"
| "b64_encode (a # b # c # rest) =
     b64_char (unat a div 4) # b64_char ((unat a mod 4) * 16 + unat b div 16) #
     b64_char ((unat b mod 16) * 4 + unat c div 64) # b64_char (unat c mod 64) # b64_encode rest"

fun b64_quanta :: "string \<Rightarrow> bytes option" where
  "b64_quanta [] = Some []"
| "b64_quanta (p # q # r # s # rest) =
     (case (b64_val p, b64_val q) of
        (Some x, Some y) \<Rightarrow>
          (if r = CHR ''='' then
             (if s = CHR ''='' \<and> rest = [] then Some [of_nat (x * 4 + y div 16)] else None)
           else (case b64_val r of
             None \<Rightarrow> None
           | Some z \<Rightarrow>
               (if s = CHR ''='' then
                  (if rest = [] then Some [of_nat (x * 4 + y div 16), of_nat ((y mod 16) * 16 + z div 4)] else None)
                else (case b64_val s of
                  None \<Rightarrow> None
                | Some w \<Rightarrow>
                    map_option (\<lambda>bs. of_nat (x * 4 + y div 16) # of_nat ((y mod 16) * 16 + z div 4) #
                                      of_nat ((z mod 4) * 64 + w) # bs) (b64_quanta rest)))))
      | _ \<Rightarrow> None)"
| "b64_quanta _ = None"

definition b64_decode :: "string \<Rightarrow> bytes option" where
  "b64_decode s = b64_quanta (filter (\<lambda>c. c \<noteq> CHR 0x0A \<and> c \<noteq> CHR 0x0D) s)"

lemma b64_alphabet_facts:
  "length b64_alphabet = 64" "distinct b64_alphabet"
  "CHR ''='' \<notin> set b64_alphabet" "CHR 0x0A \<notin> set b64_alphabet" "CHR 0x0D \<notin> set b64_alphabet"
  by (simp_all add: b64_alphabet_def)

lemma b64_val_char [simp]: "n < 64 \<Longrightarrow> b64_val (b64_char n) = Some n"
  using map_of_zip_nth[of b64_alphabet "[0..<64]" n]
  by (simp add: b64_val_def b64_char_def b64_alphabet_facts)

lemma b64_char_other [simp]:
  assumes "n < 64"
  shows "b64_char n \<noteq> CHR ''=''" "b64_char n \<noteq> CHR 0x0A" "b64_char n \<noteq> CHR 0x0D"
  using assms unfolding b64_char_def by (metis nth_mem b64_alphabet_facts)+

lemma unat_byte [simp]: "unat (a :: byte) < 256"
  by (rule order_less_le_trans[OF unsigned_less]) simp

lemma unat_byte_parts [simp]:
  fixes a b c :: byte
  shows "unat a div 4 < 64" "(unat a mod 4) * 16 < 64" "(unat a mod 4) * 16 + unat b div 16 < 64"
    "(unat b mod 16) * 4 < 64" "(unat b mod 16) * 4 + unat c div 64 < 64" "unat c mod 64 < 64"
proof -
  have u: "unat x < 256" for x :: byte by simp
  from u[of a] u[of b] u[of c] show
    "unat a div 4 < 64" "(unat a mod 4) * 16 < 64" "(unat a mod 4) * 16 + unat b div 16 < 64"
    "(unat b mod 16) * 4 < 64" "(unat b mod 16) * 4 + unat c div 64 < 64" "unat c mod 64 < 64"
    by linarith+
qed

lemma b64_bytes:
  fixes a b c :: byte
  shows "unat a div 4 * 4 + ((unat a mod 4) * 16) div 16 = unat a"
    "unat a div 4 * 4 + ((unat a mod 4) * 16 + unat b div 16) div 16 = unat a"
    "((unat a mod 4) * 16 + unat b div 16) mod 16 * 16 + (unat b mod 16) * 4 div 4 = unat b"
    "((unat a mod 4) * 16 + unat b div 16) mod 16 * 16 + ((unat b mod 16) * 4 + unat c div 64) div 4 = unat b"
    "((unat b mod 16) * 4 + unat c div 64) mod 4 * 64 + unat c mod 64 = unat c"
proof -
  have d: "(q * m + r) div m = q" "(q * m + r) mod m = r" if "r < m" for q m r :: nat
    using that by simp_all
  have u: "unat b div 16 < 16" "unat c div 64 < 4" using unat_byte[of b] unat_byte[of c] by linarith+
  show "unat a div 4 * 4 + ((unat a mod 4) * 16) div 16 = unat a" by simp
  show "unat a div 4 * 4 + ((unat a mod 4) * 16 + unat b div 16) div 16 = unat a"
    by (simp only: d(1)[OF u(1)] div_mult_mod_eq)
  show "((unat a mod 4) * 16 + unat b div 16) mod 16 * 16 + (unat b mod 16) * 4 div 4 = unat b"
    by (simp only: d(2)[OF u(1)]) simp
  show "((unat a mod 4) * 16 + unat b div 16) mod 16 * 16 + ((unat b mod 16) * 4 + unat c div 64) div 4 = unat b"
    by (simp only: d(2)[OF u(1)] d(1)[OF u(2)] div_mult_mod_eq)
  show "((unat b mod 16) * 4 + unat c div 64) mod 4 * 64 + unat c mod 64 = unat c"
    by (simp only: d(2)[OF u(2)] div_mult_mod_eq)
qed

lemma b64_word:
  fixes a b c :: byte
  shows "of_nat (unat a div 4 * 4 + ((unat a mod 4) * 16) div 16) = a"
    "of_nat (unat a div 4 * 4 + ((unat a mod 4) * 16 + unat b div 16) div 16) = a"
    "of_nat (((unat a mod 4) * 16 + unat b div 16) mod 16 * 16 + (unat b mod 16) * 4 div 4) = b"
    "of_nat (((unat a mod 4) * 16 + unat b div 16) mod 16 * 16 + ((unat b mod 16) * 4 + unat c div 64) div 4) = b"
    "of_nat (((unat b mod 16) * 4 + unat c div 64) mod 4 * 64 + unat c mod 64) = c"
  unfolding b64_bytes by simp_all

lemma b64_quanta_encode: "b64_quanta (b64_encode bs) = Some bs"
proof (induction bs rule: b64_encode.induct)
  case (2 a)
  show ?case by (simp only: b64_encode.simps b64_quanta.simps b64_val_char[OF unat_byte_parts(1)]
    b64_val_char[OF unat_byte_parts(2)] prod.case option.case simp_thms if_True b64_word)
next
  case (3 a b)
  show ?case
    by (simp only: b64_encode.simps b64_quanta.simps b64_val_char unat_byte_parts b64_char_other
      prod.case option.case simp_thms if_True if_False b64_word)
next
  case (4 a b c rest)
  then show ?case
    by (simp only: b64_encode.simps b64_quanta.simps b64_val_char unat_byte_parts b64_char_other
      prod.case option.case simp_thms if_True if_False b64_word option.map)
qed simp

lemma b64_encode_lines: "filter (\<lambda>c. c \<noteq> CHR 0x0A \<and> c \<noteq> CHR 0x0D) (b64_encode bs) = b64_encode bs"
  by (induction bs rule: b64_encode.induct) simp_all

theorem b64_decode_encode [simp]: "b64_decode (b64_encode bs) = Some bs"
  by (simp add: b64_decode_def b64_encode_lines b64_quanta_encode)

end
