(* ===== verification/Upload.thy ===== *)
theory Upload
  imports BlockStore RevisionXAttr Base64
begin

text \<open>
  Uploading one block and committing a revision, \<^verbatim>\<open>api/drive/upload_helpers.go\<close>, and the copy
  pipeline's writer over them, \<^verbatim>\<open>ProtonWriter\<close> in \<^verbatim>\<open>api/drive/proton_endpoint.go\<close>.  Cryptography
  and the API client belong to other packages: they are the fields of \<open>uploadAPI\<close>.
\<close>

section \<open>Data\<close>

record blockUploadReq =
  bu_AddressID :: string
  bu_VolumeID :: string
  bu_LinkID :: string
  bu_RevisionID :: string
  bu_Index :: int
  bu_EncSignature :: string
  bu_VerifierToken :: string

record updateRevisionReq =
  ur_BlockList :: "(int \<times> string) list"   \<comment> \<open>index (from 1) and upload token\<close>
  ur_ManifestSignature :: string
  ur_SignatureAddress :: string
  ur_XAttr :: string

record 'h uploadAPI =
  ua_encrypt :: "'h \<Rightarrow> bytes \<Rightarrow> (string + bytes) \<times> 'h"
  ua_signBlock :: "bytes \<Rightarrow> string + bytes"
  ua_armor :: "bytes \<Rightarrow> string + string"
  ua_sha256 :: "bytes \<Rightarrow> bytes"
  ua_request :: "'h \<Rightarrow> blockUploadReq \<Rightarrow> (string + (string \<times> string) list) \<times> 'h"
  ua_upload :: "'h \<Rightarrow> string \<Rightarrow> string \<Rightarrow> bytes \<Rightarrow> string option \<times> 'h"
  ua_signManifest :: "bytes \<Rightarrow> string + bytes"
  ua_now :: "'h \<Rightarrow> string"
  ua_encXAttr :: "revisionXAttr \<Rightarrow> string + string"
  ua_updateRevision :: "'h \<Rightarrow> string \<Rightarrow> string \<Rightarrow> string \<Rightarrow> updateRevisionReq \<Rightarrow> string option \<times> 'h"
  ua_createRevision :: "'h \<Rightarrow> string \<Rightarrow> string \<Rightarrow> (string + string) \<times> 'h"
  ua_verification :: "'h \<Rightarrow> string \<Rightarrow> string \<Rightarrow> string \<Rightarrow> (string + string) \<times> 'h"

record uploadedBlock =
  ub_token :: string
  ub_encHash :: bytes
  ub_rawSize :: int

record uploadParams =
  up_verifyCode :: bytes
  up_addressID :: string
  up_volumeID :: string
  up_shareID :: string
  up_linkID :: string
  up_revisionID :: string
  up_sigAddr :: string
  up_unixMode :: "32 word"
  up_symlink :: bool
  up_priorXAttr :: "revisionXAttr option"

section \<open>One block\<close>

definition computeVerificationToken :: "bytes \<Rightarrow> bytes \<Rightarrow> bytes" where
  "computeVerificationToken verifyCode encData =
     map (\<lambda>i. if i < length encData then verifyCode ! i XOR encData ! i else verifyCode ! i)
       [0..<length verifyCode]"

definition encryptAndUploadBlock ::
    "'dv diskv \<Rightarrow> 'h uploadAPI \<Rightarrow> uploadParams \<Rightarrow> int \<Rightarrow> bytes \<Rightarrow> ('dv, 'h) blockStore
      \<Rightarrow> (driveErr + uploadedBlock) \<times> ('dv, 'h) blockStore" where
  "encryptAndUploadBlock D A p apiIndex data s =
     (case ua_encrypt A (bs_net s) data of
        (Inl err, h) \<Rightarrow> (Inl (EncryptErr apiIndex err), s\<lparr>bs_net := h\<rparr>)
      | (Inr encData, h) \<Rightarrow>
          let s1 = s\<lparr>bs_net := h\<rparr>
          in (case ua_signBlock A data of
                Inl err \<Rightarrow> (Inl (SignErr apiIndex err), s1)
              | Inr encSig \<Rightarrow>
                  (case ua_armor A encSig of
                     Inl err \<Rightarrow> (Inl (ArmorErr apiIndex err), s1)
                   | Inr encSigStr \<Rightarrow>
                       let hash = ua_sha256 A encData;
                           verifyToken = computeVerificationToken (up_verifyCode p) encData;
                           req = \<lparr>bu_AddressID = up_addressID p, bu_VolumeID = up_volumeID p,
                                  bu_LinkID = up_linkID p, bu_RevisionID = up_revisionID p,
                                  bu_Index = apiIndex, bu_EncSignature = encSigStr,
                                  bu_VerifierToken = b64_encode verifyToken\<rparr>
                       in (case blockStore_RequestUpload (ua_request A) req s1 of
                             (Inl err, s2) \<Rightarrow> (Inl (RequestBlockErr apiIndex err), s2)
                           | (Inr [], s2) \<Rightarrow> (Inl (NoUploadLink apiIndex), s2)
                           | (Inr ((bareURL, token) # _), s2) \<Rightarrow>
                               (case blockStore_UploadBlock D (ua_upload A) (up_linkID p) apiIndex bareURL token encData s2 of
                                  (Some err, s3) \<Rightarrow> (Inl (UploadErr apiIndex err), s3)
                                | (None, s3) \<Rightarrow>
                                    (Inr \<lparr>ub_token = token, ub_encHash = hash, ub_rawSize = int (length data)\<rparr>, s3))))))"

section \<open>Committing a revision\<close>

fun gather :: "(int, uploadedBlock) gomap \<Rightarrow> nat \<Rightarrow> nat \<Rightarrow> driveErr + uploadedBlock list" where
  "gather tokens i 0 = Inr []"
| "gather tokens i (Suc n) =
     (case map_of tokens (int i) of
        None \<Rightarrow> Inl (MissingBlock (int i))
      | Some ub \<Rightarrow> map_sum id ((#) ub) (gather tokens (Suc i) n))"

definition commitRevisionFromTokens ::
    "'h uploadAPI \<Rightarrow> uploadParams \<Rightarrow> (int, uploadedBlock) gomap \<Rightarrow> bool \<Rightarrow> ('dv, 'h) blockStore
      \<Rightarrow> driveErr option \<times> ('dv, 'h) blockStore" where
  "commitRevisionFromTokens A p tokens allowEmpty s =
     (let nBlocks = length tokens
      in if nBlocks = 0 \<and> \<not> allowEmpty then (None, s)
         else (case gather tokens 0 nBlocks of
           Inl err \<Rightarrow> (Some err, s)
         | Inr ubs \<Rightarrow>
             let blockTokens = map (\<lambda>i. (int i + 1, ub_token (ubs ! i))) [0..<nBlocks];
                 blockSizes = map ub_rawSize ubs;
                 manifestData = concat (map ub_encHash ubs);
                 totalSize = wrap64 (sum_list blockSizes)
             in (case ua_signManifest A manifestData of
                   Inl err \<Rightarrow> (Some (SignManifestErr err), s)
                 | Inr manifestSig \<Rightarrow>
                     (case ua_armor A manifestSig of
                        Inl err \<Rightarrow> (Some (ArmorManifestErr err), s)
                      | Inr manifestSigStr \<Rightarrow>
                          let modTime = ua_now A (bs_net s);
                              xAttr = buildRevisionXAttr (up_priorXAttr p) modTime totalSize blockSizes
                                        (up_unixMode p) (up_symlink p)
                          in (case ua_encXAttr A xAttr of
                                Inl err \<Rightarrow> (Some (EncXAttrErr err), s)
                              | Inr enc \<Rightarrow>
                                  (case ua_updateRevision A (bs_net s) (up_shareID p) (up_linkID p) (up_revisionID p)
                                          \<lparr>ur_BlockList = blockTokens, ur_ManifestSignature = manifestSigStr,
                                           ur_SignatureAddress = up_sigAddr p, ur_XAttr = enc\<rparr> of
                                     (Some err, h) \<Rightarrow> (Some (CommitErr err), s\<lparr>bs_net := h\<rparr>)
                                   | (None, h) \<Rightarrow> (None, s\<lparr>bs_net := h\<rparr>)))))))"

section \<open>The pipeline's writer\<close>

record pblock =
  pb_BareURL :: string
  pb_Token :: string

record fileHandle =
  fh_LinkID :: string
  fh_RevisionID :: string
  fh_Blocks :: "pblock list"
  fh_FileSize :: int
  fh_ShareID :: string
  fh_VolumeID :: string
  fh_AddressID :: string
  fh_SigAddr :: string
  fh_VerificationCode :: bytes
  fh_PriorXAttr :: "revisionXAttr option"

record ProtonWriter =
  pw_linkID :: string
  pw_revisionID :: string
  pw_shareID :: string
  pw_volumeID :: string
  pw_addressID :: string
  pw_sigAddr :: string
  pw_verifyCode :: bytes
  pw_uploaded :: "(int, uploadedBlock) gomap"
  pw_totalSize :: int
  pw_closed :: bool
  pw_unixMode :: "32 word"
  pw_priorXAttr :: "revisionXAttr option"

definition NewProtonWriter :: "fileHandle \<Rightarrow> ProtonWriter" where
  "NewProtonWriter fh =
     \<lparr>pw_linkID = fh_LinkID fh, pw_revisionID = fh_RevisionID fh, pw_shareID = fh_ShareID fh,
      pw_volumeID = fh_VolumeID fh, pw_addressID = fh_AddressID fh, pw_sigAddr = fh_SigAddr fh,
      pw_verifyCode = fh_VerificationCode fh, pw_uploaded = [], pw_totalSize = 0, pw_closed = False,
      pw_unixMode = 0, pw_priorXAttr = fh_PriorXAttr fh\<rparr>"

definition pw_uploadParams :: "ProtonWriter \<Rightarrow> uploadParams" where
  "pw_uploadParams w =
     \<lparr>up_verifyCode = pw_verifyCode w, up_addressID = pw_addressID w, up_volumeID = pw_volumeID w,
      up_shareID = pw_shareID w, up_linkID = pw_linkID w, up_revisionID = pw_revisionID w,
      up_sigAddr = pw_sigAddr w, up_unixMode = pw_unixMode w, up_symlink = False,
      up_priorXAttr = pw_priorXAttr w\<rparr>"

definition pw_WriteBlock ::
    "'dv diskv \<Rightarrow> 'h uploadAPI \<Rightarrow> int \<Rightarrow> bytes \<Rightarrow> ProtonWriter \<Rightarrow> ('dv, 'h) blockStore
      \<Rightarrow> driveErr option \<times> ProtonWriter \<times> ('dv, 'h) blockStore" where
  "pw_WriteBlock D A index data w s =
     (case encryptAndUploadBlock D A (pw_uploadParams w) (index + 1) data s of
        (Inl err, s') \<Rightarrow> (Some err, w, s')
      | (Inr ub, s') \<Rightarrow>
          (None, w\<lparr>pw_uploaded := AList.update index ub (pw_uploaded w),
                   pw_totalSize := wrap64 (pw_totalSize w + ub_rawSize ub)\<rparr>, s'))"

definition pw_SetMode :: "32 word \<Rightarrow> ProtonWriter \<Rightarrow> ProtonWriter" where
  "pw_SetMode mode w = w\<lparr>pw_unixMode := mode\<rparr>"

definition pw_Close ::
    "'h uploadAPI \<Rightarrow> ProtonWriter \<Rightarrow> ('dv, 'h) blockStore
      \<Rightarrow> driveErr option \<times> ProtonWriter \<times> ('dv, 'h) blockStore" where
  "pw_Close A w s =
     (if pw_closed w then (None, w, s)
      else let w' = w\<lparr>pw_closed := True\<rparr>;
               (err, s') = commitRevisionFromTokens A (pw_uploadParams w') (pw_uploaded w') False s
           in (err, w', s'))"

section \<open>The server\<close>

text \<open>
  What the code relies on.  A server view reads the API's state: the encrypted block stored under
  an upload token and the active revision of a file.  The laws are the documented behaviour:
  decryption undoes encryption, a requested upload link carries an unused token, a successful
  upload stores the block under its token and disturbs no other, a successful revision update
  makes that request the active revision, and no other call changes what is stored or active.
\<close>

record 'h serverView =
  sv_stored :: "'h \<Rightarrow> string \<Rightarrow> bytes option"
  sv_active :: "'h \<Rightarrow> string \<Rightarrow> string \<Rightarrow> (string \<times> updateRevisionReq) option"

definition server_laws :: "'h uploadAPI \<Rightarrow> 'h serverView \<Rightarrow> (bytes \<Rightarrow> string + bytes) \<Rightarrow> bool" where
  "server_laws A V dec \<longleftrightarrow>
     (\<forall>h b enc h'. ua_encrypt A h b = (Inr enc, h') \<longrightarrow> dec enc = Inr b) \<and>
     (\<forall>h b. sv_stored V (snd (ua_encrypt A h b)) = sv_stored V h) \<and>
     (\<forall>h q. sv_stored V (snd (ua_request A h q)) = sv_stored V h) \<and>
     (\<forall>h q ls h' u t. ua_request A h q = (Inr ls, h') \<and> (u, t) \<in> set ls \<longrightarrow> sv_stored V h t = None) \<and>
     (\<forall>h u t x t'. t' \<noteq> t \<longrightarrow> sv_stored V (snd (ua_upload A h u t x)) t' = sv_stored V h t') \<and>
     (\<forall>h u t x h'. ua_upload A h u t x = (None, h') \<longrightarrow> sv_stored V h' t = Some x) \<and>
     (\<forall>h sh l r q. sv_stored V (snd (ua_updateRevision A h sh l r q)) = sv_stored V h) \<and>
     (\<forall>h sh l r q h'. ua_updateRevision A h sh l r q = (None, h') \<longrightarrow> sv_active V h' sh l = Some (r, q)) \<and>
     (\<forall>h b. sv_active V (snd (ua_encrypt A h b)) = sv_active V h) \<and>
     (\<forall>h q. sv_active V (snd (ua_request A h q)) = sv_active V h) \<and>
     (\<forall>h u t x. sv_active V (snd (ua_upload A h u t x)) = sv_active V h) \<and>
     (\<forall>h sh l. sv_stored V (snd (ua_createRevision A h sh l)) = sv_stored V h \<and>
        sv_active V (snd (ua_createRevision A h sh l)) = sv_active V h) \<and>
     (\<forall>h sh l r. sv_stored V (snd (ua_verification A h sh l r)) = sv_stored V h \<and>
        sv_active V (snd (ua_verification A h sh l r)) = sv_active V h)"

text \<open>What a reader of a committed revision decrypts.\<close>

definition revision_content ::
    "'h serverView \<Rightarrow> (bytes \<Rightarrow> string + bytes) \<Rightarrow> 'h \<Rightarrow> updateRevisionReq \<Rightarrow> bytes option" where
  "revision_content V dec h req =
     map_option concat (those (map (\<lambda>(i, t).
       (case sv_stored V h t of None \<Rightarrow> None | Some enc \<Rightarrow> (case dec enc of Inl _ \<Rightarrow> None | Inr b \<Rightarrow> Some b)))
       (ur_BlockList req)))"

text \<open>An upload result stands for a plaintext block.\<close>

definition block_stored ::
    "'h uploadAPI \<Rightarrow> 'h serverView \<Rightarrow> (bytes \<Rightarrow> string + bytes) \<Rightarrow> 'h \<Rightarrow> bytes \<Rightarrow> uploadedBlock \<Rightarrow> bool" where
  "block_stored A V dec h b ub \<longleftrightarrow>
     (\<exists>enc. sv_stored V h (ub_token ub) = Some enc \<and> dec enc = Inr b \<and> ub_encHash ub = ua_sha256 A enc \<and>
       ub_rawSize ub = int (length b))"

text \<open>A committed revision: it is the active one, its blocks decrypt to the given chunks in order,
  and its metadata gives their sizes.\<close>

definition revision_is ::
    "'h uploadAPI \<Rightarrow> 'h serverView \<Rightarrow> (bytes \<Rightarrow> string + bytes) \<Rightarrow> 'h \<Rightarrow> uploadParams \<Rightarrow> bytes list \<Rightarrow> bool" where
  "revision_is A V dec h p chunks \<longleftrightarrow>
     (\<exists>req mt. sv_active V h (up_shareID p) (up_linkID p) = Some (up_revisionID p, req) \<and>
        revision_content V dec h req = Some (concat chunks) \<and>
        map fst (ur_BlockList req) = map (\<lambda>i. int i + 1) [0..<length chunks] \<and>
        ua_encXAttr A (buildRevisionXAttr (up_priorXAttr p) mt (int (length (concat chunks)))
          (map (\<lambda>c. int (length c)) chunks) (up_unixMode p) (up_symlink p)) = Inr (ur_XAttr req))"

section \<open>Uploads are kept\<close>

lemma server_lawsD:
  assumes "server_laws A V dec"
  shows "ua_encrypt A h b = (Inr enc, h') \<Longrightarrow> dec enc = Inr b"
    "ua_encrypt A h b = (e, h') \<Longrightarrow> sv_stored V h' = sv_stored V h"
    "ua_request A h q = (l, h') \<Longrightarrow> sv_stored V h' = sv_stored V h"
    "ua_request A h q = (Inr ls, h') \<Longrightarrow> (u, t) \<in> set ls \<Longrightarrow> sv_stored V h t = None"
    "t' \<noteq> t \<Longrightarrow> sv_stored V (snd (ua_upload A h u t x)) t' = sv_stored V h t'"
    "ua_upload A h u t x = (None, h') \<Longrightarrow> sv_stored V h' t = Some x"
    "ua_updateRevision A h sh lk rv rq = (o1, h') \<Longrightarrow> sv_stored V h' = sv_stored V h"
    "ua_updateRevision A h sh lk rv rq = (None, h') \<Longrightarrow> sv_active V h' sh lk = Some (rv, rq)"
    "ua_encrypt A h b = (e, h') \<Longrightarrow> sv_active V h' = sv_active V h"
    "ua_request A h q = (l, h') \<Longrightarrow> sv_active V h' = sv_active V h"
    "ua_upload A h u t x = (o2, h') \<Longrightarrow> sv_active V h' = sv_active V h"
    "ua_createRevision A h sh lk = (c, h') \<Longrightarrow> sv_stored V h' = sv_stored V h \<and> sv_active V h' = sv_active V h"
    "ua_verification A h sh lk rv = (v, h') \<Longrightarrow> sv_stored V h' = sv_stored V h \<and> sv_active V h' = sv_active V h"
  using assms unfolding server_laws_def by (metis snd_conv)+

lemma encryptAndUploadBlock_cases:
  assumes "encryptAndUploadBlock D A p i data s = (r, s')"
  obtains (nothing) "sv_stored V (bs_net s') = sv_stored V (bs_net s)" "\<And>ub. r \<noteq> Inr ub"
  | (upload) enc h1 h2 q url tok ls where
      "ua_encrypt A (bs_net s) data = (Inr enc, h1)" "ua_request A h1 q = (Inr ((url, tok) # ls), h2)"
      "bs_net s' = snd (ua_upload A h2 url tok enc)"
      "\<And>ub. r = Inr ub \<Longrightarrow> fst (ua_upload A h2 url tok enc) = None \<and>
          ub = \<lparr>ub_token = tok, ub_encHash = ua_sha256 A enc, ub_rawSize = int (length data)\<rparr>"
  | (lost) "\<not> server_laws A V dec"
proof (cases "server_laws A V dec")
  case False
  with lost show ?thesis by blast
next
  case laws: True
  obtain e h1 where e: "ua_encrypt A (bs_net s) data = (e, h1)" by force
  have s1: "sv_stored V h1 = sv_stored V (bs_net s)"
    by (rule server_lawsD(2)[OF laws e])
  show ?thesis
  proof (cases "\<exists>enc sig arm. e = Inr enc \<and> ua_signBlock A data = Inr sig \<and> ua_armor A sig = Inr arm")
    case False
    then have "sv_stored V (bs_net s') = sv_stored V (bs_net s)" "\<And>ub. r \<noteq> Inr ub"
      using assms s1 by (auto simp: encryptAndUploadBlock_def e Let_def split: sum.splits)
    then show ?thesis by (rule nothing)
  next
    case True
    then obtain enc sig arm where c: "e = Inr enc" "ua_signBlock A data = Inr sig" "ua_armor A sig = Inr arm"
      by blast
    define q where "q = \<lparr>bu_AddressID = up_addressID p, bu_VolumeID = up_volumeID p,
        bu_LinkID = up_linkID p, bu_RevisionID = up_revisionID p, bu_Index = i, bu_EncSignature = arm,
        bu_VerifierToken = b64_encode (computeVerificationToken (up_verifyCode p) enc)\<rparr>"
    obtain l h2 where l: "ua_request A h1 q = (l, h2)" by force
    have s2: "sv_stored V h2 = sv_stored V h1"
      by (rule server_lawsD(3)[OF laws l])
    show ?thesis
    proof (cases "\<exists>url tok ls. l = Inr ((url, tok) # ls)")
      case False
      then have "sv_stored V (bs_net s') = sv_stored V (bs_net s)" "\<And>ub. r \<noteq> Inr ub"
        using assms s1 s2
        by (auto simp: encryptAndUploadBlock_def e c Let_def q_def[symmetric] blockStore_RequestUpload_def l
            split: sum.splits list.splits)
      then show ?thesis by (rule nothing)
    next
      case True
      then obtain url tok ls where l': "l = Inr ((url, tok) # ls)" by blast
      have "bs_net s' = snd (ua_upload A h2 url tok enc) \<and>
        (\<forall>ub. r = Inr ub \<longrightarrow> fst (ua_upload A h2 url tok enc) = None \<and>
          ub = \<lparr>ub_token = tok, ub_encHash = ua_sha256 A enc, ub_rawSize = int (length data)\<rparr>)"
        using assms
        by (auto simp: encryptAndUploadBlock_def e c Let_def q_def[symmetric] blockStore_RequestUpload_def l l'
            blockStore_UploadBlock_def split: option.splits prod.splits)
      then show ?thesis using upload[of enc h1 q url tok ls h2] e c l l' by blast
    qed
  qed
qed

lemma upload_block:
  assumes laws: "server_laws A V dec" and run: "encryptAndUploadBlock D A p i data s = (r, s')"
  shows "r = Inr ub \<Longrightarrow> block_stored A V dec (bs_net s') data ub"
    and "block_stored A V dec (bs_net s) b ub' \<Longrightarrow> block_stored A V dec (bs_net s') b ub'"
proof -
  have "(r = Inr ub \<longrightarrow> block_stored A V dec (bs_net s') data ub) \<and>
    (block_stored A V dec (bs_net s) b ub' \<longrightarrow> block_stored A V dec (bs_net s') b ub')"
    using run
  proof (cases rule: encryptAndUploadBlock_cases[where V = V and dec = dec])
    case nothing
    then show ?thesis by (auto simp: block_stored_def)
  next
    case (upload enc h1 h2 q url tok ls)
    have dec: "dec enc = Inr data" by (rule server_lawsD(1)[OF laws upload(1)])
    have st: "sv_stored V h1 = sv_stored V (bs_net s)" "sv_stored V h2 = sv_stored V h1"
      by (rule server_lawsD(2)[OF laws upload(1)], rule server_lawsD(3)[OF laws upload(2)])
    have fresh: "sv_stored V h1 tok = None"
      by (rule server_lawsD(4)[OF laws upload(2) list.set_intros(1)])
    have other: "t \<noteq> tok \<Longrightarrow> sv_stored V (bs_net s') t = sv_stored V (bs_net s) t" for t
      using server_lawsD(5)[OF laws] upload(3) st by simp
    have this: "fst (ua_upload A h2 url tok enc) = None \<Longrightarrow> sv_stored V (bs_net s') tok = Some enc"
      unfolding upload(3) by (rule server_lawsD(6)[OF laws, of h2 url]) (metis prod.collapse)
    from upload(4)[of ub] this dec
    have "r = Inr ub \<longrightarrow> block_stored A V dec (bs_net s') data ub" by (auto simp: block_stored_def)
    moreover have "block_stored A V dec (bs_net s) b ub' \<longrightarrow> block_stored A V dec (bs_net s') b ub'"
    proof
      assume b: "block_stored A V dec (bs_net s) b ub'"
      then have "ub_token ub' \<noteq> tok" using fresh st(1) by (auto simp: block_stored_def)
      then show "block_stored A V dec (bs_net s') b ub'" using b other by (simp add: block_stored_def)
    qed
    ultimately show ?thesis ..
  next
    case lost
    with laws show ?thesis by blast
  qed
  then show "r = Inr ub \<Longrightarrow> block_stored A V dec (bs_net s') data ub"
    "block_stored A V dec (bs_net s) b ub' \<Longrightarrow> block_stored A V dec (bs_net s') b ub'" by blast+
qed

lemma upload_active:
  assumes laws: "server_laws A V dec" and run: "encryptAndUploadBlock D A p i data s = (r, s')"
  shows "sv_active V (bs_net s') = sv_active V (bs_net s)"
proof -
  obtain e h1 where e: "ua_encrypt A (bs_net s) data = (e, h1)" by force
  show ?thesis
    using run
    by (auto simp: encryptAndUploadBlock_def e Let_def blockStore_RequestUpload_def blockStore_UploadBlock_def
        server_lawsD(9)[OF laws e] server_lawsD(10)[OF laws] server_lawsD(11)[OF laws]
        split: sum.splits prod.splits list.splits option.splits)
qed

section \<open>Commits\<close>

lemma gather_Inr: "gather tokens i n = Inr ubs \<longleftrightarrow> length ubs = n \<and> (\<forall>j<n. map_of tokens (int (i + j)) = Some (ubs ! j))"
proof (induction n arbitrary: i ubs)
  case (Suc n)
  have "gather tokens i (Suc n) = Inr ubs \<longleftrightarrow>
      (\<exists>ub us. ubs = ub # us \<and> map_of tokens (int i) = Some ub \<and> gather tokens (Suc i) n = Inr us)"
    by (auto split: option.splits sum.splits simp: map_sum_def)
  also have "\<dots> \<longleftrightarrow> length ubs = Suc n \<and> (\<forall>j<Suc n. map_of tokens (int (i + j)) = Some (ubs ! j))"
    by (cases ubs) (auto simp: Suc.IH All_less_Suc2 ac_simps)
  finally show ?case .
qed auto

lemma gather_Inl: "gather tokens i n = Inl e \<Longrightarrow> \<exists>j<n. map_of tokens (int (i + j)) = None \<and> e = MissingBlock (int (i + j))"
proof (induction n arbitrary: i)
  case (Suc n)
  then show ?case
  proof (cases "map_of tokens (int i)")
    case None
    with Suc.prems show ?thesis by (intro exI[of _ 0]) simp
  next
    case (Some ub)
    with Suc.prems have "gather tokens (Suc i) n = Inl e"
      by (auto simp: map_sum_def split: sum.splits)
    from Suc.IH[OF this] obtain j where "j < n" "map_of tokens (int (i + Suc j)) = None"
      "e = MissingBlock (int (i + Suc j))" by auto
    then show ?thesis by (intro exI[of _ "Suc j"]) blast
  qed
qed simp

lemma block_read:
  "block_stored A V dec h b ub \<Longrightarrow>
    (case sv_stored V h (ub_token ub) of None \<Rightarrow> None | Some enc \<Rightarrow>
      (case dec enc of Inl _ \<Rightarrow> None | Inr x \<Rightarrow> Some x)) = Some b"
  by (auto simp: block_stored_def)

lemma commit_stored:
  assumes laws: "server_laws A V dec" and run: "commitRevisionFromTokens A p tokens ae s = (r, s')"
  shows "sv_stored V (bs_net s') = sv_stored V (bs_net s)"
  using run
  by (auto simp: commitRevisionFromTokens_def Let_def server_lawsD(7)[OF laws]
      split: if_splits sum.splits prod.splits option.splits)

lemma commit_success:
  assumes run: "commitRevisionFromTokens A p tokens ae s = (None, s')" and ne: "tokens \<noteq> [] \<or> ae"
  obtains ubs mt enc sig sigStr where "gather tokens 0 (length tokens) = Inr ubs"
    "ua_encXAttr A (buildRevisionXAttr (up_priorXAttr p) mt (wrap64 (sum_list (map ub_rawSize ubs)))
       (map ub_rawSize ubs) (up_unixMode p) (up_symlink p)) = Inr enc"
    "ua_updateRevision A (bs_net s) (up_shareID p) (up_linkID p) (up_revisionID p)
       \<lparr>ur_BlockList = map (\<lambda>i. (int i + 1, ub_token (ubs ! i))) [0..<length tokens],
        ur_ManifestSignature = sigStr, ur_SignatureAddress = up_sigAddr p, ur_XAttr = enc\<rparr> = (None, bs_net s')"
    "ua_signManifest A (concat (map ub_encHash ubs)) = Inr sig" "ua_armor A sig = Inr sigStr"
proof -
  obtain ubs where g: "gather tokens 0 (length tokens) = Inr ubs"
    using run ne by (auto simp: commitRevisionFromTokens_def Let_def split: if_splits sum.splits)
  obtain sig where sg: "ua_signManifest A (concat (map ub_encHash ubs)) = Inr sig"
    using run ne g by (auto simp: commitRevisionFromTokens_def Let_def split: if_splits sum.splits)
  obtain sigStr where am: "ua_armor A sig = Inr sigStr"
    using run ne g sg by (auto simp: commitRevisionFromTokens_def Let_def split: if_splits sum.splits)
  obtain enc where x: "ua_encXAttr A (buildRevisionXAttr (up_priorXAttr p) (ua_now A (bs_net s))
      (wrap64 (sum_list (map ub_rawSize ubs))) (map ub_rawSize ubs) (up_unixMode p) (up_symlink p)) = Inr enc"
    using run ne g sg am by (auto simp: commitRevisionFromTokens_def Let_def split: if_splits sum.splits)
  from run ne g sg am x that[OF g x _ sg am] show ?thesis
    by (auto simp: commitRevisionFromTokens_def Let_def split: if_splits prod.splits option.splits)
qed

lemma commit_complete:
  assumes laws: "server_laws A V dec" and run: "commitRevisionFromTokens A p tokens ae s = (None, s')"
    and len: "length tokens = length chunks" and ne: "chunks \<noteq> [] \<or> ae"
    and blocks: "\<And>i. i < length chunks \<Longrightarrow>
      \<exists>ub. map_of tokens (int i) = Some ub \<and> block_stored A V dec (bs_net s) (chunks ! i) ub"
    and fits: "int (length (concat chunks)) \<le> maxInt64"
  shows "revision_is A V dec (bs_net s') p chunks"
proof -
  have ne': "tokens \<noteq> [] \<or> ae" using ne len by auto
  obtain ubs mt enc sigStr where g: "gather tokens 0 (length tokens) = Inr ubs"
    and x: "ua_encXAttr A (buildRevisionXAttr (up_priorXAttr p) mt (wrap64 (sum_list (map ub_rawSize ubs)))
       (map ub_rawSize ubs) (up_unixMode p) (up_symlink p)) = Inr enc"
    and u: "ua_updateRevision A (bs_net s) (up_shareID p) (up_linkID p) (up_revisionID p)
       \<lparr>ur_BlockList = map (\<lambda>i. (int i + 1, ub_token (ubs ! i))) [0..<length tokens],
        ur_ManifestSignature = sigStr, ur_SignatureAddress = up_sigAddr p, ur_XAttr = enc\<rparr> = (None, bs_net s')"
    by (rule commit_success[OF run ne']) (rule that)
  let ?req = "\<lparr>ur_BlockList = map (\<lambda>i. (int i + 1, ub_token (ubs ! i))) [0..<length tokens],
        ur_ManifestSignature = sigStr, ur_SignatureAddress = up_sigAddr p, ur_XAttr = enc\<rparr>"
  have st: "sv_stored V (bs_net s') = sv_stored V (bs_net s)" by (rule server_lawsD(7)[OF laws u])
  have g': "length ubs = length chunks" "\<And>i. i < length chunks \<Longrightarrow> map_of tokens (int i) = Some (ubs ! i)"
    using g len by (simp_all add: gather_Inr)
  have ub: "length ubs = length chunks" "i < length chunks \<Longrightarrow> block_stored A V dec (bs_net s) (chunks ! i) (ubs ! i)" for i
    using g'(1) g'(2)[of i] blocks[of i] by auto
  have sizes: "map ub_rawSize ubs = map (\<lambda>c. int (length c)) chunks"
    using ub by (intro nth_equalityI) (auto simp: block_stored_def)
  have total: "sum_list (map ub_rawSize ubs) = int (length (concat chunks))"
    unfolding sizes by (induction chunks) simp_all
  have read: "those (map (\<lambda>(i, t). (case sv_stored V (bs_net s') t of None \<Rightarrow> None | Some enc \<Rightarrow>
      (case dec enc of Inl _ \<Rightarrow> None | Inr b \<Rightarrow> Some b))) (ur_BlockList ?req)) = Some chunks"
  proof -
    have "map (\<lambda>(i, t). (case sv_stored V (bs_net s') t of None \<Rightarrow> None | Some enc \<Rightarrow>
      (case dec enc of Inl _ \<Rightarrow> None | Inr b \<Rightarrow> Some b))) (ur_BlockList ?req) = map Some chunks"
      using len st by (intro nth_equalityI) (simp_all add: block_read[OF ub(2)])
    moreover have "those (map Some xs) = Some xs" for xs :: "bytes list" by (induction xs) simp_all
    ultimately show ?thesis by simp
  qed
  have "sv_active V (bs_net s') (up_shareID p) (up_linkID p) = Some (up_revisionID p, ?req)"
    by (rule server_lawsD(8)[OF laws u])
  moreover have "revision_content V dec (bs_net s') ?req = Some (concat chunks)"
    unfolding revision_content_def read by simp
  moreover have "map fst (ur_BlockList ?req) = map (\<lambda>i. int i + 1) [0..<length chunks]"
    using len by simp
  moreover have "ua_encXAttr A (buildRevisionXAttr (up_priorXAttr p) mt (int (length (concat chunks)))
          (map (\<lambda>c. int (length c)) chunks) (up_unixMode p) (up_symlink p)) = Inr (ur_XAttr ?req)"
  proof -
    have w: "wrap64 (sum_list (map ub_rawSize ubs)) = int (length (concat chunks))"
      unfolding total using fits by simp
    show ?thesis using x[unfolded w, unfolded sizes] by simp
  qed
  ultimately show ?thesis unfolding revision_is_def by blast
qed

lemma commit_contiguous:
  assumes run: "commitRevisionFromTokens A p tokens ae s = (None, s')" and "tokens \<noteq> []"
  shows "int ` {0..<length tokens} \<subseteq> set (keys tokens)"
proof -
  from assms(2) have "tokens \<noteq> [] \<or> ae" by blast
  then obtain ubs where "gather tokens 0 (length tokens) = Inr ubs" by (rule commit_success[OF run])
  then have "\<forall>j<length tokens. map_of tokens (int j) \<noteq> None" by (simp add: gather_Inr)
  then show ?thesis by (auto simp: map_of_eq_None_iff)
qed

section \<open>The pipeline's writer commits the file\<close>

fun pw_run ::
    "'dv diskv \<Rightarrow> 'h uploadAPI \<Rightarrow> (int \<times> bytes) list \<Rightarrow> ProtonWriter \<Rightarrow> ('dv, 'h) blockStore
      \<Rightarrow> driveErr option \<times> ProtonWriter \<times> ('dv, 'h) blockStore" where
  "pw_run D A [] w s = (None, w, s)"
| "pw_run D A ((i, b) # order) w s =
     (case pw_WriteBlock D A i b w s of
        (Some e, w', s') \<Rightarrow> (Some e, w', s')
      | (None, w', s') \<Rightarrow> pw_run D A order w' s')"

lemma pw_WriteBlock_ok:
  assumes laws: "server_laws A V dec" and run: "pw_WriteBlock D A i b w s = (None, w', s')"
  obtains ub where "w' = w\<lparr>pw_uploaded := AList.update i ub (pw_uploaded w),
      pw_totalSize := wrap64 (pw_totalSize w + ub_rawSize ub)\<rparr>"
    "block_stored A V dec (bs_net s') b ub"
    "\<And>c ub'. block_stored A V dec (bs_net s) c ub' \<Longrightarrow> block_stored A V dec (bs_net s') c ub'"
proof -
  obtain r s1 where e: "encryptAndUploadBlock D A (pw_uploadParams w) (i + 1) b s = (r, s1)" by force
  with run obtain ub where r: "r = Inr ub" "s1 = s'" "w' = w\<lparr>pw_uploaded := AList.update i ub (pw_uploaded w),
      pw_totalSize := wrap64 (pw_totalSize w + ub_rawSize ub)\<rparr>"
    by (auto simp: pw_WriteBlock_def split: sum.splits)
  from upload_block[OF laws e] r that show ?thesis by blast
qed

lemma pw_WriteBlock_same:
  "pw_WriteBlock D A i b w s = (r, w', s') \<Longrightarrow> pw_closed w' = pw_closed w \<and> pw_uploadParams w' = pw_uploadParams w"
  by (auto simp: pw_WriteBlock_def pw_uploadParams_def split: prod.splits sum.splits)

lemma pw_run_same:
  "pw_run D A order w s = (r, w', s') \<Longrightarrow> pw_closed w' = pw_closed w \<and> pw_uploadParams w' = pw_uploadParams w"
proof (induction order arbitrary: w s)
  case (Cons ib order)
  obtain i b where ib: "ib = (i, b)" by force
  obtain r1 w1 s1 where st: "pw_WriteBlock D A i b w s = (r1, w1, s1)" by (metis surj_pair)
  from Cons pw_WriteBlock_same[OF st] show ?case by (cases r1) (auto simp: ib st)
qed simp

lemma pw_run_ok:
  assumes laws: "server_laws A V dec" and "pw_run D A order w s = (None, w', s')"
    and "distinct (map fst order)" "fst ` set order \<inter> set (keys (pw_uploaded w)) = {}"
  shows "length (pw_uploaded w') = length (pw_uploaded w) + length order \<and>
    (\<forall>c ub. block_stored A V dec (bs_net s) c ub \<longrightarrow> block_stored A V dec (bs_net s') c ub) \<and>
    (\<forall>k. k \<notin> fst ` set order \<longrightarrow> map_of (pw_uploaded w') k = map_of (pw_uploaded w) k) \<and>
    (\<forall>i b. (i, b) \<in> set order \<longrightarrow>
      (\<exists>ub. map_of (pw_uploaded w') i = Some ub \<and> block_stored A V dec (bs_net s') b ub))"
  using assms(2-4)
proof (induction order arbitrary: w s)
  case (Cons ib order)
  obtain i b where ib: "ib = (i, b)" by force
  obtain w1 s1 where st: "pw_WriteBlock D A i b w s = (None, w1, s1)" and rest: "pw_run D A order w1 s1 = (None, w', s')"
    using Cons.prems(1) by (auto simp: ib split: prod.splits option.splits)
  from pw_WriteBlock_ok[OF laws st] obtain ub where
    w1: "w1 = w\<lparr>pw_uploaded := AList.update i ub (pw_uploaded w), pw_totalSize := wrap64 (pw_totalSize w + ub_rawSize ub)\<rparr>"
    and b: "block_stored A V dec (bs_net s1) b ub"
    and mono: "\<And>c ub'. block_stored A V dec (bs_net s) c ub' \<Longrightarrow> block_stored A V dec (bs_net s1) c ub'"
    by metis
  have fresh: "map_of (pw_uploaded w) i = None" using Cons.prems(3) by (simp add: ib map_of_eq_None_iff)
  have up: "pw_uploaded w1 = pw_uploaded w @ [(i, ub)]" by (simp add: w1 update_fresh[OF fresh])
  have i: "i \<notin> fst ` set order" using Cons.prems(2) by (simp add: ib)
  have "fst ` set order \<inter> set (keys (pw_uploaded w1)) = {}" using Cons.prems(3) i by (auto simp: up ib)
  with Cons.IH[OF rest] Cons.prems(2) have ih: "length (pw_uploaded w') = length (pw_uploaded w1) + length order"
    "\<And>c ub. block_stored A V dec (bs_net s1) c ub \<Longrightarrow> block_stored A V dec (bs_net s') c ub"
    "\<And>k. k \<notin> fst ` set order \<Longrightarrow> map_of (pw_uploaded w') k = map_of (pw_uploaded w1) k"
    "\<And>i b. (i, b) \<in> set order \<Longrightarrow>
      \<exists>ub. map_of (pw_uploaded w') i = Some ub \<and> block_stored A V dec (bs_net s') b ub"
    by (simp_all add: ib)
  have "map_of (pw_uploaded w1) i = Some ub" "\<And>k. k \<noteq> i \<Longrightarrow> map_of (pw_uploaded w1) k = map_of (pw_uploaded w) k"
    using fresh by (simp_all add: w1)
  with ih mono b i show ?case by (auto simp: ib up)
qed simp

text \<open>
  C7: the copy pipeline's writer commits the file.  If the blocks of a file are written, each once
  and in any order, and \<^verbatim>\<open>Close\<close> reports success, the file's active revision on the server is the
  writer's, its blocks decrypt in index order to the file's bytes, and its metadata records the
  total size and the size of every block.
\<close>

theorem writer_commits_file:
  assumes "server_laws A V dec" "chunks \<noteq> []" "int (length (concat chunks)) \<le> maxInt64"
    "distinct (map fst order)" "set order = {(int i, chunks ! i) |i. i < length chunks}"
    "pw_run D A order (NewProtonWriter fh) s = (None, w, s1)"
    "pw_Close A w s1 = (None, w', s2)"
  shows "revision_is A V dec (bs_net s2) (pw_uploadParams w') chunks"
proof -
  have "fst ` set order \<inter> set (keys (pw_uploaded (NewProtonWriter fh))) = {}" by (simp add: NewProtonWriter_def)
  from pw_run_ok[OF assms(1,6,4) this]
  have l: "length (pw_uploaded w) = length order" and st: "\<And>i. i < length chunks \<Longrightarrow>
      \<exists>ub. map_of (pw_uploaded w) (int i) = Some ub \<and> block_stored A V dec (bs_net s1) (chunks ! i) ub"
    using assms(5) by (auto simp: NewProtonWriter_def)
  have "length order = card (set order)" using assms(4) by (metis distinct_card distinct_map)
  also have "set order = (\<lambda>i. (int i, chunks ! i)) ` {..<length chunks}" using assms(5) by auto
  also have "card \<dots> = length chunks" by (subst card_image) (auto simp: inj_on_def)
  finally have len: "length (pw_uploaded w) = length chunks" using l by simp
  have op: "\<not> pw_closed w" using pw_run_same[OF assms(6)] by (simp add: NewProtonWriter_def)
  have cl: "w' = w\<lparr>pw_closed := True\<rparr>"
    "commitRevisionFromTokens A (pw_uploadParams w') (pw_uploaded w) False s1 = (None, s2)"
    using assms(7) op by (auto simp: pw_Close_def Let_def split: prod.splits)
  show ?thesis by (rule commit_complete[OF assms(1) cl(2) len _ st assms(3)]) (use assms(2) in blast)+
qed

text \<open>A server for the witnesses: upload tokens are longer than every token in use.\<close>

type_synonym demoNet = "(string \<times> bytes) list \<times> ((string \<times> string) \<times> (string \<times> updateRevisionReq)) list"

definition demo_token :: "demoNet \<Rightarrow> string" where
  "demo_token h = replicate (Suc (sum_list (map (length \<circ> fst) (fst h)))) (CHR ''x'')"

definition demo_api :: "demoNet uploadAPI" where
  "demo_api =
     \<lparr>ua_encrypt = \<lambda>h b. (Inr b, h), ua_signBlock = Inr, ua_armor = \<lambda>_. Inr ''sig'', ua_sha256 = id,
      ua_request = \<lambda>h q. (Inr [(''U'', demo_token h)], h),
      ua_upload = \<lambda>h u t x. (None, (AList.update t x (fst h), snd h)),
      ua_signManifest = Inr, ua_now = \<lambda>_. ''now'', ua_encXAttr = \<lambda>_. Inr ''xattr'',
      ua_updateRevision = \<lambda>h sh l r q. (None, (fst h, AList.update (sh, l) (r, q) (snd h))),
      ua_createRevision = \<lambda>h sh l. (Inr ''R2'', h), ua_verification = \<lambda>h sh l r. (Inr ''AAAA'', h)\<rparr>"

definition demo_view :: "demoNet serverView" where
  "demo_view = \<lparr>sv_stored = \<lambda>h. map_of (fst h), sv_active = \<lambda>h sh l. map_of (snd h) (sh, l)\<rparr>"

lemma demo_token_fresh: "map_of (fst h) (demo_token h) = None"
proof -
  have "length t < length (demo_token h)" if "t \<in> fst ` set (fst h)" for t
    using member_le_sum_list[of "length t" "map (length \<circ> fst) (fst h)"] that
    by (force simp: demo_token_def)
  then show ?thesis by (auto simp: map_of_eq_None_iff)
qed

lemma demo_server: "server_laws demo_api demo_view Inr"
  using demo_token_fresh by (fastforce simp: server_laws_def demo_api_def demo_view_def)

definition demo_handle :: fileHandle where
  "demo_handle = \<lparr>fh_LinkID = ''L'', fh_RevisionID = ''R'', fh_Blocks = [], fh_FileSize = 0, fh_ShareID = ''S'',
     fh_VolumeID = ''V'', fh_AddressID = ''A'', fh_SigAddr = ''a'', fh_VerificationCode = [1], fh_PriorXAttr = None\<rparr>"

definition demo_cloud :: "((string, bytes) gomap, demoNet) blockStore" where
  "demo_cloud = \<lparr>bs_bufCache = None, bs_cache = None, bs_net = ([], [])\<rparr>"

lemmas upload_eval = encryptAndUploadBlock_def blockStore_RequestUpload_def
  blockStore_UploadBlock_def objectCache_Write_def commitRevisionFromTokens_def demo_api_def demo_cloud_def
  demo_handle_def demo_token_def

theorem writer_commits_file_witness:
  "\<exists>w s1 w' s2. pw_run mem_diskv demo_api [(1, [3]), (0, [1, 2])] (NewProtonWriter demo_handle) demo_cloud = (None, w, s1) \<and>
     pw_Close demo_api w s1 = (None, w', s2) \<and>
     revision_is demo_api demo_view Inr (bs_net s2) (pw_uploadParams w') [[1, 2], [3 :: byte]]"
proof -
  let ?r = "pw_run mem_diskv demo_api [(1, [3]), (0, [1, 2])] (NewProtonWriter demo_handle) demo_cloud"
  have r1: "fst ?r = None"
    by (simp add: upload_eval pw_WriteBlock_def NewProtonWriter_def)
  have r2: "fst (pw_Close demo_api (fst (snd ?r)) (snd (snd ?r))) = None"
    by (simp add: upload_eval pw_WriteBlock_def NewProtonWriter_def pw_Close_def Let_def numeral_2_eq_2)
  obtain w s1 where e1: "?r = (None, w, s1)" using r1 by (metis prod.collapse)
  obtain w' s2 where e2: "pw_Close demo_api w s1 = (None, w', s2)" using r2 e1 by (metis prod.collapse fst_conv snd_conv)
  have o: "set [(1, [3 :: byte]), (0, [1, 2])] = {(int i, [[1, 2], [3]] ! i) |i. i < length [[1, 2], [3 :: byte]]}"
    by (auto simp: less_Suc_eq)
  from writer_commits_file[OF demo_server _ _ _ o e1 e2] e1 e2 show ?thesis by (auto simp: maxInt64_def)
qed

end
