(* ===== verification/FileDescriptor.thy ===== *)
theory FileDescriptor
  imports Upload
begin

text \<open>
  An open Drive file, \<^verbatim>\<open>api/drive/fd.go\<close> and \<^verbatim>\<open>api/drive/block.go\<close>: the descriptor's state, the
  block arithmetic, and the two strategies that turn a block index into plaintext.
\<close>

section \<open>Blocks\<close>

definition BlockSize :: int where "BlockSize = 4 * 1024 * 1024"

lemma BlockSize_pos [simp]: "0 < BlockSize" "BlockSize \<noteq> 0" "0 \<le> BlockSize"
  by (simp_all add: BlockSize_def)

text \<open>The addition is a 64-bit one and can wrap.\<close>

definition BlockCount :: "int \<Rightarrow> int" where
  "BlockCount sz = (if sz \<le> 0 then 0 else quot (wrap64 (sz + BlockSize - 1)) BlockSize)"

section \<open>The descriptor\<close>

datatype fdMode = fdRead | fdWrite

datatype readStrategy = encryptedReadStrategy | decryptedReadStrategy

text \<open>
  \<open>fd_reader\<close> is nil (\<open>None\<close>) for descriptors not made by \<^verbatim>\<open>OpenFD\<close>.  \<open>fd_inflight\<close> is the
  upload goroutines counted by the wait group, each with its block index and its copy of the
  block.
\<close>

record fileDescriptor =
  fd_linkID :: string
  fd_revisionID :: string
  fd_shareID :: string
  fd_blocks :: "pblock list"
  fd_offset :: int
  fd_fileSize :: int
  fd_closed :: bool
  fd_mode :: fdMode
  fd_reader :: "readStrategy option"
  fd_prefetchBlocks :: int
  fd_curBlock :: bytes
  fd_curIdx :: int
  fd_inflight :: "(int \<times> bytes) list"
  fd_tokens :: "(int, uploadedBlock) gomap"
  fd_firstErr :: "driveErr option"
  fd_volumeID :: string
  fd_addressID :: string
  fd_sigAddr :: string
  fd_verifyCode :: bytes
  fd_unixMode :: "32 word"
  fd_priorXAttr :: "revisionXAttr option"
  fd_isNew :: bool
  fd_committed :: bool

text \<open>
  What the descriptor calls outside the package: the disk store, the HTTP client, the session
  key's decryption, and the other goroutines (\<open>x_env n\<close> is the interference at the n-th point
  where the cache mutex is free).
\<close>

record ('dv, 'h) externals =
  x_disk :: "'dv diskv"
  x_http :: "'h httpClient"
  x_decrypt :: "bytes \<Rightarrow> string + bytes"
  x_env :: "nat \<Rightarrow> ('dv, 'h) blockStore \<Rightarrow> ('dv, 'h) blockStore"

text \<open>\<^verbatim>\<open>OpenFD\<close> from the file handle that \<^verbatim>\<open>OpenFile\<close> returns and the client's configuration;
  only the mode ``decrypted'' selects the decrypted strategy.\<close>

definition OpenFD :: "fileHandle \<Rightarrow> string \<Rightarrow> int \<Rightarrow> fileDescriptor" where
  "OpenFD fh blockCacheMode prefetchBlocks =
     \<lparr>fd_linkID = fh_LinkID fh, fd_revisionID = fh_RevisionID fh, fd_shareID = fh_ShareID fh,
      fd_blocks = fh_Blocks fh, fd_offset = 0, fd_fileSize = fh_FileSize fh, fd_closed = False, fd_mode = fdRead,
      fd_reader = Some (if blockCacheMode = ''decrypted'' then decryptedReadStrategy else encryptedReadStrategy),
      fd_prefetchBlocks = prefetchBlocks, fd_curBlock = [], fd_curIdx = 0, fd_inflight = [],
      fd_tokens = [], fd_firstErr = None, fd_volumeID = [], fd_addressID = [], fd_sigAddr = [],
      fd_verifyCode = [], fd_unixMode = 0, fd_priorXAttr = None, fd_isNew = False, fd_committed = False\<rparr>"

section \<open>Reading one block\<close>

definition decryptBlock :: "('dv, 'h) externals \<Rightarrow> bytes \<Rightarrow> driveErr + bytes" where
  "decryptBlock X encrypted = (case x_decrypt X encrypted of Inl e \<Rightarrow> Inl (DecryptErr e) | Inr m \<Rightarrow> Inr m)"

definition block_key :: "fileDescriptor \<Rightarrow> int \<Rightarrow> cacheKey" where
  "block_key fd apiIdx = \<lparr>ck_linkID = fd_linkID fd, ck_index = apiIdx\<rparr>"

definition fd_fetchDecrypt ::
    "('dv, 'h) externals \<Rightarrow> fileDescriptor \<Rightarrow> int \<Rightarrow> ('dv, 'h) blockStore
      \<Rightarrow> (driveErr + bytes) \<times> ('dv, 'h) blockStore" where
  "fd_fetchDecrypt X fd blockIdx s =
     (let pb = fd_blocks fd ! nat blockIdx
      in case fetchBlock (x_disk X) (x_http X) (fd_linkID fd) (blockIdx + 1) (pb_BareURL pb) (pb_Token pb) s of
           (Inl err, s') \<Rightarrow> (Inl err, s')
         | (Inr encrypted, s') \<Rightarrow> (decryptBlock X encrypted, s'))"

text \<open>
  \<^verbatim>\<open>prefetch\<close> reserves slots for the next blocks and returns the indices whose fetch goroutines it
  spawns; \<open>prefetch_task\<close> is the body of such a goroutine.  The encrypted strategy's prefetch
  only spawns goroutines (their body is \<^verbatim>\<open>GetBlock\<close>).
\<close>

definition fd_prefetch ::
    "fileDescriptor \<Rightarrow> int \<Rightarrow> ('dv, 'h) blockStore \<Rightarrow> int list \<times> ('dv, 'h) blockStore" where
  "fd_prefetch fd blockIdx s =
     (if fd_prefetchBlocks fd \<le> 0 then ([], s)
      else fold (\<lambda>idx (spawned, s).
             if bs_bufCache s = None then (spawned, s)
             else case store_Reserve (block_key fd (idx + 1)) s of
                    (True, s') \<Rightarrow> (spawned @ [idx], s')
                  | (False, s') \<Rightarrow> (spawned, s'))
           (takeWhile (\<lambda>idx. idx < int (length (fd_blocks fd)))
              (map (\<lambda>i. blockIdx + i) [1..fd_prefetchBlocks fd])) ([], s))"

definition prefetch_task ::
    "('dv, 'h) externals \<Rightarrow> fileDescriptor \<Rightarrow> int \<Rightarrow> ('dv, 'h) blockStore \<Rightarrow> ('dv, 'h) blockStore" where
  "prefetch_task X fd idx s =
     (case fd_fetchDecrypt X fd idx s of
        (Inl err, s') \<Rightarrow> store_PutError (block_key fd (idx + 1)) (Some err) s'
      | (Inr plain, s') \<Rightarrow> store_Put (block_key fd (idx + 1)) (Some plain) s')"

definition encrypted_prefetch :: "fileDescriptor \<Rightarrow> int \<Rightarrow> int list" where
  "encrypted_prefetch fd blockIdx =
     (if fd_prefetchBlocks fd \<le> 0 then []
      else takeWhile (\<lambda>idx. idx < int (length (fd_blocks fd)))
             (map (\<lambda>i. blockIdx + i) [1..fd_prefetchBlocks fd]))"

definition fd_getDecryptedBlock ::
    "('dv, 'h) externals \<Rightarrow> fileDescriptor \<Rightarrow> int \<Rightarrow> ('dv, 'h) blockStore
      \<Rightarrow> (bytes option \<times> driveErr option) \<times> ('dv, 'h) blockStore" where
  "fd_getDecryptedBlock X fd blockIdx s =
     (let fetch = fd_fetchDecrypt X fd blockIdx
      in if bs_bufCache s \<noteq> None then
           cached_fetch store_Get store_Reserve store_Put store_PutError (x_env X) fetch
             (block_key fd (blockIdx + 1)) s
         else (case fetch s of
                 (Inl e, s') \<Rightarrow> ((None, Some e), s')
               | (Inr x, s') \<Rightarrow> ((Some x, None), s')))"

text \<open>A Go pair \<^verbatim>\<open>([]byte, error)\<close> read by a caller that tests the error first.\<close>

definition check_err :: "bytes option \<times> driveErr option \<Rightarrow> driveErr + bytes" where
  "check_err r = (case snd r of Some e \<Rightarrow> Inl e | None \<Rightarrow> Inr (case fst r of None \<Rightarrow> [] | Some x \<Rightarrow> x))"

fun strategy_readBlock ::
    "readStrategy \<Rightarrow> ('dv, 'h) externals \<Rightarrow> fileDescriptor \<Rightarrow> int \<Rightarrow> ('dv, 'h) blockStore
      \<Rightarrow> (driveErr + bytes) \<times> ('dv, 'h) blockStore" where
  "strategy_readBlock encryptedReadStrategy X fd blockIdx s =
     (let pb = fd_blocks fd ! nat blockIdx;
          (r, s') = blockStore_GetBlock (x_disk X) (x_http X) (x_env X) (fd_linkID fd) (blockIdx + 1)
                      (pb_BareURL pb) (pb_Token pb) s
      in (case check_err r of Inl err \<Rightarrow> (Inl err, s') | Inr encrypted \<Rightarrow> (decryptBlock X encrypted, s')))"
| "strategy_readBlock decryptedReadStrategy X fd blockIdx s =
     (let (spawned, s1) = fd_prefetch fd blockIdx s;
          (r, s2) = fd_getDecryptedBlock X fd blockIdx s1
      in (check_err r, s2))"

text \<open>A negative index passes the range check and panics in the strategy.\<close>

definition fd_readBlock ::
    "('dv, 'h) externals \<Rightarrow> fileDescriptor \<Rightarrow> int \<Rightarrow> ('dv, 'h) blockStore
      \<Rightarrow> (driveErr + bytes) \<times> ('dv, 'h) blockStore" where
  "fd_readBlock X fd blockIdx s =
     (if blockIdx \<ge> int (length (fd_blocks fd))
        then (Inl (BlockOutOfRange blockIdx (int (length (fd_blocks fd)))), s)
      else if blockIdx < 0 then (Inl Panic, s)
      else strategy_readBlock
             (case fd_reader fd of None \<Rightarrow> decryptedReadStrategy | Some r \<Rightarrow> r) X fd blockIdx s)"

section \<open>Read, ReadAt, Seek\<close>

text \<open>
  The loops, over any block reader \<open>rd\<close>; a negative block index panics inside it, a negative
  offset into a block panics at the slice expression.  \<open>n\<close> is what is left of the caller's buffer, \<open>acc\<close> the
  bytes already copied into it.
\<close>

function read_loop ::
    "(int \<Rightarrow> 'w \<Rightarrow> (driveErr + bytes) \<times> 'w) \<Rightarrow> int \<Rightarrow> nat \<Rightarrow> int \<Rightarrow> bytes \<Rightarrow> 'w
      \<Rightarrow> driveErr option \<times> bytes \<times> int \<times> 'w" where
  "read_loop rd fileSize n offset acc w =
     (if 0 < n \<and> offset < fileSize then
        let blockIdx = quot offset BlockSize; blockOffset = rem offset BlockSize
        in (if blockIdx < 0 then (Some Panic, acc, offset, w)
            else case rd blockIdx w of
              (Inl err, w') \<Rightarrow>
                (if acc \<noteq> [] then (None, acc, offset, w')
                 else (Some (FdReadErr blockIdx err), [], offset, w'))
            | (Inr plain, w') \<Rightarrow>
                (if int (length plain) - blockOffset \<le> 0 then (None, acc, offset, w')
                 else if blockOffset < 0 then (Some Panic, acc, offset, w')
                 else let chunk = take n (drop (nat blockOffset) plain)
                      in read_loop rd fileSize (n - length chunk) (offset + int (length chunk)) (acc @ chunk) w'))
      else (None, acc, offset, w))"
  by pat_completeness auto
termination
  by (relation "measure (\<lambda>(rd, fs, n, off, acc, w). n)") auto

declare read_loop.simps [simp del]

definition fd_Read_with ::
    "(int \<Rightarrow> 'w \<Rightarrow> (driveErr + bytes) \<times> 'w) \<Rightarrow> nat \<Rightarrow> fileDescriptor \<Rightarrow> 'w
      \<Rightarrow> (bytes \<times> driveErr option) \<times> fileDescriptor \<times> 'w" where
  "fd_Read_with rd n fd w =
     (if n = 0 then (([], None), fd, w)
      else if fd_closed fd then (([], Some ErrClosed), fd, w)
      else if fd_offset fd \<ge> fd_fileSize fd then (([], Some EOF), fd, w)
      else let (err, acc, offset, w') = read_loop rd (fd_fileSize fd) n (fd_offset fd) [] w
           in (case err of
                 Some e \<Rightarrow> (([], Some e), fd, w')
               | None \<Rightarrow> if acc = [] then (([], Some EOF), fd, w')
                         else ((acc, None), fd\<lparr>fd_offset := offset\<rparr>, w')))"

definition fd_Read ::
    "('dv, 'h) externals \<Rightarrow> nat \<Rightarrow> fileDescriptor \<Rightarrow> ('dv, 'h) blockStore
      \<Rightarrow> (bytes \<times> driveErr option) \<times> fileDescriptor \<times> ('dv, 'h) blockStore" where
  "fd_Read X n fd s = fd_Read_with (fd_readBlock X fd) n fd s"

function readAt_loop ::
    "(int \<Rightarrow> 'w \<Rightarrow> (driveErr + bytes) \<times> 'w) \<Rightarrow> int \<Rightarrow> int \<Rightarrow> nat \<Rightarrow> int \<Rightarrow> bytes \<Rightarrow> 'w
      \<Rightarrow> driveErr option \<times> bytes \<times> 'w" where
  "readAt_loop rd nblocks fileSize n off acc w =
     (if 0 < n \<and> off < fileSize then
        let blockIdx = quot off BlockSize; blockOffset = rem off BlockSize
        in (if blockIdx \<ge> nblocks then (None, acc, w)
            else if blockIdx < 0 then (Some Panic, acc, w)
            else case rd blockIdx w of
              (Inl err, w') \<Rightarrow>
                (if acc \<noteq> [] then (Some err, acc, w')
                 else (Some (FdReadAtErr blockIdx err), [], w'))
            | (Inr plain, w') \<Rightarrow>
                (if int (length plain) - blockOffset \<le> 0 then (None, acc, w')
                 else if blockOffset < 0 then (Some Panic, acc, w')
                 else let chunk = take n (drop (nat blockOffset) plain)
                      in readAt_loop rd nblocks fileSize (n - length chunk) (off + int (length chunk)) (acc @ chunk) w'))
      else (None, acc, w))"
  by pat_completeness auto
termination
  by (relation "measure (\<lambda>(rd, nb, fs, n, off, acc, w). n)") auto

declare readAt_loop.simps [simp del]

definition fd_ReadAt_with ::
    "(int \<Rightarrow> 'w \<Rightarrow> (driveErr + bytes) \<times> 'w) \<Rightarrow> nat \<Rightarrow> int \<Rightarrow> fileDescriptor \<Rightarrow> 'w
      \<Rightarrow> (bytes \<times> driveErr option) \<times> 'w" where
  "fd_ReadAt_with rd n off fd w =
     (if n = 0 then (([], None), w)
      else if fd_closed fd then (([], Some ErrClosed), w)
      else if off \<ge> fd_fileSize fd then (([], Some EOF), w)
      else let (err, acc, w') = readAt_loop rd (int (length (fd_blocks fd))) (fd_fileSize fd) n off [] w
           in (case err of
                 Some e \<Rightarrow> ((acc, Some e), w')
               | None \<Rightarrow> if length acc < n then ((acc, Some EOF), w') else ((acc, None), w')))"

definition fd_ReadAt ::
    "('dv, 'h) externals \<Rightarrow> nat \<Rightarrow> int \<Rightarrow> fileDescriptor \<Rightarrow> ('dv, 'h) blockStore
      \<Rightarrow> (bytes \<times> driveErr option) \<times> ('dv, 'h) blockStore" where
  "fd_ReadAt X n off fd s = fd_ReadAt_with (fd_readBlock X fd) n off fd s"

text \<open>\<^verbatim>\<open>Seek\<close>; the origins are \<^verbatim>\<open>io.SeekStart\<close> 0, \<^verbatim>\<open>io.SeekCurrent\<close> 1, \<^verbatim>\<open>io.SeekEnd\<close> 2; the
  additions are 64-bit.\<close>

definition fd_Seek :: "int \<Rightarrow> int \<Rightarrow> fileDescriptor \<Rightarrow> (driveErr + int) \<times> fileDescriptor" where
  "fd_Seek offset whence fd =
     (if fd_closed fd then (Inl ErrClosed, fd)
      else let newOffset = (if whence = 0 then Some offset
                            else if whence = 1 then Some (wrap64 (fd_offset fd + offset))
                            else if whence = 2 then Some (wrap64 (fd_fileSize fd + offset))
                            else None)
           in (case newOffset of
                 None \<Rightarrow> (Inl ErrInvalid, fd)
               | Some no \<Rightarrow>
                   if no < 0 \<or> no > fd_fileSize fd then (Inl ErrInvalid, fd)
                   else (Inr no, fd\<lparr>fd_offset := no\<rparr>)))"

end
