(* ===== verification/FileRead.thy ===== *)
theory FileRead
  imports FileDescriptor
begin

text \<open>
  Reading an open file.  The two read strategies of \<^verbatim>\<open>api/drive/fd.go\<close> share one contract, the
  locale \<open>block_reader\<close>: a block index yields that block's plaintext or an error.  The loops of
  \<^verbatim>\<open>Read\<close> and \<^verbatim>\<open>ReadAt\<close> are proved against the contract once, and the contract is discharged
  for both strategies over the block store.
\<close>

section \<open>A file as its blocks\<close>

definition file_content :: "nat \<Rightarrow> (int \<Rightarrow> bytes) \<Rightarrow> bytes" where
  "file_content nb plain = concat (map (\<lambda>i. plain (int i)) [0..<nb])"

text \<open>The layout the service stores: every block but the last is full, the last is not empty,
  the recorded size is the sum.\<close>

definition well_laid :: "nat \<Rightarrow> (int \<Rightarrow> bytes) \<Rightarrow> int \<Rightarrow> bool" where
  "well_laid nb plain fileSize \<longleftrightarrow>
     (\<forall>i < nb. Suc i < nb \<longrightarrow> int (length (plain (int i))) = BlockSize) \<and>
     (\<forall>i < nb. 0 < length (plain (int i)) \<and> int (length (plain (int i))) \<le> BlockSize) \<and>
     fileSize = int (length (file_content nb plain))"

lemma drop_blocks:
  assumes "i \<le> nb" "\<And>j. j < i \<Longrightarrow> length (f j) = B"
  shows "drop (i * B) (concat (map f [0..<nb])) = concat (map f [i..<nb])"
  using assms
proof (induction i)
  case (Suc i)
  then have "drop (i * B) (concat (map f [0..<nb])) = f i @ concat (map f [Suc i..<nb])"
    by (simp add: upt_conv_Cons)
  then have "drop B (drop (i * B) (concat (map f [0..<nb]))) = concat (map f [Suc i..<nb])"
    using Suc.prems(2)[of i] by simp
  then show ?case by (simp add: add.commute)
qed simp

lemma length_blocks:
  assumes "\<And>j. j < i \<Longrightarrow> length (f j) = B"
  shows "length (concat (map f [0..<i])) = i * B"
  using assms by (induction i) auto

lemma length_blocks_le:
  assumes "\<And>j. j < i \<Longrightarrow> length (f j) \<le> B"
  shows "length (concat (map f [0..<i])) \<le> i * B"
  using assms
proof (induction i)
  case (Suc i)
  then have "length (concat (map f [0..<i])) \<le> i * B" "length (f i) \<le> B" by simp_all
  then show ?case by simp
qed simp

text \<open>An offset inside the file falls into an existing block, inside that block's data, and the
  file continues from there with the rest of the block.\<close>

lemma content_at:
  assumes wl: "well_laid nb plain fs" and off: "0 \<le> off" "off < fs"
  defines "q \<equiv> off div BlockSize" and "r \<equiv> nat (off mod BlockSize)"
  shows "0 \<le> q" "q < int nb" "r < length (plain q)"
    "\<exists>rest. drop (nat off) (file_content nb plain) = drop r (plain q) @ rest"
proof -
  define B where "B = nat BlockSize"
  define f where "f = (\<lambda>i. plain (int i))"
  define m where "m = nat off"
  have B: "int B = BlockSize" "0 < B" by (simp_all add: B_def)
  have m: "off = int m" "m < length (concat (map f [0..<nb]))"
    using off wl by (auto simp: m_def well_laid_def file_content_def f_def)
  have q: "q = int (m div B)" and r: "r = m mod B"
    unfolding q_def r_def m(1) B(1)[symmetric]
    by (simp_all add: zdiv_int zmod_int[symmetric])
  have full: "length (f j) = B" if "Suc j < nb" for j
  proof -
    have "int (length (f j)) = int B" using wl that by (simp add: well_laid_def f_def B)
    then show ?thesis by simp
  qed
  have le: "length (f j) \<le> B" if "j < nb" for j
    using wl that B by (auto simp: well_laid_def f_def)
  have "length (concat (map f [0..<nb])) \<le> nb * B" using le by (rule length_blocks_le)
  with m(2) have "m < nb * B" by simp
  then have qn: "m div B < nb" by (simp add: less_mult_imp_div_less)
  have d: "drop (m div B * B) (concat (map f [0..<nb])) = f (m div B) @ concat (map f [Suc (m div B)..<nb])"
    using drop_blocks[of "m div B" nb f B] full qn by (simp add: upt_conv_Cons)
  have m_eq: "m = m div B * B + m mod B" by simp
  have rl: "m mod B < length (f (m div B))"
  proof (cases "Suc (m div B) < nb")
    case True
    with full[OF True] B(2) show ?thesis by simp
  next
    case False
    with qn have nb: "nb = Suc (m div B)" by simp
    then have "length (concat (map f [0..<nb])) = m div B * B + length (f (m div B))"
      using length_blocks[of "m div B" f B] full by simp
    with m(2) m_eq show ?thesis by linarith
  qed
  have "drop m (concat (map f [0..<nb])) = drop (m mod B) (drop (m div B * B) (concat (map f [0..<nb])))"
    by (subst m_eq) (simp add: add.commute)
  also have "\<dots> = drop (m mod B) (f (m div B)) @ concat (map f [Suc (m div B)..<nb])"
    using rl by (simp add: d)
  finally have dm: "drop m (concat (map f [0..<nb])) =
      drop (m mod B) (f (m div B)) @ concat (map f [Suc (m div B)..<nb])" .
  show "0 \<le> q" "q < int nb" using qn by (simp_all add: q)
  show "r < length (plain q)" using rl by (simp add: q r f_def)
  show "\<exists>rest. drop (nat off) (file_content nb plain) = drop r (plain q) @ rest"
    using dm by (auto simp: q r f_def m(1) file_content_def)
qed

section \<open>The contract of a read strategy\<close>

locale block_reader =
  fixes rd :: "int \<Rightarrow> 'w \<Rightarrow> (driveErr + bytes) \<times> 'w"
    and inv :: "'w \<Rightarrow> bool"
    and nb :: nat
    and plain :: "int \<Rightarrow> bytes"
  assumes rd_inv: "inv w \<Longrightarrow> rd i w = (r, w') \<Longrightarrow> inv w'"
    and rd_data: "inv w \<Longrightarrow> 0 \<le> i \<Longrightarrow> i < int nb \<Longrightarrow> rd i w = (Inr b, w') \<Longrightarrow> b = plain i"

context block_reader
begin

lemma chunk_step:
  assumes wl: "well_laid nb plain fs" and off: "0 \<le> off" "off < fs" and w: "inv w"
    and rd: "rd (off div BlockSize) w = (Inr b, w')" and n: "0 < n"
  defines "chunk \<equiv> take n (drop (nat (off mod BlockSize)) b)"
  shows "inv w'" "0 < int (length b) - off mod BlockSize" "chunk \<noteq> []" "length chunk \<le> n"
    "chunk = take (length chunk) (drop (nat off) (file_content nb plain))"
    "off + int (length chunk) \<le> fs"
proof -
  note ca = content_at[OF wl off]
  have b: "b = plain (off div BlockSize)" using rd_data[OF w ca(1,2) rd] .
  have lt: "nat (off mod BlockSize) < length b" using ca(3) by (simp add: b)
  obtain rest where rest: "drop (nat off) (file_content nb plain) = drop (nat (off mod BlockSize)) b @ rest"
    using ca(4) b by blast
  show "inv w'" using rd_inv[OF w rd] .
  show "0 < int (length b) - off mod BlockSize" using lt by (simp add: nat_less_iff)
  show "chunk \<noteq> []" "length chunk \<le> n" using lt n by (simp_all add: chunk_def)
  show pre: "chunk = take (length chunk) (drop (nat off) (file_content nb plain))"
    by (simp add: chunk_def rest min_def)
  have "length chunk \<le> length (file_content nb plain) - nat off"
    using arg_cong[OF pre, of length] by simp
  then show "off + int (length chunk) \<le> fs" using off wl by (simp add: well_laid_def)
qed

text \<open>The loop of \<^verbatim>\<open>Read\<close>: what it adds is the file's content at the offset; a short result is
  due to an error of the block reader only.\<close>

definition never_fails :: bool where
  "never_fails \<longleftrightarrow> (\<forall>i w. inv w \<longrightarrow> 0 \<le> i \<longrightarrow> i < int nb \<longrightarrow> (\<exists>b w'. rd i w = (Inr b, w')))"

definition reads_from :: "int \<Rightarrow> int \<Rightarrow> nat \<Rightarrow> bytes \<Rightarrow> bytes \<Rightarrow> bool" where
  "reads_from fs off n acc acc' \<longleftrightarrow>
     (\<exists>bs. acc' = acc @ bs \<and> bs = take (length bs) (drop (nat off) (file_content nb plain)) \<and>
        length bs \<le> n \<and> off + int (length bs) \<le> fs)"

lemma reads_from_refl: "off \<le> fs \<Longrightarrow> reads_from fs off n acc acc"
  by (auto simp: reads_from_def)

lemma reads_from_step:
  assumes c: "c = take (length c) (drop (nat off) (file_content nb plain))" "length c \<le> n" "0 \<le> off"
    and r: "reads_from fs (off + int (length c)) (n - length c) (acc @ c) acc'"
  shows "reads_from fs off n acc acc'"
proof -
  obtain bs where bs: "acc' = (acc @ c) @ bs"
    "bs = take (length bs) (drop (nat (off + int (length c))) (file_content nb plain))"
    "length bs \<le> n - length c" "off + int (length c) + int (length bs) \<le> fs"
    using r unfolding reads_from_def by blast
  have nat: "nat (off + int (length c)) = length c + nat off" using c(3) by simp
  have "c @ bs = take (length c + length bs) (drop (nat off) (file_content nb plain))"
    unfolding take_add using c(1) bs(2) by (simp add: nat add.commute)
  moreover have "acc' = acc @ (c @ bs)" using bs(1) by simp
  moreover have "length (c @ bs) \<le> n" "off + int (length (c @ bs)) \<le> fs" using bs(3,4) c(2) by auto
  ultimately show ?thesis unfolding reads_from_def by (metis length_append)
qed

lemma read_loop_sound:
  assumes "well_laid nb plain fs" "0 \<le> off" "off \<le> fs" "inv w"
    "read_loop rd fs n off acc w = (e, acc', off', w')"
  shows "inv w' \<and> (case e of
      Some e \<Rightarrow> acc = [] \<and> \<not> never_fails \<and> (\<exists>i e'. e = FdReadErr i e')
    | None \<Rightarrow> reads_from fs off n acc acc' \<and> off' = off + int (length acc' - length acc) \<and>
        (never_fails \<longrightarrow> int (length acc' - length acc) = min (int n) (fs - off)))"
  using assms(2-5)
proof (induction n arbitrary: off acc w rule: less_induct)
  case (less n)
  note wl = assms(1) and prems = less.prems and run = less.prems(4)[unfolded read_loop.simps[of rd fs n off acc w]]
  show ?case
  proof (cases "0 < n \<and> off < fs")
    case False
    with run prems(1-3) show ?thesis by (auto simp: reads_from_refl)
  next
    case True
    then have n: "0 < n" and off: "0 \<le> off" "off < fs" using prems(1) by auto
    note ca = content_at(1,2)[OF wl off]
    obtain r w1 where rd: "rd (off div BlockSize) w = (r, w1)" by force
    show ?thesis
    proof (cases r)
      case (Inl err)
      have "\<not> never_fails" using prems(3) ca rd Inl by (fastforce simp: never_fails_def)
      moreover have "inv w1" using rd_inv[OF prems(3) rd] .
      ultimately show ?thesis
        using run True off rd Inl prems(2) ca by (auto simp: Let_def reads_from_refl split: if_splits)
    next
      case (Inr b)
      define chunk where "chunk = take n (drop (nat (off mod BlockSize)) b)"
      note cs = chunk_step[OF wl off prems(3) rd[unfolded Inr] n, folded chunk_def]
      have mod: "0 \<le> off mod BlockSize" by simp
      have run': "read_loop rd fs (n - length chunk) (off + int (length chunk)) (acc @ chunk) w1 = (e, acc', off', w')"
        using run True off rd Inr cs(2) mod ca by (auto simp: Let_def chunk_def split: if_splits)
      have "n - length chunk < n" using cs(3,4) n by (cases chunk) auto
      note IH = less.IH[OF this _ cs(6) cs(1) run']
      have "0 \<le> off + int (length chunk)" using off by simp
      note IH = IH[OF this]
      show ?thesis
      proof (cases e)
        case None
        with IH have r: "reads_from fs (off + int (length chunk)) (n - length chunk) (acc @ chunk) acc'" by simp
        then have len: "length (acc @ chunk) \<le> length acc'" by (auto simp: reads_from_def)
        have "reads_from fs off n acc acc'" by (rule reads_from_step[OF cs(5,4) off(1) r])
        with IH None len cs(4) show ?thesis by auto
      next
        case (Some e')
        with IH cs(3) show ?thesis by auto
      qed
    qed
  qed
qed

lemma Read_sound:
  assumes "well_laid nb plain (fd_fileSize fd)" "0 \<le> fd_offset fd" "inv w" "\<not> fd_closed fd" "0 < n"
    "fd_Read_with rd n fd w = ((bs, e), fd', w')"
  shows "inv w' \<and>
    (e = None \<longrightarrow> bs \<noteq> [] \<and> length bs \<le> n \<and>
       bs = take (length bs) (drop (nat (fd_offset fd)) (file_content nb plain)) \<and>
       fd' = fd\<lparr>fd_offset := fd_offset fd + int (length bs)\<rparr> \<and> fd_offset fd' \<le> fd_fileSize fd) \<and>
    (e \<noteq> None \<longrightarrow> bs = [] \<and> fd' = fd) \<and>
    (fd_fileSize fd \<le> fd_offset fd \<longrightarrow> e = Some EOF) \<and>
    (never_fails \<longrightarrow> fd_offset fd < fd_fileSize fd \<longrightarrow>
       e = None \<and> int (length bs) = min (int n) (fd_fileSize fd - fd_offset fd))"
proof (cases "fd_fileSize fd \<le> fd_offset fd")
  case True
  with assms show ?thesis by (auto simp: fd_Read_with_def)
next
  case False
  obtain err acc off w1 where l: "read_loop rd (fd_fileSize fd) n (fd_offset fd) [] w = (err, acc, off, w1)"
    by (metis prod_cases4)
  note sound = read_loop_sound[OF assms(1,2) _ assms(3) l]
  show ?thesis
  proof (cases err)
    case None
    with sound False have s: "inv w1" "off = fd_offset fd + int (length acc)" "length acc \<le> n"
      "acc = take (length acc) (drop (nat (fd_offset fd)) (file_content nb plain))"
      "fd_offset fd + int (length acc) \<le> fd_fileSize fd"
      "never_fails \<longrightarrow> int (length acc) = min (int n) (fd_fileSize fd - fd_offset fd)"
      by (auto simp: reads_from_def)
    show ?thesis
    proof (cases "acc = []")
      case True
      with assms(4-6) None False s show ?thesis by (auto simp: fd_Read_with_def l)
    next
      case ne: False
      with assms(4-6) None False have "bs = acc" "e = None" "w' = w1" "fd' = fd\<lparr>fd_offset := off\<rparr>"
        by (auto simp: fd_Read_with_def l)
      with ne s False show ?thesis by simp
    qed
  next
    case (Some e')
    with sound False assms(4-6) show ?thesis by (auto simp: fd_Read_with_def l)
  qed
qed

lemma take_exact:
  assumes "acc = take (length acc) xs" "length acc = min n (length xs)"
  shows "acc = take n xs"
proof -
  have "take (min n (length xs)) xs = take n xs" by (simp add: min_def)
  with assms show ?thesis by simp
qed

text \<open>The loop of \<^verbatim>\<open>ReadAt\<close> never stops early: without an error it delivers all there is.\<close>

lemma readAt_loop_sound:
  assumes "well_laid nb plain fs" "0 \<le> off" "off \<le> fs" "inv w"
    "readAt_loop rd (int nb) fs n off acc w = (e, acc', w')"
  shows "inv w' \<and> reads_from fs off n acc acc' \<and>
    (e = None \<longrightarrow> int (length acc' - length acc) = min (int n) (fs - off)) \<and>
    (e \<noteq> None \<longrightarrow> \<not> never_fails)"
  using assms(2-5)
proof (induction n arbitrary: off acc w rule: less_induct)
  case (less n)
  note wl = assms(1) and prems = less.prems and run = less.prems(4)[unfolded readAt_loop.simps[of rd "int nb" fs n off acc w]]
  show ?case
  proof (cases "0 < n \<and> off < fs")
    case False
    with run prems(1-3) show ?thesis by (auto simp: reads_from_refl)
  next
    case True
    then have n: "0 < n" and off: "0 \<le> off" "off < fs" using prems(1) by auto
    note ca = content_at(1,2)[OF wl off]
    obtain r w1 where rd: "rd (off div BlockSize) w = (r, w1)" by force
    show ?thesis
    proof (cases r)
      case (Inl err)
      have "\<not> never_fails" using prems(3) ca rd Inl by (fastforce simp: never_fails_def)
      moreover have "inv w1" using rd_inv[OF prems(3) rd] .
      ultimately show ?thesis
        using run True off rd Inl prems(2) ca by (auto simp: Let_def reads_from_refl split: if_splits)
    next
      case (Inr b)
      define chunk where "chunk = take n (drop (nat (off mod BlockSize)) b)"
      note cs = chunk_step[OF wl off prems(3) rd[unfolded Inr] n, folded chunk_def]
      have mod: "0 \<le> off mod BlockSize" by simp
      have run': "readAt_loop rd (int nb) fs (n - length chunk) (off + int (length chunk)) (acc @ chunk) w1 = (e, acc', w')"
        using run True off rd Inr cs(2) mod ca by (auto simp: Let_def chunk_def split: if_splits)
      have "n - length chunk < n" using cs(3,4) n by (cases chunk) auto
      note IH = less.IH[OF this _ cs(6) cs(1) run']
      have "0 \<le> off + int (length chunk)" using off by simp
      note IH = IH[OF this]
      then have r: "reads_from fs (off + int (length chunk)) (n - length chunk) (acc @ chunk) acc'" by simp
      then have len: "length (acc @ chunk) \<le> length acc'" by (auto simp: reads_from_def)
      have "reads_from fs off n acc acc'" by (rule reads_from_step[OF cs(5,4) off(1) r])
      with IH len cs(4) show ?thesis by auto
    qed
  qed
qed

lemma ReadAt_sound:
  assumes "well_laid nb plain (fd_fileSize fd)" "0 \<le> off" "inv w" "\<not> fd_closed fd" "0 < n"
    "length (fd_blocks fd) = nb" "fd_ReadAt_with rd n off fd w = ((bs, e), w')"
  shows "inv w' \<and> bs = take (length bs) (drop (nat off) (file_content nb plain)) \<and> length bs \<le> n \<and>
    (e = None \<longrightarrow> length bs = n) \<and>
    (never_fails \<longrightarrow> bs = take n (drop (nat off) (file_content nb plain)) \<and>
       e = (if off + int n \<le> fd_fileSize fd then None else Some EOF))"
proof (cases "fd_fileSize fd \<le> off")
  case True
  with assms show ?thesis by (auto simp: fd_ReadAt_with_def well_laid_def)
next
  case False
  obtain err acc w1 where l: "readAt_loop rd (int nb) (fd_fileSize fd) n off [] w = (err, acc, w1)"
    by (metis prod_cases3)
  note sound = readAt_loop_sound[OF assms(1,2) _ assms(3) l]
  have s: "inv w1" "acc = take (length acc) (drop (nat off) (file_content nb plain))" "length acc \<le> n"
    "off + int (length acc) \<le> fd_fileSize fd"
    "err = None \<Longrightarrow> int (length acc) = min (int n) (fd_fileSize fd - off)"
    "err \<noteq> None \<Longrightarrow> \<not> never_fails"
    using sound False by (auto simp: reads_from_def)
  show ?thesis
  proof (cases err)
    case (Some e')
    with s assms(4-7) False show ?thesis by (auto simp: fd_ReadAt_with_def l)
  next
    case None
    have fs: "fd_fileSize fd = int (length (file_content nb plain))" using assms(1) by (simp add: well_laid_def)
    have bs: "bs = acc" "w' = w1" "e = (if length acc < n then Some EOF else None)"
      using assms(4-7) False None by (auto simp: fd_ReadAt_with_def l split: if_splits)
    have len: "int (length acc) = min (int n) (fd_fileSize fd - off)" using s(5) None .
    have "length acc = min n (length (drop (nat off) (file_content nb plain)))"
      using len False assms(2) by (simp add: fs)
    then have all: "acc = take n (drop (nat off) (file_content nb plain))"
      by (rule take_exact[OF s(2)])
    have e: "e = (if off + int n \<le> fd_fileSize fd then None else Some EOF)"
      using bs(3) len by auto
    have full: "e = None \<Longrightarrow> length bs = n" using bs(3) s(3) by (simp add: bs(1) split: if_splits)
    from s(1,2,3) all e full show ?thesis unfolding bs(1,2) by blast
  qed
qed

end

section \<open>Both strategies over the block store meet the contract\<close>

text \<open>
  \<open>ciphers\<close>: a stored or served body decrypts, for a block of this file, to that block's plaintext;
  \<open>plains\<close>: a cached plaintext is that block's plaintext.  Blocks of other files are not constrained.
\<close>

definition of_file :: "fileDescriptor \<Rightarrow> cacheKey \<Rightarrow> bool" where
  "of_file fd k \<longleftrightarrow> ck_linkID k = fd_linkID fd \<and> 1 \<le> ck_index k \<and> ck_index k \<le> int (length (fd_blocks fd))"

definition ciphers :: "('dv, 'h) externals \<Rightarrow> fileDescriptor \<Rightarrow> (int \<Rightarrow> bytes) \<Rightarrow> cacheKey \<Rightarrow> bytes \<Rightarrow> bool" where
  "ciphers X fd plain k x \<longleftrightarrow> (of_file fd k \<longrightarrow> x_decrypt X x = Inr (plain (ck_index k - 1)))"

definition plains :: "fileDescriptor \<Rightarrow> (int \<Rightarrow> bytes) \<Rightarrow> cacheKey \<Rightarrow> bytes \<Rightarrow> bool" where
  "plains fd plain k x \<longleftrightarrow> (of_file fd k \<longrightarrow> x = plain (ck_index k - 1))"

text \<open>What the service and the disk promise, and what the other goroutines must not break.\<close>

definition served :: "('dv, 'h) externals \<Rightarrow> fileDescriptor \<Rightarrow> (int \<Rightarrow> bytes) \<Rightarrow> bool" where
  "served X fd plain \<longleftrightarrow> diskv_laws (x_disk X) \<and>
     (\<forall>i < length (fd_blocks fd). http_serves (x_http X) (pb_BareURL (fd_blocks fd ! i)) (pb_Token (fd_blocks fd ! i))
        (ciphers X fd plain (block_key fd (int i + 1))))"

definition enc_inv :: "('dv, 'h) externals \<Rightarrow> fileDescriptor \<Rightarrow> (int \<Rightarrow> bytes) \<Rightarrow> ('dv, 'h) blockStore \<Rightarrow> bool" where
  "enc_inv X fd plain s \<longleftrightarrow> served X fd plain \<and>
     (let I = store_holds (x_disk X) (ciphers X fd plain) (ciphers X fd plain)
      in (\<forall>n c. I c \<longrightarrow> I (x_env X n c)) \<and> I s)"

definition dec_inv :: "('dv, 'h) externals \<Rightarrow> fileDescriptor \<Rightarrow> (int \<Rightarrow> bytes) \<Rightarrow> ('dv, 'h) blockStore \<Rightarrow> bool" where
  "dec_inv X fd plain s \<longleftrightarrow> served X fd plain \<and>
     (let I = store_holds (x_disk X) (ciphers X fd plain) (plains fd plain)
      in (\<forall>n c. I c \<longrightarrow> I (x_env X n c)) \<and> I s)"

abbreviation with_reader :: "readStrategy \<Rightarrow> fileDescriptor \<Rightarrow> fileDescriptor" where
  "with_reader r fd \<equiv> fd\<lparr>fd_reader := Some r\<rparr>"

lemma served_http:
  assumes "served X fd plain" "0 \<le> i" "i < int (length (fd_blocks fd))"
  shows "http_serves (x_http X) (pb_BareURL (fd_blocks fd ! nat i)) (pb_Token (fd_blocks fd ! nat i))
    (ciphers X fd plain \<lparr>ck_linkID = fd_linkID fd, ck_index = i + 1\<rparr>)"
proof -
  from assms(2,3) have "nat i < length (fd_blocks fd)" "int (nat i) = i" by auto
  with assms(1) show ?thesis unfolding served_def block_key_def by metis
qed

lemma ciphers_block:
  "0 \<le> i \<Longrightarrow> i < int (length (fd_blocks fd)) \<Longrightarrow>
   ciphers X fd plain \<lparr>ck_linkID = fd_linkID fd, ck_index = i + 1\<rparr> x \<longleftrightarrow> x_decrypt X x = Inr (plain i)"
  by (simp add: ciphers_def of_file_def)

lemma decryptBlock_cipher: "x_decrypt X x = Inr p \<Longrightarrow> decryptBlock X x = Inr p"
  by (simp add: decryptBlock_def)

lemma enc_readBlock:
  assumes inv: "enc_inv X fd plain s" and i: "0 \<le> i" "i < int (length (fd_blocks fd))"
    and run: "strategy_readBlock encryptedReadStrategy X fd i s = (r, s')"
  shows "enc_inv X fd plain s'" "r = Inr b \<Longrightarrow> b = plain i"
proof -
  let ?C = "ciphers X fd plain"
  obtain d e s1 where g: "blockStore_GetBlock (x_disk X) (x_http X) (x_env X) (fd_linkID fd) (i + 1)
      (pb_BareURL (fd_blocks fd ! nat i)) (pb_Token (fd_blocks fd ! nat i)) s = ((d, e), s1)"
    by (metis surj_pair)
  have sv: "served X fd plain" using inv by (simp add: enc_inv_def)
  have sound: "store_holds (x_disk X) ?C ?C s1 \<and>
      (\<forall>x. d = Some x \<longrightarrow> ?C \<lparr>ck_linkID = fd_linkID fd, ck_index = i + 1\<rparr> x) \<and> (d \<noteq> None \<or> e \<noteq> None)"
    by (rule GetBlock_holds[where C = ?C, OF _ _ _ served_http[OF sv i] g])
      (use inv in \<open>auto simp: enc_inv_def served_def Let_def\<close>)
  have s': "s' = s1" and r: "r = (case check_err (d, e) of Inl err \<Rightarrow> Inl err | Inr x \<Rightarrow> decryptBlock X x)"
    using run by (auto simp: g Let_def split: sum.splits)
  show "enc_inv X fd plain s'" using inv sound s' by (simp add: enc_inv_def Let_def)
  assume "r = Inr b"
  with r sound obtain x where "d = Some x" "decryptBlock X x = Inr b"
    by (cases d; cases e) (auto simp: check_err_def)
  with sound show "b = plain i" by (simp add: ciphers_block[OF i] decryptBlock_cipher)
qed

lemma strategy_irrelevant [simp]:
  "enc_inv X (with_reader r fd) plain = enc_inv X fd plain"
  "dec_inv X (with_reader r fd) plain = dec_inv X fd plain"
  by (simp_all add: fun_eq_iff enc_inv_def dec_inv_def served_def ciphers_def[abs_def] plains_def[abs_def]
      of_file_def[abs_def] block_key_def)

interpretation enc: block_reader "fd_readBlock X (with_reader encryptedReadStrategy fd)"
    "enc_inv X fd plain" "length (fd_blocks fd)" plain for X fd plain
proof (standard, goal_cases)
  case (1 w i r w')
  then show ?case
    using enc_readBlock(1)[of X "with_reader encryptedReadStrategy fd" plain w i r w']
    by (auto simp: fd_readBlock_def split: if_splits)
next
  case (2 w i b w')
  then show ?case
    using enc_readBlock(2)[of X "with_reader encryptedReadStrategy fd" plain w i "Inr b" w' b]
    by (auto simp: fd_readBlock_def split: if_splits)
qed

text \<open>The decrypted strategy: the fetch decrypts, the buffer cache holds plaintext.\<close>

lemma fetchDecrypt_holds:
  assumes sv: "served X fd plain" and i: "0 \<le> i" "i < int (length (fd_blocks fd))"
    and h: "store_holds (x_disk X) (ciphers X fd plain) (plains fd plain) s"
    and run: "fd_fetchDecrypt X fd i s = (r, s')"
  shows "store_holds (x_disk X) (ciphers X fd plain) (plains fd plain) s' \<and>
    (\<forall>p. r = Inr p \<longrightarrow> p = plain i)"
proof -
  obtain r1 s1 where f: "fetchBlock (x_disk X) (x_http X) (fd_linkID fd) (i + 1)
      (pb_BareURL (fd_blocks fd ! nat i)) (pb_Token (fd_blocks fd ! nat i)) s = (r1, s1)" by force
  have D: "diskv_laws (x_disk X)" using sv by (simp add: served_def)
  note fh = fetchBlock_holds[OF D h served_http[OF sv i] f]
  show ?thesis
  proof (cases r1)
    case (Inl e)
    with fh(1) run show ?thesis by (auto simp: fd_fetchDecrypt_def f)
  next
    case (Inr x)
    with fh(2)[OF Inr] have "x_decrypt X x = Inr (plain i)" by (simp add: ciphers_block[OF i])
    with fh(1) run Inr show ?thesis by (auto simp: fd_fetchDecrypt_def f decryptBlock_cipher)
  qed
qed

lemma plains_block:
  "0 \<le> i \<Longrightarrow> i < int (length (fd_blocks fd)) \<Longrightarrow> plains fd plain (block_key fd (i + 1)) x \<longleftrightarrow> x = plain i"
  by (simp add: plains_def of_file_def block_key_def)

lemma prefetch_holds:
  assumes "store_holds D C P s"
  shows "store_holds D C P (snd (fd_prefetch fd i s))"
proof -
  have "store_holds D C P (snd (fold (\<lambda>idx (spawned, s).
      if bs_bufCache s = None then (spawned, s)
      else case store_Reserve (block_key fd (idx + 1)) s of
             (True, s') \<Rightarrow> (spawned @ [idx], s')
           | (False, s') \<Rightarrow> (spawned, s')) xs (sp, s)))" for xs sp
    using assms
  proof (induction xs arbitrary: sp s)
    case (Cons x xs)
    obtain b s1 where r: "store_Reserve (block_key fd (x + 1)) s = (b, s1)" by force
    have "store_holds D C P s1" using store.reserve_holds[OF Cons.prems r] .
    then show ?case using Cons.IH Cons.prems by (cases b) (auto simp: r)
  qed simp
  with assms show ?thesis by (simp add: fd_prefetch_def)
qed

text \<open>The prefetch goroutines themselves keep the store in order, so they may be part of
  the interference.\<close>

lemma prefetch_task_holds:
  assumes "served X fd plain" "0 \<le> i" "i < int (length (fd_blocks fd))"
    "store_holds (x_disk X) (ciphers X fd plain) (plains fd plain) s"
  shows "store_holds (x_disk X) (ciphers X fd plain) (plains fd plain) (prefetch_task X fd i s)"
proof -
  obtain r s1 where f: "fd_fetchDecrypt X fd i s = (r, s1)" by force
  from fetchDecrypt_holds[OF assms f] show ?thesis
    using store.put_holds[where P = "plains fd plain" and s = s1 and k = "block_key fd (i + 1)"]
      store.put_error_holds[where P = "plains fd plain" and s = s1]
    by (auto simp: prefetch_task_def f plains_block[OF assms(2,3)] split: sum.split)
qed

lemma getDecryptedBlock_holds:
  assumes inv: "dec_inv X fd plain s" and i: "0 \<le> i" "i < int (length (fd_blocks fd))"
    and run: "fd_getDecryptedBlock X fd i s = ((d, e), s')"
  shows "dec_inv X fd plain s' \<and> (\<forall>x. d = Some x \<longrightarrow> x = plain i) \<and> (d \<noteq> None \<or> e \<noteq> None)"
proof -
  let ?I = "store_holds (x_disk X) (ciphers X fd plain) (plains fd plain)"
  have sv: "served X fd plain" and h: "?I s" and env: "\<And>n c. ?I c \<Longrightarrow> ?I (x_env X n c)"
    using inv by (auto simp: dec_inv_def Let_def)
  have "?I s' \<and> (\<forall>x. d = Some x \<longrightarrow> x = plain i) \<and> (d \<noteq> None \<or> e \<noteq> None)"
  proof (cases "bs_bufCache s = None")
    case True
    obtain r s1 where f: "fd_fetchDecrypt X fd i s = (r, s1)" by force
    from fetchDecrypt_holds[OF sv i h f] run show ?thesis
      by (cases r) (auto simp: fd_getDecryptedBlock_def True f)
  next
    case False
    then have run': "cached_fetch store_Get store_Reserve store_Put store_PutError (x_env X)
        (fd_fetchDecrypt X fd i) (block_key fd (i + 1)) s = ((d, e), s')"
      using run by (simp add: fd_getDecryptedBlock_def Let_def)
    have "?I s' \<and> (\<forall>x. d = Some x \<longrightarrow> plains fd plain (block_key fd (i + 1)) x) \<and> (d \<noteq> None \<or> e \<noteq> None)"
      by (rule store.cached_fetch_sound[OF h _ _ _ run'])
        (use env fetchDecrypt_holds[OF sv i] plains_block[OF i] in blast)+
    then show ?thesis by (simp add: plains_block[OF i])
  qed
  then show ?thesis using inv by (simp add: dec_inv_def Let_def)
qed

lemma dec_readBlock:
  assumes inv: "dec_inv X fd plain s" and i: "0 \<le> i" "i < int (length (fd_blocks fd))"
    and run: "strategy_readBlock decryptedReadStrategy X fd i s = (r, s')"
  shows "dec_inv X fd plain s'" "r = Inr b \<Longrightarrow> b = plain i"
proof -
  obtain sp s1 where p: "fd_prefetch fd i s = (sp, s1)" by force
  have inv1: "dec_inv X fd plain s1"
    using inv prefetch_holds[of "x_disk X" "ciphers X fd plain" "plains fd plain" s fd i] p
    by (simp add: dec_inv_def Let_def)
  obtain d e s2 where g: "fd_getDecryptedBlock X fd i s1 = ((d, e), s2)" by (metis surj_pair)
  note sound = getDecryptedBlock_holds[OF inv1 i g]
  show "dec_inv X fd plain s'" using run sound by (simp add: p g)
  assume "r = Inr b"
  then show "b = plain i" using run sound by (cases d; cases e) (auto simp: p g check_err_def)
qed

interpretation dec: block_reader "fd_readBlock X (with_reader decryptedReadStrategy fd)"
    "dec_inv X fd plain" "length (fd_blocks fd)" plain for X fd plain
proof (standard, goal_cases)
  case (1 w i r w')
  then show ?case
    using dec_readBlock(1)[of X "with_reader decryptedReadStrategy fd" plain w i r w']
    by (auto simp: fd_readBlock_def split: if_splits)
next
  case (2 w i b w')
  then show ?case
    using dec_readBlock(2)[of X "with_reader decryptedReadStrategy fd" plain w i "Inr b" w' b]
    by (auto simp: fd_readBlock_def split: if_splits)
qed

section \<open>Properties\<close>

text \<open>A reader in one of the two modes, in a world that serves the file.\<close>

definition reader_ready :: "('dv, 'h) externals \<Rightarrow> fileDescriptor \<Rightarrow> (int \<Rightarrow> bytes) \<Rightarrow> ('dv, 'h) blockStore \<Rightarrow> bool" where
  "reader_ready X fd plain s \<longleftrightarrow>
     well_laid (length (fd_blocks fd)) plain (fd_fileSize fd) \<and> \<not> fd_closed fd \<and>
     (fd_reader fd = Some encryptedReadStrategy \<and> enc_inv X fd plain s \<or>
      fd_reader fd = Some decryptedReadStrategy \<and> dec_inv X fd plain s)"

lemma with_reader_same: "fd_reader fd = Some r \<Longrightarrow> with_reader r fd = fd"
  by simp



text \<open>A one-block file for the witnesses.\<close>

definition demo_fd :: fileDescriptor where
  "demo_fd = OpenFD
     (demo_handle\<lparr>fh_Blocks := [\<lparr>pb_BareURL = ''U'', pb_Token = ''T''\<rparr>], fh_FileSize := 3\<rparr>) ''decrypted'' 2"

definition demo_X :: "((string, bytes) gomap, nat) externals" where
  "demo_X = \<lparr>x_disk = mem_diskv, x_http = demo_http, x_decrypt = Inr, x_env = (\<lambda>_ c. c)\<rparr>"

lemma demo_ready: "reader_ready demo_X demo_fd (\<lambda>_. [1, 2, 3]) demo_store"
proof -
  have "http_serves demo_http ''U'' ''T'' (ciphers demo_X demo_fd (\<lambda>_. [1, 2, 3]) k)" for k
    using demo_http_serves by (auto simp: http_serves_def ciphers_def demo_X_def)
  then show ?thesis
    by (auto simp: reader_ready_def well_laid_def file_content_def demo_fd_def OpenFD_def demo_handle_def BlockSize_def
        dec_inv_def served_def demo_X_def mem_diskv_laws demo_store_holds Let_def)
qed

lemma demo_readBlock: "\<exists>s. fd_readBlock demo_X demo_fd 0 demo_store = (Inr [1, 2, 3], s)"
  by (simp add: fd_readBlock_def demo_fd_def OpenFD_def demo_handle_def demo_X_def fd_prefetch_def upto.simps
      fd_getDecryptedBlock_def fd_fetchDecrypt_def decryptBlock_def check_err_def block_key_def
      store_eval cache_eval Let_def)



lemma wrap64_sum:
  assumes "0 \<le> x" "x \<le> maxInt64" "- (2 ^ 63) \<le> d" "d \<le> maxInt64"
  shows "wrap64 (x + d) = x + d \<or> wrap64 (x + d) < 0"
proof (cases "x + d \<le> maxInt64")
  case True
  with assms show ?thesis by simp
next
  case False
  with wrap64_over[of "x + d"] assms show ?thesis by (simp add: maxInt64_def)
qed

lemma fd_Seek_to:
  assumes "\<not> fd_closed fd"
    and "no = (if whence = 0 then d else if whence = 1 then wrap64 (fd_offset fd + d) else wrap64 (fd_fileSize fd + d))"
    and "whence = 0 \<or> whence = 1 \<or> whence = 2"
  shows "fd_Seek d whence fd = (if no < 0 \<or> no > fd_fileSize fd then (Inl ErrInvalid, fd) else (Inr no, fd\<lparr>fd_offset := no\<rparr>))"
  using assms(3) by (elim disjE) (simp_all add: fd_Seek_def assms(1,2) Let_def)

lemma fd_Seek_other:
  assumes "fd_closed fd \<or> \<not> (whence = 0 \<or> whence = 1 \<or> whence = 2)"
  shows "\<exists>e. fd_Seek d whence fd = (Inl e, fd)"
  using assms by (auto simp: fd_Seek_def)

text \<open>
  \<^verbatim>\<open>Seek\<close> keeps the offset inside the file.  A successful \<^verbatim>\<open>Seek\<close> lands in [0, size], changes
  nothing but the offset, and for an offset inside the file and a delta that stays inside computes
  the target without wrap-around; any other request, a closed descriptor and an unknown origin
  leave the descriptor unchanged.
\<close>

theorem seek_in_bounds:
  assumes "0 \<le> fd_offset fd" "fd_offset fd \<le> fd_fileSize fd" "fd_fileSize fd \<le> maxInt64"
    "- (2 ^ 63) \<le> d" "d \<le> maxInt64" "fd_Seek d whence fd = (r, fd')"
  shows "0 \<le> fd_offset fd' \<and> fd_offset fd' \<le> fd_fileSize fd' \<and> fd' = fd\<lparr>fd_offset := fd_offset fd'\<rparr> \<and>
    (case r of Inl _ \<Rightarrow> fd' = fd | Inr p \<Rightarrow> p = fd_offset fd' \<and> \<not> fd_closed fd \<and>
       p = (if whence = 0 then d else if whence = 1 then fd_offset fd + d else fd_fileSize fd + d)) \<and>
    (whence = 1 \<and> \<not> fd_closed fd \<and> 0 \<le> fd_offset fd + d \<and> fd_offset fd + d \<le> fd_fileSize fd \<longrightarrow>
       r = Inr (fd_offset fd + d))"
proof (cases "\<not> fd_closed fd \<and> (whence = 0 \<or> whence = 1 \<or> whence = 2)")
  case False
  then obtain e where "fd_Seek d whence fd = (Inl e, fd)" using fd_Seek_other by blast
  with assms(6) have "r = Inl e" "fd' = fd" by simp_all
  with False assms(1,2) show ?thesis by auto
next
  case True
  define no where "no = (if whence = 0 then d else if whence = 1 then wrap64 (fd_offset fd + d) else wrap64 (fd_fileSize fd + d))"
  have run: "(r, fd') = (if no < 0 \<or> no > fd_fileSize fd then (Inl ErrInvalid, fd) else (Inr no, fd\<lparr>fd_offset := no\<rparr>))"
    using fd_Seek_to[OF _ no_def] True assms(6) by simp
  have ex: "no < 0 \<or> no = (if whence = 0 then d else if whence = 1 then fd_offset fd + d else fd_fileSize fd + d)"
    using wrap64_sum[of "fd_offset fd" d] wrap64_sum[of "fd_fileSize fd" d] assms(1-5)
    unfolding no_def by (auto split: if_splits)
  have w1: "whence = 1 \<and> 0 \<le> fd_offset fd + d \<and> fd_offset fd + d \<le> fd_fileSize fd \<Longrightarrow> no = fd_offset fd + d"
    using assms(3) unfolding no_def by simp
  show ?thesis
  proof (cases "no < 0 \<or> no > fd_fileSize fd")
    case bad: True
    with run have "r = Inl ErrInvalid" "fd' = fd" by simp_all
    with bad w1 assms(1,2) show ?thesis by auto
  next
    case good: False
    with run have "r = Inr no" "fd' = fd\<lparr>fd_offset := no\<rparr>" by simp_all
    with good ex True w1 show ?thesis by auto
  qed
qed

theorem seek_in_bounds_witness: "fd_Seek 1 1 (demo_fd\<lparr>fd_offset := 1\<rparr>) = (Inr 2, demo_fd\<lparr>fd_offset := 2\<rparr>)"
proof -
  have o: "fd_fileSize demo_fd = 3" "\<not> fd_closed demo_fd" by (simp_all add: demo_fd_def OpenFD_def demo_handle_def)
  have m: "(3 :: int) \<le> maxInt64" "(1 :: int) \<le> maxInt64" by (simp_all add: maxInt64_def)
  obtain r fd' where run: "fd_Seek 1 1 (demo_fd\<lparr>fd_offset := 1\<rparr>) = (r, fd')" by force
  from seek_in_bounds[OF _ _ _ _ _ run] o m have "r = Inr 2" "fd' = (demo_fd\<lparr>fd_offset := 1\<rparr>)\<lparr>fd_offset := 2\<rparr>"
    by auto
  with run show ?thesis by simp
qed

text \<open>
  \<^verbatim>\<open>BlockCount\<close> is the ceiling of size over block size for every size up to 2^63 - BlockSize, so
  the last block is never empty and never too long; beyond that the 64-bit addition wraps and the
  count comes out negative.
\<close>

theorem blockCount_ceiling:
  assumes "0 < sz" "sz \<le> maxInt64"
  shows "(sz \<le> 2 ^ 63 - BlockSize \<longrightarrow>
      0 < BlockCount sz \<and> (BlockCount sz - 1) * BlockSize < sz \<and> sz \<le> BlockCount sz * BlockSize) \<and>
    (2 ^ 63 - BlockSize < sz \<longrightarrow> BlockCount sz < 0)"
proof (intro conjI impI)
  assume le: "sz \<le> 2 ^ 63 - BlockSize"
  let ?q = "(sz + BlockSize - 1) div BlockSize"
  have "sz + BlockSize - 1 \<le> maxInt64" "- (2 ^ 63) \<le> sz + BlockSize - 1"
    using assms(1) le by (simp_all add: BlockSize_def maxInt64_def)
  then have c: "BlockCount sz = ?q"
    using assms(1) by (simp add: BlockCount_def quot_def) (simp add: BlockSize_def sgn_if)
  have e: "sz + BlockSize - 1 = ?q * BlockSize + (sz + BlockSize - 1) mod BlockSize" by simp
  have b: "0 \<le> (sz + BlockSize - 1) mod BlockSize" "(sz + BlockSize - 1) mod BlockSize < BlockSize"
    by (simp_all add: BlockSize_def)
  from e b have "?q * BlockSize - BlockSize < sz" "sz \<le> ?q * BlockSize" by linarith+
  then show "(BlockCount sz - 1) * BlockSize < sz" "sz \<le> BlockCount sz * BlockSize"
    unfolding c by (simp_all only: left_diff_distrib mult_1)
  show "0 < BlockCount sz" unfolding c using assms(1) by (simp add: pos_imp_zdiv_pos_iff)
next
  assume big: "2 ^ 63 - BlockSize < sz"
  have "maxInt64 < sz + BlockSize - 1" "sz + BlockSize - 1 < 2 ^ 63 + 2 ^ 64"
    using big assms(2) by (simp_all add: maxInt64_def BlockSize_def)
  then have "wrap64 (sz + BlockSize - 1) = sz + BlockSize - 1 - 2 ^ 64" by (rule wrap64_over)
  moreover have "quot x BlockSize < 0" if "x \<le> - BlockSize" for x
  proof -
    have "0 < \<bar>x\<bar> div \<bar>BlockSize\<bar>" using that by (simp add: pos_imp_zdiv_pos_iff BlockSize_def)
    moreover have "x < 0" using that by (simp add: BlockSize_def)
    ultimately show ?thesis by (simp add: quot_def)
  qed
  ultimately show "BlockCount sz < 0"
    using assms big by (simp add: BlockCount_def maxInt64_def BlockSize_def)
qed

theorem blockCount_ceiling_witness: "0 < BlockCount 5 \<and> BlockCount 9223372036854775807 < 0"
  using blockCount_ceiling[of 5] blockCount_ceiling[of 9223372036854775807]
  by (simp add: maxInt64_def BlockSize_def)

end
