(* ===== verification/FileWrite.thy ===== *)
theory FileWrite
  imports FileRead
begin

text \<open>
  Writing a Drive file through a descriptor, \<^verbatim>\<open>api/drive/fd.go\<close>: blocks are filled in order and
  handed to upload goroutines, whose results \<^verbatim>\<open>Flush\<close> waits for and commits.
\<close>

section \<open>Constructors\<close>

definition newWriteFD :: "fileHandle \<Rightarrow> fileDescriptor" where
  "newWriteFD fh =
     \<lparr>fd_linkID = fh_LinkID fh, fd_revisionID = fh_RevisionID fh, fd_shareID = fh_ShareID fh,
      fd_blocks = [], fd_offset = 0, fd_fileSize = 0, fd_closed = False, fd_mode = fdWrite,
      fd_reader = None, fd_prefetchBlocks = 0, fd_curBlock = [], fd_curIdx = 0, fd_inflight = [],
      fd_tokens = [], fd_firstErr = None, fd_volumeID = fh_VolumeID fh, fd_addressID = fh_AddressID fh,
      fd_sigAddr = fh_SigAddr fh, fd_verifyCode = fh_VerificationCode fh, fd_unixMode = 0,
      fd_priorXAttr = fh_PriorXAttr fh, fd_isNew = False, fd_committed = False\<rparr>"

text \<open>\<open>created\<close> is the outcome of \<^verbatim>\<open>CreateFile\<close>, \<open>statErr\<close> of the \<^verbatim>\<open>StatLink\<close> of the new file; the
  second component tells whether the parent's cached children were dropped.\<close>

definition CreateFD :: "string + fileHandle \<Rightarrow> string option \<Rightarrow> (string + fileDescriptor) \<times> bool" where
  "CreateFD created statErr =
     (case created of
        Inl err \<Rightarrow> (Inl err, False)
      | Inr fh \<Rightarrow> (case statErr of
          Some err \<Rightarrow> (Inl err, True)
        | None \<Rightarrow> (Inr ((newWriteFD fh)\<lparr>fd_isNew := True\<rparr>), True)))"

definition OverwriteFD ::
    "'dv diskv \<Rightarrow> string + fileHandle \<Rightarrow> string \<Rightarrow> int \<Rightarrow> ('dv, 'h) blockStore
      \<Rightarrow> (string + fileDescriptor) \<times> ('dv, 'h) blockStore" where
  "OverwriteFD D opened linkID oldSize s =
     (case opened of
        Inl err \<Rightarrow> (Inl err, s)
      | Inr fh \<Rightarrow>
          let s' = (if oldSize > 0
                    then blockStore_Invalidate D linkID (quot (wrap64 (oldSize + BlockSize - 1)) BlockSize) s
                    else s)
          in (Inr (newWriteFD fh), s'))"

section \<open>Upload goroutines\<close>

definition fd_uploadParams :: "fileDescriptor \<Rightarrow> uploadParams" where
  "fd_uploadParams fd =
     \<lparr>up_verifyCode = fd_verifyCode fd, up_addressID = fd_addressID fd, up_volumeID = fd_volumeID fd,
      up_shareID = fd_shareID fd, up_linkID = fd_linkID fd, up_revisionID = fd_revisionID fd,
      up_sigAddr = fd_sigAddr fd, up_unixMode = fd_unixMode fd, up_symlink = False,
      up_priorXAttr = fd_priorXAttr fd\<rparr>"

definition fd_flushBlock :: "int \<Rightarrow> bytes \<Rightarrow> fileDescriptor \<Rightarrow> fileDescriptor" where
  "fd_flushBlock index data fd = fd\<lparr>fd_inflight := fd_inflight fd @ [(index, data)]\<rparr>"

definition fd_setFirstErr :: "driveErr \<Rightarrow> fileDescriptor \<Rightarrow> fileDescriptor" where
  "fd_setFirstErr err fd = (if fd_firstErr fd = None then fd\<lparr>fd_firstErr := Some err\<rparr> else fd)"

text \<open>The body of the n-th goroutine in flight, and \<^verbatim>\<open>inflight.Wait()\<close>, with the order in which the
  goroutines finish given by \<open>sched\<close> (each entry picks one of those left).\<close>

definition upload_done ::
    "'dv diskv \<Rightarrow> 'h uploadAPI \<Rightarrow> nat \<Rightarrow> fileDescriptor \<Rightarrow> ('dv, 'h) blockStore
      \<Rightarrow> fileDescriptor \<times> ('dv, 'h) blockStore" where
  "upload_done D A n fd s =
     (if fd_inflight fd = [] then (fd, s)
      else let m = n mod length (fd_inflight fd);
               (index, block) = fd_inflight fd ! m;
               fd1 = fd\<lparr>fd_inflight := take m (fd_inflight fd) @ drop (Suc m) (fd_inflight fd)\<rparr>
           in (case encryptAndUploadBlock D A (fd_uploadParams fd1) (index + 1) block s of
                 (Inl err, s') \<Rightarrow> (fd_setFirstErr err fd1, s')
               | (Inr ub, s') \<Rightarrow> (fd1\<lparr>fd_tokens := AList.update index ub (fd_tokens fd1)\<rparr>, s')))"

fun fd_wait_n ::
    "nat \<Rightarrow> 'dv diskv \<Rightarrow> 'h uploadAPI \<Rightarrow> nat list \<Rightarrow> fileDescriptor \<Rightarrow> ('dv, 'h) blockStore
      \<Rightarrow> fileDescriptor \<times> ('dv, 'h) blockStore" where
  "fd_wait_n 0 D A sched fd s = (fd, s)"
| "fd_wait_n (Suc k) D A sched fd s =
     (let (fd', s') = upload_done D A (case sched of [] \<Rightarrow> 0 | n # _ \<Rightarrow> n) fd s
      in fd_wait_n k D A (tl sched) fd' s')"

definition fd_wait ::
    "'dv diskv \<Rightarrow> 'h uploadAPI \<Rightarrow> nat list \<Rightarrow> fileDescriptor \<Rightarrow> ('dv, 'h) blockStore
      \<Rightarrow> fileDescriptor \<times> ('dv, 'h) blockStore" where
  "fd_wait D A sched fd s = fd_wait_n (length (fd_inflight fd)) D A sched fd s"

section \<open>Write and WriteAt\<close>

function fd_write_loop :: "bytes \<Rightarrow> fileDescriptor \<Rightarrow> driveErr option \<times> fileDescriptor" where
  "fd_write_loop p fd =
     (if p = [] then (None, fd)
      else let space = BlockSize - int (length (fd_curBlock fd)) in
        if space < 0 then (Some Panic, fd)
        else let chunk = min (length p) (nat space);
                 fd1 = fd\<lparr>fd_curBlock := fd_curBlock fd @ take chunk p,
                          fd_fileSize := wrap64 (fd_fileSize fd + int chunk)\<rparr>;
                 fd2 = (if int (length (fd_curBlock fd1)) = BlockSize
                        then (fd_flushBlock (fd_curIdx fd1) (fd_curBlock fd1) fd1)
                               \<lparr>fd_curBlock := [], fd_curIdx := fd_curIdx fd1 + 1\<rparr>
                        else fd1)
             in fd_write_loop (drop chunk p) fd2)"
  by pat_completeness auto
termination
proof (relation "measure (\<lambda>(p, fd). 2 * length p + (if int (length (fd_curBlock fd)) = BlockSize then 1 else 0))",
    goal_cases)
  case (2 p fd sp chunk fd1 fd2)
  show ?case
  proof (cases "sp = 0")
    case True
    with 2 show ?thesis by (auto simp: BlockSize_def)
  next
    case False
    with 2 have "0 < chunk" "chunk \<le> length p" by auto
    with 2(5,6) show ?thesis by (auto simp: fd_flushBlock_def)
  qed
qed simp

declare fd_write_loop.simps [simp del]

definition fd_Write :: "bytes \<Rightarrow> fileDescriptor \<Rightarrow> (driveErr + int) \<times> fileDescriptor" where
  "fd_Write p fd =
     (if p = [] then (Inr 0, fd)
      else if fd_closed fd then (Inl ErrClosed, fd)
      else if fd_mode fd \<noteq> fdWrite then (Inl EBADF, fd)
      else (case fd_write_loop p fd of
              (Some e, fd') \<Rightarrow> (Inl e, fd')
            | (None, fd') \<Rightarrow> (Inr (int (length p)), fd')))"

lemma rem_less: "rem a BlockSize < BlockSize"
proof (cases "0 \<le> a")
  case False
  then have "rem a BlockSize = - ((- a) mod BlockSize)"
    by (simp add: rem_def quot_def minus_mult_div_eq_mod [symmetric])
  moreover have "0 \<le> (- a) mod BlockSize" by (rule pos_mod_sign) simp
  moreover have "0 < BlockSize" by simp
  ultimately show ?thesis by linarith
qed (simp add: pos_mod_bound)

text \<open>A negative offset into the block panics at the slice expression.\<close>

function fd_writeAt_loop :: "bytes \<Rightarrow> int \<Rightarrow> fileDescriptor \<Rightarrow> driveErr option \<times> fileDescriptor" where
  "fd_writeAt_loop p off fd =
     (if p = [] then (None, fd)
      else let targetIdx = quot off BlockSize; blockOff = rem off BlockSize;
               fd1 = (if targetIdx \<noteq> fd_curIdx fd
                      then (if fd_curBlock fd \<noteq> [] then fd_flushBlock (fd_curIdx fd) (fd_curBlock fd) fd else fd)
                             \<lparr>fd_curBlock := [], fd_curIdx := targetIdx\<rparr>
                      else fd);
               cur = (if blockOff > int (length (fd_curBlock fd1))
                      then fd_curBlock fd1 @ replicate (nat blockOff - length (fd_curBlock fd1)) 0
                      else fd_curBlock fd1);
               chunk = min (length p) (nat (BlockSize - blockOff))
           in if blockOff < 0 then (Some Panic, fd1\<lparr>fd_curBlock := cur\<rparr>)
              else let cur' = take (nat blockOff) cur @ take chunk p @ drop (nat blockOff + chunk) cur;
                       off' = wrap64 (off + int chunk);
                       fd2 = fd1\<lparr>fd_curBlock := cur', fd_fileSize := max (fd_fileSize fd1) off'\<rparr>;
                       fd3 = (if int (length cur') = BlockSize
                              then (fd_flushBlock (fd_curIdx fd2) cur' fd2)
                                     \<lparr>fd_curBlock := [], fd_curIdx := fd_curIdx fd2 + 1\<rparr>
                              else fd2)
                   in fd_writeAt_loop (drop chunk p) off' fd3)"
  by pat_completeness auto
termination
proof (relation "measure (\<lambda>(p, off, fd). length p)", goal_cases)
  case (2 p off fd targetIdx blockOff fd1 cur chunk cur' off' fd2 fd3)
  have "0 < BlockSize - blockOff" using rem_less[of off] 2(3) by simp
  then have "0 < chunk" using 2(1,6) by simp
  with 2(1) show ?case by simp
qed simp

declare fd_writeAt_loop.simps [simp del]

definition fd_WriteAt :: "bytes \<Rightarrow> int \<Rightarrow> fileDescriptor \<Rightarrow> (driveErr + int) \<times> fileDescriptor" where
  "fd_WriteAt p off fd =
     (if p = [] then (Inr 0, fd)
      else if fd_closed fd then (Inl ErrClosed, fd)
      else if fd_mode fd \<noteq> fdWrite then (Inl EBADF, fd)
      else (case fd_writeAt_loop p off fd of
              (Some e, fd') \<Rightarrow> (Inl e, fd')
            | (None, fd') \<Rightarrow> (Inr (int (length p)), fd')))"

section \<open>Flush, Close, Sync\<close>

definition fd_commitRevision ::
    "'h uploadAPI \<Rightarrow> fileDescriptor \<Rightarrow> ('dv, 'h) blockStore \<Rightarrow> driveErr option \<times> ('dv, 'h) blockStore" where
  "fd_commitRevision A fd s = commitRevisionFromTokens A (fd_uploadParams fd) (fd_tokens fd) True s"

text \<open>The second component tells whether the link and its parent's cached children were dropped
  from the client's tables.\<close>

definition fd_Flush ::
    "'dv diskv \<Rightarrow> 'h uploadAPI \<Rightarrow> nat list \<Rightarrow> fileDescriptor \<Rightarrow> ('dv, 'h) blockStore
      \<Rightarrow> driveErr option \<times> bool \<times> fileDescriptor \<times> ('dv, 'h) blockStore" where
  "fd_Flush D A sched fd s =
     (let hasCurBlock = fd_curBlock fd \<noteq> [];
          fd1 = (if hasCurBlock then (fd_flushBlock (fd_curIdx fd) (fd_curBlock fd) fd)\<lparr>fd_curBlock := []\<rparr> else fd)
      in if fd_mode fd \<noteq> fdWrite then (None, False, fd1, s)
         else let (fd2, s2) = fd_wait D A sched fd1 s
              in (case fd_firstErr fd2 of
                    Some err \<Rightarrow> (Some err, False, fd2, s2)
                  | None \<Rightarrow>
                      let firstCommitOfNewFile = fd_isNew fd2 \<and> \<not> fd_committed fd2
                      in if fd_tokens fd2 = [] \<and> \<not> hasCurBlock \<and> \<not> firstCommitOfNewFile then (None, False, fd2, s2)
                         else (case fd_commitRevision A fd2 s2 of
                           (Some err, s3) \<Rightarrow> (Some err, False, fd2, s3)
                         | (None, s3) \<Rightarrow> (None, True, fd2\<lparr>fd_committed := True, fd_tokens := []\<rparr>, s3))))"

definition fd_Close ::
    "'dv diskv \<Rightarrow> 'h uploadAPI \<Rightarrow> nat list \<Rightarrow> fileDescriptor \<Rightarrow> ('dv, 'h) blockStore
      \<Rightarrow> driveErr option \<times> bool \<times> fileDescriptor \<times> ('dv, 'h) blockStore" where
  "fd_Close D A sched fd s =
     (if fd_closed fd then (None, False, fd, s) else fd_Flush D A sched (fd\<lparr>fd_closed := True\<rparr>) s)"

definition fd_Sync ::
    "'dv diskv \<Rightarrow> 'h uploadAPI \<Rightarrow> nat list \<Rightarrow> fileDescriptor \<Rightarrow> ('dv, 'h) blockStore
      \<Rightarrow> driveErr option \<times> fileDescriptor \<times> ('dv, 'h) blockStore" where
  "fd_Sync D A sched fd s =
     (if fd_closed fd then (Some ErrClosed, fd, s)
      else if fd_mode fd \<noteq> fdWrite then (Some EBADF, fd, s)
      else let fd1 = (if fd_curBlock fd \<noteq> []
                      then (fd_flushBlock (fd_curIdx fd) (fd_curBlock fd) fd)\<lparr>fd_curBlock := []\<rparr> else fd);
               (fd2, s2) = fd_wait D A sched fd1 s
           in (case fd_firstErr fd2 of
                 Some err \<Rightarrow> (Some err, fd2, s2)
               | None \<Rightarrow>
                   if fd_tokens fd2 = [] then (None, fd2, s2)
                   else (case fd_commitRevision A fd2 s2 of
                     (Some err, s3) \<Rightarrow> (Some err, fd2, s3)
                   | (None, s3) \<Rightarrow>
                       (case ua_createRevision A (bs_net s3) (fd_shareID fd2) (fd_linkID fd2) of
                          (Inl err, h) \<Rightarrow> (Some (SyncRevisionErr err), fd2, s3\<lparr>bs_net := h\<rparr>)
                        | (Inr resID, h) \<Rightarrow>
                            (case ua_verification A h (fd_shareID fd2) (fd_linkID fd2) resID of
                               (Inl err, h') \<Rightarrow> (Some (SyncVerificationErr err), fd2, s3\<lparr>bs_net := h'\<rparr>)
                             | (Inr code, h') \<Rightarrow>
                                 (case b64_decode code of
                                    None \<Rightarrow> (Some SyncDecodeErr, fd2, s3\<lparr>bs_net := h'\<rparr>)
                                  | Some verifyCode \<Rightarrow>
                                      (None, fd2\<lparr>fd_revisionID := resID, fd_verifyCode := verifyCode, fd_curIdx := 0,
                                                 fd_curBlock := [], fd_tokens := [], fd_firstErr := None\<rparr>,
                                       s3\<lparr>bs_net := h'\<rparr>)))))))"

definition fd_Truncate :: "int \<Rightarrow> fileDescriptor \<Rightarrow> driveErr option \<times> fileDescriptor" where
  "fd_Truncate sz fd =
     (if fd_closed fd then (Some ErrClosed, fd)
      else if fd_mode fd \<noteq> fdWrite then (Some EBADF, fd)
      else (None, fd\<lparr>fd_fileSize := sz\<rparr>))"

definition fd_SetMode :: "32 word \<Rightarrow> fileDescriptor \<Rightarrow> fileDescriptor" where
  "fd_SetMode mode fd = fd\<lparr>fd_unixMode := mode\<rparr>"

definition fd_hasTokens :: "fileDescriptor \<Rightarrow> bool" where
  "fd_hasTokens fd \<longleftrightarrow> 0 < length (fd_tokens fd)"

section \<open>The upload invariant\<close>

text \<open>The blocks submitted so far are each either in flight, or uploaded, or lost to an error that
  is recorded.\<close>

definition uploads ::
    "'h uploadAPI \<Rightarrow> 'h serverView \<Rightarrow> (bytes \<Rightarrow> string + bytes) \<Rightarrow> bytes list \<Rightarrow> fileDescriptor
      \<Rightarrow> ('dv, 'h) blockStore \<Rightarrow> bool" where
  "uploads A V dec chunks fd s \<longleftrightarrow>
     distinct (map fst (fd_inflight fd) @ keys (fd_tokens fd)) \<and>
     (\<forall>i. i \<in> set (map fst (fd_inflight fd) @ keys (fd_tokens fd)) \<longrightarrow> 0 \<le> i \<and> nat i < length chunks) \<and>
     (\<forall>n. fd_firstErr fd = None \<and> n < length chunks \<longrightarrow>
        int n \<in> set (map fst (fd_inflight fd) @ keys (fd_tokens fd))) \<and>
     (\<forall>i b. (i, b) \<in> set (fd_inflight fd) \<longrightarrow> b = chunks ! nat i) \<and>
     (\<forall>i ub. (i, ub) \<in> set (fd_tokens fd) \<longrightarrow> block_stored A V dec (bs_net s) (chunks ! nat i) ub)"

lemma uploadsI:
  assumes "distinct (map fst (fd_inflight fd) @ keys (fd_tokens fd))"
    "\<And>i. i \<in> set (map fst (fd_inflight fd) @ keys (fd_tokens fd)) \<Longrightarrow> 0 \<le> i \<and> nat i < length chunks"
    "\<And>n. fd_firstErr fd = None \<Longrightarrow> n < length chunks \<Longrightarrow> int n \<in> set (map fst (fd_inflight fd) @ keys (fd_tokens fd))"
    "\<And>i b. (i, b) \<in> set (fd_inflight fd) \<Longrightarrow> b = chunks ! nat i"
    "\<And>i ub. (i, ub) \<in> set (fd_tokens fd) \<Longrightarrow> block_stored A V dec (bs_net s) (chunks ! nat i) ub"
  shows "uploads A V dec chunks fd s"
  unfolding uploads_def using assms by blast

lemma uploadsD:
  assumes "uploads A V dec chunks fd s"
  shows "distinct (map fst (fd_inflight fd) @ keys (fd_tokens fd))"
    "i \<in> set (map fst (fd_inflight fd) @ keys (fd_tokens fd)) \<Longrightarrow> 0 \<le> i \<and> nat i < length chunks"
    "fd_firstErr fd = None \<Longrightarrow> n < length chunks \<Longrightarrow> int n \<in> set (map fst (fd_inflight fd) @ keys (fd_tokens fd))"
    "(i, b) \<in> set (fd_inflight fd) \<Longrightarrow> b = chunks ! nat i"
    "(i, ub) \<in> set (fd_tokens fd) \<Longrightarrow> block_stored A V dec (bs_net s) (chunks ! nat i) ub"
  using assms unfolding uploads_def by blast+

lemma uploads_submit:
  assumes u: "uploads A V dec chunks fd s"
  shows "uploads A V dec (chunks @ [b]) (fd_flushBlock (int (length chunks)) b fd) s"
proof (rule uploadsI)
  let ?fd = "fd_flushBlock (int (length chunks)) b fd"
  have f: "fd_inflight ?fd = fd_inflight fd @ [(int (length chunks), b)]" "fd_tokens ?fd = fd_tokens fd"
    "fd_firstErr ?fd = fd_firstErr fd" by (simp_all add: fd_flushBlock_def)
  have new: "int (length chunks) \<notin> set (map fst (fd_inflight fd) @ keys (fd_tokens fd))"
    using uploadsD(2)[OF u, of "int (length chunks)"] by (metis less_irrefl nat_int)
  have old: "(chunks @ [b]) ! nat i = chunks ! nat i"
    if "i \<in> set (map fst (fd_inflight fd) @ keys (fd_tokens fd))" for i
    using uploadsD(2)[OF u that] by (simp add: nth_append)
  show "distinct (map fst (fd_inflight ?fd) @ keys (fd_tokens ?fd))"
    using uploadsD(1)[OF u] new by (auto simp: f)
  show "0 \<le> i \<and> nat i < length (chunks @ [b])"
    if "i \<in> set (map fst (fd_inflight ?fd) @ keys (fd_tokens ?fd))" for i
    using uploadsD(2)[OF u, of i] that by (cases "i = int (length chunks)") (auto simp: f)
  show "int n \<in> set (map fst (fd_inflight ?fd) @ keys (fd_tokens ?fd))"
    if "fd_firstErr ?fd = None" "n < length (chunks @ [b])" for n
    using uploadsD(3)[OF u, of n] that by (cases "n = length chunks") (auto simp: f)
  show "c = (chunks @ [b]) ! nat i" if "(i, c) \<in> set (fd_inflight ?fd)" for i c
  proof (cases "(i, c) \<in> set (fd_inflight fd)")
    case True
    then have "i \<in> set (map fst (fd_inflight fd) @ keys (fd_tokens fd))" by force
    with uploadsD(4)[OF u True] old show ?thesis by simp
  next
    case False
    with that show ?thesis by (simp add: f nth_append)
  qed
  show "block_stored A V dec (bs_net s) ((chunks @ [b]) ! nat i) ub" if "(i, ub) \<in> set (fd_tokens ?fd)" for i ub
  proof -
    from that have t: "(i, ub) \<in> set (fd_tokens fd)" by (simp add: f)
    then have "i \<in> set (map fst (fd_inflight fd) @ keys (fd_tokens fd))" by force
    with uploadsD(5)[OF u t] old show ?thesis by simp
  qed
qed

lemma upload_done_at:
  assumes "fd_inflight fd = l @ (i, b) # r" "n mod length (fd_inflight fd) = length l"
  shows "upload_done D A n fd s =
    (case encryptAndUploadBlock D A (fd_uploadParams (fd\<lparr>fd_inflight := l @ r\<rparr>)) (i + 1) b s of
       (Inl err, s') \<Rightarrow> (fd_setFirstErr err (fd\<lparr>fd_inflight := l @ r\<rparr>), s')
     | (Inr ub, s') \<Rightarrow> (fd\<lparr>fd_inflight := l @ r, fd_tokens := AList.update i ub (fd_tokens fd)\<rparr>, s'))"
proof -
  have "fd_inflight fd ! length l = (i, b)" "take (length l) (fd_inflight fd) @ drop (Suc (length l)) (fd_inflight fd) = l @ r"
    "fd_inflight fd \<noteq> []"
    unfolding assms(1) by simp_all
  then show ?thesis
    unfolding upload_done_def Let_def assms(2) by (simp split del: if_split split: sum.splits prod.splits)
qed

lemma upload_done_cases:
  assumes "upload_done D A n fd s = (fd', s')"
  obtains (idle) "fd_inflight fd = []" "fd' = fd" "s' = s"
  | (failed) l i b r err p where "fd_inflight fd = l @ (i, b) # r"
      "encryptAndUploadBlock D A p (i + 1) b s = (Inl err, s')"
      "fd' = fd_setFirstErr err (fd\<lparr>fd_inflight := l @ r\<rparr>)"
  | (stored) l i b r ub p where "fd_inflight fd = l @ (i, b) # r"
      "encryptAndUploadBlock D A p (i + 1) b s = (Inr ub, s')"
      "fd' = fd\<lparr>fd_inflight := l @ r, fd_tokens := AList.update i ub (fd_tokens fd)\<rparr>"
proof (cases "fd_inflight fd = []")
  case True
  from assms True have "fd' = fd" "s' = s" by (simp_all add: upload_done_def)
  with True show ?thesis by (rule idle)
next
  case False
  define m where "m = n mod length (fd_inflight fd)"
  have m: "m < length (fd_inflight fd)" using False by (simp add: m_def)
  obtain i b where ib: "fd_inflight fd ! m = (i, b)" by force
  define l r where "l = take m (fd_inflight fd)" and "r = drop (Suc m) (fd_inflight fd)"
  have sp: "fd_inflight fd = l @ (i, b) # r"
    unfolding l_def r_def ib[symmetric] by (rule id_take_nth_drop[OF m])
  have ml: "n mod length (fd_inflight fd) = length l" using m by (simp add: l_def m_def)
  obtain res s1 where e: "encryptAndUploadBlock D A (fd_uploadParams (fd\<lparr>fd_inflight := l @ r\<rparr>)) (i + 1) b s = (res, s1)"
    by force
  note d = assms[unfolded upload_done_at[OF sp ml] e prod.case]
  show ?thesis
  proof (cases res)
    case (Inl err)
    with d have "fd' = fd_setFirstErr err (fd\<lparr>fd_inflight := l @ r\<rparr>)" "s1 = s'" by simp_all
    with failed[OF sp] e Inl show ?thesis by blast
  next
    case (Inr ub)
    with d have "fd' = fd\<lparr>fd_inflight := l @ r, fd_tokens := AList.update i ub (fd_tokens fd)\<rparr>" "s1 = s'" by simp_all
    with stored[OF sp] e Inr show ?thesis by blast
  qed
qed

lemma upload_done_other:
  assumes "upload_done D A n fd s = (fd', s')"
  shows "length (fd_inflight fd') = length (fd_inflight fd) - 1 \<and>
    fd' = fd\<lparr>fd_inflight := fd_inflight fd', fd_tokens := fd_tokens fd', fd_firstErr := fd_firstErr fd'\<rparr>"
  using assms by (cases rule: upload_done_cases) (simp_all add: fd_setFirstErr_def)

lemma uploads_done:
  assumes laws: "server_laws A V dec" and u: "uploads A V dec chunks fd s"
    and run: "upload_done D A n fd s = (fd', s')"
  shows "uploads A V dec chunks fd' s'"
  using run
proof (cases rule: upload_done_cases)
  case idle
  with u show ?thesis by simp
next
  case (failed l i b r err p)
  have f: "fd_inflight fd' = l @ r" "fd_tokens fd' = fd_tokens fd" "fd_firstErr fd' \<noteq> None"
    by (auto simp: failed(3) fd_setFirstErr_def)
  have d: "distinct (map fst (l @ r) @ keys (fd_tokens fd))" using uploadsD(1)[OF u] by (auto simp: failed(1))
  show ?thesis
    using uploadsD(2,4,5)[OF u] upload_block(2)[OF laws failed(2)] d f(3)
    by (intro uploadsI) (auto simp: f failed(1))
next
  case (stored l i b r ub p)
  have "i \<notin> set (keys (fd_tokens fd))" using uploadsD(1)[OF u] by (simp add: stored(1))
  then have fresh: "map_of (fd_tokens fd) i = None" by (simp add: map_of_eq_None_iff)
  have f: "fd_inflight fd' = l @ r" "fd_tokens fd' = fd_tokens fd @ [(i, ub)]" "fd_firstErr fd' = fd_firstErr fd"
    by (simp_all add: stored(3) update_fresh[OF fresh])
  have d: "distinct (map fst (l @ r) @ i # keys (fd_tokens fd))" using uploadsD(1)[OF u] by (auto simp: stored(1))
  have b: "b = chunks ! nat i" by (rule uploadsD(4)[OF u]) (simp add: stored(1))
  show ?thesis
  proof (rule uploadsI)
    show "distinct (map fst (fd_inflight fd') @ keys (fd_tokens fd'))" using d by (auto simp: f)
    show "0 \<le> k \<and> nat k < length chunks" if "k \<in> set (map fst (fd_inflight fd') @ keys (fd_tokens fd'))" for k
      using uploadsD(2)[OF u, of k] that by (auto simp: f stored(1))
    show "int n \<in> set (map fst (fd_inflight fd') @ keys (fd_tokens fd'))"
      if "fd_firstErr fd' = None" "n < length chunks" for n
      using uploadsD(3)[OF u, of n] that by (auto simp: f stored(1))
    show "c = chunks ! nat k" if "(k, c) \<in> set (fd_inflight fd')" for k c
      using uploadsD(4)[OF u, of k c] that by (auto simp: f stored(1))
    show "block_stored A V dec (bs_net s') (chunks ! nat k) ub'" if "(k, ub') \<in> set (fd_tokens fd')" for k ub'
    proof (cases "(k, ub') \<in> set (fd_tokens fd)")
      case True
      from upload_block(2)[OF laws stored(2) uploadsD(5)[OF u True]] show ?thesis .
    next
      case False
      with that have "k = i" "ub' = ub" by (simp_all add: f)
      with upload_block(1)[OF laws stored(2)] b show ?thesis by simp
    qed
  qed
qed

lemma fd_wait_n_uploads:
  assumes "server_laws A V dec" "uploads A V dec chunks fd s" "fd_wait_n k D A sched fd s = (fd', s')"
    "length (fd_inflight fd) \<le> k"
  shows "uploads A V dec chunks fd' s' \<and> fd_inflight fd' = [] \<and>
    fd' = fd\<lparr>fd_inflight := [], fd_tokens := fd_tokens fd', fd_firstErr := fd_firstErr fd'\<rparr>"
  using assms(2-4)
proof (induction k arbitrary: sched fd s)
  case 0
  then show ?case by simp
next
  case (Suc k)
  define n where "n = (case sched of [] \<Rightarrow> 0 | n # _ \<Rightarrow> n)"
  obtain fd1 s1 where e: "upload_done D A n fd s = (fd1, s1)" by force
  have run: "fd_wait_n k D A (tl sched) fd1 s1 = (fd', s')"
    using Suc.prems(2) by (simp add: n_def[symmetric] e)
  have u: "uploads A V dec chunks fd1 s1" by (rule uploads_done[OF assms(1) Suc.prems(1) e])
  have o: "length (fd_inflight fd1) = length (fd_inflight fd) - 1"
    "fd1 = fd\<lparr>fd_inflight := fd_inflight fd1, fd_tokens := fd_tokens fd1, fd_firstErr := fd_firstErr fd1\<rparr>"
    using upload_done_other[OF e] by blast+
  from Suc.IH[OF u run] o(1) Suc.prems(3)
  have ih: "uploads A V dec chunks fd' s'" "fd_inflight fd' = []"
    "fd' = fd1\<lparr>fd_inflight := [], fd_tokens := fd_tokens fd', fd_firstErr := fd_firstErr fd'\<rparr>" by simp_all
  have "fd' = fd\<lparr>fd_inflight := [], fd_tokens := fd_tokens fd', fd_firstErr := fd_firstErr fd'\<rparr>"
    by (subst ih(3), subst o(2)) simp
  with ih show ?case by blast
qed

lemma fd_wait_uploads:
  assumes "server_laws A V dec" "uploads A V dec chunks fd s" "fd_wait D A sched fd s = (fd', s')"
  shows "uploads A V dec chunks fd' s' \<and> fd_inflight fd' = [] \<and>
    fd' = fd\<lparr>fd_inflight := [], fd_tokens := fd_tokens fd', fd_firstErr := fd_firstErr fd'\<rparr>"
  using assms fd_wait_n_uploads unfolding fd_wait_def by blast

lemma uploads_complete:
  assumes u: "uploads A V dec chunks fd s" and "fd_inflight fd = []" "fd_firstErr fd = None"
  shows "length (fd_tokens fd) = length chunks"
    and "n < length chunks \<Longrightarrow>
      \<exists>ub. map_of (fd_tokens fd) (int n) = Some ub \<and> block_stored A V dec (bs_net s) (chunks ! n) ub"
proof -
  have d: "distinct (keys (fd_tokens fd))" using uploadsD(1)[OF u] by simp
  have k: "set (keys (fd_tokens fd)) = int ` {..<length chunks}" (is "?K = ?I")
  proof
    show "?K \<subseteq> ?I"
    proof
      fix i assume "i \<in> ?K"
      with uploadsD(2)[OF u, of i] show "i \<in> ?I" by (intro image_eqI[of _ _ "nat i"]) auto
    qed
    show "?I \<subseteq> ?K" using uploadsD(3)[OF u assms(3)] by (auto simp: assms(2))
  qed
  have "length (fd_tokens fd) = card ?K" using distinct_card[OF d] by simp
  also have "\<dots> = length chunks" unfolding k by (subst card_image) (simp_all add: inj_on_def)
  finally show "length (fd_tokens fd) = length chunks" .
  assume "n < length chunks"
  then have "int n \<in> ?K" unfolding k by blast
  then obtain ub where ub: "map_of (fd_tokens fd) (int n) = Some ub"
    by (metis map_of_eq_None_iff not_Some_eq set_map)
  from uploadsD(5)[OF u map_of_SomeD[OF ub]] ub
  show "\<exists>ub. map_of (fd_tokens fd) (int n) = Some ub \<and> block_stored A V dec (bs_net s) (chunks ! n) ub" by simp
qed

section \<open>Appending\<close>

definition appending ::
    "'h uploadAPI \<Rightarrow> 'h serverView \<Rightarrow> (bytes \<Rightarrow> string + bytes) \<Rightarrow> bytes \<Rightarrow> fileDescriptor
      \<Rightarrow> ('dv, 'h) blockStore \<Rightarrow> bool" where
  "appending A V dec data fd s \<longleftrightarrow>
     (\<exists>full. uploads A V dec full fd s \<and> (\<forall>c\<in>set full. int (length c) = BlockSize) \<and>
        fd_curIdx fd = int (length full) \<and> concat full @ fd_curBlock fd = data \<and>
        int (length (fd_curBlock fd)) < BlockSize)"

lemma appendingI:
  assumes "uploads A V dec full fd s" "\<And>c. c \<in> set full \<Longrightarrow> int (length c) = BlockSize"
    "fd_curIdx fd = int (length full)" "concat full @ fd_curBlock fd = data"
    "int (length (fd_curBlock fd)) < BlockSize"
  shows "appending A V dec data fd s"
  using assms unfolding appending_def by blast

lemma uploads_cong:
  assumes "uploads A V dec chunks fd s" "fd_inflight fd' = fd_inflight fd" "fd_tokens fd' = fd_tokens fd"
    "fd_firstErr fd' = fd_firstErr fd"
  shows "uploads A V dec chunks fd' s"
  using assms unfolding uploads_def by simp

text \<open>The fields a write may change.\<close>

definition same_identity :: "fileDescriptor \<Rightarrow> fileDescriptor \<Rightarrow> bool" where
  "same_identity fd fd' \<longleftrightarrow> fd_uploadParams fd' = fd_uploadParams fd \<and> fd_mode fd' = fd_mode fd \<and>
     fd_closed fd' = fd_closed fd \<and> fd_isNew fd' = fd_isNew fd \<and> fd_committed fd' = fd_committed fd \<and>
     fd_offset fd' = fd_offset fd"

lemma same_identity_refl [simp]: "same_identity fd fd"
  by (simp add: same_identity_def)

lemma same_identity_trans: "same_identity a b \<Longrightarrow> same_identity b c \<Longrightarrow> same_identity a c"
  by (simp add: same_identity_def)

lemma write_loop_appends:
  assumes "appending A V dec data fd s" "fd_write_loop p fd = (r, fd')"
  shows "r = None \<and> appending A V dec (data @ p) fd' s \<and> same_identity fd fd'"
  using assms
proof (induction p fd arbitrary: data rule: fd_write_loop.induct)
  case (1 p fd)
  show ?case
  proof (cases "p = []")
    case True
    with 1(2,3) show ?thesis by (simp add: fd_write_loop.simps)
  next
    case False
    from 1(2) obtain full where f: "uploads A V dec full fd s" "\<And>c. c \<in> set full \<Longrightarrow> int (length c) = BlockSize"
      "fd_curIdx fd = int (length full)" "concat full @ fd_curBlock fd = data" "int (length (fd_curBlock fd)) < BlockSize"
      unfolding appending_def by blast
    define space where "space = BlockSize - int (length (fd_curBlock fd))"
    define chunk where "chunk = min (length p) (nat space)"
    define fd1 where "fd1 = fd\<lparr>fd_curBlock := fd_curBlock fd @ take chunk p,
      fd_fileSize := wrap64 (fd_fileSize fd + int chunk)\<rparr>"
    define fd2 where "fd2 = (if int (length (fd_curBlock fd1)) = BlockSize
      then (fd_flushBlock (fd_curIdx fd1) (fd_curBlock fd1) fd1)\<lparr>fd_curBlock := [], fd_curIdx := fd_curIdx fd1 + 1\<rparr>
      else fd1)"
    have sp: "\<not> space < 0" using f(5) by (simp add: space_def)
    have run: "fd_write_loop (drop chunk p) fd2 = (r, fd')"
      using 1(3) False sp
      by (subst (asm) fd_write_loop.simps)
        (simp only: if_False Let_def space_def[symmetric] chunk_def[symmetric] fd1_def[symmetric] fd2_def[symmetric])
    have id: "same_identity fd fd2"
      by (simp add: fd2_def fd1_def same_identity_def fd_uploadParams_def fd_flushBlock_def)
    have u1: "uploads A V dec full fd1 s" by (rule uploads_cong[OF f(1)]) (simp_all add: fd1_def)
    have le: "int (length (fd_curBlock fd1)) \<le> BlockSize"
      using f(5) by (simp add: fd1_def chunk_def space_def)
    have app: "appending A V dec (data @ take chunk p) fd2 s"
    proof (cases "int (length (fd_curBlock fd1)) = BlockSize")
      case True
      have i1: "fd_curIdx fd1 = int (length full)" using f(3) by (simp add: fd1_def)
      have "uploads A V dec (full @ [fd_curBlock fd1]) (fd_flushBlock (fd_curIdx fd1) (fd_curBlock fd1) fd1) s"
        unfolding i1 by (rule uploads_submit[OF u1])
      then have "uploads A V dec (full @ [fd_curBlock fd1]) fd2 s"
        by (rule uploads_cong) (simp_all add: fd2_def True)
      then show ?thesis
      proof (rule appendingI)
        show "int (length c) = BlockSize" if "c \<in> set (full @ [fd_curBlock fd1])" for c
          using that f(2) True by auto
        show "fd_curIdx fd2 = int (length (full @ [fd_curBlock fd1]))" using i1 True by (simp add: fd2_def)
        show "concat (full @ [fd_curBlock fd1]) @ fd_curBlock fd2 = data @ take chunk p"
          using f(4) True by (simp add: fd2_def) (simp add: fd1_def)
        show "int (length (fd_curBlock fd2)) < BlockSize" using True by (simp add: fd2_def)
      qed
    next
      case False
      then have e: "fd2 = fd1" by (simp add: fd2_def)
      show ?thesis unfolding e
      proof (rule appendingI[OF u1 f(2)])
        show "fd_curIdx fd1 = int (length full)" using f(3) by (simp add: fd1_def)
        show "concat full @ fd_curBlock fd1 = data @ take chunk p" using f(4) by (simp add: fd1_def)
        show "int (length (fd_curBlock fd1)) < BlockSize" using le False by simp
      qed
    qed
    have ih: "r = None \<and> appending A V dec ((data @ take chunk p) @ drop chunk p) fd' s \<and> same_identity fd2 fd'"
      by (rule 1(1)[OF False space_def sp chunk_def fd1_def fd2_def app run])
    then show ?thesis using same_identity_trans[OF id] by simp
  qed
qed

section \<open>Writes interleaved with uploads\<close>

datatype writeOp = OpWrite bytes | OpUploaded nat

fun write_run ::
    "'dv diskv \<Rightarrow> 'h uploadAPI \<Rightarrow> writeOp list \<Rightarrow> fileDescriptor \<Rightarrow> ('dv, 'h) blockStore
      \<Rightarrow> fileDescriptor \<times> ('dv, 'h) blockStore" where
  "write_run D A [] fd s = (fd, s)"
| "write_run D A (OpWrite p # ops) fd s = write_run D A ops (snd (fd_Write p fd)) s"
| "write_run D A (OpUploaded n # ops) fd s =
     (let (fd', s') = upload_done D A n fd s in write_run D A ops fd' s')"

fun written :: "writeOp list \<Rightarrow> bytes" where
  "written [] = []"
| "written (OpWrite p # ops) = p @ written ops"
| "written (OpUploaded n # ops) = written ops"

lemma same_identity_uploads:
  "same_identity fd (fd\<lparr>fd_inflight := i, fd_tokens := t, fd_firstErr := e\<rparr>)"
  by (simp add: same_identity_def fd_uploadParams_def)

lemma same_identity_done:
  assumes "upload_done D A n fd s = (fd', s')"
  shows "same_identity fd fd' \<and> fd_curBlock fd' = fd_curBlock fd \<and> fd_curIdx fd' = fd_curIdx fd"
proof -
  obtain i t e where "fd' = fd\<lparr>fd_inflight := i, fd_tokens := t, fd_firstErr := e\<rparr>"
    using upload_done_other[OF assms] by blast
  then show ?thesis by (simp add: same_identity_uploads)
qed

lemma fd_Write_appends:
  assumes "appending A V dec data fd s" "\<not> fd_closed fd" "fd_mode fd = fdWrite"
  shows "appending A V dec (data @ p) (snd (fd_Write p fd)) s \<and> same_identity fd (snd (fd_Write p fd)) \<and>
    fst (fd_Write p fd) = Inr (int (length p))"
proof (cases "p = []")
  case True
  with assms show ?thesis by (simp add: fd_Write_def)
next
  case False
  obtain r fd' where w: "fd_write_loop p fd = (r, fd')" by force
  from write_loop_appends[OF assms(1) w] False assms(2,3) show ?thesis by (simp add: fd_Write_def w)
qed

lemma write_run_appends:
  assumes "server_laws A V dec" "appending A V dec data fd s" "\<not> fd_closed fd" "fd_mode fd = fdWrite"
    "write_run D A ops fd s = (fd', s')"
  shows "appending A V dec (data @ written ops) fd' s' \<and> same_identity fd fd'"
  using assms(2-5)
proof (induction ops arbitrary: data fd s)
  case (Cons op ops)
  show ?case
  proof (cases op)
    case (OpWrite p)
    let ?fd1 = "snd (fd_Write p fd)"
    from fd_Write_appends[OF Cons.prems(1-3), of p]
    have w: "appending A V dec (data @ p) ?fd1 s" "same_identity fd ?fd1" by simp_all
    then have m: "\<not> fd_closed ?fd1" "fd_mode ?fd1 = fdWrite"
      using Cons.prems(2,3) by (simp_all add: same_identity_def)
    have run: "write_run D A ops ?fd1 s = (fd', s')" using Cons.prems(4) by (simp add: OpWrite)
    from Cons.IH[OF w(1) m run] w(2) show ?thesis by (auto simp: OpWrite intro: same_identity_trans)
  next
    case (OpUploaded n)
    obtain fd1 s1 where e: "upload_done D A n fd s = (fd1, s1)" by force
    from same_identity_done[OF e] have k: "same_identity fd fd1" "fd_curBlock fd1 = fd_curBlock fd" "fd_curIdx fd1 = fd_curIdx fd"
      by blast+
    from Cons.prems(1) obtain full where f: "uploads A V dec full fd s" "\<And>c. c \<in> set full \<Longrightarrow> int (length c) = BlockSize"
      "fd_curIdx fd = int (length full)" "concat full @ fd_curBlock fd = data" "int (length (fd_curBlock fd)) < BlockSize"
      unfolding appending_def by blast
    have a: "appending A V dec data fd1 s1"
      by (rule appendingI[OF uploads_done[OF assms(1) f(1) e] f(2)]) (use f(3-5) k in simp_all)
    have m: "\<not> fd_closed fd1" "fd_mode fd1 = fdWrite" using Cons.prems(2,3) k(1) by (simp_all add: same_identity_def)
    have run: "write_run D A ops fd1 s1 = (fd', s')" using Cons.prems(4) by (simp add: OpUploaded e)
    from Cons.IH[OF a m run] k(1) show ?thesis by (auto simp: OpUploaded intro: same_identity_trans)
  qed
qed simp

lemma appending_new:
  "appending A V dec [] ((newWriteFD fh)\<lparr>fd_isNew := b, fd_unixMode := m\<rparr>) s"
proof (rule appendingI[where full = "[]"])
  show "uploads A V dec [] ((newWriteFD fh)\<lparr>fd_isNew := b, fd_unixMode := m\<rparr>) s"
    by (rule uploadsI) (simp_all add: newWriteFD_def)
qed (simp_all add: newWriteFD_def)

section \<open>Flush\<close>

text \<open>The submitted blocks after the partial one was flushed, and how they split the data.\<close>

definition block_split :: "bytes \<Rightarrow> bytes list \<Rightarrow> bool" where
  "block_split data chunks \<longleftrightarrow> concat chunks = data \<and>
     (\<forall>c\<in>set chunks. c \<noteq> [] \<and> int (length c) \<le> BlockSize) \<and>
     (\<forall>c\<in>set (butlast chunks). int (length c) = BlockSize)"

lemma flush_partial:
  assumes "appending A V dec data fd s"
  obtains chunks where "block_split data chunks"
    "uploads A V dec chunks (if fd_curBlock fd \<noteq> []
       then (fd_flushBlock (fd_curIdx fd) (fd_curBlock fd) fd)\<lparr>fd_curBlock := []\<rparr> else fd) s"
proof -
  from assms obtain full where f: "uploads A V dec full fd s" "\<And>c. c \<in> set full \<Longrightarrow> int (length c) = BlockSize"
    "fd_curIdx fd = int (length full)" "concat full @ fd_curBlock fd = data" "int (length (fd_curBlock fd)) < BlockSize"
    unfolding appending_def by blast
  have ne: "c \<noteq> []" if "c \<in> set full" for c using f(2)[OF that] by auto
  show ?thesis
  proof (cases "fd_curBlock fd = []")
    case True
    have "block_split data full" using f ne True by (auto simp: block_split_def dest: in_set_butlastD)
    with that[of full] f(1) True show ?thesis by simp
  next
    case False
    have "uploads A V dec (full @ [fd_curBlock fd]) (fd_flushBlock (fd_curIdx fd) (fd_curBlock fd) fd) s"
      unfolding f(3) by (rule uploads_submit[OF f(1)])
    then have "uploads A V dec (full @ [fd_curBlock fd]) ((fd_flushBlock (fd_curIdx fd) (fd_curBlock fd) fd)\<lparr>fd_curBlock := []\<rparr>) s"
      by (rule uploads_cong) simp_all
    moreover have "block_split data (full @ [fd_curBlock fd])"
      using f(2,4,5) ne False by (auto simp: block_split_def)
    ultimately show ?thesis using that[of "full @ [fd_curBlock fd]"] False by simp
  qed
qed

lemma flush_commits:
  assumes laws: "server_laws A V dec" and app: "appending A V dec data fd s" and mode: "fd_mode fd = fdWrite"
    and ne: "data \<noteq> [] \<or> (fd_isNew fd \<and> \<not> fd_committed fd)" and fits: "int (length data) \<le> maxInt64"
    and run: "fd_Flush D A sched fd s = (None, dropped, fd', s')"
  shows "dropped \<and> fd_uploadParams fd' = fd_uploadParams fd \<and> fd_committed fd' \<and> fd_tokens fd' = [] \<and>
    fd_curBlock fd' = [] \<and> fd_inflight fd' = [] \<and> fd_firstErr fd' = None \<and> fd_mode fd' = fdWrite \<and>
    (\<exists>chunks. block_split data chunks \<and> revision_is A V dec (bs_net s') (fd_uploadParams fd') chunks)"
proof -
  let ?fd1 = "if fd_curBlock fd \<noteq> []
    then (fd_flushBlock (fd_curIdx fd) (fd_curBlock fd) fd)\<lparr>fd_curBlock := []\<rparr> else fd"
  from flush_partial[OF app] obtain chunks where b: "block_split data chunks" and u: "uploads A V dec chunks ?fd1 s" .
  obtain fd2 s2 where w: "fd_wait D A sched ?fd1 s = (fd2, s2)" by force
  from fd_wait_uploads[OF laws u w] have w': "uploads A V dec chunks fd2 s2" "fd_inflight fd2 = []"
    "fd2 = ?fd1\<lparr>fd_inflight := [], fd_tokens := fd_tokens fd2, fd_firstErr := fd_firstErr fd2\<rparr>" by blast+
  obtain i t e where fd2: "fd2 = ?fd1\<lparr>fd_inflight := i, fd_tokens := t, fd_firstErr := e\<rparr>" using w'(3) by blast
  have k: "fd_uploadParams fd2 = fd_uploadParams fd" "fd_isNew fd2 = fd_isNew fd" "fd_committed fd2 = fd_committed fd"
    "fd_curBlock fd2 = []" "fd_mode fd2 = fd_mode fd"
    unfolding fd2 by (simp_all add: fd_uploadParams_def fd_flushBlock_def)
  have noerr: "fd_firstErr fd2 = None"
    using run mode w by (auto simp: fd_Flush_def Let_def split: option.splits)
  have some: "\<not> (fd_tokens fd2 = [] \<and> \<not> fd_curBlock fd \<noteq> [] \<and> \<not> (fd_isNew fd2 \<and> \<not> fd_committed fd2))"
  proof
    assume a: "fd_tokens fd2 = [] \<and> \<not> fd_curBlock fd \<noteq> [] \<and> \<not> (fd_isNew fd2 \<and> \<not> fd_committed fd2)"
    with uploads_complete(1)[OF w'(1,2) noerr] have "chunks = []" by simp
    with b have "data = []" by (simp add: block_split_def)
    with a ne k show False by simp
  qed
  obtain c s3 where cm: "fd_commitRevision A fd2 s2 = (c, s3)" by force
  have r: "c = None" "dropped" "fd' = fd2\<lparr>fd_committed := True, fd_tokens := []\<rparr>" "s' = s3"
    using run mode w noerr some cm by (auto simp: fd_Flush_def Let_def split: option.splits if_splits)
  have cm': "commitRevisionFromTokens A (fd_uploadParams fd2) (fd_tokens fd2) True s2 = (None, s')"
    using cm r(1,4) by (simp add: fd_commitRevision_def)
  have "int (length (concat chunks)) \<le> maxInt64" using b fits by (simp add: block_split_def)
  from commit_complete[OF laws cm' uploads_complete(1)[OF w'(1,2) noerr] _ uploads_complete(2)[OF w'(1,2) noerr] this]
  have "revision_is A V dec (bs_net s') (fd_uploadParams fd2) chunks" by blast
  moreover have "fd_uploadParams fd' = fd_uploadParams fd2" unfolding r(3) by (simp add: fd_uploadParams_def)
  ultimately show ?thesis using b k r w'(2) noerr mode by auto
qed

section \<open>Failures\<close>

lemma done_active:
  assumes "server_laws A V dec" "upload_done D A n fd s = (fd', s')"
  shows "sv_active V (bs_net s') = sv_active V (bs_net s) \<and> (fd_firstErr fd \<noteq> None \<longrightarrow> fd_firstErr fd' = fd_firstErr fd)"
  using assms(2)
proof (cases rule: upload_done_cases)
  case (failed l i b r err p)
  with upload_active[OF assms(1) failed(2)] show ?thesis by (simp add: fd_setFirstErr_def)
next
  case (stored l i b r ub p)
  with upload_active[OF assms(1) stored(2)] show ?thesis by simp
qed simp

lemma wait_active:
  assumes "server_laws A V dec" "fd_wait_n k D A sched fd s = (fd', s')"
  shows "sv_active V (bs_net s') = sv_active V (bs_net s) \<and> (fd_firstErr fd \<noteq> None \<longrightarrow> fd_firstErr fd' = fd_firstErr fd)"
  using assms(2)
proof (induction k arbitrary: sched fd s)
  case (Suc k)
  define n where "n = (case sched of [] \<Rightarrow> 0 | n # _ \<Rightarrow> n)"
  obtain fd1 s1 where e: "upload_done D A n fd s = (fd1, s1)" by force
  have "fd_wait_n k D A (tl sched) fd1 s1 = (fd', s')" using Suc.prems by (simp add: n_def[symmetric] e)
  from Suc.IH[OF this] done_active[OF assms(1) e] show ?case by auto
qed simp

lemma flush_failure:
  assumes laws: "server_laws A V dec" and run: "fd_Flush D A sched fd s = (Some err, dropped, fd', s')"
    and early: "\<And>m. err \<noteq> CommitErr m"
  shows "\<not> dropped \<and> sv_active V (bs_net s') = sv_active V (bs_net s)"
proof -
  let ?fd1 = "if fd_curBlock fd \<noteq> []
    then (fd_flushBlock (fd_curIdx fd) (fd_curBlock fd) fd)\<lparr>fd_curBlock := []\<rparr> else fd"
  obtain fd2 s2 where w: "fd_wait D A sched ?fd1 s = (fd2, s2)" by force
  have a: "sv_active V (bs_net s2) = sv_active V (bs_net s)"
    using wait_active[OF laws w[unfolded fd_wait_def]] by blast
  have mode: "fd_mode fd = fdWrite" using run by (auto simp: fd_Flush_def Let_def split: if_splits)
  show ?thesis
  proof (cases "fd_firstErr fd2")
    case (Some e)
    with run mode w a show ?thesis by (simp add: fd_Flush_def Let_def)
  next
    case None
    obtain c s3 where cm: "fd_commitRevision A fd2 s2 = (c, s3)" by force
    have r: "c = Some err" "\<not> dropped" "s' = s3"
      using run mode w None cm by (auto simp: fd_Flush_def Let_def split: option.splits if_splits)
    have "s3 = s2"
      using cm[unfolded fd_commitRevision_def commitRevisionFromTokens_def Let_def] r(1) early
      by (auto split: if_splits sum.splits prod.splits option.splits)
    with r a show ?thesis by simp
  qed
qed

lemma wait_other:
  assumes "fd_wait_n k D A sched fd s = (fd', s')"
  shows "\<exists>i t e. fd' = fd\<lparr>fd_inflight := i, fd_tokens := t, fd_firstErr := e\<rparr>"
  using assms
proof (induction k arbitrary: sched fd s)
  case 0
  then have "fd' = fd\<lparr>fd_inflight := fd_inflight fd, fd_tokens := fd_tokens fd, fd_firstErr := fd_firstErr fd\<rparr>" by simp
  then show ?case by blast
next
  case (Suc k)
  define n where "n = (case sched of [] \<Rightarrow> 0 | n # _ \<Rightarrow> n)"
  obtain fd1 s1 where e: "upload_done D A n fd s = (fd1, s1)" by force
  have "fd_wait_n k D A (tl sched) fd1 s1 = (fd', s')" using Suc.prems by (simp add: n_def[symmetric] e)
  from Suc.IH[OF this] obtain i t er where r: "fd' = fd1\<lparr>fd_inflight := i, fd_tokens := t, fd_firstErr := er\<rparr>" by blast
  obtain i' t' er' where "fd1 = fd\<lparr>fd_inflight := i', fd_tokens := t', fd_firstErr := er'\<rparr>"
    using upload_done_other[OF e] by blast
  with r have "fd' = fd\<lparr>fd_inflight := i, fd_tokens := t, fd_firstErr := er\<rparr>" by simp
  then show ?case by blast
qed

lemma flush_closed:
  assumes "fd_Flush D A sched fd s = (r, dropped, fd', s')"
  shows "fd_closed fd' = fd_closed fd"
proof -
  let ?fd1 = "if fd_curBlock fd \<noteq> []
    then (fd_flushBlock (fd_curIdx fd) (fd_curBlock fd) fd)\<lparr>fd_curBlock := []\<rparr> else fd"
  obtain fd2 s2 where w: "fd_wait D A sched ?fd1 s = (fd2, s2)" by force
  obtain i t e where "fd2 = ?fd1\<lparr>fd_inflight := i, fd_tokens := t, fd_firstErr := e\<rparr>"
    using wait_other[OF w[unfolded fd_wait_def]] by blast
  then have k: "fd_closed fd2 = fd_closed fd" by (simp add: fd_flushBlock_def)
  show ?thesis
  proof (cases "fd_mode fd = fdWrite")
    case False
    with assms show ?thesis by (auto simp: fd_Flush_def Let_def fd_flushBlock_def split: if_splits)
  next
    case True
    with assms w have "fd' = fd2 \<or> fd' = fd2\<lparr>fd_committed := True, fd_tokens := []\<rparr>"
      by (auto simp: fd_Flush_def Let_def split: option.splits if_splits prod.splits)
    with k show ?thesis by auto
  qed
qed

section \<open>Properties\<close>

text \<open>
  C2: writing a file and flushing it commits exactly its bytes.  For a descriptor fresh from
  \<^verbatim>\<open>CreateFD\<close> or \<^verbatim>\<open>OverwriteFD\<close>, any sequence of \<^verbatim>\<open>Write\<close> calls, whatever their sizes and in
  whatever order the upload goroutines finish, before or during the \<^verbatim>\<open>Flush\<close>: if the \<^verbatim>\<open>Flush\<close>
  succeeds, the server's active revision is the descriptor's, its blocks decrypt in order to the
  concatenation of everything written, all blocks but the last are full, the metadata records the
  sizes, and the client's cached entries were dropped.
\<close>

theorem write_then_flush_commits:
  assumes "server_laws A V dec" "int (length (written ops)) \<le> maxInt64" "written ops \<noteq> [] \<or> b"
    "write_run D A ops ((newWriteFD fh)\<lparr>fd_isNew := b, fd_unixMode := m\<rparr>) s = (fd, s1)"
    "fd_Flush D A sched fd s1 = (None, dropped, fd', s2)"
  shows "dropped \<and> (\<exists>chunks. block_split (written ops) chunks \<and> revision_is A V dec (bs_net s2) (fd_uploadParams fd') chunks)"
proof -
  let ?fd0 = "(newWriteFD fh)\<lparr>fd_isNew := b, fd_unixMode := m\<rparr>"
  have m: "\<not> fd_closed ?fd0" "fd_mode ?fd0 = fdWrite" by (simp_all add: newWriteFD_def)
  from write_run_appends[OF assms(1) appending_new m assms(4)]
  have a: "appending A V dec (written ops) fd s1" "same_identity ?fd0 fd" by simp_all
  have "fd_mode fd = fdWrite" "written ops \<noteq> [] \<or> (fd_isNew fd \<and> \<not> fd_committed fd)"
    using a(2) assms(3) by (auto simp: same_identity_def newWriteFD_def)
  from flush_commits[OF assms(1) a(1) this assms(2,5)] show ?thesis by blast
qed

definition demo_write :: "fileDescriptor \<times> ((string, bytes) gomap, demoNet) blockStore" where
  "demo_write = write_run mem_diskv demo_api [OpWrite [1, 2], OpWrite [3]] ((newWriteFD demo_handle)\<lparr>fd_isNew := False, fd_unixMode := 0\<rparr>) demo_cloud"

lemma demo_write_eval: "demo_write =
    ((newWriteFD demo_handle)\<lparr>fd_curBlock := [1, 2, 3], fd_fileSize := 3\<rparr>, demo_cloud)"
  by (simp add: demo_write_def fd_Write_def fd_write_loop.simps newWriteFD_def BlockSize_def Let_def maxInt64_def)

lemmas flush_eval = upload_eval fd_Flush_def fd_wait_def fd_flushBlock_def upload_done_def fd_commitRevision_def
  fd_uploadParams_def newWriteFD_def

lemma demo_flush: "fst (fd_Flush mem_diskv demo_api [] (fst demo_write) (snd demo_write)) = None"
  by (simp add: demo_write_eval flush_eval Let_def)

theorem write_then_flush_commits_witness:
  "\<exists>fd' s2. fd_Flush mem_diskv demo_api [] (fst demo_write) (snd demo_write) = (None, True, fd', s2) \<and>
     (\<exists>chunks. concat chunks = [1, 2, 3 :: byte] \<and> revision_is demo_api demo_view Inr (bs_net s2) (fd_uploadParams fd') chunks)"
proof -
  obtain dr fd' s2 where f: "fd_Flush mem_diskv demo_api [] (fst demo_write) (snd demo_write) = (None, dr, fd', s2)"
    using demo_flush by (metis prod.collapse)
  have w: "write_run mem_diskv demo_api [OpWrite [1, 2], OpWrite [3]] ((newWriteFD demo_handle)\<lparr>fd_isNew := False, fd_unixMode := 0\<rparr>) demo_cloud
      = (fst demo_write, snd demo_write)" by (simp add: demo_write_def)
  from write_then_flush_commits[OF demo_server _ _ w f] f show ?thesis
    by (auto simp: block_split_def maxInt64_def)
qed

text \<open>
  C6: a failed \<^verbatim>\<open>Flush\<close> leaves the file alone.  Whatever the uploads and the commit ran into, if
  \<^verbatim>\<open>Flush\<close> reports an error other than the server refusing the commit itself, every file's active
  revision is what it was and no cached entry is dropped; an upload error recorded before the
  \<^verbatim>\<open>Flush\<close> is the one it reports.
\<close>

theorem flush_failure_keeps_file:
  assumes "server_laws A V dec" "fd_Flush D A sched fd s = (Some err, dropped, fd', s')" "\<forall>m. err \<noteq> CommitErr m"
  shows "\<not> dropped \<and> sv_active V (bs_net s') = sv_active V (bs_net s) \<and>
    (\<forall>e. fd_firstErr fd = Some e \<longrightarrow> err = e)"
proof -
  have "\<not> dropped \<and> sv_active V (bs_net s') = sv_active V (bs_net s)"
    using flush_failure[OF assms(1,2)] assms(3) by blast
  moreover have "err = e" if fe: "fd_firstErr fd = Some e" for e
  proof -
    define fd1 where "fd1 = (if fd_curBlock fd \<noteq> []
      then (fd_flushBlock (fd_curIdx fd) (fd_curBlock fd) fd)\<lparr>fd_curBlock := []\<rparr> else fd)"
    obtain fd2 s2 where w: "fd_wait D A sched fd1 s = (fd2, s2)" by force
    have "fd_firstErr fd1 = Some e" using fe by (simp add: fd1_def fd_flushBlock_def)
    then have "fd_firstErr fd2 = Some e" using wait_active[OF assms(1) w[unfolded fd_wait_def]] by simp
    moreover have "fd_mode fd = fdWrite" using assms(2) by (auto simp: fd_Flush_def Let_def split: if_splits)
    ultimately show ?thesis using assms(2) w by (simp add: fd_Flush_def Let_def fd1_def[symmetric])
  qed
  ultimately show ?thesis by blast
qed

text \<open>The demo server with uploads that fail.\<close>

definition down_api :: "demoNet uploadAPI" where
  "down_api = demo_api\<lparr>ua_upload := \<lambda>h u t x. (Some ''down'', h)\<rparr>"

lemma down_server: "server_laws down_api demo_view Inr"
  using demo_token_fresh by (fastforce simp: server_laws_def down_api_def demo_api_def demo_view_def)

theorem flush_failure_keeps_file_witness:
  "\<exists>fd' s'. fd_Flush mem_diskv down_api [] (fst demo_write) (snd demo_write) = (Some (UploadErr 1 (UploadBlockErr ''L'' 1 ''down'')), False, fd', s') \<and>
     sv_active demo_view (bs_net s') = sv_active demo_view (bs_net demo_cloud)"
proof -
  have "fst (fd_Flush mem_diskv down_api [] (fst demo_write) (snd demo_write)) = Some (UploadErr 1 (UploadBlockErr ''L'' 1 ''down''))"
    by (simp add: demo_write_eval flush_eval down_api_def fd_setFirstErr_def Let_def)
  then obtain dr fd' s' where f: "fd_Flush mem_diskv down_api [] (fst demo_write) (snd demo_write) =
      (Some (UploadErr 1 (UploadBlockErr ''L'' 1 ''down'')), dr, fd', s')" by (metis prod.collapse)
  from flush_failure_keeps_file[OF down_server f] f show ?thesis by (simp add: demo_write_eval)
qed

text \<open>
  \<^verbatim>\<open>Flush\<close> is idempotent.  After a \<^verbatim>\<open>Flush\<close> that committed what was written, a second
  \<^verbatim>\<open>Flush\<close>, and \<^verbatim>\<open>Close\<close>, succeed without calling the server, changing the store or dropping
  cached entries; the only change \<^verbatim>\<open>Close\<close> makes is the closed mark.
\<close>

theorem flush_idempotent:
  assumes "server_laws A V dec" "int (length (written ops)) \<le> maxInt64" "written ops \<noteq> [] \<or> b"
    "write_run D A ops ((newWriteFD fh)\<lparr>fd_isNew := b, fd_unixMode := m\<rparr>) s = (fd, s1)"
    "fd_Flush D A sched fd s1 = (None, dropped, fd', s2)"
  shows "fd_Flush D A sched' fd' s2 = (None, False, fd', s2) \<and>
    fd_Close D A sched' fd' s2 = (None, False, fd'\<lparr>fd_closed := True\<rparr>, s2)"
proof -
  let ?fd0 = "(newWriteFD fh)\<lparr>fd_isNew := b, fd_unixMode := m\<rparr>"
  have m: "\<not> fd_closed ?fd0" "fd_mode ?fd0 = fdWrite" by (simp_all add: newWriteFD_def)
  from write_run_appends[OF assms(1) appending_new m assms(4)]
  have a: "appending A V dec (written ops) fd s1" "same_identity ?fd0 fd" by simp_all
  then have w: "fd_mode fd = fdWrite" "written ops \<noteq> [] \<or> (fd_isNew fd \<and> \<not> fd_committed fd)"
    using assms(3) by (auto simp: same_identity_def newWriteFD_def)
  from flush_commits[OF assms(1) a(1) w assms(2,5)]
  have f: "fd_committed fd'" "fd_tokens fd' = []" "fd_curBlock fd' = []" "fd_inflight fd' = []" "fd_firstErr fd' = None"
    "fd_mode fd' = fdWrite" by simp_all
  have g: "fd_Flush D A sched' x s2 = (None, False, x, s2)"
    if "fd_committed x" "fd_tokens x = []" "fd_curBlock x = []" "fd_inflight x = []" "fd_firstErr x = None"
      "fd_mode x = fdWrite" for x
    using that by (simp add: fd_Flush_def fd_wait_def Let_def)
  have op: "\<not> fd_closed fd'"
  proof -
    have "\<not> fd_closed fd" using a(2) by (simp add: same_identity_def newWriteFD_def)
    then show ?thesis using flush_closed[OF assms(5)] by simp
  qed
  from g[OF f] g[of "fd'\<lparr>fd_closed := True\<rparr>"] f op show ?thesis by (simp add: fd_Close_def)
qed

theorem flush_idempotent_witness:
  "\<exists>fd' s2. fd_Flush mem_diskv demo_api [] (fst demo_write) (snd demo_write) = (None, True, fd', s2) \<and>
     fd_Flush mem_diskv demo_api [] fd' s2 = (None, False, fd', s2)"
proof -
  obtain dr fd' s2 where f: "fd_Flush mem_diskv demo_api [] (fst demo_write) (snd demo_write) = (None, dr, fd', s2)"
    using demo_flush by (metis prod.collapse)
  have w: "write_run mem_diskv demo_api [OpWrite [1, 2], OpWrite [3]] ((newWriteFD demo_handle)\<lparr>fd_isNew := False, fd_unixMode := 0\<rparr>) demo_cloud
      = (fst demo_write, snd demo_write)" by (simp add: demo_write_def)
  have "dr" using f by (auto simp: demo_write_eval flush_eval Let_def)
  with flush_idempotent[OF demo_server _ _ w f] f show ?thesis by (auto simp: maxInt64_def)
qed

section \<open>WriteAt\<close>

lemma writeAt_loop_append:
  assumes "0 \<le> off" "off + int (length p) \<le> maxInt64" "fd_curIdx fd = off div BlockSize"
    "int (length (fd_curBlock fd)) = off mod BlockSize" "fd_fileSize fd = off"
  shows "fd_writeAt_loop p off fd = fd_write_loop p fd"
  using assms
proof (induction "length p" arbitrary: p off fd rule: less_induct)
  case less
  show ?case
  proof (cases "p = []")
    case True
    then show ?thesis by (simp add: fd_writeAt_loop.simps fd_write_loop.simps)
  next
    case False
    note pr = less.prems
    define chunk where "chunk = min (length p) (nat (BlockSize - off mod BlockSize))"
    define cur where "cur = fd_curBlock fd @ take chunk p"
    define off' where "off' = off + int chunk"
    define fd2 where "fd2 = fd\<lparr>fd_curBlock := cur, fd_fileSize := off'\<rparr>"
    define fd3 where "fd3 = (if int (length cur) = BlockSize
      then (fd_flushBlock (fd_curIdx fd2) cur fd2)\<lparr>fd_curBlock := [], fd_curIdx := fd_curIdx fd2 + 1\<rparr> else fd2)"
    have md: "0 \<le> off mod BlockSize" "off mod BlockSize < BlockSize" by (simp_all add: pos_mod_bound)
    have sn: "int (nat (BlockSize - off mod BlockSize)) = BlockSize - off mod BlockSize" using md(2) by linarith
    have ch: "0 < chunk" "chunk \<le> length p" "int chunk \<le> BlockSize - off mod BlockSize"
    proof -
      have "0 < nat (BlockSize - off mod BlockSize)" using sn md(2) by linarith
      then show "0 < chunk" using False by (simp add: chunk_def)
      show "chunk \<le> length p" by (simp add: chunk_def)
      have "chunk \<le> nat (BlockSize - off mod BlockSize)" by (simp add: chunk_def)
      then show "int chunk \<le> BlockSize - off mod BlockSize" using sn by linarith
    qed
    have lc: "int (length cur) = off mod BlockSize + int chunk" using pr(4) ch by (simp add: cur_def)
    have w: "wrap64 (off + int chunk) = off'"
      unfolding off'_def using pr(1,2) ch(2) by (intro wrap64_id) (auto simp: maxInt64_def)
    have q: "quot off BlockSize = fd_curIdx fd" "rem off BlockSize = off mod BlockSize" using pr(1,3) by simp_all
    have blen: "nat (off mod BlockSize) = length (fd_curBlock fd)" using pr(4) by simp
    have L: "fd_writeAt_loop p off fd = fd_writeAt_loop (drop chunk p) off' fd3"
    proof -
      have ov: "take (nat (off mod BlockSize)) (fd_curBlock fd) @ take chunk p @
          drop (nat (off mod BlockSize) + chunk) (fd_curBlock fd) = cur"
        by (simp add: blen cur_def)
      have mx: "max (fd_fileSize fd) off' = off'" using pr(5) by (simp add: off'_def)
      have nn: "\<not> off mod BlockSize > int (length (fd_curBlock fd))" using pr(4) by simp
      have ng: "\<not> off mod BlockSize < 0" using md(1) by linarith
      show ?thesis
        by (subst fd_writeAt_loop.simps)
          (simp only: False q Let_def if_False if_True simp_thms nn ng chunk_def[symmetric] ov w mx
            fd2_def[symmetric] fd3_def[symmetric])
    qed
    have R: "fd_write_loop p fd = fd_write_loop (drop chunk p) fd3"
    proof -
      have sp: "BlockSize - int (length (fd_curBlock fd)) = BlockSize - off mod BlockSize" using pr(4) by simp
      have ng: "\<not> BlockSize - off mod BlockSize < 0" using md(2) by linarith
      have fs: "wrap64 (fd_fileSize fd + int chunk) = off'" using w pr(5) by simp
      have sel: "fd_curBlock fd2 = cur" by (simp add: fd2_def)
      show ?thesis
        by (subst fd_write_loop.simps)
          (simp only: False sp Let_def if_False ng chunk_def[symmetric] fs cur_def[symmetric] fd2_def[symmetric]
            sel fd3_def[symmetric])
    qed
    have dm: "off = off div BlockSize * BlockSize + off mod BlockSize" by simp
    have "fd_writeAt_loop (drop chunk p) off' fd3 = fd_write_loop (drop chunk p) fd3"
    proof (rule less.hyps)
      show "length (drop chunk p) < length p" using ch(1) False by simp
      show "0 \<le> off'" using pr(1) by (simp add: off'_def)
      show "off' + int (length (drop chunk p)) \<le> maxInt64" using pr(2) ch(2) by (simp add: off'_def)
      show "fd_fileSize fd3 = off'" by (simp add: fd3_def fd2_def fd_flushBlock_def)
      have "fd_curIdx fd3 = off' div BlockSize \<and> int (length (fd_curBlock fd3)) = off' mod BlockSize"
      proof (cases "int (length cur) = BlockSize")
        case True
        with lc dm have "off' = off div BlockSize * BlockSize + BlockSize" unfolding off'_def by linarith
        then have "off' = (off div BlockSize + 1) * BlockSize" by (simp add: distrib_right)
        then have "off' div BlockSize = off div BlockSize + 1" "off' mod BlockSize = 0" by simp_all
        with True pr(3) show ?thesis by (simp add: fd3_def fd2_def)
      next
        case False
        with lc ch(3) have "0 \<le> int (length cur)" "int (length cur) < BlockSize" by simp_all
        moreover from lc dm have "off' = int (length cur) + off div BlockSize * BlockSize" unfolding off'_def by linarith
        ultimately have "off' div BlockSize = off div BlockSize" "off' mod BlockSize = int (length cur)" by simp_all
        with False pr(3) show ?thesis by (simp add: fd3_def fd2_def)
      qed
      then show "fd_curIdx fd3 = off' div BlockSize" "int (length (fd_curBlock fd3)) = off' mod BlockSize" by blast+
    qed
    with L R show ?thesis by simp
  qed
qed



section \<open>Sync\<close>

lemma revision_is_cong:
  "sv_active V h' = sv_active V h \<Longrightarrow> sv_stored V h' = sv_stored V h \<Longrightarrow>
    revision_is A V dec h' p chunks = revision_is A V dec h p chunks"
  by (simp add: revision_is_def revision_content_def)

lemma sync_commits:
  assumes laws: "server_laws A V dec" and app: "appending A V dec data fd s" and mode: "fd_mode fd = fdWrite"
    and ne: "data \<noteq> []" and fits: "int (length data) \<le> maxInt64"
    and run: "fd_Sync D A sched fd s = (None, fd', s')"
  shows "appending A V dec [] fd' s' \<and> \<not> fd_closed fd' \<and> fd_mode fd' = fdWrite \<and>
    fd_isNew fd' = fd_isNew fd \<and> fd_committed fd' = fd_committed fd \<and>
    (\<exists>chunks. block_split data chunks \<and> revision_is A V dec (bs_net s') (fd_uploadParams fd) chunks)"
proof -
  define fd1 where "fd1 = (if fd_curBlock fd \<noteq> []
    then (fd_flushBlock (fd_curIdx fd) (fd_curBlock fd) fd)\<lparr>fd_curBlock := []\<rparr> else fd)"
  have op: "\<not> fd_closed fd" using run by (auto simp: fd_Sync_def split: if_splits)
  from flush_partial[OF app] obtain chunks where b: "block_split data chunks" and u: "uploads A V dec chunks fd1 s"
    unfolding fd1_def .
  obtain fd2 s2 where w: "fd_wait D A sched fd1 s = (fd2, s2)" by force
  from fd_wait_uploads[OF laws u w] have w': "uploads A V dec chunks fd2 s2" "fd_inflight fd2 = []"
    "fd2 = fd1\<lparr>fd_inflight := [], fd_tokens := fd_tokens fd2, fd_firstErr := fd_firstErr fd2\<rparr>" by blast+
  obtain i t e where fd2: "fd2 = fd1\<lparr>fd_inflight := i, fd_tokens := t, fd_firstErr := e\<rparr>" using w'(3) by blast
  have k: "fd_uploadParams fd2 = fd_uploadParams fd" "fd_isNew fd2 = fd_isNew fd" "fd_committed fd2 = fd_committed fd"
    "fd_mode fd2 = fd_mode fd" "fd_closed fd2 = fd_closed fd"
    unfolding fd2 fd1_def by (simp_all add: fd_uploadParams_def fd_flushBlock_def)
  have rest: "(if fd_firstErr fd2 \<noteq> None then (fd_firstErr fd2, fd2, s2) else
      if fd_tokens fd2 = [] then (None, fd2, s2) else
      (case fd_commitRevision A fd2 s2 of
         (Some err, s3) \<Rightarrow> (Some err, fd2, s3)
       | (None, s3) \<Rightarrow>
          (case ua_createRevision A (bs_net s3) (fd_shareID fd2) (fd_linkID fd2) of
              (Inl err, h) \<Rightarrow> (Some (SyncRevisionErr err), fd2, s3\<lparr>bs_net := h\<rparr>)
            | (Inr resID, h) \<Rightarrow>
                (case ua_verification A h (fd_shareID fd2) (fd_linkID fd2) resID of
                   (Inl err, h') \<Rightarrow> (Some (SyncVerificationErr err), fd2, s3\<lparr>bs_net := h'\<rparr>)
                 | (Inr code, h') \<Rightarrow>
                     (case b64_decode code of
                        None \<Rightarrow> (Some SyncDecodeErr, fd2, s3\<lparr>bs_net := h'\<rparr>)
                      | Some verifyCode \<Rightarrow>
                          (None, fd2\<lparr>fd_revisionID := resID, fd_verifyCode := verifyCode, fd_curIdx := 0,
                                     fd_curBlock := [], fd_tokens := [], fd_firstErr := None\<rparr>,
                           s3\<lparr>bs_net := h'\<rparr>))))) ) = (None, fd', s')"
    using run op mode w by (auto simp: fd_Sync_def Let_def fd1_def[symmetric] split: option.splits)
  have noerr: "fd_firstErr fd2 = None" using rest by (auto split: if_splits)
  have "chunks \<noteq> []" using b ne by (auto simp: block_split_def)
  then have tok: "fd_tokens fd2 \<noteq> []" using uploads_complete(1)[OF w'(1,2) noerr] by auto
  obtain c s3 where cm: "fd_commitRevision A fd2 s2 = (c, s3)" by force
  have c: "c = None" using rest noerr tok cm by (auto split: option.splits)
  obtain r h where cr: "ua_createRevision A (bs_net s3) (fd_shareID fd2) (fd_linkID fd2) = (r, h)" by force
  obtain resID where r: "r = Inr resID" using rest noerr tok cm c cr by (auto split: sum.splits)
  obtain v h' where ve: "ua_verification A h (fd_shareID fd2) (fd_linkID fd2) resID = (v, h')" by force
  obtain code where v: "v = Inr code" using rest noerr tok cm c cr r ve by (auto split: sum.splits)
  obtain vc where vc: "b64_decode code = Some vc" using rest noerr tok cm c cr r ve v by (auto split: option.splits)
  have fin: "fd' = fd2\<lparr>fd_revisionID := resID, fd_verifyCode := vc, fd_curIdx := 0,
      fd_curBlock := [], fd_tokens := [], fd_firstErr := None\<rparr>" "s' = s3\<lparr>bs_net := h'\<rparr>"
    using rest noerr tok cm c cr r ve v vc by auto
  have cm': "commitRevisionFromTokens A (fd_uploadParams fd2) (fd_tokens fd2) True s2 = (None, s3)"
    using cm c by (simp add: fd_commitRevision_def)
  have "int (length (concat chunks)) \<le> maxInt64" using b fits by (simp add: block_split_def)
  from commit_complete[OF laws cm' uploads_complete(1)[OF w'(1,2) noerr] _ uploads_complete(2)[OF w'(1,2) noerr] this]
  have "revision_is A V dec (bs_net s3) (fd_uploadParams fd) chunks" unfolding k(1) by blast
  moreover have "sv_stored V h' = sv_stored V (bs_net s3) \<and> sv_active V h' = sv_active V (bs_net s3)"
    using server_lawsD(12)[OF laws cr] server_lawsD(13)[OF laws ve] by simp
  ultimately have "revision_is A V dec (bs_net s') (fd_uploadParams fd) chunks"
    unfolding fin(2) by (subst revision_is_cong[of V _ "bs_net s3"]) simp_all
  moreover have "appending A V dec [] fd' s'"
  proof (rule appendingI[where full = "[]"])
    show "uploads A V dec [] fd' s'" unfolding fin by (rule uploadsI) (simp_all add: w'(2))
  qed (simp_all add: fin)
  moreover have "\<not> fd_closed fd'" "fd_mode fd' = fdWrite" "fd_isNew fd' = fd_isNew fd" "fd_committed fd' = fd_committed fd"
    using k op mode by (simp_all add: fin)
  ultimately show ?thesis using b by blast
qed

text \<open>
  What \<^verbatim>\<open>Sync\<close> does to a newly created file.  The \<^verbatim>\<open>Sync\<close> commits everything written so far,
  but the revision it opens for later writes starts empty: whatever is written afterwards, the next
  successful \<^verbatim>\<open>Flush\<close> makes a revision active that holds only the bytes written after the
  \<^verbatim>\<open>Sync\<close>, in particular none when nothing was written in between.
\<close>

theorem sync_restarts_content:
  assumes "server_laws A V dec" "int (length (written ops1)) \<le> maxInt64" "int (length (written ops2)) \<le> maxInt64"
    "written ops1 \<noteq> []"
    "write_run D A ops1 ((newWriteFD fh)\<lparr>fd_isNew := True, fd_unixMode := m\<rparr>) s0 = (fd1, s1)"
    "fd_Sync D A sched1 fd1 s1 = (None, fd2, s2)"
    "write_run D A ops2 fd2 s2 = (fd3, s3)"
    "fd_Flush D A sched2 fd3 s3 = (None, dropped, fd4, s4)"
  shows "(\<exists>chunks. concat chunks = written ops1 \<and> revision_is A V dec (bs_net s2) (fd_uploadParams fd1) chunks) \<and>
    (\<exists>chunks. concat chunks = written ops2 \<and> revision_is A V dec (bs_net s4) (fd_uploadParams fd4) chunks)"
proof -
  let ?fd0 = "(newWriteFD fh)\<lparr>fd_isNew := True, fd_unixMode := m\<rparr>"
  have m: "\<not> fd_closed ?fd0" "fd_mode ?fd0 = fdWrite" by (simp_all add: newWriteFD_def)
  from write_run_appends[OF assms(1) appending_new m assms(5)]
  have a: "appending A V dec (written ops1) fd1 s1" "same_identity ?fd0 fd1" by simp_all
  then have m1: "fd_mode fd1 = fdWrite" "fd_isNew fd1" "\<not> fd_committed fd1"
    by (simp_all add: same_identity_def newWriteFD_def)
  from sync_commits[OF assms(1) a(1) m1(1) assms(4,2,6)]
  have s: "appending A V dec [] fd2 s2" "\<not> fd_closed fd2" "fd_mode fd2 = fdWrite" "fd_isNew fd2" "\<not> fd_committed fd2"
    "\<exists>chunks. block_split (written ops1) chunks \<and> revision_is A V dec (bs_net s2) (fd_uploadParams fd1) chunks"
    using m1 by simp_all
  from write_run_appends[OF assms(1) s(1-3) assms(7)]
  have b: "appending A V dec (written ops2) fd3 s3" "same_identity fd2 fd3" by simp_all
  then have m3: "fd_mode fd3 = fdWrite" "written ops2 \<noteq> [] \<or> (fd_isNew fd3 \<and> \<not> fd_committed fd3)"
    using s by (simp_all add: same_identity_def)
  from flush_commits[OF assms(1) b(1) m3 assms(3,8)] s(6) show ?thesis by (auto simp: block_split_def)
qed

definition demo_new :: "fileDescriptor \<times> ((string, bytes) gomap, demoNet) blockStore" where
  "demo_new = write_run mem_diskv demo_api [OpWrite [1, 2]] ((newWriteFD demo_handle)\<lparr>fd_isNew := True, fd_unixMode := 0\<rparr>) demo_cloud"

definition demo_synced :: "driveErr option \<times> fileDescriptor \<times> ((string, bytes) gomap, demoNet) blockStore" where
  "demo_synced = fd_Sync mem_diskv demo_api [] (fst demo_new) (snd demo_new)"

lemma demo_new_eval: "demo_new = ((newWriteFD demo_handle)\<lparr>fd_isNew := True, fd_curBlock := [1, 2], fd_fileSize := 2\<rparr>, demo_cloud)"
  by (simp add: demo_new_def fd_Write_def fd_write_loop.simps newWriteFD_def BlockSize_def Let_def maxInt64_def)

lemma b64_AAAA: "b64_decode ''AAAA'' = Some [0, 0, 0]"
  using b64_decode_encode[of "[0, 0, 0]"] by (simp add: b64_char_def b64_alphabet_def)

lemma demo_synced_ok: "fst demo_synced = None" "fd_inflight (fst (snd demo_synced)) = []"
  "fd_tokens (fst (snd demo_synced)) = []" "fd_curBlock (fst (snd demo_synced)) = []"
  "fd_firstErr (fst (snd demo_synced)) = None" "fd_isNew (fst (snd demo_synced))"
  "\<not> fd_committed (fst (snd demo_synced))" "fd_mode (fst (snd demo_synced)) = fdWrite"
  by (simp_all add: demo_synced_def demo_new_eval flush_eval fd_Sync_def Let_def b64_AAAA)

theorem sync_restarts_content_witness:
  "\<exists>fd2 s2 fd4 s4. demo_synced = (None, fd2, s2) \<and>
     fd_Flush mem_diskv demo_api [] fd2 s2 = (None, True, fd4, s4) \<and>
     (\<exists>chunks. concat chunks = ([] :: bytes) \<and> revision_is demo_api demo_view Inr (bs_net s4) (fd_uploadParams fd4) chunks)"
proof -
  obtain fd2 s2 where e: "demo_synced = (None, fd2, s2)" using demo_synced_ok(1) by (metis prod.collapse)
  then have sy: "fd_Sync mem_diskv demo_api [] (fst demo_new) (snd demo_new) = (None, fd2, s2)"
    by (simp add: demo_synced_def)
  note o = demo_synced_ok(2-8)[unfolded e fst_conv snd_conv]
  have fl: "fst (fd_Flush mem_diskv demo_api [] fd2 s2) = None"
    "fst (snd (fd_Flush mem_diskv demo_api [] fd2 s2))"
    using o by (simp_all add: fd_Flush_def fd_wait_def fd_commitRevision_def commitRevisionFromTokens_def demo_api_def Let_def)
  then obtain fd4 s4 where f: "fd_Flush mem_diskv demo_api [] fd2 s2 = (None, True, fd4, s4)"
    by (cases "fd_Flush mem_diskv demo_api [] fd2 s2") auto
  have w: "write_run mem_diskv demo_api [OpWrite [1, 2]] ((newWriteFD demo_handle)\<lparr>fd_isNew := True, fd_unixMode := 0\<rparr>) demo_cloud
      = (fst demo_new, snd demo_new)" by (simp add: demo_new_def)
  from sync_restarts_content[OF demo_server _ _ _ w sy, of "[]" fd2 s2 "[]" True fd4 s4] f
  have "\<exists>chunks. concat chunks = ([] :: bytes) \<and>
      revision_is demo_api demo_view Inr (bs_net s4) (fd_uploadParams fd4) chunks"
    by (simp add: maxInt64_def del: concat_eq_Nil_conv)
  with e f show ?thesis by blast
qed

end
