(* ===== verification/CopyPipeline.thy ===== *)
theory CopyPipeline
  imports FileRead
begin

text \<open>
  The block copy pipeline: readers and writers (\<^verbatim>\<open>api/drive/copyjob.go\<close>, \<^verbatim>\<open>local.go\<close>,
  \<^verbatim>\<open>proton_endpoint.go\<close>) and \<^verbatim>\<open>RunPipeline\<close> (\<^verbatim>\<open>api/drive/pipeline.go\<close>), whose workers are interleaved step
  by step.
\<close>

section \<open>Readers and writers\<close>

text \<open>The interface values: methods over a world that holds everything they act on.  The second
  argument of \<open>br_ReadBlock\<close> is the length of the buffer, the result what was read into it.  A reader
  that can be cloned has a clone function.\<close>

datatype 'w BlockReader = BlockReader
  (br_ReadBlock: "int \<Rightarrow> int \<Rightarrow> 'w \<Rightarrow> (driveErr + bytes) \<times> 'w")
  (br_BlockCount: int) (br_BlockSize: "int \<Rightarrow> int") (br_TotalSize: int) (br_Describe: string)
  (br_Close: "'w \<Rightarrow> driveErr option \<times> 'w")
  (br_CloneReader: "('w \<Rightarrow> (driveErr + 'w BlockReader) \<times> 'w) option")

datatype 'w BlockWriter = BlockWriter
  (bw_WriteBlock: "int \<Rightarrow> bytes \<Rightarrow> 'w \<Rightarrow> driveErr option \<times> 'w") (bw_Describe: string)
  (bw_Close: "'w \<Rightarrow> driveErr option \<times> 'w")
  (bw_CloneWriter: "('w \<Rightarrow> (driveErr + 'w BlockWriter) \<times> 'w) option")

record 'w CopyJob =
  cj_Src :: "'w BlockReader"
  cj_Dst :: "'w BlockWriter"

section \<open>Claiming blocks\<close>

record blockMap =
  bm_total :: int
  bm_next :: int

definition newBlockMap :: "'w CopyJob \<Rightarrow> blockMap" where
  "newBlockMap job = \<lparr>bm_total = wrap32 (br_BlockCount (cj_Src job)), bm_next = 0\<rparr>"

definition blockMap_claim :: "blockMap \<Rightarrow> int option \<times> blockMap" where
  "blockMap_claim m =
     (let next = wrap32 (bm_next m + 1); idx = wrap32 (next - 1)
      in (if idx \<ge> bm_total m then None else Some idx, m\<lparr>bm_next := next\<rparr>))"

text \<open>The pipeline's \<^verbatim>\<open>claim\<close>: the first job from \<open>jobIdx\<close> on that has an unclaimed block.\<close>

function pipeline_claim :: "blockMap list \<Rightarrow> nat \<Rightarrow> (nat \<times> int) option \<times> blockMap list \<times> nat" where
  "pipeline_claim maps jobIdx =
     (if jobIdx < length maps then
        (case blockMap_claim (maps ! jobIdx) of
           (Some idx, m) \<Rightarrow> (Some (jobIdx, idx), maps[jobIdx := m], jobIdx)
         | (None, m) \<Rightarrow> pipeline_claim (maps[jobIdx := m]) (Suc jobIdx))
      else (None, maps, jobIdx))"
  by pat_completeness auto
termination by (relation "measure (\<lambda>(maps, jobIdx). length maps - jobIdx)") auto

declare pipeline_claim.simps [simp del]

section \<open>Workers\<close>

datatype pipeErr =
    CloneReaderErr string driveErr | CloneWriterErr string driveErr
  | ReadErr string int driveErr | WriteErr string int driveErr
  | CloseReaderErr string driveErr | CloseWriterErr string driveErr

text \<open>Where a worker is: before the next claim, with a claimed block (job, index, size), with the block
  read, with the block written and counted, or gone.\<close>

datatype copyPhase =
    Claiming | Claimed nat int int | HasData nat int bytes | Written nat int int | Exited

record 'w copyWorker =
  cw_phase :: copyPhase
  cw_srcClones :: "(nat, 'w BlockReader) gomap"
  cw_dstClones :: "(nat, 'w BlockWriter) gomap"
  cw_srcIsClone :: "nat list"
  cw_dstIsClone :: "nat list"

definition new_worker :: "'w copyWorker" where
  "new_worker = \<lparr>cw_phase = Claiming, cw_srcClones = [], cw_dstClones = [], cw_srcIsClone = [], cw_dstIsClone = []\<rparr>"

record 'w pipeline =
  pl_maps :: "blockMap list"
  pl_jobIdx :: nat
  pl_blocksDone :: int
  pl_bytesDone :: int
  pl_errs :: "pipeErr list"
  pl_jobDone :: "int list"
  pl_workers :: "'w copyWorker list"
  pl_world :: 'w
  pl_panicked :: bool
  pl_progress :: "(int \<times> int \<times> int) list"
  pl_verbose :: "(string \<times> string) list"

definition pl_init :: "nat \<Rightarrow> 'w CopyJob list \<Rightarrow> 'w \<Rightarrow> 'w pipeline" where
  "pl_init nWorkers jobs w =
     \<lparr>pl_maps = map newBlockMap jobs, pl_jobIdx = 0, pl_blocksDone = 0, pl_bytesDone = 0, pl_errs = [],
      pl_jobDone = replicate (length jobs) 0, pl_workers = replicate nWorkers new_worker, pl_world = w,
      pl_panicked = False, pl_progress = [], pl_verbose = []\<rparr>"

definition addErr :: "pipeErr \<Rightarrow> 'w pipeline \<Rightarrow> 'w pipeline" where
  "addErr e st = st\<lparr>pl_errs := pl_errs st @ [e]\<rparr>"

definition set_worker :: "nat \<Rightarrow> 'w copyWorker \<Rightarrow> 'w pipeline \<Rightarrow> 'w pipeline" where
  "set_worker k wk st = st\<lparr>pl_workers := (pl_workers st)[k := wk]\<rparr>"

text \<open>The deferred function: the worker's own clones are closed, errors ignored.\<close>

fun close_all :: "('w \<Rightarrow> driveErr option \<times> 'w) list \<Rightarrow> 'w \<Rightarrow> 'w" where
  "close_all [] w = w"
| "close_all (c # cs) w = close_all cs (snd (c w))"

definition close_clones :: "'w copyWorker \<Rightarrow> 'w \<Rightarrow> 'w" where
  "close_clones wk w =
     close_all (map (\<lambda>(_, x). bw_Close x) (filter (\<lambda>(j, _). j \<in> set (cw_dstIsClone wk)) (cw_dstClones wk)))
       (close_all (map (\<lambda>(_, r). br_Close r) (filter (\<lambda>(j, _). j \<in> set (cw_srcIsClone wk)) (cw_srcClones wk))) w)"

definition worker_exit :: "nat \<Rightarrow> 'w copyWorker \<Rightarrow> 'w pipeline \<Rightarrow> 'w pipeline" where
  "worker_exit k wk st =
     set_worker k (wk\<lparr>cw_phase := Exited\<rparr>) (st\<lparr>pl_world := close_clones wk (pl_world st)\<rparr>)"

text \<open>The worker's reader for a job: its clone, the job's reader when it cannot be cloned.\<close>

definition resolve_src ::
    "'w CopyJob \<Rightarrow> nat \<Rightarrow> 'w copyWorker \<Rightarrow> 'w \<Rightarrow> (driveErr + 'w BlockReader) \<times> 'w copyWorker \<times> 'w" where
  "resolve_src job ji wk w =
     (case map_of (cw_srcClones wk) ji of
        Some r \<Rightarrow> (Inr r, wk, w)
      | None \<Rightarrow>
          (case br_CloneReader (cj_Src job) of
             None \<Rightarrow> (Inr (cj_Src job), wk\<lparr>cw_srcClones := AList.update ji (cj_Src job) (cw_srcClones wk)\<rparr>, w)
           | Some clone \<Rightarrow>
               (case clone w of
                  (Inl err, w') \<Rightarrow> (Inl err, wk, w')
                | (Inr r, w') \<Rightarrow> (Inr r, wk\<lparr>cw_srcIsClone := ji # cw_srcIsClone wk,
                                  cw_srcClones := AList.update ji r (cw_srcClones wk)\<rparr>, w'))))"

definition resolve_dst ::
    "'w CopyJob \<Rightarrow> nat \<Rightarrow> 'w copyWorker \<Rightarrow> 'w \<Rightarrow> (driveErr + 'w BlockWriter) \<times> 'w copyWorker \<times> 'w" where
  "resolve_dst job ji wk w =
     (case map_of (cw_dstClones wk) ji of
        Some x \<Rightarrow> (Inr x, wk, w)
      | None \<Rightarrow>
          (case bw_CloneWriter (cj_Dst job) of
             None \<Rightarrow> (Inr (cj_Dst job), wk\<lparr>cw_dstClones := AList.update ji (cj_Dst job) (cw_dstClones wk)\<rparr>, w)
           | Some clone \<Rightarrow>
               (case clone w of
                  (Inl err, w') \<Rightarrow> (Inl err, wk, w')
                | (Inr x, w') \<Rightarrow> (Inr x, wk\<lparr>cw_dstIsClone := ji # cw_dstIsClone wk,
                                  cw_dstClones := AList.update ji x (cw_dstClones wk)\<rparr>, w'))))"

text \<open>The iteration, step by step.  \<open>cancelled\<close> is what \<^verbatim>\<open>ctx.Err\<close> says at the head of the loop.  A block
  size outside the worker's buffer is a slice out of range, which ends the program.\<close>

definition step_claim :: "'w CopyJob list \<Rightarrow> nat \<Rightarrow> bool \<Rightarrow> 'w copyWorker \<Rightarrow> 'w pipeline \<Rightarrow> 'w pipeline" where
  "step_claim jobs k cancelled wk st =
     (if cancelled then worker_exit k wk st
      else (case pipeline_claim (pl_maps st) (pl_jobIdx st) of
              (None, maps, ji) \<Rightarrow> worker_exit k wk (st\<lparr>pl_maps := maps, pl_jobIdx := ji\<rparr>)
            | (Some (j, idx), maps, ji) \<Rightarrow>
                set_worker k (wk\<lparr>cw_phase := Claimed j idx (br_BlockSize (cj_Src (jobs ! j)) idx)\<rparr>)
                  (st\<lparr>pl_maps := maps, pl_jobIdx := ji\<rparr>)))"

definition step_read :: "'w CopyJob list \<Rightarrow> nat \<Rightarrow> nat \<Rightarrow> int \<Rightarrow> int \<Rightarrow> 'w copyWorker \<Rightarrow> 'w pipeline \<Rightarrow> 'w pipeline" where
  "step_read jobs k ji idx sz wk st =
     (let job = jobs ! ji in
      case resolve_src job ji wk (pl_world st) of
        (Inl err, wk1, w1) \<Rightarrow>
          set_worker k (wk1\<lparr>cw_phase := Claiming\<rparr>) (addErr (CloneReaderErr (br_Describe (cj_Src job)) err) (st\<lparr>pl_world := w1\<rparr>))
      | (Inr src, wk1, w1) \<Rightarrow>
          (case resolve_dst job ji wk1 w1 of
             (Inl err, wk2, w2) \<Rightarrow>
               set_worker k (wk2\<lparr>cw_phase := Claiming\<rparr>) (addErr (CloneWriterErr (bw_Describe (cj_Dst job)) err) (st\<lparr>pl_world := w2\<rparr>))
           | (Inr dst, wk2, w2) \<Rightarrow>
               if sz < 0 \<or> sz > BlockSize then set_worker k wk2 (st\<lparr>pl_world := w2, pl_panicked := True\<rparr>)
               else (case br_ReadBlock src idx sz w2 of
                       (Inl err, w3) \<Rightarrow>
                         set_worker k (wk2\<lparr>cw_phase := Claiming\<rparr>) (addErr (ReadErr (br_Describe (cj_Src job)) idx err) (st\<lparr>pl_world := w3\<rparr>))
                     | (Inr b, w3) \<Rightarrow> set_worker k (wk2\<lparr>cw_phase := HasData ji idx b\<rparr>) (st\<lparr>pl_world := w3\<rparr>))))"

definition step_write :: "'w CopyJob list \<Rightarrow> nat \<Rightarrow> nat \<Rightarrow> int \<Rightarrow> bytes \<Rightarrow> 'w copyWorker \<Rightarrow> 'w pipeline \<Rightarrow> 'w pipeline" where
  "step_write jobs k ji idx b wk st =
     (let job = jobs ! ji;
          dst = (case map_of (cw_dstClones wk) ji of Some x \<Rightarrow> x | None \<Rightarrow> cj_Dst job)
      in (case bw_WriteBlock dst idx b (pl_world st) of
            (Some err, w') \<Rightarrow>
              set_worker k (wk\<lparr>cw_phase := Claiming\<rparr>) (addErr (WriteErr (bw_Describe (cj_Dst job)) idx err) (st\<lparr>pl_world := w'\<rparr>))
          | (None, w') \<Rightarrow>
              let bd = wrap64 (pl_blocksDone st + 1); byd = wrap64 (pl_bytesDone st + int (length b))
              in set_worker k (wk\<lparr>cw_phase := Written ji bd byd\<rparr>)
                   (st\<lparr>pl_world := w', pl_blocksDone := bd, pl_bytesDone := byd\<rparr>)))"

definition totalBlocks :: "'w CopyJob list \<Rightarrow> int" where
  "totalBlocks jobs = wrap64 (sum_list (map (\<lambda>job. br_BlockCount (cj_Src job)) jobs))"

text \<open>The progress callback runs outside the lock, with the counters read inside it.\<close>

definition step_report :: "'w CopyJob list \<Rightarrow> nat \<Rightarrow> nat \<Rightarrow> int \<Rightarrow> int \<Rightarrow> 'w copyWorker \<Rightarrow> 'w pipeline \<Rightarrow> 'w pipeline" where
  "step_report jobs k ji bd byd wk st =
     (let job = jobs ! ji; d = wrap32 (pl_jobDone st ! ji + 1);
          st1 = st\<lparr>pl_progress := pl_progress st @ [(bd, totalBlocks jobs, byd)], pl_jobDone := (pl_jobDone st)[ji := d]\<rparr>;
          st2 = (if d = br_BlockCount (cj_Src job)
                 then st1\<lparr>pl_verbose := pl_verbose st1 @ [(br_Describe (cj_Src job), bw_Describe (cj_Dst job))]\<rparr> else st1)
      in set_worker k (wk\<lparr>cw_phase := Claiming\<rparr>) st2)"

definition pipeline_step :: "'w CopyJob list \<Rightarrow> nat \<Rightarrow> bool \<Rightarrow> 'w pipeline \<Rightarrow> 'w pipeline option" where
  "pipeline_step jobs k cancelled st =
     (if pl_panicked st \<or> k \<ge> length (pl_workers st) then None
      else let wk = pl_workers st ! k in
        (case cw_phase wk of
           Claiming \<Rightarrow> Some (step_claim jobs k cancelled wk st)
         | Claimed ji idx sz \<Rightarrow> Some (step_read jobs k ji idx sz wk st)
         | HasData ji idx b \<Rightarrow> Some (step_write jobs k ji idx b wk st)
         | Written ji bd byd \<Rightarrow> Some (step_report jobs k ji bd byd wk st)
         | Exited \<Rightarrow> None))"

fun pipeline_run :: "'w CopyJob list \<Rightarrow> (nat \<times> bool) list \<Rightarrow> 'w pipeline \<Rightarrow> 'w pipeline option" where
  "pipeline_run jobs [] st = Some st"
| "pipeline_run jobs ((k, c) # sched) st =
     (case pipeline_step jobs k c st of None \<Rightarrow> None | Some st' \<Rightarrow> pipeline_run jobs sched st')"

definition all_exited :: "'w pipeline \<Rightarrow> bool" where
  "all_exited st \<longleftrightarrow> (\<forall>wk\<in>set (pl_workers st). cw_phase wk = Exited)"

section \<open>RunPipeline\<close>

text \<open>After the workers are gone the jobs' own readers and writers are closed, in the order of the jobs.\<close>

fun close_jobs :: "'w CopyJob list \<Rightarrow> 'w \<Rightarrow> pipeErr list \<times> 'w" where
  "close_jobs [] w = ([], w)"
| "close_jobs (job # jobs) w =
     (let (e1, w1) = br_Close (cj_Src job) w;
          (e2, w2) = bw_Close (cj_Dst job) w1;
          (es, w3) = close_jobs jobs w2
      in ((case e1 of None \<Rightarrow> [] | Some e \<Rightarrow> [CloseReaderErr (br_Describe (cj_Src job)) e]) @
          (case e2 of None \<Rightarrow> [] | Some e \<Rightarrow> [CloseWriterErr (bw_Describe (cj_Dst job)) e]) @ es, w3))"

text \<open>A run under the schedule \<open>sched\<close>; \<open>None\<close> when the schedule is not one that ends with all workers
  gone.  The result is the list of errors, empty for success, and the world.\<close>

definition RunPipeline ::
    "nat \<Rightarrow> 'w CopyJob list \<Rightarrow> (nat \<times> bool) list \<Rightarrow> 'w \<Rightarrow> (pipeErr list \<times> 'w) option" where
  "RunPipeline nWorkers jobs sched w =
     (if jobs = [] then Some ([], w)
      else (case pipeline_run jobs sched (pl_init nWorkers jobs w) of
              None \<Rightarrow> None
            | Some st \<Rightarrow>
                if all_exited st \<and> \<not> pl_panicked st
                then (let (es, w') = close_jobs jobs (pl_world st) in Some (pl_errs st @ es, w'))
                else None))"

section \<open>No block is lost and none is claimed twice\<close>

definition maps_ok :: "(nat \<Rightarrow> int) \<Rightarrow> blockMap list \<Rightarrow> nat \<Rightarrow> bool" where
  "maps_ok tot maps ji \<longleftrightarrow> ji \<le> length maps \<and>
     (\<forall>j<length maps. bm_total (maps ! j) = tot j \<and> 0 \<le> tot j \<and> tot j < 2 ^ 31 - 1 \<and>
        (if j < ji then bm_next (maps ! j) = tot j + 1
         else if j = ji then 0 \<le> bm_next (maps ! j) \<and> bm_next (maps ! j) \<le> tot j
         else bm_next (maps ! j) = 0))"

definition claimed :: "blockMap list \<Rightarrow> (nat \<times> int) set" where
  "claimed maps = {(j, i). j < length maps \<and> 0 \<le> i \<and> i < bm_next (maps ! j) \<and> i < bm_total (maps ! j)}"

lemma claimed_update:
  "ji < length maps \<Longrightarrow> (j, i) \<in> claimed (maps[ji := m]) \<longleftrightarrow>
    (if j = ji then 0 \<le> i \<and> i < bm_next m \<and> i < bm_total m else (j, i) \<in> claimed maps)"
  by (auto simp: claimed_def)

lemma claimed_at: "j < length maps \<Longrightarrow> (j, i) \<in> claimed maps \<longleftrightarrow> 0 \<le> i \<and> i < bm_next (maps ! j) \<and> i < bm_total (maps ! j)"
  by (simp add: claimed_def)

lemma claim_spec:
  assumes "maps_ok tot maps ji" "pipeline_claim maps ji = (r, maps', ji')"
  shows "maps_ok tot maps' ji' \<and> length maps' = length maps \<and>
    (case r of None \<Rightarrow> ji' = length maps \<and> claimed maps' = claimed maps
     | Some (j, i) \<Rightarrow> j < length maps \<and> 0 \<le> i \<and> i < tot j \<and> (j, i) \<notin> claimed maps \<and>
         claimed maps' = insert (j, i) (claimed maps))"
  using assms
proof (induction maps ji rule: pipeline_claim.induct)
  case (1 maps ji)
  show ?case
  proof (cases "ji < length maps")
    case False
    then have "r = None" "maps' = maps" "ji' = ji" using 1(3) by (simp_all add: pipeline_claim.simps[of maps ji])
    moreover have "ji = length maps" using 1(2) False by (simp add: maps_ok_def)
    ultimately show ?thesis using 1(2) by simp
  next
    case True
    define n where "n = bm_next (maps ! ji)"
    have n: "0 \<le> n" "n \<le> tot ji" "bm_total (maps ! ji) = tot ji" "tot ji < 2 ^ 31 - 1"
      using 1(2) True by (auto simp: maps_ok_def n_def)
    then have w: "wrap32 (n + 1) = n + 1" "wrap32 n = n" by simp_all
    have cl: "blockMap_claim (maps ! ji) = (if n \<ge> tot ji then None else Some n, (maps ! ji)\<lparr>bm_next := n + 1\<rparr>)"
      by (simp add: blockMap_claim_def n_def[symmetric] w n(3) Let_def)
    let ?m = "(maps ! ji)\<lparr>bm_next := n + 1\<rparr>"
    show ?thesis
    proof (cases "n \<ge> tot ji")
      case full: True
      have ok: "maps_ok tot (maps[ji := ?m]) (Suc ji)"
        using 1(2) True full n by (auto simp: maps_ok_def nth_list_update less_Suc_eq n_def[symmetric])
      have same: "claimed (maps[ji := ?m]) = claimed maps"
        using n full by (auto simp: claimed_update[OF True] claimed_at[OF True] n_def[symmetric] split: if_splits)
      have "pipeline_claim (maps[ji := ?m]) (Suc ji) = (r, maps', ji')"
        using 1(3) True full by (simp add: pipeline_claim.simps[of maps ji] cl)
      from 1(1)[OF True cl[symmetric] _ ok this] full same show ?thesis by (auto split: option.splits)
    next
      case False
      then have r: "r = Some (ji, n)" "maps' = maps[ji := ?m]" "ji' = ji"
        using 1(3) True by (auto simp: pipeline_claim.simps[of maps ji] cl)
      have "maps_ok tot maps' ji'"
        using 1(2) True False n by (auto simp: r maps_ok_def nth_list_update)
      moreover have "claimed maps' = insert (ji, n) (claimed maps)"
        using n False by (auto simp: r claimed_update[OF True] claimed_at[OF True] n_def[symmetric] split: if_splits)
      ultimately show ?thesis using r n False True by (auto simp: claimed_def n_def)
    qed
  qed
qed

text \<open>The ledger: \<open>m\<close> holds what has been written, \<open>cs\<close> the block each worker is carrying.\<close>

definition ledger :: "(nat \<Rightarrow> int) \<Rightarrow> (nat \<times> int \<Rightarrow> bytes option) \<Rightarrow> (nat \<times> int) set list \<Rightarrow> bool \<Rightarrow> blockMap list \<Rightarrow> nat \<Rightarrow> bool" where
  "ledger tot m cs clean maps ji \<longleftrightarrow> maps_ok tot maps ji \<and> dom m \<subseteq> claimed maps \<and>
     (\<forall>k x. k < length cs \<longrightarrow> x \<in> cs ! k \<longrightarrow> x \<in> claimed maps \<and> m x = None) \<and>
     (\<forall>k k' x. k < length cs \<longrightarrow> k' < length cs \<longrightarrow> k \<noteq> k' \<longrightarrow> x \<in> cs ! k \<longrightarrow> x \<notin> cs ! k') \<and>
     (\<forall>x. clean \<longrightarrow> x \<in> claimed maps \<longrightarrow> m x = None \<longrightarrow> (\<exists>k<length cs. x \<in> cs ! k))"

lemma ledgerI:
  assumes "maps_ok tot maps ji" "dom m \<subseteq> claimed maps"
    "\<And>k x. k < length cs \<Longrightarrow> x \<in> cs ! k \<Longrightarrow> x \<in> claimed maps \<and> m x = None"
    "\<And>k k' x. k < length cs \<Longrightarrow> k' < length cs \<Longrightarrow> k \<noteq> k' \<Longrightarrow> x \<in> cs ! k \<Longrightarrow> x \<in> cs ! k' \<Longrightarrow> False"
    "\<And>x. clean \<Longrightarrow> x \<in> claimed maps \<Longrightarrow> m x = None \<Longrightarrow> \<exists>k<length cs. x \<in> cs ! k"
  shows "ledger tot m cs clean maps ji"
proof -
  have "\<forall>k x. k < length cs \<longrightarrow> x \<in> cs ! k \<longrightarrow> x \<in> claimed maps \<and> m x = None"
    by (intro allI impI) (rule assms(3))
  moreover have "\<forall>k k' x. k < length cs \<longrightarrow> k' < length cs \<longrightarrow> k \<noteq> k' \<longrightarrow> x \<in> cs ! k \<longrightarrow> x \<notin> cs ! k'"
    by (intro allI impI notI) (rule assms(4))
  moreover have "\<forall>x. clean \<longrightarrow> x \<in> claimed maps \<longrightarrow> m x = None \<longrightarrow> (\<exists>k<length cs. x \<in> cs ! k)"
    by (intro allI impI) (rule assms(5))
  ultimately show ?thesis unfolding ledger_def using assms(1,2) by (intro conjI)
qed

lemma ledgerD:
  assumes "ledger tot m cs clean maps ji"
  shows "maps_ok tot maps ji" "dom m \<subseteq> claimed maps"
    "k < length cs \<Longrightarrow> x \<in> cs ! k \<Longrightarrow> x \<in> claimed maps \<and> m x = None"
    "k < length cs \<Longrightarrow> k' < length cs \<Longrightarrow> k \<noteq> k' \<Longrightarrow> x \<in> cs ! k \<Longrightarrow> x \<in> cs ! k' \<Longrightarrow> False"
    "clean \<Longrightarrow> x \<in> claimed maps \<Longrightarrow> m x = None \<Longrightarrow> \<exists>k<length cs. x \<in> cs ! k"
proof -
  note l = assms[unfolded ledger_def]
  note a = l[THEN conjunct2, THEN conjunct2, THEN conjunct1, rule_format]
    and b = l[THEN conjunct2, THEN conjunct2, THEN conjunct2, THEN conjunct1, rule_format]
    and c = l[THEN conjunct2, THEN conjunct2, THEN conjunct2, THEN conjunct2, rule_format]
  show "maps_ok tot maps ji" by (rule l[THEN conjunct1])
  show "dom m \<subseteq> claimed maps" by (rule l[THEN conjunct2, THEN conjunct1])
  show "k < length cs \<Longrightarrow> x \<in> cs ! k \<Longrightarrow> x \<in> claimed maps \<and> m x = None" by (rule a)
  show "k < length cs \<Longrightarrow> k' < length cs \<Longrightarrow> k \<noteq> k' \<Longrightarrow> x \<in> cs ! k \<Longrightarrow> x \<in> cs ! k' \<Longrightarrow> False" by (erule (4) b[THEN notE])
  show "clean \<Longrightarrow> x \<in> claimed maps \<Longrightarrow> m x = None \<Longrightarrow> \<exists>k<length cs. x \<in> cs ! k" by (rule c)
qed

lemma ledger_keep:
  assumes L: "ledger tot m cs clean maps ji" and "k < length cs" "C \<subseteq> cs ! k" "clean' \<Longrightarrow> clean \<and> C = cs ! k"
  shows "ledger tot m (cs[k := C]) clean' maps ji"
proof (rule ledgerI)
  have sub: "x \<in> cs[k := C] ! k' \<Longrightarrow> x \<in> cs ! k'" if "k' < length cs" for k' x
    using assms(2,3) that by (cases "k' = k") auto
  show "x \<in> claimed maps \<and> m x = None" if "k' < length (cs[k := C])" "x \<in> cs[k := C] ! k'" for k' x
    using ledgerD(3)[OF L] sub that by (metis length_list_update)
  show False if "k1 < length (cs[k := C])" "k2 < length (cs[k := C])" "k1 \<noteq> k2" "x \<in> cs[k := C] ! k1" "x \<in> cs[k := C] ! k2" for k1 k2 x
    using ledgerD(4)[OF L, of k1 k2 x] sub that by (metis length_list_update)
  show "\<exists>k'<length (cs[k := C]). x \<in> cs[k := C] ! k'" if c: "clean'" and x: "x \<in> claimed maps" "m x = None" for x
  proof -
    have "cs[k := C] = cs" using assms(4)[OF c] by simp
    then show ?thesis using ledgerD(5)[OF L _ x] assms(4)[OF c] by simp
  qed
qed (use ledgerD(1,2)[OF L] in auto)

lemma ledger_write:
  assumes L: "ledger tot m cs clean maps ji" and k: "k < length cs" and cell: "cs ! k = {x}"
  shows "ledger tot (m(x \<mapsto> b)) (cs[k := {}]) clean maps ji"
proof (rule ledgerI)
  have x: "x \<in> claimed maps" using ledgerD(3)[OF L k, of x] cell by simp
  have other: "k' \<noteq> k \<and> y \<in> cs ! k' \<and> y \<noteq> x" if "k' < length cs" "y \<in> cs[k := {}] ! k'" for k' y
  proof -
    have "k' \<noteq> k" using that k by auto
    then show ?thesis using that ledgerD(4)[OF L that(1) k, of y] cell by auto
  qed
  show "dom (m(x \<mapsto> b)) \<subseteq> claimed maps" using x ledgerD(2)[OF L] by simp
  show "y \<in> claimed maps \<and> (m(x \<mapsto> b)) y = None" if "k' < length (cs[k := {}])" "y \<in> cs[k := {}] ! k'" for k' y
    using other[of k' y] ledgerD(3)[OF L, of k' y] that by simp
  show False if "k1 < length (cs[k := {}])" "k2 < length (cs[k := {}])" "k1 \<noteq> k2" "y \<in> cs[k := {}] ! k1" "y \<in> cs[k := {}] ! k2" for k1 k2 y
    using other[of k1 y] other[of k2 y] ledgerD(4)[OF L, of k1 k2 y] that by simp
  show "\<exists>k'<length (cs[k := {}]). y \<in> cs[k := {}] ! k'" if c: "clean" "y \<in> claimed maps" "(m(x \<mapsto> b)) y = None" for y
  proof -
    have y: "y \<noteq> x" "m y = None" using c(3) by (auto split: if_splits)
    obtain k' where k': "k' < length cs" "y \<in> cs ! k'" using ledgerD(5)[OF L c(1,2) y(2)] by blast
    then have "k' \<noteq> k" using cell y(1) by auto
    then show ?thesis using k' by (intro exI[of _ k']) simp
  qed
qed (rule ledgerD(1)[OF L])

lemma ledger_claim:
  assumes L: "ledger tot m cs clean maps ji" and k: "k < length cs" and cell: "cs ! k = {}"
    and cl: "pipeline_claim maps ji = (r, maps', ji')"
  shows "ledger tot m (cs[k := (case r of None \<Rightarrow> {} | Some x \<Rightarrow> {x})]) clean maps' ji'"
proof (cases r)
  case None
  then have "claimed maps' = claimed maps" "maps_ok tot maps' ji'"
    using claim_spec[OF ledgerD(1)[OF L] cl] by auto
  moreover have "cs[k := {}] = cs" using cell by (metis list_update_id)
  ultimately show ?thesis using L None by (simp add: ledger_def)
next
  case (Some x)
  have new: "x \<notin> claimed maps" "claimed maps' = insert x (claimed maps)" "maps_ok tot maps' ji'"
    using claim_spec[OF ledgerD(1)[OF L] cl] Some by (auto split: prod.splits)
  have mx: "m x = None" using new(1) ledgerD(2)[OF L] by (metis domIff subsetD)
  let ?cs = "cs[k := {x}]"
  have other: "k' \<noteq> k \<Longrightarrow> ?cs ! k' = cs ! k'" "?cs ! k = {x}" for k' using k by simp_all
  have "ledger tot m ?cs clean maps' ji'"
  proof (rule ledgerI)
    show "dom m \<subseteq> claimed maps'" using ledgerD(2)[OF L] new(2) by blast
    show "y \<in> claimed maps' \<and> m y = None" if "k' < length ?cs" "y \<in> ?cs ! k'" for k' y
      using ledgerD(3)[OF L, of k' y] other new(2) mx that by (cases "k' = k") auto
    show False if h: "k1 < length ?cs" "k2 < length ?cs" "k1 \<noteq> k2" "y \<in> ?cs ! k1" "y \<in> ?cs ! k2" for k1 k2 y
    proof (cases "k1 = k \<or> k2 = k")
      case True
      then have "y = x" using h k by auto
      moreover have "y \<in> claimed maps" using True h ledgerD(3)[OF L, of k1 y] ledgerD(3)[OF L, of k2 y] by auto
      ultimately show False using new(1) by simp
    next
      case False
      then show False using h ledgerD(4)[OF L, of k1 k2 y] by simp
    qed
    show "\<exists>k'<length ?cs. y \<in> ?cs ! k'" if c: "clean" "y \<in> claimed maps'" "m y = None" for y
    proof (cases "y = x")
      case True
      then show ?thesis using k by (intro exI[of _ k]) simp
    next
      case False
      then obtain k' where k': "k' < length cs" "y \<in> cs ! k'" using ledgerD(5)[OF L c(1) _ c(3)] new(2) c(2) by blast
      then have "k' \<noteq> k" using cell by auto
      then show ?thesis using k' by (intro exI[of _ k']) simp
    qed
  qed (rule new(3))
  then show ?thesis by (simp add: Some)
qed

section \<open>The contract of readers and writers\<close>

fun cell :: "copyPhase \<Rightarrow> (nat \<times> int) set" where
  "cell (Claimed j i sz) = {(j, i)}"
| "cell (HasData j i b) = {(j, i)}"
| "cell _ = {}"

abbreviation cells :: "'w copyWorker list \<Rightarrow> (nat \<times> int) set list" where
  "cells ws \<equiv> map (\<lambda>wk. cell (cw_phase wk)) ws"

text \<open>
  \<open>chunks j\<close> is the content of job \<open>j\<close>; \<open>ok m w\<close> says that the world holds the blocks \<open>m\<close> at the
  destinations and nothing else.  A reader that may be used for a job delivers the block asked for or an
  error; a writer that may be used stores it or fails without storing; cloning yields such readers and
  writers; nothing but a successful write changes what the destinations hold.
\<close>

locale copy_endpoints =
  fixes jobs :: "'w CopyJob list" and chunks :: "nat \<Rightarrow> bytes list"
    and ok :: "(nat \<times> int \<Rightarrow> bytes option) \<Rightarrow> 'w \<Rightarrow> bool"
    and reads :: "nat \<Rightarrow> 'w BlockReader \<Rightarrow> bool" and writes :: "nat \<Rightarrow> 'w BlockWriter \<Rightarrow> bool"
  assumes count: "j < length jobs \<Longrightarrow> br_BlockCount (cj_Src (jobs ! j)) = int (length (chunks j))"
    and small: "j < length jobs \<Longrightarrow> int (length (chunks j)) < 2 ^ 31 - 1"
    and read: "reads j R \<Longrightarrow> j < length jobs \<Longrightarrow> 0 \<le> i \<Longrightarrow> i < int (length (chunks j)) \<Longrightarrow>
        br_ReadBlock R i (br_BlockSize (cj_Src (jobs ! j)) i) w = (Inr b, w') \<Longrightarrow> ok m w \<Longrightarrow> b = chunks j ! nat i"
    and read_keeps: "reads j R \<Longrightarrow> j < length jobs \<Longrightarrow> br_ReadBlock R i sz w = (r, w') \<Longrightarrow> ok m w \<Longrightarrow> ok m w'"
    and template_src: "j < length jobs \<Longrightarrow> br_CloneReader (cj_Src (jobs ! j)) = None \<Longrightarrow> reads j (cj_Src (jobs ! j))"
    and template_dst: "j < length jobs \<Longrightarrow> bw_CloneWriter (cj_Dst (jobs ! j)) = None \<Longrightarrow> writes j (cj_Dst (jobs ! j))"
    and clone_src: "j < length jobs \<Longrightarrow> br_CloneReader (cj_Src (jobs ! j)) = Some c \<Longrightarrow> c w = (q, w') \<Longrightarrow> ok m w \<Longrightarrow>
        ok m w' \<and> (\<forall>R. q = Inr R \<longrightarrow> reads j R)"
    and clone_dst: "j < length jobs \<Longrightarrow> bw_CloneWriter (cj_Dst (jobs ! j)) = Some d \<Longrightarrow> d w = (x, w') \<Longrightarrow> ok m w \<Longrightarrow>
        ok m w' \<and> (\<forall>X. x = Inr X \<longrightarrow> writes j X)"
    and "write": "writes j X \<Longrightarrow> j < length jobs \<Longrightarrow> bw_WriteBlock X i b w = (None, w') \<Longrightarrow> ok m w \<Longrightarrow> m (j, i) = None \<Longrightarrow>
        b = chunks j ! nat i \<Longrightarrow> ok (m((j, i) \<mapsto> b)) w'"
    and write_fails: "writes j X \<Longrightarrow> j < length jobs \<Longrightarrow> bw_WriteBlock X i b w = (Some e, w') \<Longrightarrow> ok m w \<Longrightarrow> m (j, i) = None \<Longrightarrow>
        b = chunks j ! nat i \<Longrightarrow> ok m w'"
    and close_clone: "reads j R \<Longrightarrow> j < length jobs \<Longrightarrow> br_CloneReader (cj_Src (jobs ! j)) \<noteq> None \<Longrightarrow> ok m w \<Longrightarrow> ok m (snd (br_Close R w))"
      "writes j X \<Longrightarrow> j < length jobs \<Longrightarrow> bw_CloneWriter (cj_Dst (jobs ! j)) \<noteq> None \<Longrightarrow> ok m w \<Longrightarrow> ok m (snd (bw_Close X w))"
begin

definition tot :: "nat \<Rightarrow> int" where "tot j = int (length (chunks j))"

definition worker_ok :: "'w copyWorker \<Rightarrow> bool" where
  "worker_ok wk \<longleftrightarrow>
     (\<forall>j R. map_of (cw_srcClones wk) j = Some R \<longrightarrow> j < length jobs \<and> reads j R) \<and>
     (\<forall>j X. map_of (cw_dstClones wk) j = Some X \<longrightarrow> j < length jobs \<and> writes j X) \<and>
     distinct (keys (cw_srcClones wk)) \<and> distinct (keys (cw_dstClones wk)) \<and>
     (\<forall>j\<in>set (cw_srcIsClone wk). br_CloneReader (cj_Src (jobs ! j)) \<noteq> None) \<and>
     (\<forall>j\<in>set (cw_dstIsClone wk). bw_CloneWriter (cj_Dst (jobs ! j)) \<noteq> None) \<and>
     (case cw_phase wk of
        Claimed j i sz \<Rightarrow> sz = br_BlockSize (cj_Src (jobs ! j)) i
      | HasData j i b \<Rightarrow> b = chunks j ! nat i \<and> map_of (cw_dstClones wk) j \<noteq> None
      | _ \<Rightarrow> True)"

definition copy_inv :: "(nat \<times> int \<Rightarrow> bytes option) \<Rightarrow> 'w pipeline \<Rightarrow> bool" where
  "copy_inv m st \<longleftrightarrow>
     ledger tot m (cells (pl_workers st)) (pl_errs st = []) (pl_maps st) (pl_jobIdx st) \<and>
     length (pl_maps st) = length jobs \<and> ok m (pl_world st) \<and>
     (\<forall>wk\<in>set (pl_workers st). worker_ok wk) \<and>
     (\<forall>j i b. m (j, i) = Some b \<longrightarrow> b = chunks j ! nat i) \<and>
     (\<forall>wk\<in>set (pl_workers st). cw_phase wk = Exited \<longrightarrow> pl_jobIdx st = length jobs)"

lemma close_all_ok:
  "(\<And>c w m. c \<in> set cs \<Longrightarrow> ok m w \<Longrightarrow> ok m (snd (c w))) \<Longrightarrow> ok m w \<Longrightarrow> ok m (close_all cs w)"
  by (induction cs arbitrary: w) auto

lemma close_clones_ok:
  assumes wk: "worker_ok wk" and o: "ok m w"
  shows "ok m (close_clones wk w)"
proof -
  have r: "ok m (snd (br_Close R w))" if "(j, R) \<in> set (cw_srcClones wk)" "j \<in> set (cw_srcIsClone wk)" "ok m w" for j R m w
  proof -
    have "map_of (cw_srcClones wk) j = Some R" using wk that(1) by (simp add: worker_ok_def)
    then show ?thesis using wk that by (intro close_clone(1)[where j = j]) (auto simp: worker_ok_def)
  qed
  have x: "ok m (snd (bw_Close X w))" if "(j, X) \<in> set (cw_dstClones wk)" "j \<in> set (cw_dstIsClone wk)" "ok m w" for j X m w
  proof -
    have "map_of (cw_dstClones wk) j = Some X" using wk that(1) by (simp add: worker_ok_def)
    then show ?thesis using wk that by (intro close_clone(2)[where j = j]) (auto simp: worker_ok_def)
  qed
  show ?thesis unfolding close_clones_def
    by (intro close_all_ok o) (use r x in auto)
qed

lemma resolve_src_ok:
  assumes "resolve_src (jobs ! j) j wk w = (r, wk', w')" "worker_ok wk" "j < length jobs" "ok m w"
  shows "ok m w' \<and> (\<forall>R. r = Inr R \<longrightarrow> reads j R) \<and> cw_phase wk' = cw_phase wk \<and> cw_dstClones wk' = cw_dstClones wk \<and>
    worker_ok (wk'\<lparr>cw_phase := Claiming\<rparr>)"
proof (cases "map_of (cw_srcClones wk) j")
  case (Some R)
  with assms show ?thesis by (auto simp: resolve_src_def worker_ok_def)
next
  case None
  show ?thesis
  proof (cases "br_CloneReader (cj_Src (jobs ! j))")
    case tmpl: None
    from assms template_src[OF assms(3) tmpl] None tmpl show ?thesis
      by (auto simp: resolve_src_def worker_ok_def update_conv' split: if_splits)
  next
    case (Some c)
    obtain x w1 where c: "c w = (x, w1)" by force
    note cl = clone_src[OF assms(3) Some c assms(4)]
    show ?thesis
    proof (cases x)
      case (Inl e)
      with assms None Some c cl show ?thesis by (auto simp: resolve_src_def worker_ok_def)
    next
      case (Inr R)
      then have "reads j R" using cl by blast
      with Inr assms None Some c cl show ?thesis
        by (auto simp: resolve_src_def worker_ok_def update_conv' split: if_splits)
    qed
  qed
qed

lemma resolve_dst_ok:
  assumes "resolve_dst (jobs ! j) j wk w = (r, wk', w')" "worker_ok (wk\<lparr>cw_phase := Claiming\<rparr>)" "j < length jobs" "ok m w"
  shows "ok m w' \<and> (\<forall>X. r = Inr X \<longrightarrow> map_of (cw_dstClones wk') j = Some X) \<and> cw_phase wk' = cw_phase wk \<and>
    worker_ok (wk'\<lparr>cw_phase := Claiming\<rparr>)"
proof (cases "map_of (cw_dstClones wk) j")
  case (Some X)
  with assms show ?thesis by (auto simp: resolve_dst_def worker_ok_def)
next
  case None
  show ?thesis
  proof (cases "bw_CloneWriter (cj_Dst (jobs ! j))")
    case tmpl: None
    from assms template_dst[OF assms(3) tmpl] None tmpl show ?thesis
      by (auto simp: resolve_dst_def worker_ok_def update_conv' split: if_splits)
  next
    case (Some c)
    obtain x w1 where c: "c w = (x, w1)" by force
    note cl = clone_dst[OF assms(3) Some c assms(4)]
    show ?thesis
    proof (cases x)
      case (Inl e)
      with assms None Some c cl show ?thesis by (auto simp: resolve_dst_def worker_ok_def)
    next
      case (Inr X)
      then have "writes j X" using cl by blast
      with Inr assms None Some c cl show ?thesis
        by (auto simp: resolve_dst_def worker_ok_def update_conv' split: if_splits)
    qed
  qed
qed

end

text \<open>What the destinations hold when every block has been copied.\<close>

definition all_blocks :: "nat \<Rightarrow> (nat \<Rightarrow> bytes list) \<Rightarrow> nat \<times> int \<Rightarrow> bytes option" where
  "all_blocks n chunks = (\<lambda>(j, i). if j < n \<and> 0 \<le> i \<and> i < int (length (chunks j)) then Some (chunks j ! nat i) else None)"

section \<open>Every step keeps the books\<close>

context copy_endpoints
begin

lemma inv_update:
  assumes inv: "copy_inv m st" and ws: "pl_workers st' = (pl_workers st)[k := wk]"
    and L: "ledger tot m' (cells (pl_workers st')) (pl_errs st' = []) (pl_maps st') (pl_jobIdx st')"
    and rest: "length (pl_maps st') = length jobs" "ok m' (pl_world st')" "worker_ok wk"
      "\<forall>j i b. m' (j, i) = Some b \<longrightarrow> b = chunks j ! nat i"
    and ex: "cw_phase wk = Exited \<Longrightarrow> pl_jobIdx st' = length jobs" "pl_jobIdx st = length jobs \<Longrightarrow> pl_jobIdx st' = length jobs"
  shows "copy_inv m' st'"
proof -
  have "wk' = wk \<or> wk' \<in> set (pl_workers st)" if "wk' \<in> set (pl_workers st')" for wk'
    using that set_update_subset_insert[of "pl_workers st" k wk] unfolding ws by auto
  then show ?thesis using inv L rest ex unfolding copy_inv_def by metis
qed

lemma cells_at: "k < length ws \<Longrightarrow> cells ws ! k = cell (cw_phase (ws ! k))" by simp

lemma cells_update: "cells (ws[k := wk]) = (cells ws)[k := cell (cw_phase wk)]" by (simp add: map_update)

lemma inv_at:
  assumes "copy_inv m st" "k < length (pl_workers st)"
  shows "worker_ok (pl_workers st ! k)" "cells (pl_workers st) ! k = cell (cw_phase (pl_workers st ! k))"
  using assms by (auto simp: copy_inv_def)

text \<open>A worker gives its block up: an error is recorded.\<close>

lemma inv_keep:
  assumes inv: "copy_inv m st" and k: "k < length (pl_workers st)"
    and st': "pl_workers st' = (pl_workers st)[k := wk]" "pl_maps st' = pl_maps st" "pl_jobIdx st' = pl_jobIdx st"
    and c: "cell (cw_phase wk) \<subseteq> cell (cw_phase (pl_workers st ! k))"
      "pl_errs st' = [] \<Longrightarrow> pl_errs st = [] \<and> cell (cw_phase wk) = cell (cw_phase (pl_workers st ! k))"
    and rest: "ok m (pl_world st')" "worker_ok wk" "cw_phase wk \<noteq> Exited"
  shows "copy_inv m st'"
proof (rule inv_update[OF inv st'(1)])
  have "ledger tot m (cells (pl_workers st)) (pl_errs st = []) (pl_maps st) (pl_jobIdx st)" using inv by (simp add: copy_inv_def)
  from ledger_keep[OF this, of k "cell (cw_phase wk)" "pl_errs st' = []"] c k
  show "ledger tot m (cells (pl_workers st')) (pl_errs st' = []) (pl_maps st') (pl_jobIdx st')"
    unfolding st' cells_update by (simp add: inv_at(2)[OF inv k])
qed (use inv rest st' in \<open>auto simp: copy_inv_def\<close>)

lemma claim_end: "pipeline_claim maps (length maps) = (None, maps, length maps)"
  by (simp add: pipeline_claim.simps)

lemma inv_claim:
  assumes inv: "copy_inv m st" and k: "k < length (pl_workers st)" and ph: "cw_phase (pl_workers st ! k) = Claiming"
  shows "copy_inv m (step_claim jobs k False (pl_workers st ! k) st)"
proof -
  let ?wk = "pl_workers st ! k"
  have L: "ledger tot m (cells (pl_workers st)) (pl_errs st = []) (pl_maps st) (pl_jobIdx st)"
    and len: "length (pl_maps st) = length jobs" using inv by (simp_all add: copy_inv_def)
  obtain r maps ji where cl: "pipeline_claim (pl_maps st) (pl_jobIdx st) = (r, maps, ji)" by (metis surj_pair)
  have e: "cells (pl_workers st) ! k = {}" using k ph by simp
  have kc: "k < length (cells (pl_workers st))" using k by simp
  note L' = ledger_claim[OF L kc e cl]
  note sp = claim_spec[OF ledgerD(1)[OF L] cl]
  have stay: "ji = length jobs" if "pl_jobIdx st = length jobs" using cl claim_end[of "pl_maps st"] that len by simp
  show ?thesis
  proof (cases r)
    case None
    have st: "step_claim jobs k False ?wk st = worker_exit k ?wk (st\<lparr>pl_maps := maps, pl_jobIdx := ji\<rparr>)"
      by (simp add: step_claim_def cl None)
    show ?thesis unfolding st
    proof (rule inv_update[OF inv, where k = k and wk = "?wk\<lparr>cw_phase := Exited\<rparr>"])
      show "ok m (pl_world (worker_exit k ?wk (st\<lparr>pl_maps := maps, pl_jobIdx := ji\<rparr>)))"
        using close_clones_ok[OF inv_at(1)[OF inv k]] inv by (simp add: worker_exit_def set_worker_def copy_inv_def)
      show "worker_ok (?wk\<lparr>cw_phase := Exited\<rparr>)" using inv_at(1)[OF inv k] by (simp add: worker_ok_def)
    qed (use L' sp None len inv in \<open>auto simp: worker_exit_def set_worker_def cells_update copy_inv_def\<close>)
  next
    case (Some x)
    obtain j i where x: "x = (j, i)" by force
    let ?wk' = "?wk\<lparr>cw_phase := Claimed j i (br_BlockSize (cj_Src (jobs ! j)) i)\<rparr>"
    have st: "step_claim jobs k False ?wk st = set_worker k ?wk' (st\<lparr>pl_maps := maps, pl_jobIdx := ji\<rparr>)"
      by (simp add: step_claim_def cl Some x)
    show ?thesis unfolding st
    proof (rule inv_update[OF inv, where k = k and wk = ?wk'])
      show "worker_ok ?wk'" using inv_at(1)[OF inv k] by (simp add: worker_ok_def)
    qed (use L' sp Some x len inv stay in \<open>auto simp: set_worker_def cells_update copy_inv_def\<close>)
  qed
qed

lemma carried:
  assumes inv: "copy_inv m st" and k: "k < length (pl_workers st)" and c: "cell (cw_phase (pl_workers st ! k)) = {(j, i)}"
  shows "j < length jobs" "0 \<le> i" "i < int (length (chunks j))" "m (j, i) = None"
proof -
  have L: "ledger tot m (cells (pl_workers st)) (pl_errs st = []) (pl_maps st) (pl_jobIdx st)"
    and len: "length (pl_maps st) = length jobs" using inv by (simp_all add: copy_inv_def)
  have x: "(j, i) \<in> claimed (pl_maps st)" "m (j, i) = None"
    using ledgerD(3)[OF L, of k "(j, i)"] k c by auto
  then show "j < length jobs" "0 \<le> i" "m (j, i) = None" by (auto simp: claimed_def len)
  show "i < int (length (chunks j))" using x(1) ledgerD(1)[OF L] by (auto simp: claimed_def maps_ok_def tot_def)
qed

end

context copy_endpoints
begin

lemma worker_ok_phase: "worker_ok wk \<Longrightarrow> worker_ok (wk\<lparr>cw_phase := Claiming\<rparr>)"
  by (simp add: worker_ok_def)

lemma inv_read:
  assumes inv: "copy_inv m st" and k: "k < length (pl_workers st)" and ph: "cw_phase (pl_workers st ! k) = Claimed j i sz"
  shows "copy_inv m (step_read jobs k j i sz (pl_workers st ! k) st)"
proof -
  let ?wk = "pl_workers st ! k"
  have c: "cell (cw_phase ?wk) = {(j, i)}" by (simp add: ph)
  note ji = carried[OF inv k c]
  have ok0: "ok m (pl_world st)" using inv by (simp add: copy_inv_def)
  obtain r1 wk1 w1 where r1: "resolve_src (jobs ! j) j ?wk (pl_world st) = (r1, wk1, w1)" by (metis surj_pair)
  note src = resolve_src_ok[OF r1 inv_at(1)[OF inv k] ji(1) ok0]
  show ?thesis
  proof (cases r1)
    case (Inl err)
    then have "step_read jobs k j i sz ?wk st = set_worker k (wk1\<lparr>cw_phase := Claiming\<rparr>)
        (addErr (CloneReaderErr (br_Describe (cj_Src (jobs ! j))) err) (st\<lparr>pl_world := w1\<rparr>))"
      by (simp add: step_read_def r1 Let_def)
    then show ?thesis using src by (intro inv_keep[OF inv k]) (auto simp: set_worker_def addErr_def)
  next
    case (Inr R)
    have ok1: "worker_ok (wk1\<lparr>cw_phase := Claiming\<rparr>)" "ok m w1" "reads j R" using src Inr by auto
    obtain r2 wk2 w2 where r2: "resolve_dst (jobs ! j) j wk1 w1 = (r2, wk2, w2)" by (metis surj_pair)
    note dst = resolve_dst_ok[OF r2 ok1(1) ji(1) ok1(2)]
    have sz: "sz = br_BlockSize (cj_Src (jobs ! j)) i" using inv_at(1)[OF inv k] by (simp add: worker_ok_def ph)
    show ?thesis
    proof (cases r2)
      case (Inl err)
      then have "step_read jobs k j i sz ?wk st = set_worker k (wk2\<lparr>cw_phase := Claiming\<rparr>)
          (addErr (CloneWriterErr (bw_Describe (cj_Dst (jobs ! j))) err) (st\<lparr>pl_world := w2\<rparr>))"
        by (simp add: step_read_def r1 r2 Let_def Inr)
      then show ?thesis using dst by (intro inv_keep[OF inv k]) (auto simp: set_worker_def addErr_def)
    next
      case X: (Inr X)
      show ?thesis
      proof (cases "sz < 0 \<or> sz > BlockSize")
        case True
        then have e: "step_read jobs k j i sz ?wk st = set_worker k wk2 (st\<lparr>pl_world := w2, pl_panicked := True\<rparr>)"
          by (simp add: step_read_def r1 r2 Let_def Inr X)
        have "cw_phase wk2 = Claimed j i sz" using dst src ph by simp
        moreover from this dst have "worker_ok wk2" by (simp add: worker_ok_def sz)
        ultimately show ?thesis unfolding e using dst ph
          by (intro inv_keep[OF inv k, where wk = wk2]) (auto simp: set_worker_def)
      next
        case False
        obtain r3 w3 where r3: "br_ReadBlock R i sz w2 = (r3, w3)" by force
        have ok3: "ok m w3" using read_keeps[OF ok1(3) ji(1) r3] dst by blast
        show ?thesis
        proof (cases r3)
          case (Inl err)
          then have "step_read jobs k j i sz ?wk st = set_worker k (wk2\<lparr>cw_phase := Claiming\<rparr>)
              (addErr (ReadErr (br_Describe (cj_Src (jobs ! j))) i err) (st\<lparr>pl_world := w3\<rparr>))"
            using False by (simp add: step_read_def r1 r2 r3 Let_def Inr X)
          then show ?thesis using dst ok3 by (intro inv_keep[OF inv k]) (auto simp: set_worker_def addErr_def)
        next
          case b: (Inr b)
          have e: "step_read jobs k j i sz ?wk st = set_worker k (wk2\<lparr>cw_phase := HasData j i b\<rparr>) (st\<lparr>pl_world := w3\<rparr>)"
            using False by (simp add: step_read_def r1 r2 r3 Let_def Inr X b)
          have "b = chunks j ! nat i"
            using read[OF ok1(3) ji(1-3)] r3 dst b sz by blast
          then have "worker_ok (wk2\<lparr>cw_phase := HasData j i b\<rparr>)" using dst X by (simp add: worker_ok_def)
          then show ?thesis unfolding e using ok3 ph
            by (intro inv_keep[OF inv k, where wk = "wk2\<lparr>cw_phase := HasData j i b\<rparr>"]) (auto simp: set_worker_def)
        qed
      qed
    qed
  qed
qed

lemma inv_write:
  assumes inv: "copy_inv m st" and k: "k < length (pl_workers st)" and ph: "cw_phase (pl_workers st ! k) = HasData j i b"
  shows "\<exists>m'. copy_inv m' (step_write jobs k j i b (pl_workers st ! k) st)"
proof -
  let ?wk = "pl_workers st ! k"
  have c: "cell (cw_phase ?wk) = {(j, i)}" by (simp add: ph)
  note ji = carried[OF inv k c]
  have wok: "worker_ok ?wk" by (rule inv_at(1)[OF inv k])
  then obtain X where X: "map_of (cw_dstClones ?wk) j = Some X" "b = chunks j ! nat i"
    by (auto simp: worker_ok_def ph)
  then have w: "writes j X" using wok by (simp add: worker_ok_def)
  have ok0: "ok m (pl_world st)" using inv by (simp add: copy_inv_def)
  obtain e w' where r: "bw_WriteBlock X i b (pl_world st) = (e, w')" by force
  show ?thesis
  proof (cases e)
    case (Some err)
    then have st: "step_write jobs k j i b ?wk st = set_worker k (?wk\<lparr>cw_phase := Claiming\<rparr>)
        (addErr (WriteErr (bw_Describe (cj_Dst (jobs ! j))) i err) (st\<lparr>pl_world := w'\<rparr>))"
      by (simp add: step_write_def X(1) r Let_def)
    have "ok m w'" using write_fails[OF w ji(1) _ ok0 ji(4) X(2)] r Some by blast
    then have "copy_inv m (step_write jobs k j i b ?wk st)" unfolding st
      using worker_ok_phase[OF wok] by (intro inv_keep[OF inv k, where wk = "?wk\<lparr>cw_phase := Claiming\<rparr>"]) (auto simp: set_worker_def addErr_def)
    then show ?thesis by blast
  next
    case None
    let ?wk' = "?wk\<lparr>cw_phase := Written j (wrap64 (pl_blocksDone st + 1)) (wrap64 (pl_bytesDone st + int (length b)))\<rparr>"
    let ?st' = "step_write jobs k j i b ?wk st"
    have st: "?st' = set_worker k ?wk' (st\<lparr>pl_world := w', pl_blocksDone := wrap64 (pl_blocksDone st + 1),
        pl_bytesDone := wrap64 (pl_bytesDone st + int (length b))\<rparr>)"
      using None by (simp add: step_write_def X(1) r Let_def)
    have ok1: "ok (m((j, i) \<mapsto> b)) w'" using "write"[OF w ji(1) _ ok0 ji(4) X(2)] r None by blast
    have L: "ledger tot m (cells (pl_workers st)) (pl_errs st = []) (pl_maps st) (pl_jobIdx st)" using inv by (simp add: copy_inv_def)
    have L': "ledger tot (m((j, i) \<mapsto> b)) ((cells (pl_workers st))[k := {}]) (pl_errs st = []) (pl_maps st) (pl_jobIdx st)"
      by (rule ledger_write[OF L]) (use k c in auto)
    have "copy_inv (m((j, i) \<mapsto> b)) ?st'"
    proof (rule inv_update[OF inv, where k = k and wk = ?wk'])
      show "worker_ok ?wk'" using wok by (simp add: worker_ok_def)
      show "\<forall>ja ia ba. (m((j, i) \<mapsto> b)) (ja, ia) = Some ba \<longrightarrow> ba = chunks ja ! nat ia"
        using inv X(2) by (auto simp: copy_inv_def)
    qed (use L' ok1 inv in \<open>auto simp: st set_worker_def cells_update copy_inv_def\<close>)
    then show ?thesis by blast
  qed
qed

lemma inv_report:
  assumes inv: "copy_inv m st" and k: "k < length (pl_workers st)" and ph: "cw_phase (pl_workers st ! k) = Written j bd byd"
  shows "copy_inv m (step_report jobs k j bd byd (pl_workers st ! k) st)"
  using worker_ok_phase[OF inv_at(1)[OF inv k]] ph inv
  by (intro inv_keep[OF inv k, where wk = "(pl_workers st ! k)\<lparr>cw_phase := Claiming\<rparr>"])
    (auto simp: step_report_def set_worker_def Let_def copy_inv_def split: if_splits)

lemma inv_step:
  assumes "copy_inv m st" "pipeline_step jobs k False st = Some st'"
  shows "\<exists>m'. copy_inv m' st'"
proof -
  have k: "k < length (pl_workers st)" using assms(2) by (simp add: pipeline_step_def split: if_splits)
  show ?thesis
    using assms(2) inv_claim[OF assms(1) k] inv_read[OF assms(1) k] inv_write[OF assms(1) k] inv_report[OF assms(1) k]
    by (cases "cw_phase (pl_workers st ! k)") (auto simp: pipeline_step_def Let_def split: if_splits)
qed

lemma inv_run:
  "pipeline_run jobs sched st = Some st' \<Longrightarrow> \<forall>(k, c)\<in>set sched. \<not> c \<Longrightarrow> copy_inv m st \<Longrightarrow> \<exists>m'. copy_inv m' st'"
proof (induction sched arbitrary: m st)
  case (Cons e sched)
  obtain k where e: "e = (k, False)" using Cons.prems(2) by (cases e) auto
  obtain st1 where st1: "pipeline_step jobs k False st = Some st1" "pipeline_run jobs sched st1 = Some st'"
    using Cons.prems(1) by (auto simp: e split: option.splits)
  obtain m1 where "copy_inv m1 st1" using inv_step[OF Cons.prems(3) st1(1)] by blast
  with Cons.IH[OF st1(2)] Cons.prems(2) show ?case by simp
qed auto

lemma inv_init:
  assumes "ok Map.empty w"
  shows "copy_inv Map.empty (pl_init n jobs w)"
proof -
  have "newBlockMap (jobs ! j) = \<lparr>bm_total = tot j, bm_next = 0\<rparr>" if "j < length jobs" for j
    using count[OF that] small[OF that] by (simp add: newBlockMap_def tot_def)
  then have "maps_ok tot (map newBlockMap jobs) 0" using small by (simp add: maps_ok_def tot_def)
  moreover have "claimed (map newBlockMap jobs) = {}" by (auto simp: claimed_def newBlockMap_def)
  ultimately have "ledger tot Map.empty (cells (replicate n new_worker)) True (map newBlockMap jobs) 0"
    by (intro ledgerI) (auto simp: new_worker_def)
  then show ?thesis using assms
    by (auto simp: copy_inv_def pl_init_def new_worker_def worker_ok_def)
qed

theorem all_copied:
  assumes run: "pipeline_run jobs sched (pl_init n jobs w) = Some st" and sched: "\<forall>(k, c)\<in>set sched. \<not> c"
    and "all_exited st" "pl_errs st = []" "0 < n" "ok Map.empty w" "length (pl_workers st) = n"
  shows "ok (all_blocks (length jobs) chunks) (pl_world st)"
proof -
  obtain m where inv: "copy_inv m st" using inv_run[OF run sched inv_init] assms(6) by blast
  have L: "ledger tot m (cells (pl_workers st)) True (pl_maps st) (pl_jobIdx st)" "length (pl_maps st) = length jobs"
    using inv assms(4) by (simp_all add: copy_inv_def)
  have idx: "pl_jobIdx st = length jobs" using inv assms(3,5,7)
    by (cases "pl_workers st") (auto simp: copy_inv_def all_exited_def)
  have none: "cells (pl_workers st) ! k = {}" if "k < length (pl_workers st)" for k
    using that assms(3) by (simp add: all_exited_def)
  have cl: "claimed (pl_maps st) = {(j, i). j < length jobs \<and> 0 \<le> i \<and> i < tot j}"
    using ledgerD(1)[OF L(1)] idx L(2) by (auto simp: claimed_def maps_ok_def)
  have "m (j, i) = all_blocks (length jobs) chunks (j, i)" for j i
  proof (cases "(j, i) \<in> claimed (pl_maps st)")
    case True
    have "m (j, i) \<noteq> None"
    proof
      assume "m (j, i) = None"
      then obtain k where "k < length (cells (pl_workers st))" "(j, i) \<in> cells (pl_workers st) ! k"
        using ledgerD(5)[OF L(1) _ True] by blast
      then show False using none[of k] by simp
    qed
    then obtain b where "m (j, i) = Some b" by blast
    moreover have "b = chunks j ! nat i" using inv calculation by (simp add: copy_inv_def)
    ultimately show ?thesis using True by (simp add: cl all_blocks_def tot_def)
  next
    case False
    then have "m (j, i) = None" using ledgerD(2)[OF L(1)] by blast
    then show ?thesis using False by (auto simp: cl all_blocks_def tot_def)
  qed
  then have "m = all_blocks (length jobs) chunks" by (auto simp: fun_eq_iff)
  then show ?thesis using inv by (simp add: copy_inv_def)
qed

end

section \<open>The pipeline ends\<close>

fun phase_left :: "copyPhase \<Rightarrow> nat" where
  "phase_left Claiming = 1"
| "phase_left (Claimed j i sz) = 4"
| "phase_left (HasData j i b) = 3"
| "phase_left (Written j bd byd) = 2"
| "phase_left Exited = 0"

definition unclaimed :: "(nat \<Rightarrow> int) \<Rightarrow> blockMap list \<Rightarrow> (nat \<times> int) set" where
  "unclaimed tt maps = (SIGMA j:{..<length maps}. {0..<tt j}) - claimed maps"

definition work_left :: "(nat \<Rightarrow> int) \<Rightarrow> 'w pipeline \<Rightarrow> nat" where
  "work_left tt st = 4 * card (unclaimed tt (pl_maps st)) +
     sum_list (map (\<lambda>wk. phase_left (cw_phase wk)) (pl_workers st)) + (if pl_panicked st then 0 else 1)"

lemma phase_left_update:
  assumes "k < length ws"
  shows "sum_list (map (\<lambda>wk. phase_left (cw_phase wk)) (ws[k := wk])) + phase_left (cw_phase (ws ! k)) =
    sum_list (map (\<lambda>wk. phase_left (cw_phase wk)) ws) + phase_left (cw_phase wk)"
proof -
  have "ws = take k ws @ ws ! k # drop (Suc k) ws" by (rule id_take_nth_drop[OF assms])
  then have "sum_list (map (\<lambda>wk. phase_left (cw_phase wk)) ws) =
      sum_list (map (\<lambda>wk. phase_left (cw_phase wk)) (take k ws)) + phase_left (cw_phase (ws ! k)) +
      sum_list (map (\<lambda>wk. phase_left (cw_phase wk)) (drop (Suc k) ws))"
    by (metis (no_types, lifting) ab_semigroup_add_class.add_ac(1) list.simps(9) map_append sum_list.Cons sum_list_append)
  then show ?thesis by (simp add: upd_conv_take_nth_drop[OF assms])
qed

lemma unclaimed_claim:
  assumes "maps_ok tt maps ji" "pipeline_claim maps ji = (r, maps', ji')"
  shows "card (unclaimed tt maps) = card (unclaimed tt maps') + (if r = None then 0 else 1)"
proof (cases r)
  case None
  with claim_spec[OF assms] show ?thesis by (simp add: unclaimed_def)
next
  case (Some x)
  obtain j i where x: "x = (j, i)" by force
  note sp = claim_spec[OF assms, unfolded Some x option.case prod.case]
  have "unclaimed tt maps = insert (j, i) (unclaimed tt maps')" "(j, i) \<notin> unclaimed tt maps'"
    using sp by (auto simp: unclaimed_def)
  moreover have "finite (unclaimed tt maps')" by (simp add: unclaimed_def)
  ultimately show ?thesis by (simp add: Some)
qed

lemma resolve_phase:
  "resolve_src job j wk w = (q, wk1, w1) \<Longrightarrow> cw_phase wk1 = cw_phase wk"
  "resolve_dst job j wk w = (x, wk2, w2) \<Longrightarrow> cw_phase wk2 = cw_phase wk"
  by (auto simp: resolve_src_def resolve_dst_def split: option.splits prod.splits sum.splits)

text \<open>What a step other than a claim does to the measured parts.\<close>

lemma step_read_shape:
  assumes "cw_phase wk = Claimed j i sz"
  obtains wk' where "pl_workers (step_read jobs k j i sz wk st) = (pl_workers st)[k := wk']"
    "pl_maps (step_read jobs k j i sz wk st) = pl_maps st" "pl_jobIdx (step_read jobs k j i sz wk st) = pl_jobIdx st"
    "phase_left (cw_phase wk') < 4 \<or> (phase_left (cw_phase wk') = 4 \<and> pl_panicked (step_read jobs k j i sz wk st))"
    "pl_panicked st \<longrightarrow> pl_panicked (step_read jobs k j i sz wk st)"
proof -
  obtain q wk1 w1 where r1: "resolve_src (jobs ! j) j wk (pl_world st) = (q, wk1, w1)" by (metis surj_pair)
  obtain x wk2 w2 where r2: "resolve_dst (jobs ! j) j wk1 w1 = (x, wk2, w2)" by (metis surj_pair)
  have ph: "cw_phase wk2 = Claimed j i sz" using resolve_phase(1)[OF r1] resolve_phase(2)[OF r2] assms by simp
  show ?thesis
  proof (cases q)
    case (Inl e)
    then show ?thesis by (intro that[of "wk1\<lparr>cw_phase := Claiming\<rparr>"]) (simp_all add: step_read_def r1 Let_def set_worker_def addErr_def)
  next
    case R: (Inr R)
    show ?thesis
    proof (cases x)
      case (Inl e)
      with R show ?thesis
        by (intro that[of "wk2\<lparr>cw_phase := Claiming\<rparr>"]) (simp_all add: step_read_def r1 r2 Let_def set_worker_def addErr_def)
    next
      case X: (Inr X)
      show ?thesis
      proof (cases "sz < 0 \<or> sz > BlockSize")
        case True
        with R X ph show ?thesis by (intro that[of wk2]) (simp_all add: step_read_def r1 r2 Let_def set_worker_def)
      next
        case False
        obtain r3 w3 where r3: "br_ReadBlock R i sz w2 = (r3, w3)" by force
        show ?thesis
        proof (cases r3)
          case (Inl e)
          with R X False r3 show ?thesis
            by (intro that[of "wk2\<lparr>cw_phase := Claiming\<rparr>"]) (simp_all add: step_read_def r1 r2 Let_def set_worker_def addErr_def)
        next
          case (Inr b)
          with R X False r3 show ?thesis
            by (intro that[of "wk2\<lparr>cw_phase := HasData j i b\<rparr>"]) (simp_all add: step_read_def r1 r2 Let_def set_worker_def)
        qed
      qed
    qed
  qed
qed

lemma work_step:
  assumes mo: "maps_ok tt (pl_maps st) (pl_jobIdx st)" and step: "pipeline_step jobs k c st = Some st'"
  shows "work_left tt st' < work_left tt st \<and> maps_ok tt (pl_maps st') (pl_jobIdx st') \<and>
    length (pl_workers st') = length (pl_workers st)"
proof -
  let ?wk = "pl_workers st ! k"
  have k: "k < length (pl_workers st)" and np: "\<not> pl_panicked st"
    using step by (auto simp: pipeline_step_def split: if_splits)
  note upd = phase_left_update[OF k]
  show ?thesis
  proof (cases "cw_phase ?wk")
    case Claiming
    obtain r maps ji where cl: "pipeline_claim (pl_maps st) (pl_jobIdx st) = (r, maps, ji)" by (metis surj_pair)
    have st': "st' = step_claim jobs k c ?wk st" using step Claiming k np by (simp add: pipeline_step_def)
    show ?thesis
    proof (cases "c \<or> r = None")
      case True
      then show ?thesis using Claiming upd[of "?wk\<lparr>cw_phase := Exited\<rparr>"] mo claim_spec[OF mo cl] unclaimed_claim[OF mo cl]
        by (auto simp: st' step_claim_def cl worker_exit_def set_worker_def work_left_def np)
    next
      case False
      then obtain j i where r: "r = Some (j, i)" "\<not> c" by force
      then show ?thesis using Claiming upd[of "?wk\<lparr>cw_phase := Claimed j i (br_BlockSize (cj_Src (jobs ! j)) i)\<rparr>"]
          claim_spec[OF mo cl] unclaimed_claim[OF mo cl]
        by (auto simp: st' step_claim_def cl set_worker_def work_left_def np)
    qed
  next
    case (Claimed j i sz)
    then have st': "st' = step_read jobs k j i sz ?wk st" using step k np by (simp add: pipeline_step_def)
    obtain wk' where sh: "pl_workers st' = (pl_workers st)[k := wk']" "pl_maps st' = pl_maps st" "pl_jobIdx st' = pl_jobIdx st"
      "phase_left (cw_phase wk') < 4 \<or> (phase_left (cw_phase wk') = 4 \<and> pl_panicked st')"
      unfolding st' by (rule step_read_shape[OF Claimed, of jobs k st])
    then show ?thesis using upd[of wk'] Claimed mo by (auto simp: work_left_def np)
  next
    case (HasData j i b)
    then have st': "st' = step_write jobs k j i b ?wk st" using step k np by (simp add: pipeline_step_def)
    obtain e w' where w: "bw_WriteBlock (case map_of (cw_dstClones ?wk) j of Some x \<Rightarrow> x | None \<Rightarrow> cj_Dst (jobs ! j)) i b (pl_world st) = (e, w')"
      by force
    show ?thesis using HasData mo upd[of "?wk\<lparr>cw_phase := Claiming\<rparr>"]
        upd[of "?wk\<lparr>cw_phase := Written j (wrap64 (pl_blocksDone st + 1)) (wrap64 (pl_bytesDone st + int (length b)))\<rparr>"]
      by (cases e) (auto simp: st' step_write_def w Let_def set_worker_def addErr_def work_left_def np)
  next
    case (Written j bd byd)
    then have st': "st' = step_report jobs k j bd byd ?wk st" using step k np by (simp add: pipeline_step_def)
    then show ?thesis using Written mo upd[of "?wk\<lparr>cw_phase := Claiming\<rparr>"]
      by (auto simp: step_report_def Let_def set_worker_def work_left_def np)
  next
    case Exited
    then show ?thesis using step k np by (simp add: pipeline_step_def)
  qed
qed

lemma work_run:
  "pipeline_run jobs sched st = Some st' \<Longrightarrow> maps_ok tt (pl_maps st) (pl_jobIdx st) \<Longrightarrow>
    length sched + work_left tt st' \<le> work_left tt st"
proof (induction sched arbitrary: st)
  case (Cons e sched)
  obtain k c where e: "e = (k, c)" by force
  then obtain st1 where st1: "pipeline_step jobs k c st = Some st1" "pipeline_run jobs sched st1 = Some st'"
    using Cons.prems(1) by (auto split: option.splits)
  note w = work_step[OF Cons.prems(2) st1(1)]
  have "length sched + work_left tt st' \<le> work_left tt st1" using Cons.IH[OF st1(2)] w by blast
  with w show ?case by simp
qed simp

lemma work_init:
  assumes "\<forall>job\<in>set jobs. 0 \<le> br_BlockCount (cj_Src job) \<and> br_BlockCount (cj_Src job) < 2 ^ 31 - 1"
  defines "tt \<equiv> \<lambda>j. br_BlockCount (cj_Src (jobs ! j))"
  shows "maps_ok tt (map newBlockMap jobs) 0"
    "work_left tt (pl_init n jobs w) = 4 * nat (sum_list (map (\<lambda>job. br_BlockCount (cj_Src job)) jobs)) + n + 1"
proof -
  have nb: "newBlockMap (jobs ! j) = \<lparr>bm_total = tt j, bm_next = 0\<rparr>" "0 \<le> tt j" if "j < length jobs" for j
  proof -
    have "0 \<le> br_BlockCount (cj_Src (jobs ! j))" "br_BlockCount (cj_Src (jobs ! j)) < 2 ^ 31 - 1" using assms(1) that by auto
    then show "newBlockMap (jobs ! j) = \<lparr>bm_total = tt j, bm_next = 0\<rparr>" "0 \<le> tt j"
      by (simp_all add: newBlockMap_def tt_def)
  qed
  then show "maps_ok tt (map newBlockMap jobs) 0" using assms(1) by (auto simp: maps_ok_def tt_def)
  have "claimed (map newBlockMap jobs) = {}" by (auto simp: claimed_def newBlockMap_def)
  then have "card (unclaimed tt (map newBlockMap jobs)) = (\<Sum>j<length jobs. nat (tt j))"
    by (simp add: unclaimed_def card_SigmaI)
  also have "\<dots> = nat (\<Sum>j<length jobs. tt j)"
  proof -
    have "int (\<Sum>j<length jobs. nat (tt j)) = (\<Sum>j<length jobs. tt j)" using nb(2) by (simp add: of_nat_sum)
    then show ?thesis by (metis nat_int)
  qed
  also have "(\<Sum>j<length jobs. tt j) = sum_list (map (\<lambda>job. br_BlockCount (cj_Src job)) jobs)"
    by (simp add: tt_def sum_list_sum_nth atLeast0LessThan)
  finally show "work_left tt (pl_init n jobs w) = 4 * nat (sum_list (map (\<lambda>job. br_BlockCount (cj_Src job)) jobs)) + n + 1"
    by (simp add: work_left_def pl_init_def new_worker_def sum_list_replicate)
qed

text \<open>
  C11: The copy pipeline ends, under every schedule.  With block counts that fit the 32-bit counters, no schedule,
  with or without cancellation, has more steps than four per block, one per worker, and one; and as long as
  some worker is not gone and no buffer was overrun, a worker that is not gone can take a step, so
  the workers never block each other.
\<close>

theorem pipeline_terminates:
  assumes "\<forall>job\<in>set jobs. 0 \<le> br_BlockCount (cj_Src job) \<and> br_BlockCount (cj_Src job) < 2 ^ 31 - 1"
    and "pipeline_run jobs sched (pl_init n jobs w) = Some st"
  shows "length sched \<le> 4 * nat (sum_list (map (\<lambda>job. br_BlockCount (cj_Src job)) jobs)) + n + 1 \<and>
    (all_exited st \<or> pl_panicked st \<or> (\<exists>k. \<forall>c. pipeline_step jobs k c st \<noteq> None))"
proof
  have mo: "maps_ok (\<lambda>j. br_BlockCount (cj_Src (jobs ! j))) (pl_maps (pl_init n jobs w)) (pl_jobIdx (pl_init n jobs w))"
    using work_init(1)[OF assms(1)] by (simp add: pl_init_def)
  show "length sched \<le> 4 * nat (sum_list (map (\<lambda>job. br_BlockCount (cj_Src job)) jobs)) + n + 1"
    using work_run[OF assms(2) mo] by (simp only: work_init(2)[OF assms(1)])
  show "all_exited st \<or> pl_panicked st \<or> (\<exists>k. \<forall>c. pipeline_step jobs k c st \<noteq> None)"
  proof (cases "all_exited st \<or> pl_panicked st")
    case False
    then obtain k where k: "k < length (pl_workers st)" "cw_phase (pl_workers st ! k) \<noteq> Exited"
      by (auto simp: all_exited_def in_set_conv_nth)
    then have "\<forall>c. pipeline_step jobs k c st \<noteq> None"
      using False by (cases "cw_phase (pl_workers st ! k)") (simp_all add: pipeline_step_def)
    then show ?thesis by blast
  qed blast
qed

text \<open>A job of one block for the witness, over a world that logs what is written.\<close>

definition demo_job :: "(int \<times> bytes) list CopyJob" where
  "demo_job =
     \<lparr>cj_Src = BlockReader (\<lambda>i n w. (Inr [7], w)) 1 (\<lambda>_. 1) 1 ''src'' (\<lambda>w. (None, w)) None,
      cj_Dst = BlockWriter (\<lambda>i b w. (None, w @ [(i, b)])) ''dst'' (\<lambda>w. (None, w)) None\<rparr>"

lemmas pipeline_eval = pipeline_step_def step_claim_def step_read_def step_write_def step_report_def worker_exit_def
  set_worker_def addErr_def resolve_src_def resolve_dst_def close_clones_def newBlockMap_def blockMap_claim_def
  pipeline_claim.simps new_worker_def pl_init_def totalBlocks_def

theorem pipeline_terminates_witness:
  "\<exists>st. pipeline_run [demo_job] [(0, False), (1, False), (0, False), (0, False), (0, False), (0, False)]
      (pl_init 2 [demo_job] []) = Some st \<and> pl_world st = [(0, [7])] \<and> all_exited st \<and>
    length [(0 :: nat, False), (1, False), (0, False), (0, False), (0, False), (0, False)] \<le> 4 * 1 + 2 + (1 :: nat)"
proof -
  let ?sched = "[(0, False), (1, False), (0, False), (0, False), (0, False), (0, False)]"
  obtain st where st: "pipeline_run [demo_job] ?sched (pl_init 2 [demo_job] []) = Some st" "pl_world st = [(0, [7])]" "all_exited st"
    by (simp add: pipeline_eval demo_job_def BlockSize_def numeral_2_eq_2 all_exited_def Let_def)
  from pipeline_terminates[OF _ st(1)] have "length ?sched \<le> 4 * nat (sum_list (map (\<lambda>job. br_BlockCount (cj_Src job)) [demo_job])) + 2 + 1"
    by (simp add: demo_job_def)
  then show ?thesis using st by (simp add: demo_job_def)
qed

end
