(* ===== verification/CopyEndpoints.thy ===== *)
theory CopyEndpoints
  imports CopyPipeline
begin

text \<open>
  The readers and writers the copy pipeline is used with: local files (\<^verbatim>\<open>api/drive/local.go\<close>) and files of
  the service (\<^verbatim>\<open>api/drive/proton_endpoint.go\<close>), and what an upload of local files commits.
\<close>

section \<open>Local files\<close>

text \<open>The calls of package \<^verbatim>\<open>os\<close>, parameters over a state of the file system.  A handle is an open
  \<^verbatim>\<open>os.File\<close>.  \<open>os_ReadAt\<close> gets a handle, the length of the buffer and the offset, and returns what was read
  together with the error, \<^verbatim>\<open>EOF\<close> at the end of the file.\<close>

record 'fs osFiles =
  os_Open :: "string \<Rightarrow> 'fs \<Rightarrow> (driveErr + nat) \<times> 'fs"
  os_OpenWrite :: "string \<Rightarrow> 'fs \<Rightarrow> (driveErr + nat) \<times> 'fs"
  os_ReadAt :: "nat \<Rightarrow> int \<Rightarrow> int \<Rightarrow> 'fs \<Rightarrow> (bytes \<times> driveErr option) \<times> 'fs"
  os_WriteAt :: "nat \<Rightarrow> bytes \<Rightarrow> int \<Rightarrow> 'fs \<Rightarrow> driveErr option \<times> 'fs"
  os_CloseFile :: "nat \<Rightarrow> 'fs \<Rightarrow> driveErr option \<times> 'fs"

record LocalReader =
  lr_path :: string
  lr_size :: int
  lr_nBlocks :: int
  lr_f :: "nat option"

definition NewLocalReader :: "string \<Rightarrow> int \<Rightarrow> LocalReader" where
  "NewLocalReader path sz = \<lparr>lr_path = path, lr_size = sz, lr_nBlocks = BlockCount sz, lr_f = None\<rparr>"

definition lr_CloneReader :: "'fs osFiles \<Rightarrow> LocalReader \<Rightarrow> 'fs \<Rightarrow> (driveErr + LocalReader) \<times> 'fs" where
  "lr_CloneReader os r fs =
     (case os_Open os (lr_path r) fs of
        (Inl err, fs') \<Rightarrow> (Inl err, fs')
      | (Inr f, fs') \<Rightarrow> (Inr \<lparr>lr_path = lr_path r, lr_size = lr_size r, lr_nBlocks = lr_nBlocks r, lr_f = Some f\<rparr>, fs'))"

definition lr_BlockSize :: "LocalReader \<Rightarrow> int \<Rightarrow> int" where
  "lr_BlockSize r index =
     (let offset = wrap64 (index * BlockSize); remaining = wrap64 (lr_size r - offset)
      in if remaining \<le> 0 then 0 else if remaining > BlockSize then BlockSize else remaining)"

text \<open>A block longer than the buffer is a slice out of range.\<close>

definition lr_ReadBlock ::
    "'fs osFiles \<Rightarrow> int \<Rightarrow> int \<Rightarrow> LocalReader \<Rightarrow> 'fs \<Rightarrow> (driveErr + bytes) \<times> LocalReader \<times> 'fs" where
  "lr_ReadBlock os index bufLen r fs =
     (case (case lr_f r of Some f \<Rightarrow> (Inr f, fs) | None \<Rightarrow> os_Open os (lr_path r) fs) of
        (Inl err, fs1) \<Rightarrow> (Inl err, r, fs1)
      | (Inr f, fs1) \<Rightarrow>
          let r1 = r\<lparr>lr_f := Some f\<rparr>; offset = wrap64 (index * BlockSize); sz = lr_BlockSize r1 index
          in if sz > bufLen then (Inl Panic, r1, fs1)
             else (case os_ReadAt os f sz offset fs1 of
                     ((data, err), fs2) \<Rightarrow>
                       if err \<noteq> None \<and> err \<noteq> Some EOF then (Inl (the err), r1, fs2) else (Inr data, r1, fs2)))"

definition lr_Close :: "'fs osFiles \<Rightarrow> LocalReader \<Rightarrow> 'fs \<Rightarrow> driveErr option \<times> 'fs" where
  "lr_Close os r fs = (case lr_f r of Some f \<Rightarrow> os_CloseFile os f fs | None \<Rightarrow> (None, fs))"

record LocalWriter =
  lw_path :: string
  lw_f :: "nat option"

definition NewLocalWriter :: "string \<Rightarrow> LocalWriter" where
  "NewLocalWriter path = \<lparr>lw_path = path, lw_f = None\<rparr>"

definition lw_CloneWriter :: "'fs osFiles \<Rightarrow> LocalWriter \<Rightarrow> 'fs \<Rightarrow> (driveErr + LocalWriter) \<times> 'fs" where
  "lw_CloneWriter os w fs =
     (case os_OpenWrite os (lw_path w) fs of
        (Inl err, fs') \<Rightarrow> (Inl err, fs')
      | (Inr f, fs') \<Rightarrow> (Inr \<lparr>lw_path = lw_path w, lw_f = Some f\<rparr>, fs'))"

definition lw_WriteBlock ::
    "'fs osFiles \<Rightarrow> int \<Rightarrow> bytes \<Rightarrow> LocalWriter \<Rightarrow> 'fs \<Rightarrow> driveErr option \<times> LocalWriter \<times> 'fs" where
  "lw_WriteBlock os index data w fs =
     (case (case lw_f w of Some f \<Rightarrow> (Inr f, fs) | None \<Rightarrow> os_OpenWrite os (lw_path w) fs) of
        (Inl err, fs1) \<Rightarrow> (Some err, w, fs1)
      | (Inr f, fs1) \<Rightarrow>
          (case os_WriteAt os f data (wrap64 (index * BlockSize)) fs1 of (err, fs2) \<Rightarrow> (err, w\<lparr>lw_f := Some f\<rparr>, fs2)))"

definition lw_Close :: "'fs osFiles \<Rightarrow> LocalWriter \<Rightarrow> 'fs \<Rightarrow> driveErr option \<times> 'fs" where
  "lw_Close os w fs = (case lw_f w of Some f \<Rightarrow> os_CloseFile os f fs | None \<Rightarrow> (None, fs))"

section \<open>Files of the service\<close>

record ProtonReader =
  pr_linkID :: string
  pr_blocks :: "pblock list"
  pr_fileSize :: int
  pr_blockSizes :: "int list"
  pr_nBlocks :: int

definition NewProtonReader :: "string \<Rightarrow> pblock list \<Rightarrow> int \<Rightarrow> int list \<Rightarrow> ProtonReader" where
  "NewProtonReader linkID blocks fileSize blockSizes =
     (let n = int (length blocks);
          n = (if n = 0 then int (length blockSizes) else n);
          n = (if n = 0 then BlockCount fileSize else n)
      in \<lparr>pr_linkID = linkID, pr_blocks = blocks, pr_fileSize = fileSize, pr_blockSizes = blockSizes, pr_nBlocks = n\<rparr>)"

text \<open>The negative index of a slice is a panic.\<close>

definition pr_ReadBlock ::
    "('dv, 'h) externals \<Rightarrow> int \<Rightarrow> int \<Rightarrow> ProtonReader \<Rightarrow> ('dv, 'h) blockStore \<Rightarrow> (driveErr + bytes) \<times> ('dv, 'h) blockStore" where
  "pr_ReadBlock X index bufLen r s =
     (if index \<ge> int (length (pr_blocks r)) then (Inl (BlockOutOfRange index (int (length (pr_blocks r)))), s)
      else if index < 0 then (Inl Panic, s)
      else let pb = pr_blocks r ! nat index;
               (res, s') = blockStore_GetBlock (x_disk X) (x_http X) (x_env X) (pr_linkID r) (index + 1)
                             (pb_BareURL pb) (pb_Token pb) s
           in (case check_err res of
                 Inl err \<Rightarrow> (Inl err, s')
               | Inr encrypted \<Rightarrow>
                   (case x_decrypt X encrypted of
                      Inl err \<Rightarrow> (Inl (DecryptErr err), s')
                    | Inr plain \<Rightarrow> (Inr (take (nat bufLen) plain), s'))))"

definition pr_BlockSize :: "ProtonReader \<Rightarrow> int \<Rightarrow> int" where
  "pr_BlockSize r index =
     (if index < int (length (pr_blockSizes r)) then pr_blockSizes r ! nat index
      else let offset = wrap64 (index * BlockSize); remaining = wrap64 (pr_fileSize r - offset)
           in if remaining \<le> 0 then 0 else if remaining > BlockSize then BlockSize else remaining)"

section \<open>Uploading local files\<close>

text \<open>The world of the pipeline: the file system, the writers of the jobs, and the block store.\<close>

type_synonym ('fs, 'dv, 'h) copyWorld = "'fs \<times> (nat \<Rightarrow> ProtonWriter) \<times> ('dv, 'h) blockStore"

definition local_clone :: "'fs osFiles \<Rightarrow> LocalReader \<Rightarrow> ('fs, 'dv, 'h) copyWorld BlockReader" where
  "local_clone os r =
     BlockReader (\<lambda>i n (fs, rest). case lr_ReadBlock os i n r fs of (res, _, fs') \<Rightarrow> (res, fs', rest))
       (lr_nBlocks r) (lr_BlockSize r) (lr_size r) (lr_path r)
       (\<lambda>(fs, rest). case lr_Close os r fs of (e, fs') \<Rightarrow> (e, fs', rest)) None"

definition local_reader :: "'fs osFiles \<Rightarrow> LocalReader \<Rightarrow> ('fs, 'dv, 'h) copyWorld BlockReader" where
  "local_reader os r =
     BlockReader (br_ReadBlock (local_clone os r))
       (lr_nBlocks r) (lr_BlockSize r) (lr_size r) (lr_path r) (br_Close (local_clone os r))
       (Some (\<lambda>(fs, rest). case lr_CloneReader os r fs of (q, fs') \<Rightarrow> (map_sum id (local_clone os) q, fs', rest)))"

definition proton_writer :: "'dv diskv \<Rightarrow> 'h uploadAPI \<Rightarrow> string \<Rightarrow> nat \<Rightarrow> ('fs, 'dv, 'h) copyWorld BlockWriter" where
  "proton_writer D A linkID j =
     BlockWriter
       (\<lambda>i b (fs, ws, s). case pw_WriteBlock D A i b (ws j) s of (e, w', s') \<Rightarrow> (e, fs, ws(j := w'), s'))
       linkID
       (\<lambda>(fs, ws, s). case pw_Close A (ws j) s of (e, w', s') \<Rightarrow> (e, fs, ws(j := w'), s'))
       None"

text \<open>One job per file: its path, its content, and the handle of the created file.\<close>

record upload =
  ul_path :: string
  ul_content :: bytes
  ul_handle :: fileHandle

definition upload_job ::
    "'fs osFiles \<Rightarrow> 'dv diskv \<Rightarrow> 'h uploadAPI \<Rightarrow> nat \<Rightarrow> upload \<Rightarrow> ('fs, 'dv, 'h) copyWorld CopyJob" where
  "upload_job os D A j u =
     \<lparr>cj_Src = local_reader os (NewLocalReader (ul_path u) (int (length (ul_content u)))),
      cj_Dst = proton_writer D A (fh_LinkID (ul_handle u)) j\<rparr>"

definition upload_jobs ::
    "'fs osFiles \<Rightarrow> 'dv diskv \<Rightarrow> 'h uploadAPI \<Rightarrow> upload list \<Rightarrow> ('fs, 'dv, 'h) copyWorld CopyJob list" where
  "upload_jobs os D A us = map (\<lambda>j. upload_job os D A j (us ! j)) [0..<length us]"

definition file_chunks :: "bytes \<Rightarrow> bytes list" where
  "file_chunks c = map (\<lambda>i. take (nat BlockSize) (drop (i * nat BlockSize) c)) [0..<nat (BlockCount (int (length c)))]"

section \<open>The blocks of a file\<close>

definition fits :: "bytes \<Rightarrow> bool" where
  "fits c \<longleftrightarrow> int (length c) \<le> (2 ^ 31 - 2) * BlockSize"

lemma fits_count:
  assumes "fits c"
  shows "BlockCount (int (length c)) = (int (length c) + BlockSize - 1) div BlockSize" "BlockCount (int (length c)) < 2 ^ 31 - 1"
    "0 \<le> BlockCount (int (length c))"
proof -
  let ?n = "int (length c)"
  have n: "?n \<le> (2 ^ 31 - 2) * 4194304" using assms by (simp add: fits_def BlockSize_def)
  then have w: "wrap64 (?n + BlockSize - 1) = ?n + BlockSize - 1" by (intro wrap64_id) (simp_all add: BlockSize_def maxInt64_def)
  show c: "BlockCount ?n = (?n + BlockSize - 1) div BlockSize"
  proof (cases "c = []")
    case True
    then show ?thesis by (simp add: BlockCount_def BlockSize_def)
  next
    case False
    moreover have "0 \<le> ?n + BlockSize - 1" by (simp add: BlockSize_def)
    ultimately show ?thesis by (simp add: BlockCount_def w quot_nonneg)
  qed
  then show "0 \<le> BlockCount ?n" by (simp add: BlockSize_def)
  show "BlockCount ?n < 2 ^ 31 - 1" unfolding c using n by (simp add: BlockSize_def)
qed

lemma length_file_chunks: "fits c \<Longrightarrow> int (length (file_chunks c)) = BlockCount (int (length c))"
  using fits_count(3)[of c] by (simp add: file_chunks_def)

lemma concat_chunks: "concat (map (\<lambda>i. take b (drop (i * b) c)) [0..<n]) = take (n * b) c"
proof (induction n)
  case (Suc n)
  have "take (Suc n * b) c = take (n * b) c @ take b (drop (n * b) c)"
    by (metis add.commute mult_Suc take_add)
  then show ?case using Suc by simp
qed simp

lemma concat_file_chunks:
  assumes "fits c"
  shows "concat (file_chunks c) = c"
proof -
  have "int (length c) \<le> BlockCount (int (length c)) * BlockSize"
    unfolding fits_count(1)[OF assms] BlockSize_def by simp
  then have "length c \<le> nat (BlockCount (int (length c))) * nat BlockSize"
    using fits_count(3)[OF assms] by (simp add: nat_mult_distrib[symmetric] BlockSize_def)
  then show ?thesis unfolding file_chunks_def concat_chunks by simp
qed

lemma file_chunk:
  assumes "fits c" "0 \<le> i" "i < int (length (file_chunks c))"
  shows "file_chunks c ! nat i = take (nat BlockSize) (drop (nat (i * BlockSize)) c)" "i * BlockSize < int (length c)"
proof -
  have i: "i < BlockCount (int (length c))" using assms length_file_chunks by simp
  then show "file_chunks c ! nat i = take (nat BlockSize) (drop (nat (i * BlockSize)) c)"
    using assms(2) by (simp add: file_chunks_def nat_mult_distrib)
  show "i * BlockSize < int (length c)" using i unfolding fits_count(1)[OF assms(1)] BlockSize_def by simp
qed

section \<open>What the operating system and the service promise\<close>

text \<open>An open handle of an unchanging file: a read that succeeds or reports the end of the file returns
  the file's bytes at the offset, as many as there are.\<close>

definition reads_file :: "'fs osFiles \<Rightarrow> nat \<Rightarrow> bytes \<Rightarrow> bool" where
  "reads_file os h c \<longleftrightarrow> (\<forall>fs n off d e fs'. 0 \<le> n \<and> 0 \<le> off \<and> os_ReadAt os h n off fs = ((d, e), fs') \<and> e \<in> {None, Some EOF} \<longrightarrow>
     d = take (nat n) (drop (nat off) c))"

definition local_file :: "'fs osFiles \<Rightarrow> string \<Rightarrow> bytes \<Rightarrow> bool" where
  "local_file os path c \<longleftrightarrow> (\<forall>fs h fs'. os_Open os path fs = (Inr h, fs') \<longrightarrow> reads_file os h c)"

definition updates_separate :: "'h uploadAPI \<Rightarrow> 'h serverView \<Rightarrow> bool" where
  "updates_separate A V \<longleftrightarrow> (\<forall>h sh l r q sh' l'. (sh', l') \<noteq> (sh, l) \<longrightarrow>
     sv_active V (snd (ua_updateRevision A h sh l r q)) sh' l' = sv_active V h sh' l')"

definition uploads_ok :: "'fs osFiles \<Rightarrow> 'h uploadAPI \<Rightarrow> 'h serverView \<Rightarrow> (bytes \<Rightarrow> string + bytes) \<Rightarrow> upload list \<Rightarrow> bool" where
  "uploads_ok os A V dec us \<longleftrightarrow> server_laws A V dec \<and>
     (\<forall>u\<in>set us. local_file os (ul_path u) (ul_content u) \<and> fits (ul_content u))"

text \<open>What the writers of the jobs hold: exactly the blocks \<open>m\<close>, all of them stored at the service.\<close>

definition dest_holds ::
    "'h uploadAPI \<Rightarrow> 'h serverView \<Rightarrow> (bytes \<Rightarrow> string + bytes) \<Rightarrow> upload list \<Rightarrow> (nat \<times> int \<Rightarrow> bytes option)
      \<Rightarrow> ('fs, 'dv, 'h) copyWorld \<Rightarrow> bool" where
  "dest_holds A V dec us m = (\<lambda>(fs, ws, s). \<forall>j<length us.
     \<not> pw_closed (ws j) \<and> pw_uploadParams (ws j) = pw_uploadParams (NewProtonWriter (ul_handle (us ! j))) \<and>
     distinct (keys (pw_uploaded (ws j))) \<and>
     (\<forall>i. (case m (j, i) of
             None \<Rightarrow> map_of (pw_uploaded (ws j)) i = None
           | Some b \<Rightarrow> \<exists>ub. map_of (pw_uploaded (ws j)) i = Some ub \<and> block_stored A V dec (bs_net s) b ub)))"

definition opened_for :: "'fs osFiles \<Rightarrow> upload list \<Rightarrow> nat \<Rightarrow> ('fs, 'dv, 'h) copyWorld BlockReader \<Rightarrow> bool" where
  "opened_for os us j R \<longleftrightarrow> (\<exists>r h. R = local_clone os r \<and> lr_f r = Some h \<and>
     lr_size r = int (length (ul_content (us ! j))) \<and> reads_file os h (ul_content (us ! j)))"

lemma dest_holds_fs: "dest_holds A V dec us m (fs, ws, s) = dest_holds A V dec us m (fs', ws, s)"
  by (simp add: dest_holds_def)

lemma lr_BlockSize_at:
  assumes "fits c" "0 \<le> i" "i < int (length (file_chunks c))" "lr_size r = int (length c)"
  shows "lr_BlockSize r i = min BlockSize (int (length c) - i * BlockSize)" "wrap64 (i * BlockSize) = i * BlockSize"
proof -
  have lt: "i * BlockSize < int (length c)" "int (length c) \<le> (2 ^ 31 - 2) * 4194304"
    using file_chunk(2)[OF assms(1-3)] assms(1) by (simp_all add: fits_def BlockSize_def)
  then show w: "wrap64 (i * BlockSize) = i * BlockSize" using assms(2) by (intro wrap64_id) (simp_all add: BlockSize_def maxInt64_def)
  have "wrap64 (int (length c) - i * BlockSize) = int (length c) - i * BlockSize"
    using lt assms(2) by (intro wrap64_id) (simp_all add: BlockSize_def maxInt64_def)
  then show "lr_BlockSize r i = min BlockSize (int (length c) - i * BlockSize)"
    using lt(1) by (simp add: lr_BlockSize_def Let_def assms(4) w)
qed

lemma lr_ReadBlock_chunk:
  assumes "fits c" "0 \<le> i" "i < int (length (file_chunks c))" "lr_size r = int (length c)" "lr_f r = Some h" "reads_file os h c"
    and run: "lr_ReadBlock os i n r fs = (Inr b, r', fs')"
  shows "b = file_chunks c ! nat i"
proof -
  note sz = lr_BlockSize_at[OF assms(1-4)]
  have r: "r\<lparr>lr_f := Some h\<rparr> = r" using assms(5) by simp
  obtain d e fs2 where rd: "os_ReadAt os h (lr_BlockSize r i) (i * BlockSize) fs = ((d, e), fs2)" by (metis surj_pair)
  have "b = d" "e \<in> {None, Some EOF}"
    using run by (auto simp: lr_ReadBlock_def assms(5) r Let_def sz(2) rd split: if_splits)
  moreover have "0 \<le> lr_BlockSize r i" using file_chunk(2)[OF assms(1-3)] by (simp add: sz(1))
  moreover have "0 \<le> i * BlockSize" using assms(2) by simp
  ultimately have "b = take (nat (lr_BlockSize r i)) (drop (nat (i * BlockSize)) c)"
    using assms(6) rd unfolding reads_file_def by blast
  also have "\<dots> = file_chunks c ! nat i"
  proof (cases "BlockSize \<le> int (length c) - i * BlockSize")
    case True
    then show ?thesis by (simp add: file_chunk(1)[OF assms(1-3)] sz(1))
  next
    case False
    define off where "off = nat (i * BlockSize)"
    have o: "int off = i * BlockSize" using assms(2) by (simp add: off_def)
    then have "length (drop off c) \<le> nat BlockSize" "length (drop off c) \<le> nat (int (length c) - i * BlockSize)"
      using False by simp_all
    with False show ?thesis by (simp add: file_chunk(1)[OF assms(1-3)] sz(1) off_def[symmetric])
  qed
  finally show ?thesis .
qed

section \<open>The contract holds\<close>

lemma dest_holds_write:
  assumes laws: "server_laws A V dec" and j: "j < length us" and run: "pw_WriteBlock D A i b (ws j) s = (None, w', s')"
    and h: "dest_holds A V dec us m (fs, ws, s)"
  shows "dest_holds A V dec us (m((j, i) \<mapsto> b)) (fs, ws(j := w'), s')"
proof -
  from pw_WriteBlock_ok[OF laws run] obtain ub where
    w': "w' = (ws j)\<lparr>pw_uploaded := AList.update i ub (pw_uploaded (ws j)), pw_totalSize := wrap64 (pw_totalSize (ws j) + ub_rawSize ub)\<rparr>"
    and new: "block_stored A V dec (bs_net s') b ub"
    and old: "\<And>c ub'. block_stored A V dec (bs_net s) c ub' \<Longrightarrow> block_stored A V dec (bs_net s') c ub'" by metis
  have p: "pw_uploadParams w' = pw_uploadParams (ws j)" by (simp add: w' pw_uploadParams_def)
  show ?thesis unfolding dest_holds_def prod.case
  proof (intro allI impI conjI, goal_cases)
    case (4 k l)
    have hk: "case m (k, l) of None \<Rightarrow> map_of (pw_uploaded (ws k)) l = None
        | Some c \<Rightarrow> \<exists>ub. map_of (pw_uploaded (ws k)) l = Some ub \<and> block_stored A V dec (bs_net s) c ub"
      using h 4 by (simp add: dest_holds_def)
    show ?case
    proof (cases "(k, l) = (j, i)")
      case True
      then show ?thesis using new by (auto simp: w' update_conv')
    next
      case False
      then have e: "map_of (pw_uploaded ((ws(j := w')) k)) l = map_of (pw_uploaded (ws k)) l"
        by (auto simp: w' update_conv')
      show ?thesis using hk old False unfolding e by (auto split: option.splits)
    qed
  qed (use h j p in \<open>auto simp: dest_holds_def w'\<close>)
qed

lemma dest_holds_write_fails:
  assumes laws: "server_laws A V dec" and run: "pw_WriteBlock D A i b (ws j) s = (Some e, w', s')"
    and h: "dest_holds A V dec us m (fs, ws, s)"
  shows "dest_holds A V dec us m (fs, ws(j := w'), s')"
proof -
  obtain r s1 where en: "encryptAndUploadBlock D A (pw_uploadParams (ws j)) (i + 1) b s = (r, s1)" by force
  have w: "w' = ws j" "s' = s1" using run en by (auto simp: pw_WriteBlock_def split: sum.splits)
  have "ws(j := w') = ws" by (simp add: w)
  moreover have "case m (k, l) of None \<Rightarrow> map_of (pw_uploaded (ws k)) l = None
        | Some c \<Rightarrow> \<exists>ub. map_of (pw_uploaded (ws k)) l = Some ub \<and> block_stored A V dec (bs_net s') c ub" if "k < length us" for k l
  proof -
    have "case m (k, l) of None \<Rightarrow> map_of (pw_uploaded (ws k)) l = None
        | Some c \<Rightarrow> \<exists>ub. map_of (pw_uploaded (ws k)) l = Some ub \<and> block_stored A V dec (bs_net s) c ub"
      using h that by (simp add: dest_holds_def)
    then show ?thesis using upload_block(2)[OF laws en] w(2) by (auto split: option.splits)
  qed
  ultimately show ?thesis using h by (simp add: dest_holds_def)
qed

lemma upload_jobs_at [simp]:
  "j < length us \<Longrightarrow> upload_jobs os D A us ! j = upload_job os D A j (us ! j)" "length (upload_jobs os D A us) = length us"
  by (simp_all add: upload_jobs_def)

interpretation uploads: copy_endpoints
    "if uploads_ok os A V dec us then upload_jobs os D A us else []"
    "\<lambda>j. file_chunks (ul_content (us ! j))" "dest_holds A V dec us" "opened_for os us"
    "\<lambda>j X. X = proton_writer D A (fh_LinkID (ul_handle (us ! j))) j"
  for os :: "'fs osFiles" and D :: "'dv diskv" and A :: "'h uploadAPI" and V dec us
proof (cases "uploads_ok os A V dec us")
  case False
  then show "copy_endpoints (if uploads_ok os A V dec us then upload_jobs os D A us else []) (\<lambda>j. file_chunks (ul_content (us ! j)))
      (dest_holds A V dec us) (opened_for os us) (\<lambda>j X. X = proton_writer D A (fh_LinkID (ul_handle (us ! j))) j)"
    by unfold_locales simp_all
next
  case True
  then have laws: "server_laws A V dec" and u: "\<And>j. j < length us \<Longrightarrow> local_file os (ul_path (us ! j)) (ul_content (us ! j))"
    "\<And>j. j < length us \<Longrightarrow> fits (ul_content (us ! j))" by (auto simp: uploads_ok_def)
  have "copy_endpoints (upload_jobs os D A us) (\<lambda>j. file_chunks (ul_content (us ! j)))
      (dest_holds A V dec us) (opened_for os us) (\<lambda>j X. X = proton_writer D A (fh_LinkID (ul_handle (us ! j))) j)"
  proof (unfold_locales, goal_cases)
    case (1 j)
    then show ?case using length_file_chunks[OF u(2)] by (simp add: upload_job_def local_reader_def NewLocalReader_def)
  next
    case (2 j)
    then show ?case using length_file_chunks[OF u(2)] fits_count(2)[OF u(2)] by simp
  next
    case (3 j R i w b w' m)
    then obtain r h where r: "R = local_clone os r" "lr_f r = Some h" "lr_size r = int (length (ul_content (us ! j)))"
      "reads_file os h (ul_content (us ! j))" by (auto simp: opened_for_def)
    from 3 r(1) obtain n r' fs fs' where "lr_ReadBlock os i n r fs = (Inr b, r', fs')"
      by (cases w) (auto simp: local_clone_def split: prod.splits)
    then show ?case using 3 r by (intro lr_ReadBlock_chunk[OF u(2)]) auto
  next
    case (4 j R i sz w r w' m)
    then show ?case
      by (cases w) (auto simp: opened_for_def local_clone_def split: prod.splits, metis dest_holds_fs)
  next
    case (5 j)
    then show ?case by (simp add: upload_job_def local_reader_def)
  next
    case (6 j)
    then show ?case by (simp add: upload_job_def)
  next
    case (7 j c w q w' m)
    obtain fs ws s where w: "w = (fs, ws, s)" by (metis surj_pair)
    let ?lr = "NewLocalReader (ul_path (us ! j)) (int (length (ul_content (us ! j))))"
    obtain q1 fs' where cl: "lr_CloneReader os ?lr fs = (q1, fs')" by force
    have q: "q = map_sum id (local_clone os) q1" "w' = (fs', ws, s)"
      using 7 by (auto simp: upload_job_def local_reader_def w cl)
    have "opened_for os us j R" if R: "q = Inr R" for R
    proof -
      obtain r where r: "q1 = Inr r" "R = local_clone os r" using R q(1) by (cases q1) auto
      then obtain h fs1 where "os_Open os (ul_path (us ! j)) fs = (Inr h, fs1)" "lr_f r = Some h" "lr_size r = lr_size ?lr"
        using cl by (auto simp: lr_CloneReader_def NewLocalReader_def split: prod.splits sum.splits)
      then have "reads_file os h (ul_content (us ! j))" using u(1)[of j] 7 unfolding local_file_def by simp blast
      with \<open>lr_f r = Some h\<close> \<open>lr_size r = lr_size ?lr\<close> show ?thesis unfolding opened_for_def
        by (intro exI[of _ r] exI[of _ h]) (simp add: r NewLocalReader_def)
    qed
    then show ?case using 7 q(2) w dest_holds_fs[of A V dec us m fs ws s fs'] by blast
  next
    case (8 j)
    then show ?case by (simp add: upload_job_def proton_writer_def)
  next
    case (9 j X i b w w' m)
    then show ?case using dest_holds_write[OF laws]
      by (cases w) (auto simp: proton_writer_def split: prod.splits)
  next
    case (10 j X i b w e w' m)
    then show ?case using dest_holds_write_fails[OF laws]
      by (cases w) (auto simp: proton_writer_def split: prod.splits)
  next
    case (11 j R m w)
    then show ?case
      by (cases w) (auto simp: opened_for_def local_clone_def split: prod.splits, metis dest_holds_fs)
  next
    case (12 j X m w)
    then show ?case by (simp add: upload_job_def proton_writer_def)
  qed
  with True show "copy_endpoints (if uploads_ok os A V dec us then upload_jobs os D A us else []) (\<lambda>j. file_chunks (ul_content (us ! j)))
      (dest_holds A V dec us) (opened_for os us) (\<lambda>j X. X = proton_writer D A (fh_LinkID (ul_handle (us ! j))) j)" by simp
qed

section \<open>Closing the jobs\<close>

lemma revision_is_frame:
  assumes "revision_is A V dec h p chunks" "sv_stored V h' = sv_stored V h"
    "sv_active V h' (up_shareID p) (up_linkID p) = sv_active V h (up_shareID p) (up_linkID p)"
  shows "revision_is A V dec h' p chunks"
  using assms by (simp add: revision_is_def revision_content_def)

lemma updated_net:
  "ua_updateRevision A n sh l r q = (x, h) \<Longrightarrow> \<exists>q. h = snd (ua_updateRevision A n sh l r q)"
  by (metis snd_conv)

lemma commit_active_other:
  assumes sep: "updates_separate A V" and run: "commitRevisionFromTokens A p tokens ae s = (r, s')"
    and other: "(sh, l) \<noteq> (up_shareID p, up_linkID p)"
  shows "sv_active V (bs_net s') sh l = sv_active V (bs_net s) sh l"
proof -
  have "bs_net s' = bs_net s \<or>
      (\<exists>q. bs_net s' = snd (ua_updateRevision A (bs_net s) (up_shareID p) (up_linkID p) (up_revisionID p) q))"
    using run
    by (auto simp: commitRevisionFromTokens_def Let_def intro: updated_net split: if_splits sum.splits prod.splits option.splits)
  then show ?thesis using sep other unfolding updates_separate_def by metis
qed

lemma pw_Close_frame:
  assumes laws: "server_laws A V dec" and sep: "updates_separate A V" and run: "pw_Close A w s = (e, w', s')"
  shows "sv_stored V (bs_net s') = sv_stored V (bs_net s)" "pw_uploadParams w' = pw_uploadParams w"
    "(sh, l) \<noteq> (pw_shareID w, pw_linkID w) \<Longrightarrow> sv_active V (bs_net s') sh l = sv_active V (bs_net s) sh l"
proof -
  have "sv_stored V (bs_net s') = sv_stored V (bs_net s) \<and> pw_uploadParams w' = pw_uploadParams w \<and>
    ((sh, l) \<noteq> (pw_shareID w, pw_linkID w) \<longrightarrow> sv_active V (bs_net s') sh l = sv_active V (bs_net s) sh l)"
  proof (cases "pw_closed w")
    case True
    then show ?thesis using run by (simp add: pw_Close_def)
  next
    case False
    then obtain e1 where c: "commitRevisionFromTokens A (pw_uploadParams (w\<lparr>pw_closed := True\<rparr>)) (pw_uploaded w) False s = (e1, s')"
      "w' = w\<lparr>pw_closed := True\<rparr>"
      using run by (auto simp: pw_Close_def Let_def split: prod.splits)
    then show ?thesis using commit_stored[OF laws c(1)] commit_active_other[OF sep c(1), of sh l]
      by (auto simp: pw_uploadParams_def)
  qed
  then show "sv_stored V (bs_net s') = sv_stored V (bs_net s)" "pw_uploadParams w' = pw_uploadParams w"
    "(sh, l) \<noteq> (pw_shareID w, pw_linkID w) \<Longrightarrow> sv_active V (bs_net s') sh l = sv_active V (bs_net s) sh l" by blast+
qed

text \<open>A writer that holds the whole file, not yet closed.\<close>

definition complete_writer ::
    "'h uploadAPI \<Rightarrow> 'h serverView \<Rightarrow> (bytes \<Rightarrow> string + bytes) \<Rightarrow> upload \<Rightarrow> ProtonWriter \<Rightarrow> ('dv, 'h) blockStore \<Rightarrow> bool" where
  "complete_writer A V dec u w s \<longleftrightarrow> \<not> pw_closed w \<and> pw_uploadParams w = pw_uploadParams (NewProtonWriter (ul_handle u)) \<and>
     length (pw_uploaded w) = length (file_chunks (ul_content u)) \<and>
     (\<forall>i<length (file_chunks (ul_content u)). \<exists>ub. map_of (pw_uploaded w) (int i) = Some ub \<and>
        block_stored A V dec (bs_net s) (file_chunks (ul_content u) ! i) ub)"

lemma file_chunks_Nil: "fits c \<Longrightarrow> file_chunks c = [] \<longleftrightarrow> c = []"
  using concat_file_chunks[of c] by (auto simp: file_chunks_def BlockCount_def)

lemma close_complete:
  assumes laws: "server_laws A V dec" and "complete_writer A V dec u w s" "fits (ul_content u)" "ul_content u \<noteq> []"
    and run: "pw_Close A w s = (None, w', s')"
  shows "revision_is A V dec (bs_net s') (pw_uploadParams (NewProtonWriter (ul_handle u))) (file_chunks (ul_content u))"
proof -
  have w: "\<not> pw_closed w" "pw_uploadParams w = pw_uploadParams (NewProtonWriter (ul_handle u))"
    "length (pw_uploaded w) = length (file_chunks (ul_content u))"
    "\<And>i. i < length (file_chunks (ul_content u)) \<Longrightarrow> \<exists>ub. map_of (pw_uploaded w) (int i) = Some ub \<and>
        block_stored A V dec (bs_net s) (file_chunks (ul_content u) ! i) ub"
    using assms(2) by (auto simp: complete_writer_def)
  have c: "commitRevisionFromTokens A (pw_uploadParams (NewProtonWriter (ul_handle u))) (pw_uploaded w) False s = (None, s')"
    using run w(1,2) by (auto simp: pw_Close_def Let_def pw_uploadParams_def split: prod.splits)
  have "int (length (ul_content u)) \<le> maxInt64" using assms(3) by (simp add: fits_def BlockSize_def maxInt64_def)
  then show ?thesis using commit_complete[OF laws c w(3) _ w(4)] file_chunks_Nil[OF assms(3)] assms(4)
    by (simp add: concat_file_chunks[OF assms(3)])
qed

definition link_of :: "upload \<Rightarrow> string \<times> string" where
  "link_of u = (fh_ShareID (ul_handle u), fh_LinkID (ul_handle u))"

lemma close_uploads:
  assumes laws: "server_laws A V dec" and sep: "updates_separate A V"
    and "distinct (map (\<lambda>j. link_of (us ! j)) js)" "\<forall>j\<in>set js. complete_writer A V dec (us ! j) (ws j) s"
    and "\<forall>j\<in>set js. fits (ul_content (us ! j))"
    and "close_jobs (map (\<lambda>j. upload_job os D A j (us ! j)) js) (fs, ws, s) = ([], fs', ws', s')"
  shows "sv_stored V (bs_net s') = sv_stored V (bs_net s) \<and>
    (\<forall>sh l. (sh, l) \<notin> (\<lambda>j. link_of (us ! j)) ` set js \<longrightarrow> sv_active V (bs_net s') sh l = sv_active V (bs_net s) sh l) \<and>
    (\<forall>j\<in>set js. ul_content (us ! j) \<noteq> [] \<longrightarrow>
      revision_is A V dec (bs_net s') (pw_uploadParams (NewProtonWriter (ul_handle (us ! j)))) (file_chunks (ul_content (us ! j))))"
  using assms(3-6)
proof (induction js arbitrary: fs ws s)
  case (Cons j js)
  let ?u = "us ! j" and ?P = "pw_uploadParams (NewProtonWriter (ul_handle (us ! j)))"
  obtain e w1 s1 where cl: "pw_Close A (ws j) s = (e, w1, s1)" by (metis surj_pair)
  have jn: "j \<notin> set js" using Cons.prems(1) by auto
  obtain fs1 where rest: "close_jobs (map (\<lambda>j. upload_job os D A j (us ! j)) js) (fs1, ws(j := w1), s1) = ([], fs', ws', s')"
    and e: "e = None"
    using Cons.prems(4) cl
    by (auto simp: upload_job_def local_reader_def local_clone_def proton_writer_def lr_Close_def NewLocalReader_def Let_def
        split: prod.splits option.splits)
  note fr = pw_Close_frame[OF laws sep cl]
  have pw: "complete_writer A V dec ?u (ws j) s" using Cons.prems(2) by simp
  have lk: "(pw_shareID (ws j), pw_linkID (ws j)) = link_of ?u"
    using pw by (auto simp: complete_writer_def pw_uploadParams_def NewProtonWriter_def link_of_def)
  have "\<forall>k\<in>set js. complete_writer A V dec (us ! k) ((ws(j := w1)) k) s1"
    using Cons.prems(2) jn fr(1) by (auto simp: complete_writer_def block_stored_def)
  from Cons.IH[OF _ this _ rest] Cons.prems(1,3)
  have ih: "sv_stored V (bs_net s') = sv_stored V (bs_net s1)"
    "\<And>sh l. (sh, l) \<notin> (\<lambda>j. link_of (us ! j)) ` set js \<Longrightarrow> sv_active V (bs_net s') sh l = sv_active V (bs_net s1) sh l"
    "\<And>j. j \<in> set js \<Longrightarrow> ul_content (us ! j) \<noteq> [] \<Longrightarrow>
      revision_is A V dec (bs_net s') (pw_uploadParams (NewProtonWriter (ul_handle (us ! j)))) (file_chunks (ul_content (us ! j)))"
    by auto
  have here: "revision_is A V dec (bs_net s') ?P (file_chunks (ul_content ?u))" if "ul_content ?u \<noteq> []"
  proof (rule revision_is_frame)
    show "revision_is A V dec (bs_net s1) ?P (file_chunks (ul_content ?u))"
      using close_complete[OF laws pw _ that] cl e Cons.prems(3) by simp
    have "(up_shareID ?P, up_linkID ?P) = link_of ?u" by (simp add: pw_uploadParams_def NewProtonWriter_def link_of_def)
    then show "sv_active V (bs_net s') (up_shareID ?P) (up_linkID ?P) = sv_active V (bs_net s1) (up_shareID ?P) (up_linkID ?P)"
      using ih(2)[of "up_shareID ?P" "up_linkID ?P"] Cons.prems(1) by auto
  qed (rule ih(1))
  show ?case using ih here fr(1) fr(3) lk by auto
qed auto

section \<open>An upload commits the files\<close>

lemma run_workers: "pipeline_run jobs sched st = Some st' \<Longrightarrow> length (pl_workers st') = length (pl_workers st)"
proof (induction sched arbitrary: st)
  case (Cons e sched)
  obtain k c where e: "e = (k, c)" by force
  then obtain st1 where st1: "pipeline_step jobs k c st = Some st1" "pipeline_run jobs sched st1 = Some st'"
    using Cons.prems(1) by (auto split: option.splits)
  have "length (pl_workers st1) = length (pl_workers st)"
    using st1(1)
    by (auto simp: pipeline_step_def step_claim_def step_read_def step_write_def step_report_def worker_exit_def set_worker_def
        addErr_def Let_def split: if_splits copyPhase.splits option.splits prod.splits sum.splits)
  with Cons.IH[OF st1(2)] show ?case by simp
qed simp

lemma dest_holds_complete:
  assumes "dest_holds A V dec us m (fs, ws, s)" "j < length us"
    and m: "\<And>i. m (j, i) = (if 0 \<le> i \<and> i < int (length (file_chunks (ul_content (us ! j))))
        then Some (file_chunks (ul_content (us ! j)) ! nat i) else None)"
  shows "complete_writer A V dec (us ! j) (ws j) s"
proof -
  let ?C = "file_chunks (ul_content (us ! j))"
  have h: "\<not> pw_closed (ws j)" "pw_uploadParams (ws j) = pw_uploadParams (NewProtonWriter (ul_handle (us ! j)))"
    "distinct (keys (pw_uploaded (ws j)))"
    "\<And>i. case m (j, i) of None \<Rightarrow> map_of (pw_uploaded (ws j)) i = None
        | Some b \<Rightarrow> \<exists>ub. map_of (pw_uploaded (ws j)) i = Some ub \<and> block_stored A V dec (bs_net s) b ub"
    using assms(1,2) by (simp_all add: dest_holds_def)
  have "i \<in> set (keys (pw_uploaded (ws j))) \<longleftrightarrow> i \<in> int ` {..<length ?C}" for i
  proof -
    have "i \<in> set (keys (pw_uploaded (ws j))) \<longleftrightarrow> map_of (pw_uploaded (ws j)) i \<noteq> None" by (simp add: map_of_eq_None_iff)
    also have "\<dots> \<longleftrightarrow> 0 \<le> i \<and> i < int (length ?C)" using h(4)[of i] m[of i] by (auto split: if_splits)
    also have "\<dots> \<longleftrightarrow> i \<in> int ` {..<length ?C}" by (auto simp: image_iff intro!: bexI[of _ "nat i"])
    finally show ?thesis .
  qed
  then have "set (keys (pw_uploaded (ws j))) = int ` {..<length ?C}" by blast
  then have "card (set (keys (pw_uploaded (ws j)))) = length ?C" by (simp add: card_image)
  then have "length (pw_uploaded (ws j)) = length ?C" using distinct_card[OF h(3)] by simp
  moreover have "\<exists>ub. map_of (pw_uploaded (ws j)) (int i) = Some ub \<and> block_stored A V dec (bs_net s) (?C ! i) ub"
    if "i < length ?C" for i using h(4)[of "int i"] m[of "int i"] that by simp
  ultimately show ?thesis using h(1,2) by (simp add: complete_writer_def)
qed


text \<open>
  A failed upload can replace the file by its beginning.  When the blocks a writer holds at its Close
  are the first ones of the file, because the later ones failed or were never claimed after a cancellation,
  Close commits them: unless the service refuses, the active revision of the link becomes the truncated file.
\<close>

theorem partial_upload_commits:
  assumes "server_laws A V dec" "complete_writer A V dec (u\<lparr>ul_content := take (k * nat BlockSize) (ul_content u)\<rparr>) w s"
    "fits (ul_content u)" "ul_content u \<noteq> []" "0 < k" "pw_Close A w s = (None, w', s')"
  shows "revision_is A V dec (bs_net s') (pw_uploadParams (NewProtonWriter (ul_handle u)))
    (file_chunks (take (k * nat BlockSize) (ul_content u)))"
proof -
  have "take (k * nat BlockSize) (ul_content u) \<noteq> []" using assms(4,5) by (simp add: BlockSize_def)
  moreover have "fits (take (k * nat BlockSize) (ul_content u))" using assms(3) unfolding fits_def length_take by linarith
  ultimately show ?thesis using close_complete[OF assms(1,2)] assms(6) by simp
qed

section \<open>Witnesses\<close>

definition demo_os :: "bytes \<Rightarrow> unit osFiles" where
  "demo_os c = \<lparr>os_Open = \<lambda>_ fs. (Inr 0, fs), os_OpenWrite = \<lambda>_ fs. (Inr 0, fs),
     os_ReadAt = \<lambda>h n off fs. ((take (nat n) (drop (nat off) c), None), fs),
     os_WriteAt = \<lambda>h b off fs. (None, fs), os_CloseFile = \<lambda>h fs. (None, fs)\<rparr>"

definition demo_upload :: upload where
  "demo_upload = \<lparr>ul_path = ''p'', ul_content = [1, 2, 3], ul_handle = demo_handle\<rparr>"

lemma demo_uploads_ok: "uploads_ok (demo_os [1, 2, 3]) demo_api demo_view Inr [demo_upload]"
  using demo_server
  by (auto simp: uploads_ok_def local_file_def reads_file_def demo_os_def demo_upload_def fits_def BlockSize_def)

lemma demo_separate: "updates_separate demo_api demo_view"
  by (auto simp: updates_separate_def demo_api_def demo_view_def update_conv')

text \<open>One worker and one job of one block.\<close>

lemma one_block_run:
  assumes "br_BlockCount (cj_Src job) = 1" "br_BlockSize (cj_Src job) 0 = sz" "0 \<le> sz" "sz \<le> BlockSize"
    and "br_CloneReader (cj_Src job) = Some c" "c w0 = (Inr R, w1)" "br_ReadBlock R 0 sz w1 = (Inr b, w2)"
    and "bw_CloneWriter (cj_Dst job) = None" "bw_WriteBlock (cj_Dst job) 0 b w2 = (None, w3)" "br_Close R w3 = (x, w4)"
  shows "RunPipeline 1 [job] [(0, False), (0, False), (0, False), (0, False), (0, False)] w0 = Some (close_jobs [job] w4)"
proof -
  have "\<not> sz < 0" "\<not> BlockSize < sz" using assms(3,4) by simp_all
  then show ?thesis
    by (simp add: RunPipeline_def pipeline_eval all_exited_def assms Let_def split: prod.split)
qed


theorem partial_upload_commits_witness:
  "\<exists>w (s :: ((string, bytes) gomap, demoNet) blockStore) w' s'. pw_Close demo_api w s = (None, w', s') \<and>
    revision_is demo_api demo_view Inr (bs_net s') (pw_uploadParams (NewProtonWriter demo_handle))
      (file_chunks (replicate (nat BlockSize) 0)) \<and>
    replicate (nat BlockSize) 0 \<noteq> replicate (Suc (nat BlockSize)) (0 :: byte)"
proof -
  let ?c = "replicate (nat BlockSize) (0 :: byte)"
  let ?u = "\<lparr>ul_path = ''p'', ul_content = replicate (Suc (nat BlockSize)) 0, ul_handle = demo_handle\<rparr>"
  let ?ub = "\<lparr>ub_token = ''t'', ub_encHash = ?c, ub_rawSize = BlockSize\<rparr>"
  let ?w = "(NewProtonWriter demo_handle)\<lparr>pw_uploaded := [(0, ?ub)]\<rparr>"
  let ?s = "\<lparr>bs_bufCache = None, bs_cache = None, bs_net = ([(''t'', ?c)], [])\<rparr> :: ((string, bytes) gomap, demoNet) blockStore"
  have t: "take (1 * nat BlockSize) (ul_content ?u) = ?c" by (simp del: replicate.simps)
  have "BlockCount (int (length ?c)) = 1"
    by (simp add: BlockCount_def BlockSize_def quot_def maxInt64_def)
  then have f: "file_chunks ?c = [?c]" by (simp add: file_chunks_def)
  have "complete_writer demo_api demo_view Inr (?u\<lparr>ul_content := take (1 * nat BlockSize) (ul_content ?u)\<rparr>) ?w ?s"
    unfolding t
    by (simp add: complete_writer_def f block_stored_def demo_view_def demo_api_def NewProtonWriter_def pw_uploadParams_def)
  moreover have "fits (ul_content ?u)" by (simp add: fits_def BlockSize_def del: replicate.simps)
  moreover obtain w' s' where cl: "pw_Close demo_api ?w ?s = (None, w', s')"
    by (simp add: pw_Close_def NewProtonWriter_def commitRevisionFromTokens_def demo_api_def Let_def)
  ultimately have "revision_is demo_api demo_view Inr (bs_net s') (pw_uploadParams (NewProtonWriter (ul_handle ?u)))
      (file_chunks (take (1 * nat BlockSize) (ul_content ?u)))"
    by (intro partial_upload_commits[OF demo_server]) (simp_all del: replicate.simps)
  then have "revision_is demo_api demo_view Inr (bs_net s') (pw_uploadParams (NewProtonWriter demo_handle)) (file_chunks ?c)"
    unfolding t by simp
  moreover have "?c \<noteq> replicate (Suc (nat BlockSize)) 0" by (metis length_replicate n_not_Suc_n)
  ultimately show ?thesis using cl by blast
qed

end
