(* ===== verification/ShortID.thy ===== *)
theory ShortID
  imports Strconv
begin

text \<open>
  Short identifiers of the command line tools, \<^verbatim>\<open>internal/cli/shortid/shortid.go\<close>: the shortest
  display prefix of each identifier and the resolution of a prefix typed by the user.
\<close>

section \<open>Operations\<close>

datatype shortidErr = NotFoundError string | AmbiguousError string "string list"

definition DefaultLength :: nat where "DefaultLength = 8"

definition StripPadding :: "string \<Rightarrow> string" where
  "StripPadding s = trimRight (CHR ''='') s"

definition Resolve :: "string list \<Rightarrow> string \<Rightarrow> shortidErr + string" where
  "Resolve ids prfx =
     (if CHR ''='' \<in> set prfx then
        (if prfx \<in> set ids then Inr prfx else Inl (NotFoundError prfx))
      else (case filter (\<lambda>x. hasPrefix (StripPadding x) prfx) ids of
              [] \<Rightarrow> Inl (NotFoundError prfx)
            | [m] \<Rightarrow> Inr m
            | ms \<Rightarrow> Inl (AmbiguousError prfx ms)))"

text \<open>The search for the length of one prefix: \<open>s\<close> is the stripped identifier, \<open>n\<close> the length tried.\<close>

function short_len :: "string list \<Rightarrow> string \<Rightarrow> nat \<Rightarrow> nat" where
  "short_len stripped s n =
     (if n \<le> length s then
        (if \<exists>other\<in>set stripped. other \<noteq> s \<and> hasPrefix other (take n s) then short_len stripped s (Suc n) else n)
      else n)"
  by pat_completeness auto
termination by (relation "measure (\<lambda>(st, s, n). Suc (length s) - n)") auto

declare short_len.simps [simp del]

definition short_form :: "string list \<Rightarrow> string \<Rightarrow> string" where
  "short_form stripped s =
     (let n = short_len stripped s (min DefaultLength (length s)) in take (min n (length s)) s)"

definition FormatShortIDs :: "string list \<Rightarrow> (string, string) gomap" where
  "FormatShortIDs ids =
     (let stripped = map StripPadding ids
      in fold (\<lambda>full m. AList.update full (short_form stripped (StripPadding full)) m) ids [])"

section \<open>Lemmas\<close>

lemma short_len_spec:
  "n \<le> short_len st s n \<and>
   (\<forall>k. n \<le> k \<and> k < short_len st s n \<longrightarrow> k \<le> length s \<and> (\<exists>other\<in>set st. other \<noteq> s \<and> hasPrefix other (take k s))) \<and>
   (short_len st s n \<le> length s \<longrightarrow> \<not> (\<exists>other\<in>set st. other \<noteq> s \<and> hasPrefix other (take (short_len st s n) s)))"
proof (induction st s n rule: short_len.induct)
  case (1 st s n)
  show ?case
  proof (cases "n \<le> length s \<and> (\<exists>other\<in>set st. other \<noteq> s \<and> hasPrefix other (take n s))")
    case True
    then have e: "short_len st s n = short_len st s (Suc n)" by (subst short_len.simps) simp
    from 1[OF conjunct1[OF True] conjunct2[OF True]] have ih:
      "Suc n \<le> short_len st s (Suc n)"
      "\<And>k. Suc n \<le> k \<Longrightarrow> k < short_len st s (Suc n) \<Longrightarrow>
        k \<le> length s \<and> (\<exists>other\<in>set st. other \<noteq> s \<and> hasPrefix other (take k s))"
      "short_len st s (Suc n) \<le> length s \<Longrightarrow>
        \<not> (\<exists>other\<in>set st. other \<noteq> s \<and> hasPrefix other (take (short_len st s (Suc n)) s))" by blast+
    have "k \<le> length s \<and> (\<exists>other\<in>set st. other \<noteq> s \<and> hasPrefix other (take k s))"
      if "n \<le> k" "k < short_len st s (Suc n)" for k
      using that True ih(2)[of k] by (cases "k = n") simp_all
    with ih(1,3) show ?thesis unfolding e by auto
  next
    case False
    then have "short_len st s n = n" by (subst short_len.simps) auto
    with False show ?thesis by auto
  qed
qed

lemma map_of_fold_update:
  "map_of (fold (\<lambda>x m. AList.update x (f x) m) xs m) y = (if y \<in> set xs then Some (f y) else map_of m y)"
  by (induction xs arbitrary: m) auto

lemma map_of_FormatShortIDs:
  "map_of (FormatShortIDs ids) full =
    (if full \<in> set ids then Some (short_form (map StripPadding ids) (StripPadding full)) else None)"
  by (simp add: FormatShortIDs_def Let_def map_of_fold_update)

lemma filter_unique:
  assumes "distinct (map f xs)" "x \<in> set xs" "\<And>y. y \<in> set xs \<Longrightarrow> P (f y) \<longleftrightarrow> f y = f x"
  shows "filter (\<lambda>y. P (f y)) xs = [x]"
  using assms
proof (induction xs)
  case (Cons a xs)
  show ?case
  proof (cases "f a = f x")
    case True
    then have "f y \<noteq> f x" if "y \<in> set xs" for y
      using Cons.prems(1) that by (metis distinct.simps(2) image_eqI list.simps(9) set_map)
    with Cons.prems True have "a = x" "filter (\<lambda>y. P (f y)) xs = []" by (auto simp: filter_empty_conv)
    with Cons.prems(3)[of a] True show ?thesis by simp
  next
    case False
    with Cons have "filter (\<lambda>y. P (f y)) xs = [x]" by auto
    with Cons.prems(3)[of a] False show ?thesis by simp
  qed
qed simp

lemma hasPrefix_take: "hasPrefix s p \<Longrightarrow> hasPrefix s (take n p)"
  by (metis append_take_drop_id hasPrefix_iff append.assoc)

lemma short_form_spec:
  assumes "s \<in> set st"
  defines "ext \<equiv> \<exists>other\<in>set st. other \<noteq> s \<and> hasPrefix other s"
  shows "(ext \<longrightarrow> short_form st s = s) \<and>
    (\<not> ext \<longrightarrow> (\<forall>other\<in>set st. hasPrefix other (short_form st s) \<longrightarrow> other = s)) \<and>
    hasPrefix s (short_form st s) \<and>
    (\<forall>k. min DefaultLength (length s) \<le> k \<and> k < length (short_form st s) \<longrightarrow>
       (\<exists>other\<in>set st. other \<noteq> s \<and> hasPrefix other (take k s)))"
proof -
  define N where "N = short_len st s (min DefaultLength (length s))"
  have sf: "short_form st s = take (min N (length s)) s" by (simp add: short_form_def N_def)
  note sp = short_len_spec[of "min DefaultLength (length s)" st s, folded N_def]
  have "short_form st s = s" if ext
  proof -
    from that obtain t where t: "t \<in> set st" "t \<noteq> s" "hasPrefix t s" unfolding ext_def by blast
    have "\<not> N \<le> length s"
    proof
      assume "N \<le> length s"
      with sp have "\<not> (\<exists>other\<in>set st. other \<noteq> s \<and> hasPrefix other (take N s))" by blast
      with t hasPrefix_take[OF t(3)] show False by blast
    qed
    then show ?thesis by (simp add: sf)
  qed
  moreover have "other = s" if "\<not> ext" "other \<in> set st" "hasPrefix other (short_form st s)" for other
  proof -
    have "N \<le> length s"
    proof (rule ccontr)
      assume "\<not> N \<le> length s"
      then have "min DefaultLength (length s) \<le> length s \<and> length s < N" by simp
      with sp have "\<exists>other\<in>set st. other \<noteq> s \<and> hasPrefix other (take (length s) s)" by blast
      with that(1) show False by (auto simp: ext_def)
    qed
    with sp that(2,3) show ?thesis by (auto simp: sf)
  qed
  moreover have "hasPrefix s (short_form st s)" unfolding sf by (rule hasPrefix_take) simp
  moreover have "\<exists>other\<in>set st. other \<noteq> s \<and> hasPrefix other (take k s)"
    if "min DefaultLength (length s) \<le> k" "k < length (short_form st s)" for k
    using sp that by (auto simp: sf)
  ultimately show ?thesis by blast
qed

section \<open>Properties\<close>

text \<open>
  C15: a displayed short identifier resolves to the identifier it stands for.  For identifiers that
  differ in more than padding, the short form of each resolves back to it, unless another
  identifier extends it as a whole, in which case the short form is the identifier itself and the
  resolution reports the ambiguity; and no prefix of the minimum length or more that is shorter
  than the short form would have been unambiguous.
\<close>

theorem short_id_resolves:
  assumes "distinct (map StripPadding ids)" "\<forall>x\<in>set ids. CHR ''='' \<notin> set (StripPadding x)" "full \<in> set ids"
  shows "\<exists>p. map_of (FormatShortIDs ids) full = Some p \<and>
    (if \<exists>other\<in>set ids. other \<noteq> full \<and> hasPrefix (StripPadding other) (StripPadding full)
     then p = StripPadding full \<and> (\<exists>ms. Resolve ids p = Inl (AmbiguousError p ms) \<and> full \<in> set ms)
     else Resolve ids p = Inr full) \<and>
    (\<forall>k. min DefaultLength (length (StripPadding full)) \<le> k \<and> k < length p \<longrightarrow>
       (\<exists>other\<in>set ids. other \<noteq> full \<and> hasPrefix (StripPadding other) (take k p)))"
proof -
  let ?st = "map StripPadding ids" and ?s = "StripPadding full"
  let ?p = "short_form ?st ?s"
  have inj: "StripPadding x = ?s \<longleftrightarrow> x = full" if "x \<in> set ids" for x
    using assms(1,3) that by (auto simp: distinct_map inj_on_def)
  have in_st: "?s \<in> set ?st" using assms(3) by simp
  note sp = short_form_spec[OF in_st]
  let ?ext = "\<exists>other\<in>set ids. other \<noteq> full \<and> hasPrefix (StripPadding other) ?s"
  have ext: "(\<exists>other\<in>set ?st. other \<noteq> ?s \<and> hasPrefix other ?s) \<longleftrightarrow> ?ext" using inj by force
  have pre: "hasPrefix ?s ?p" using sp by blast
  have "set ?p \<subseteq> set ?s" using pre unfolding hasPrefix_def by (metis set_take_subset)
  then have noeq: "CHR ''='' \<notin> set ?p" using assms(2,3) by blast
  have res: "if ?ext then ?p = ?s \<and> (\<exists>ms. Resolve ids ?p = Inl (AmbiguousError ?p ms) \<and> full \<in> set ms)
     else Resolve ids ?p = Inr full"
  proof (cases ?ext)
    case True
    then obtain other where o: "other \<in> set ids" "other \<noteq> full" "hasPrefix (StripPadding other) ?s" by blast
    have p: "?p = ?s" using sp True ext by blast
    let ?ms = "filter (\<lambda>x. hasPrefix (StripPadding x) ?p) ids"
    have "other \<in> set ?ms" "full \<in> set ?ms" using o assms(3) by (simp_all add: p)
    then obtain a b c where "?ms = a # b # c" using o(2) by (cases ?ms rule: list.exhaust; cases "tl ?ms") auto
    then have "Resolve ids ?p = Inl (AmbiguousError ?p ?ms)" using noeq by (simp add: Resolve_def)
    with p \<open>full \<in> set ?ms\<close> True show ?thesis by auto
  next
    case False
    have "filter (\<lambda>x. hasPrefix (StripPadding x) ?p) ids = [full]"
    proof (rule filter_unique[OF assms(1,3)])
      fix y assume "y \<in> set ids"
      then show "hasPrefix (StripPadding y) ?p \<longleftrightarrow> StripPadding y = ?s"
        using sp False ext pre by auto
    qed
    with False noeq show ?thesis by (simp add: Resolve_def)
  qed
  moreover have "\<exists>other\<in>set ids. other \<noteq> full \<and> hasPrefix (StripPadding other) (take k ?p)"
    if "min DefaultLength (length ?s) \<le> k" "k < length ?p" for k
  proof -
    from sp that obtain t where t: "t \<in> set ?st" "t \<noteq> ?s" "hasPrefix t (take k ?s)" by blast
    have "take k ?p = take k (take (length ?p) ?s)" using pre by (simp add: hasPrefix_def)
    also have "\<dots> = take k ?s" using that(2) by (simp add: min_def)
    finally have "take k ?p = take k ?s" .
    with t inj show ?thesis by auto
  qed
  ultimately show ?thesis using assms(3) by (auto simp: map_of_FormatShortIDs)
qed

theorem short_id_resolves_witness:
  "Resolve [''abcdefghi='', ''abcdefghj=''] (the (map_of (FormatShortIDs [''abcdefghi='', ''abcdefghj='']) ''abcdefghj='')) =
    Inr ''abcdefghj=''"
proof -
  have "distinct (map StripPadding [''abcdefghi='', ''abcdefghj=''])"
    "\<forall>x\<in>set [''abcdefghi='', ''abcdefghj='']. CHR ''='' \<notin> set (StripPadding x)"
    "\<not> (\<exists>other\<in>set [''abcdefghi='', ''abcdefghj='']. other \<noteq> ''abcdefghj='' \<and> hasPrefix (StripPadding other) (StripPadding ''abcdefghj=''))"
    by (simp_all add: StripPadding_def trimRight_def hasPrefix_def)
  with short_id_resolves[of "[''abcdefghi='', ''abcdefghj='']" "''abcdefghj=''"] show ?thesis by auto
qed

end
