(* ===== verification/RateLimit.thy ===== *)
theory RateLimit
  imports GoPrelude
begin

text \<open>
  The session's rate limiting: the shared back-off of \<^verbatim>\<open>api/throttle.go\<close> and the bounded worker
  pool of \<^verbatim>\<open>api/semaphore.go\<close>.  Times are nanoseconds, durations 64-bit integers.
\<close>

section \<open>Throttle\<close>

record throttle =
  th_until :: int
  th_backoff :: int
  th_maxDelay :: int

text \<open>The zero \<^verbatim>\<open>time.Time\<close> lies before every clock reading.\<close>

definition NewThrottle :: "int \<Rightarrow> int \<Rightarrow> int \<Rightarrow> throttle" where
  "NewThrottle zeroTime initialBackoff maxDelay =
     \<lparr>th_until = zeroTime, th_backoff = initialBackoff, th_maxDelay = maxDelay\<rparr>"

definition throttle_Signal :: "int \<Rightarrow> int \<Rightarrow> throttle \<Rightarrow> throttle" where
  "throttle_Signal now retryAfter t =
     (let (delay, t1) = (if retryAfter \<le> 0
                         then (th_backoff t, t\<lparr>th_backoff := min (wrap64 (th_backoff t * 2)) (th_maxDelay t)\<rparr>)
                         else (retryAfter, t));
          until = now + delay
      in if until > th_until t1 then t1\<lparr>th_until := until\<rparr> else t1)"

definition second :: int where "second = 1000000000"

definition throttle_Reset :: "int \<Rightarrow> throttle \<Rightarrow> throttle" where
  "throttle_Reset now t =
     (if now > th_until t then
        let b = quot (th_backoff t) 2 in t\<lparr>th_backoff := if b < second then second else b\<rparr>
      else t)"

text \<open>The outcome of \<^verbatim>\<open>Wait\<close> and the time it returns; \<open>cancel\<close> is when the context is cancelled.\<close>

definition throttle_Wait :: "int \<Rightarrow> int option \<Rightarrow> throttle \<Rightarrow> bool \<times> int" where
  "throttle_Wait now cancel t =
     (let delay = th_until t - now
      in if delay \<le> 0 then (True, now)
         else (case cancel of
                 Some c \<Rightarrow> if c < th_until t then (False, max now c) else (True, th_until t)
               | None \<Rightarrow> (True, th_until t)))"

datatype throttleOp = OpSignal int | OpReset

fun throttle_run :: "(int \<times> throttleOp) list \<Rightarrow> throttle \<Rightarrow> throttle" where
  "throttle_run [] t = t"
| "throttle_run ((now, OpSignal r) # ops) t = throttle_run ops (throttle_Signal now r t)"
| "throttle_run ((now, OpReset) # ops) t = throttle_run ops (throttle_Reset now t)"

definition throttle_ok :: "throttle \<Rightarrow> bool" where
  "throttle_ok t \<longleftrightarrow> second \<le> th_backoff t \<and> th_backoff t \<le> th_maxDelay t \<and> th_maxDelay t \<le> quot maxInt64 2"

lemma half_max: "quot maxInt64 2 = 2 ^ 62 - 1"
  by (simp add: maxInt64_def quot_def)

lemma throttle_ok_Signal: "throttle_ok t \<Longrightarrow> throttle_ok (throttle_Signal now r t)"
  by (auto simp: throttle_ok_def throttle_Signal_def Let_def half_max second_def maxInt64_def)

lemma throttle_ok_Reset: "throttle_ok t \<Longrightarrow> throttle_ok (throttle_Reset now t)"
proof -
  assume ok: "throttle_ok t"
  then have "0 \<le> th_backoff t" by (simp add: throttle_ok_def second_def)
  then have "quot (th_backoff t) 2 = th_backoff t div 2" "th_backoff t div 2 \<le> th_backoff t" by simp_all
  with ok show ?thesis by (auto simp: throttle_ok_def throttle_Reset_def Let_def)
qed

lemma throttle_ok_run: "throttle_ok t \<Longrightarrow> throttle_ok (throttle_run ops t)"
  by (induction ops t rule: throttle_run.induct) (simp_all add: throttle_ok_Signal throttle_ok_Reset)

lemma until_mono_run: "th_until t \<le> th_until (throttle_run ops t)"
proof (induction ops t rule: throttle_run.induct)
  case (2 now r ops t)
  have "th_until t \<le> th_until (throttle_Signal now r t)" by (auto simp: throttle_Signal_def Let_def)
  with 2 show ?case by simp
next
  case (3 now ops t)
  have "th_until (throttle_Reset now t) = th_until t" by (simp add: throttle_Reset_def Let_def)
  with 3 show ?case by simp
qed simp



section \<open>Semaphore\<close>

text \<open>
  A task of the pool is its goroutine's program counter: queued at the slot channel, holding a
  slot (waiting for the throttle), running, ended, slot released, counted, done.
\<close>

datatype phase = Queued | Acquired | Running | Ended | Released | Counted | Finished

record semaphore =
  sm_cap :: nat
  sm_inUse :: int
  sm_active :: int
  sm_submitted :: int
  sm_completed :: int
  sm_pending :: int
  sm_tasks :: "phase list"

definition NewSemaphore :: "nat \<Rightarrow> semaphore" where
  "NewSemaphore n = \<lparr>sm_cap = n, sm_inUse = 0, sm_active = 0, sm_submitted = 0, sm_completed = 0,
     sm_pending = 0, sm_tasks = []\<rparr>"

definition semaphore_Limit :: "semaphore \<Rightarrow> nat" where "semaphore_Limit s = sm_cap s"

definition semaphore_Stats :: "semaphore \<Rightarrow> int \<times> int \<times> int" where
  "semaphore_Stats s = (sm_active s, sm_submitted s, sm_completed s)"

text \<open>\<^verbatim>\<open>Go\<close>: submission, and the steps of the goroutine; \<open>cancelled\<close> is the throttle wait's outcome.
  A step that would block is \<open>None\<close>.\<close>

datatype semEvent = Submit | Advance nat bool

definition set_phase :: "nat \<Rightarrow> phase \<Rightarrow> semaphore \<Rightarrow> semaphore" where
  "set_phase i p s = s\<lparr>sm_tasks := (sm_tasks s)[i := p]\<rparr>"

fun semaphore_exec :: "semEvent \<Rightarrow> semaphore \<Rightarrow> semaphore option" where
  "semaphore_exec Submit s =
     Some (s\<lparr>sm_pending := sm_pending s + 1, sm_submitted := sm_submitted s + 1, sm_tasks := sm_tasks s @ [Queued]\<rparr>)"
| "semaphore_exec (Advance i cancelled) s =
     (if i \<ge> length (sm_tasks s) then None
      else (case sm_tasks s ! i of
        Queued \<Rightarrow> (if sm_inUse s < int (sm_cap s)
                   then Some (set_phase i Acquired (s\<lparr>sm_inUse := sm_inUse s + 1\<rparr>)) else None)
      | Acquired \<Rightarrow> (if cancelled then Some (set_phase i Ended s)
                     else Some (set_phase i Running (s\<lparr>sm_active := sm_active s + 1\<rparr>)))
      | Running \<Rightarrow> Some (set_phase i Ended (s\<lparr>sm_active := sm_active s - 1\<rparr>))
      | Ended \<Rightarrow> Some (set_phase i Released (s\<lparr>sm_inUse := sm_inUse s - 1\<rparr>))
      | Released \<Rightarrow> Some (set_phase i Counted (s\<lparr>sm_completed := sm_completed s + 1\<rparr>))
      | Counted \<Rightarrow> Some (set_phase i Finished (s\<lparr>sm_pending := sm_pending s - 1\<rparr>))
      | Finished \<Rightarrow> None))"

inductive sem_reachable :: "nat \<Rightarrow> semaphore \<Rightarrow> bool" for n where
  init: "sem_reachable n (NewSemaphore n)"
| step: "sem_reachable n s \<Longrightarrow> semaphore_exec e s = Some s' \<Longrightarrow> sem_reachable n s'"

definition count_in :: "phase set \<Rightarrow> phase list \<Rightarrow> nat" where
  "count_in P ts = length (filter (\<lambda>p. p \<in> P) ts)"

lemma count_in_update:
  assumes "i < length ts"
  shows "int (count_in P (ts[i := p])) =
    int (count_in P ts) - (if ts ! i \<in> P then 1 else 0) + (if p \<in> P then 1 else 0)"
proof -
  have a: "ts = take i ts @ ts ! i # drop (Suc i) ts" by (rule id_take_nth_drop[OF assms])
  have b: "ts[i := p] = take i ts @ p # drop (Suc i) ts" by (rule upd_conv_take_nth_drop[OF assms])
  have "count_in P ts = count_in P (take i ts) + (if ts ! i \<in> P then 1 else 0) + count_in P (drop (Suc i) ts)"
    by (subst a) (simp add: count_in_def)
  moreover have "count_in P (ts[i := p]) = count_in P (take i ts) + (if p \<in> P then 1 else 0) + count_in P (drop (Suc i) ts)"
    by (subst b) (simp add: count_in_def)
  ultimately show ?thesis by simp
qed

definition sem_inv :: "nat \<Rightarrow> semaphore \<Rightarrow> bool" where
  "sem_inv n s \<longleftrightarrow> sm_cap s = n \<and> sm_inUse s \<le> int n \<and>
     sm_inUse s = int (count_in {Acquired, Running, Ended} (sm_tasks s)) \<and>
     sm_active s = int (count_in {Running} (sm_tasks s)) \<and>
     sm_submitted s = int (length (sm_tasks s)) \<and>
     sm_completed s = int (count_in {Counted, Finished} (sm_tasks s)) \<and>
     sm_pending s = int (count_in (- {Finished}) (sm_tasks s))"

lemma sem_inv_exec:
  assumes "sem_inv n s" "semaphore_exec e s = Some s'"
  shows "sem_inv n s'"
proof (cases e)
  case Submit
  with assms show ?thesis by (auto simp: sem_inv_def count_in_def)
next
  case (Advance i c)
  with assms(2) have i: "i < length (sm_tasks s)" by (auto split: if_splits)
  with assms Advance show ?thesis
    by (cases "sm_tasks s ! i") (auto simp: sem_inv_def set_phase_def count_in_update[OF i] split: if_splits)
qed

lemma sem_reachable_inv: "sem_reachable n s \<Longrightarrow> sem_inv n s"
proof (induction rule: sem_reachable.induct)
  case init
  show ?case by (simp add: sem_inv_def NewSemaphore_def count_in_def)
qed (rule sem_inv_exec)

text \<open>
  C17: the pool never runs more tasks than its limit.  In every reachable state the tasks that hold
  a slot, and so the running ones, are at most n; the statistics count the running, the submitted
  and the completed tasks; and when the wait group is at zero every task has finished, every slot
  is free and as many tasks are counted completed as were submitted.
\<close>

theorem semaphore_bounded:
  assumes "sem_reachable n s"
  shows "count_in {Acquired, Running, Ended} (sm_tasks s) \<le> n \<and>
    semaphore_Stats s = (int (count_in {Running} (sm_tasks s)), int (length (sm_tasks s)),
      int (count_in {Counted, Finished} (sm_tasks s))) \<and>
    (sm_pending s = 0 \<longrightarrow> set (sm_tasks s) \<subseteq> {Finished} \<and> sm_inUse s = 0 \<and> sm_completed s = sm_submitted s)"
proof -
  have inv: "sem_inv n s" by (rule sem_reachable_inv[OF assms])
  have "set (sm_tasks s) \<subseteq> {Finished} \<and> sm_inUse s = 0 \<and> sm_completed s = sm_submitted s" if "sm_pending s = 0"
  proof -
    have all: "\<forall>p\<in>set (sm_tasks s). p = Finished"
      using inv that by (auto simp: sem_inv_def count_in_def filter_empty_conv)
    then have "filter (\<lambda>p. p \<in> {Acquired, Running, Ended}) (sm_tasks s) = []"
      "filter (\<lambda>p. p \<in> {Counted, Finished}) (sm_tasks s) = sm_tasks s"
      by (auto simp: filter_empty_conv filter_id_conv)
    with inv all show ?thesis by (auto simp: sem_inv_def count_in_def)
  qed
  with inv show ?thesis by (auto simp: sem_inv_def semaphore_Stats_def)
qed

definition sem_one :: semaphore where
  "sem_one = set_phase 0 Acquired ((NewSemaphore 1)\<lparr>sm_pending := 1, sm_submitted := 1, sm_tasks := [Queued], sm_inUse := 1\<rparr>)"

lemma sem_one_reachable: "sem_reachable 1 sem_one"
proof -
  have a: "semaphore_exec Submit (NewSemaphore 1) = Some ((NewSemaphore 1)\<lparr>sm_pending := 1, sm_submitted := 1, sm_tasks := [Queued]\<rparr>)"
    by (simp add: NewSemaphore_def)
  have b: "semaphore_exec (Advance 0 False) ((NewSemaphore 1)\<lparr>sm_pending := 1, sm_submitted := 1, sm_tasks := [Queued]\<rparr>) = Some sem_one"
    by (simp add: NewSemaphore_def sem_one_def set_phase_def)
  show ?thesis by (rule sem_reachable.step[OF sem_reachable.step[OF sem_reachable.init a] b])
qed

theorem semaphore_bounded_witness:
  "count_in {Acquired, Running, Ended} (sm_tasks sem_one) \<le> 1 \<and> semaphore_Stats sem_one = (0, 1, 0)"
  using semaphore_bounded[OF sem_one_reachable]
  by (simp add: sem_one_def set_phase_def NewSemaphore_def count_in_def)

fun phase_rank :: "phase \<Rightarrow> nat" where
  "phase_rank Queued = 6" | "phase_rank Acquired = 5" | "phase_rank Running = 4" | "phase_rank Ended = 3"
| "phase_rank Released = 2" | "phase_rank Counted = 1" | "phase_rank Finished = 0"

definition sem_work :: "semaphore \<Rightarrow> nat" where
  "sem_work s = sum_list (map phase_rank (sm_tasks s))"

lemma sem_work_set_phase:
  assumes "i < length (sm_tasks s)" "phase_rank p < phase_rank (sm_tasks s ! i)"
  shows "sum_list (map phase_rank ((sm_tasks s)[i := p])) < sem_work s"
proof -
  have a: "sm_tasks s = take i (sm_tasks s) @ sm_tasks s ! i # drop (Suc i) (sm_tasks s)"
    by (rule id_take_nth_drop[OF assms(1)])
  have b: "(sm_tasks s)[i := p] = take i (sm_tasks s) @ p # drop (Suc i) (sm_tasks s)"
    by (rule upd_conv_take_nth_drop[OF assms(1)])
  have "sem_work s = sum_list (map phase_rank (take i (sm_tasks s))) + phase_rank (sm_tasks s ! i) +
      sum_list (map phase_rank (drop (Suc i) (sm_tasks s)))"
    unfolding sem_work_def by (subst a) simp
  moreover have "sum_list (map phase_rank ((sm_tasks s)[i := p])) =
      sum_list (map phase_rank (take i (sm_tasks s))) + phase_rank p + sum_list (map phase_rank (drop (Suc i) (sm_tasks s)))"
    by (subst b) simp
  ultimately show ?thesis using assms(2) by simp
qed

lemma sem_work_decreases:
  assumes "semaphore_exec (Advance i c) s = Some s'"
  shows "sem_work s' < sem_work s"
proof -
  have i: "i < length (sm_tasks s)" using assms by (auto split: if_splits)
  have "\<exists>p. sm_tasks s' = (sm_tasks s)[i := p] \<and> phase_rank p < phase_rank (sm_tasks s ! i)"
    using assms i by (cases "sm_tasks s ! i") (auto simp: set_phase_def split: if_splits)
  then obtain p where "sm_tasks s' = (sm_tasks s)[i := p]" "phase_rank p < phase_rank (sm_tasks s ! i)" by blast
  with sem_work_set_phase[OF i] show ?thesis by (simp add: sem_work_def[of s'])
qed

lemma sem_progress:
  assumes inv: "sem_inv n s" and n: "0 < n" and p: "p \<in> set (sm_tasks s)" "p \<noteq> Finished"
  shows "\<exists>i s'. semaphore_exec (Advance i False) s = Some s'"
proof (cases "\<exists>q\<in>set (sm_tasks s). q \<noteq> Finished \<and> q \<noteq> Queued")
  case True
  then obtain i where i: "i < length (sm_tasks s)" "sm_tasks s ! i \<noteq> Finished" "sm_tasks s ! i \<noteq> Queued"
    by (auto simp: in_set_conv_nth)
  then show ?thesis by (intro exI[of _ i]) (cases "sm_tasks s ! i"; simp)
next
  case False
  then have "p = Queued" using p by blast
  then obtain i where i: "i < length (sm_tasks s)" "sm_tasks s ! i = Queued" using p(1) by (auto simp: in_set_conv_nth)
  have "filter (\<lambda>q. q \<in> {Acquired, Running, Ended}) (sm_tasks s) = []" using False by (auto simp: filter_empty_conv)
  then have "sm_inUse s < int (sm_cap s)" using inv n by (simp add: sem_inv_def count_in_def)
  with i show ?thesis by (intro exI[of _ i]) simp
qed

text \<open>
  The pool drains.  With at least one slot, every step of a goroutine brings the submitted
  batch strictly closer to its end, whatever the throttle does, and a state in which no goroutine
  can step is one where every task has finished and the wait group is at zero: \<^verbatim>\<open>Wait\<close> returns
  under every schedule.
\<close>

theorem semaphore_drains:
  assumes "sem_reachable n s" "0 < n"
  shows "(\<forall>i c s'. semaphore_exec (Advance i c) s = Some s' \<longrightarrow> sem_work s' < sem_work s) \<and>
    ((\<forall>i. semaphore_exec (Advance i False) s = None) \<longrightarrow> set (sm_tasks s) \<subseteq> {Finished} \<and> sm_pending s = 0)"
proof -
  have inv: "sem_inv n s" by (rule sem_reachable_inv[OF assms(1)])
  have "set (sm_tasks s) \<subseteq> {Finished} \<and> sm_pending s = 0"
    if "\<forall>i. semaphore_exec (Advance i False) s = None"
  proof -
    have all: "\<forall>p\<in>set (sm_tasks s). p = Finished"
    proof (rule ccontr)
      assume "\<not> (\<forall>p\<in>set (sm_tasks s). p = Finished)"
      then obtain p where "p \<in> set (sm_tasks s)" "p \<noteq> Finished" by blast
      from sem_progress[OF inv assms(2) this] that show False by (metis option.distinct(1))
    qed
    then have "filter (\<lambda>p. p \<in> - {Finished}) (sm_tasks s) = []" by (auto simp: filter_empty_conv)
    with inv all show ?thesis by (auto simp: sem_inv_def count_in_def)
  qed
  then show ?thesis using sem_work_decreases by blast
qed

theorem semaphore_drains_witness:
  "\<exists>s'. semaphore_exec (Advance 0 False) sem_one = Some s' \<and> sem_work s' < sem_work sem_one"
proof -
  obtain s' where s: "semaphore_exec (Advance 0 False) sem_one = Some s'"
    by (simp add: sem_one_def set_phase_def NewSemaphore_def)
  with semaphore_drains[OF sem_one_reachable] show ?thesis by fastforce
qed

end
