(* ===== verification/ConfigSettings.thy ===== *)
theory ConfigSettings
  imports Strconv
begin

text \<open>
  The configuration's data: parameters with provenance (\<^verbatim>\<open>api/config/param.go\<close>), cache levels
  (\<^verbatim>\<open>api/cache_config.go\<close>), the service registry (\<^verbatim>\<open>api/service_config.go\<close>) and the configuration
  with its persisted form (\<^verbatim>\<open>api/config/config.go\<close>, \<^verbatim>\<open>api/config/session_config.go\<close>).  The YAML
  text belongs to another package; the model ends at the record handed to it.
\<close>

section \<open>Parameters\<close>

datatype ParamSource = Unset | File | CLI

fun ParamSource_String :: "ParamSource \<Rightarrow> string" where
  "ParamSource_String Unset = ''default''"
| "ParamSource_String File = ''file''"
| "ParamSource_String CLI = ''cli''"

record 'a Param =
  p_value :: 'a
  p_dflt :: 'a
  p_source :: ParamSource

text \<open>\<open>zero\<close> is the zero value of the parameter's type.\<close>

definition NewParam :: "'a \<Rightarrow> 'a \<Rightarrow> 'a Param" where
  "NewParam zero dflt = \<lparr>p_value = zero, p_dflt = dflt, p_source = Unset\<rparr>"

definition Param_Value :: "'a Param \<Rightarrow> 'a" where
  "Param_Value p = (if p_source p = Unset then p_dflt p else p_value p)"

definition Param_IsSet :: "'a Param \<Rightarrow> bool" where
  "Param_IsSet p \<longleftrightarrow> p_source p \<noteq> Unset"

definition Param_SetFile :: "'a \<Rightarrow> 'a Param \<Rightarrow> 'a Param" where
  "Param_SetFile v p = p\<lparr>p_value := v, p_source := File\<rparr>"

definition Param_SetCLI :: "'a \<Rightarrow> 'a Param \<Rightarrow> 'a Param" where
  "Param_SetCLI v p = p\<lparr>p_value := v, p_source := CLI\<rparr>"

definition Param_Reset :: "'a \<Rightarrow> 'a Param \<Rightarrow> 'a Param" where
  "Param_Reset zero p = p\<lparr>p_value := zero, p_source := Unset\<rparr>"

record ParamInfo =
  pi_Value :: string
  pi_Default :: string
  pi_Source :: ParamSource

definition Param_Info :: "('a \<Rightarrow> string) \<Rightarrow> 'a Param \<Rightarrow> ParamInfo" where
  "Param_Info fmt p = \<lparr>pi_Value = fmt (Param_Value p), pi_Default = fmt (p_dflt p), pi_Source = p_source p\<rparr>"

lemma Param_simps [simp]:
  "Param_Value (Param_SetFile v p) = v" "p_source (Param_SetFile v p) = File"
  "p_dflt (Param_SetFile v p) = p_dflt p" "p_dflt (Param_Reset z p) = p_dflt p"
  "Param_Value (Param_SetCLI v p) = v" "p_source (Param_Reset z p) = Unset"
  "Param_Value (Param_Reset z p) = p_dflt p" "Param_IsSet (Param_SetFile v p)" "\<not> Param_IsSet (Param_Reset z p)"
  "Param_Reset z (Param_SetFile v p) = Param_Reset z p" "Param_SetFile v (Param_SetFile w p) = Param_SetFile v p"
  "p_source (NewParam z d) = Unset" "Param_Value (NewParam z d) = d" "\<not> Param_IsSet (NewParam z d)"
  "p_dflt (NewParam z d) = d" "Param_Reset z (NewParam z d) = NewParam z d"
  by (simp_all add: Param_Value_def Param_SetFile_def Param_SetCLI_def Param_Reset_def Param_IsSet_def NewParam_def)

section \<open>Cache levels\<close>

datatype MemoryCacheLevel = CacheDisabled | CacheLinkName | CacheMetadata

fun MemoryCacheLevel_String :: "MemoryCacheLevel \<Rightarrow> string" where
  "MemoryCacheLevel_String CacheLinkName = ''linkname''"
| "MemoryCacheLevel_String CacheMetadata = ''metadata''"
| "MemoryCacheLevel_String CacheDisabled = ''disabled''"

definition MemoryCacheLevel_Unmarshal :: "string \<Rightarrow> string + MemoryCacheLevel" where
  "MemoryCacheLevel_Unmarshal s =
     (if s = ''disabled'' \<or> s = [] then Inr CacheDisabled
      else if s = ''linkname'' then Inr CacheLinkName
      else if s = ''metadata'' then Inr CacheMetadata
      else Inl s)"

datatype DiskCacheLevel = DiskCacheDisabled | DiskCacheObjectStore

fun DiskCacheLevel_String :: "DiskCacheLevel \<Rightarrow> string" where
  "DiskCacheLevel_String DiskCacheObjectStore = ''objectstore''"
| "DiskCacheLevel_String DiskCacheDisabled = ''disabled''"

definition DiskCacheLevel_Unmarshal :: "string \<Rightarrow> string + DiskCacheLevel" where
  "DiskCacheLevel_Unmarshal s =
     (if s = ''disabled'' \<or> s = [] then Inr DiskCacheDisabled
      else if s = ''objectstore'' then Inr DiskCacheObjectStore
      else Inl s)"

record ShareConfig =
  sc_MemoryCache :: MemoryCacheLevel
  sc_DiskCache :: DiskCacheLevel

definition zero_ShareConfig :: ShareConfig where
  "zero_ShareConfig = \<lparr>sc_MemoryCache = CacheDisabled, sc_DiskCache = DiskCacheDisabled\<rparr>"

lemma level_roundtrip [simp]:
  "MemoryCacheLevel_Unmarshal (MemoryCacheLevel_String m) = Inr m"
  "DiskCacheLevel_Unmarshal (DiskCacheLevel_String d) = Inr d"
  by (cases m; simp add: MemoryCacheLevel_Unmarshal_def) (cases d; simp add: DiskCacheLevel_Unmarshal_def)

section \<open>Services\<close>

record ServiceConfig =
  svc_Name :: string
  svc_Host :: string
  svc_ClientID :: string
  svc_Version :: string
  svc_CookieAuth :: bool

definition ServiceConfig_AppVersion :: "string \<Rightarrow> ServiceConfig \<Rightarrow> string" where
  "ServiceConfig_AppVersion version sc =
     svc_ClientID sc @ ''@'' @ (if version = [] then svc_Version sc else version)"

definition Services :: "(string, ServiceConfig) gomap" where
  "Services =
     [(''account'', \<lparr>svc_Name = ''account'', svc_Host = ''https://account.proton.me/api'',
         svc_ClientID = ''web-account'', svc_Version = ''5.0.367.1'', svc_CookieAuth = True\<rparr>),
      (''drive'', \<lparr>svc_Name = ''drive'', svc_Host = ''https://drive-api.proton.me/api'',
         svc_ClientID = ''web-drive'', svc_Version = ''5.2.0'', svc_CookieAuth = False\<rparr>),
      (''lumo'', \<lparr>svc_Name = ''lumo'', svc_Host = ''https://lumo.proton.me/api'',
         svc_ClientID = ''web-lumo'', svc_Version = ''1.3.3.4'', svc_CookieAuth = True\<rparr>)]"

definition LookupService :: "string \<Rightarrow> ServiceConfig option" where
  "LookupService name = map_of Services name"

text \<open>\<open>urlHost\<close> is \<^verbatim>\<open>url.Parse\<close> followed by \<^verbatim>\<open>Hostname\<close>; \<open>None\<close> for an unparsable URL or one without host.\<close>

definition hostIndex :: "(string \<Rightarrow> string option) \<Rightarrow> (string, ServiceConfig) gomap" where
  "hostIndex urlHost =
     fold (\<lambda>(_, svc) m. case urlHost (svc_Host svc) of None \<Rightarrow> m | Some h \<Rightarrow> AList.update h svc m) Services []"

definition LookupServiceByHost :: "(string \<Rightarrow> string option) \<Rightarrow> string \<Rightarrow> ServiceConfig option" where
  "LookupServiceByHost urlHost host = map_of (hostIndex urlHost) host"

definition ResolveAppVersion :: "(string \<Rightarrow> string option) \<Rightarrow> string \<Rightarrow> string \<Rightarrow> string" where
  "ResolveAppVersion urlHost reqURL fallback =
     (case urlHost reqURL of
        None \<Rightarrow> fallback
      | Some h \<Rightarrow> (case LookupServiceByHost urlHost h of
          None \<Rightarrow> fallback
        | Some svc \<Rightarrow> ServiceConfig_AppVersion [] svc))"

section \<open>The configuration\<close>

record CoreConfig =
  cc_MaxJobs :: "int Param"
  cc_Account :: "string Param"
  cc_AppVersion :: "string Param"

record Config =
  cfg_Core :: CoreConfig
  cfg_Watermark :: "(int \<times> int) Param"
  cfg_PrefetchBlocks :: "int Param"
  cfg_BlockCacheMode :: "string Param"
  cfg_EventPollInterval :: "int Param"
  cfg_Shares :: "(string, ShareConfig) gomap"
  cfg_Subsystems :: "(string, CoreConfig) gomap"

text \<open>\<open>workers\<close> is \<^verbatim>\<open>api.DefaultMaxWorkers()\<close>, which depends on the machine.\<close>

definition DefaultMaxWorkers :: "int \<Rightarrow> int \<Rightarrow> int" where
  "DefaultMaxWorkers numCPU maxAutoWorkers =
     (let n = numCPU * 3; n = (if n < 2 then 2 else n)
      in if n > maxAutoWorkers then maxAutoWorkers else n)"

definition new_CoreConfig :: "int \<Rightarrow> CoreConfig" where
  "new_CoreConfig workers =
     \<lparr>cc_MaxJobs = NewParam 0 workers, cc_Account = NewParam [] ''default'', cc_AppVersion = NewParam [] []\<rparr>"

definition DefaultConfig :: "int \<Rightarrow> Config" where
  "DefaultConfig workers =
     \<lparr>cfg_Core = new_CoreConfig workers, cfg_Watermark = NewParam (0, 0) (0, 0),
      cfg_PrefetchBlocks = NewParam 0 1, cfg_BlockCacheMode = NewParam [] ''encrypted'',
      cfg_EventPollInterval = NewParam 0 5, cfg_Shares = [], cfg_Subsystems = []\<rparr>"

definition DefaultAccount :: "Config \<Rightarrow> string \<Rightarrow> string" where
  "DefaultAccount c service =
     (case map_of (cfg_Subsystems c) service of
        Some sub \<Rightarrow>
          if Param_IsSet (cc_Account sub) then Param_Value (cc_Account sub)
          else if Param_IsSet (cc_Account (cfg_Core c)) then Param_Value (cc_Account (cfg_Core c))
          else p_dflt (cc_Account (cfg_Core c))
      | None \<Rightarrow>
          if Param_IsSet (cc_Account (cfg_Core c)) then Param_Value (cc_Account (cfg_Core c))
          else p_dflt (cc_Account (cfg_Core c)))"

section \<open>The persisted form\<close>

record coreConfigYAML =
  y_MaxJobs :: "int option"
  y_Account :: "string option"
  y_AppVersion :: "string option"

record configYAML =
  y_Core :: coreConfigYAML
  y_Watermark :: "string option"
  y_PrefetchBlocks :: "int option"
  y_BlockCacheMode :: "string option"
  y_EventPollInterval :: "int option"
  y_Shares :: "(string, ShareConfig) gomap option"
  y_Subsystems :: "(string, coreConfigYAML) gomap option"

definition empty_coreYAML :: coreConfigYAML where
  "empty_coreYAML = \<lparr>y_MaxJobs = None, y_Account = None, y_AppVersion = None\<rparr>"

definition file_value :: "'a Param \<Rightarrow> 'a option" where
  "file_value p = (if p_source p = File then Some (Param_Value p) else None)"

definition marshalCoreConfig :: "CoreConfig \<Rightarrow> coreConfigYAML" where
  "marshalCoreConfig src =
     \<lparr>y_MaxJobs = file_value (cc_MaxJobs src), y_Account = file_value (cc_Account src),
      y_AppVersion = file_value (cc_AppVersion src)\<rparr>"

definition load_param :: "'a option \<Rightarrow> 'a Param \<Rightarrow> 'a Param" where
  "load_param v p = (case v of None \<Rightarrow> p | Some x \<Rightarrow> Param_SetFile x p)"

definition unmarshalCoreConfig :: "coreConfigYAML \<Rightarrow> CoreConfig \<Rightarrow> CoreConfig" where
  "unmarshalCoreConfig src dst =
     dst\<lparr>cc_MaxJobs := load_param (y_MaxJobs src) (cc_MaxJobs dst),
         cc_Account := load_param (y_Account src) (cc_Account dst),
         cc_AppVersion := load_param (y_AppVersion src) (cc_AppVersion dst)\<rparr>"

definition print_watermark :: "int \<times> int \<Rightarrow> string" where
  "print_watermark wm = itoa (fst wm) @ '':'' @ itoa (snd wm)"

datatype watermarkErr = BadFormat string | BadMin string | BadMax string | NegativeMin int | MaxBelowMin int int

definition splitColon :: "string \<Rightarrow> (string \<times> string) option" where
  "splitColon s = (case indexByte (CHR '':'') s of None \<Rightarrow> None | Some i \<Rightarrow> Some (take i s, drop (Suc i) s))"

definition parseWatermarkString :: "string \<Rightarrow> watermarkErr + (int \<times> int)" where
  "parseWatermarkString s =
     (case splitColon s of
        None \<Rightarrow> Inl (BadFormat s)
      | Some (a, b) \<Rightarrow>
          (case atoi (trimSpace a) of
             None \<Rightarrow> Inl (BadMin a)
           | Some lo \<Rightarrow> (case atoi (trimSpace b) of None \<Rightarrow> Inl (BadMax b) | Some hi \<Rightarrow> Inr (lo, hi))))"

definition Config_MarshalYAML :: "Config \<Rightarrow> configYAML" where
  "Config_MarshalYAML c =
     (let subs = filter (\<lambda>(_, sy). sy \<noteq> empty_coreYAML)
                   (map (\<lambda>(name, sub). (name, marshalCoreConfig sub)) (cfg_Subsystems c))
      in \<lparr>y_Core = marshalCoreConfig (cfg_Core c),
          y_Watermark = map_option print_watermark (file_value (cfg_Watermark c)),
          y_PrefetchBlocks = file_value (cfg_PrefetchBlocks c),
          y_BlockCacheMode = file_value (cfg_BlockCacheMode c),
          y_EventPollInterval = file_value (cfg_EventPollInterval c),
          y_Shares = (if cfg_Shares c = [] then None else Some (cfg_Shares c)),
          y_Subsystems = (if subs = [] then None else Some subs)\<rparr>)"

definition Config_UnmarshalYAML :: "int \<Rightarrow> configYAML \<Rightarrow> Config \<Rightarrow> watermarkErr + Config" where
  "Config_UnmarshalYAML workers y c =
     (case (case y_Watermark y of
              None \<Rightarrow> Inr (cfg_Watermark c)
            | Some s \<Rightarrow> (case parseWatermarkString s of Inl e \<Rightarrow> Inl e | Inr wm \<Rightarrow> Inr (Param_SetFile wm (cfg_Watermark c)))) of
        Inl e \<Rightarrow> Inl e
      | Inr wm \<Rightarrow>
          Inr (c\<lparr>cfg_Core := unmarshalCoreConfig (y_Core y) (cfg_Core c),
                 cfg_Watermark := wm,
                 cfg_PrefetchBlocks := load_param (y_PrefetchBlocks y) (cfg_PrefetchBlocks c),
                 cfg_BlockCacheMode := load_param (y_BlockCacheMode y) (cfg_BlockCacheMode c),
                 cfg_EventPollInterval := load_param (y_EventPollInterval y) (cfg_EventPollInterval c),
                 cfg_Shares := (case y_Shares y of None \<Rightarrow> cfg_Shares c | Some m \<Rightarrow> m),
                 cfg_Subsystems :=
                   (case y_Subsystems y of
                      None \<Rightarrow> cfg_Subsystems c
                    | Some m \<Rightarrow> fold (\<lambda>(name, sy) subs.
                        AList.update name (unmarshalCoreConfig sy (new_CoreConfig workers)) subs) m (cfg_Subsystems c))\<rparr>))"

text \<open>\<^verbatim>\<open>LoadConfig\<close>: \<open>content\<close> is the file read and decoded, \<open>None\<close> when it does not exist.\<close>

definition LoadConfig :: "int \<Rightarrow> (string + configYAML) option \<Rightarrow> (string + watermarkErr) + Config" where
  "LoadConfig workers content =
     (case content of
        None \<Rightarrow> Inr (DefaultConfig workers)
      | Some (Inl err) \<Rightarrow> Inl (Inl err)
      | Some (Inr y) \<Rightarrow>
          (case Config_UnmarshalYAML workers y (DefaultConfig workers) of Inl e \<Rightarrow> Inl (Inr e) | Inr c \<Rightarrow> Inr c))"

record SessionConfig =
  ses_Shares :: "(string, ShareConfig) gomap"
  ses_Defaults :: "(string, string) gomap"
  ses_MaxJobs :: int
  ses_MinWatermark :: int
  ses_MaxWatermark :: int

definition BuildSessionConfig :: "Config \<Rightarrow> int \<Rightarrow> SessionConfig" where
  "BuildSessionConfig cfg maxJobs =
     \<lparr>ses_Shares = cfg_Shares cfg,
      ses_Defaults = map (\<lambda>(name, sub). (name, Param_Value (cc_Account sub)))
        (filter (\<lambda>(_, sub). Param_IsSet (cc_Account sub)) (cfg_Subsystems cfg)),
      ses_MaxJobs = maxJobs,
      ses_MinWatermark = fst (Param_Value (cfg_Watermark cfg)),
      ses_MaxWatermark = snd (Param_Value (cfg_Watermark cfg))\<rparr>"

section \<open>Saving and loading\<close>

text \<open>A parameter as the program leaves it when no command-line flag is involved: never set, or set
  from the file.\<close>

definition clean_param :: "'a \<Rightarrow> 'a \<Rightarrow> 'a Param \<Rightarrow> bool" where
  "clean_param z d p \<longleftrightarrow> p = NewParam z d \<or> (\<exists>v. p = Param_SetFile v (NewParam z d))"

definition clean_core :: "int \<Rightarrow> CoreConfig \<Rightarrow> bool" where
  "clean_core workers cc \<longleftrightarrow> clean_param 0 workers (cc_MaxJobs cc) \<and> clean_param [] ''default'' (cc_Account cc) \<and>
     clean_param [] [] (cc_AppVersion cc)"

definition int64_range :: "int \<Rightarrow> bool" where
  "int64_range i \<longleftrightarrow> - (2 ^ 63) \<le> i \<and> i \<le> maxInt64"

definition clean_config :: "int \<Rightarrow> Config \<Rightarrow> bool" where
  "clean_config workers c \<longleftrightarrow> clean_core workers (cfg_Core c) \<and>
     clean_param (0, 0) (0, 0) (cfg_Watermark c) \<and>
     int64_range (fst (Param_Value (cfg_Watermark c))) \<and> int64_range (snd (Param_Value (cfg_Watermark c))) \<and>
     clean_param 0 1 (cfg_PrefetchBlocks c) \<and> clean_param [] ''encrypted'' (cfg_BlockCacheMode c) \<and>
     clean_param 0 5 (cfg_EventPollInterval c) \<and>
     distinct (keys (cfg_Subsystems c)) \<and> (\<forall>(name, sub)\<in>set (cfg_Subsystems c). clean_core workers sub)"

lemma load_file_value: "clean_param z d p \<Longrightarrow> load_param (file_value p) (NewParam z d) = p"
  by (auto simp: clean_param_def load_param_def file_value_def)

lemma unmarshal_marshal_core:
  assumes "clean_core workers cc"
  shows "unmarshalCoreConfig (marshalCoreConfig cc) (new_CoreConfig workers) = cc"
  using assms by (cases cc) (simp add: clean_core_def unmarshalCoreConfig_def marshalCoreConfig_def new_CoreConfig_def load_file_value)

lemma fold_update_distinct:
  "distinct (keys m) \<Longrightarrow> set (keys m) \<inter> set (keys acc) = {} \<Longrightarrow>
    fold (\<lambda>(k, v) m. AList.update k (f v) m) m acc = acc @ map (\<lambda>(k, v). (k, f v)) m"
proof (induction m arbitrary: acc)
  case (Cons kv m)
  obtain k v where kv: "kv = (k, v)" by force
  have "map_of acc k = None" using Cons.prems by (auto simp: kv map_of_eq_None_iff)
  then have "AList.update k (f v) acc = acc @ [(k, f v)]" by (rule update_fresh)
  with Cons show ?case by (auto simp: kv)
qed simp

lemma showNat_digit_chars: "c \<in> set (showNat n) \<Longrightarrow> digit_val c \<noteq> None"
proof (induction n rule: showNat.induct)
  case (1 n)
  show ?case
  proof (cases "n < 10")
    case True
    with 1(2) show ?thesis by (subst (asm) showNat.simps) simp
  next
    case False
    from 1(2) False have "c \<in> set (showNat (n div 10)) \<or> c = digit_char (n mod 10)"
      by (subst (asm) showNat.simps) auto
    with 1(1)[OF False] show ?thesis by auto
  qed
qed

lemma itoa_chars: "c \<in> set (itoa i) \<Longrightarrow> c = CHR ''-'' \<or> digit_val c \<noteq> None"
  using showNat_digit_chars by (auto simp: itoa_def split: if_splits)

lemma trimSpace_none: "\<forall>c\<in>set s. \<not> isSpace c \<Longrightarrow> trimSpace s = s"
proof -
  have d: "dropWhile isSpace xs = xs" if "\<forall>c\<in>set xs. \<not> isSpace c" for xs
    using that by (cases xs) auto
  assume "\<forall>c\<in>set s. \<not> isSpace c"
  then show ?thesis by (simp add: trimSpace_def d)
qed

lemma trimSpace_itoa [simp]: "trimSpace (itoa i) = itoa i"
proof (rule trimSpace_none)
  have "digit_val c = None" if "isSpace c" for c using that by (auto simp: isSpace_def digit_val_def)
  moreover have "\<not> isSpace (CHR ''-'')" by (simp add: isSpace_def)
  ultimately show "\<forall>c\<in>set (itoa i). \<not> isSpace c" using itoa_chars by blast
qed

lemma itoa_no_colon: "CHR '':'' \<notin> set (itoa i)"
  using itoa_chars[of "CHR '':''" i] by (auto simp: digit_val_def)

lemma splitColon_print: "splitColon (itoa a @ '':'' @ x) = Some (itoa a, x)"
  using indexByte_append[OF itoa_no_colon, of a x] by (simp add: splitColon_def)

lemma parse_print_watermark:
  assumes "int64_range (fst wm)" "int64_range (snd wm)"
  shows "parseWatermarkString (print_watermark wm) = Inr wm"
  using assms atoi_itoa by (simp add: parseWatermarkString_def print_watermark_def splitColon_print[simplified] int64_range_def)

definition has_settings :: "CoreConfig \<Rightarrow> bool" where
  "has_settings sub \<longleftrightarrow> marshalCoreConfig sub \<noteq> empty_coreYAML"

lemma marshalled_subs:
  assumes "distinct (keys subs)" "\<forall>(name, sub)\<in>set subs. clean_core workers sub"
  shows "fold (\<lambda>(name, sy) m. AList.update name (unmarshalCoreConfig sy (new_CoreConfig workers)) m)
      (filter (\<lambda>(_, sy). sy \<noteq> empty_coreYAML) (map (\<lambda>(name, sub). (name, marshalCoreConfig sub)) subs)) [] =
    filter (\<lambda>(_, sub). has_settings sub) subs"
proof -
  let ?m = "filter (\<lambda>(_, sy). sy \<noteq> empty_coreYAML) (map (\<lambda>(name, sub). (name, marshalCoreConfig sub)) subs)"
  have m: "?m = map (\<lambda>(name, sub). (name, marshalCoreConfig sub)) (filter (\<lambda>(_, sub). has_settings sub) subs)"
    by (induction subs) (auto simp: has_settings_def)
  have "distinct (keys ?m)"
  proof -
    have "keys ?m = keys (filter (\<lambda>(_, sub). has_settings sub) subs)"
      unfolding m by (simp add: comp_def case_prod_unfold)
    with assms(1) show ?thesis by (simp add: distinct_map_filter)
  qed
  then have "fold (\<lambda>(name, sy) m. AList.update name (unmarshalCoreConfig sy (new_CoreConfig workers)) m) ?m [] =
      map (\<lambda>(name, sy). (name, unmarshalCoreConfig sy (new_CoreConfig workers))) ?m"
    by (subst fold_update_distinct) simp_all
  also have "\<dots> = filter (\<lambda>(_, sub). has_settings sub) subs"
    unfolding m using assms(2) by (induction subs) (auto simp: unmarshal_marshal_core)
  finally show ?thesis .
qed

text \<open>
  what is saved is loaded.  For a configuration without command-line overrides, loading the
  persisted record gives back the same configuration, except that subsystem entries without any
  setting are gone: every value, every default and every provenance is the same, the memory
  watermark included, which is persisted as text.
\<close>

lemma save_load_roundtrip:
  assumes "clean_config workers c"
  shows "LoadConfig workers (Some (Inr (Config_MarshalYAML c))) =
    Inr (c\<lparr>cfg_Subsystems := filter (\<lambda>(_, sub). has_settings sub) (cfg_Subsystems c)\<rparr>)"
proof -
  note cl = assms[unfolded clean_config_def]
  have wm: "(case map_option print_watermark (file_value (cfg_Watermark c)) of
              None \<Rightarrow> Inr (cfg_Watermark (DefaultConfig workers))
            | Some s \<Rightarrow> (case parseWatermarkString s of Inl e \<Rightarrow> Inl e
                        | Inr wm \<Rightarrow> Inr (Param_SetFile wm (cfg_Watermark (DefaultConfig workers))))) = Inr (cfg_Watermark c)"
    using cl by (auto simp: clean_param_def file_value_def DefaultConfig_def parse_print_watermark)
  have core: "unmarshalCoreConfig (marshalCoreConfig (cfg_Core c)) (new_CoreConfig workers) = cfg_Core c"
    using cl by (intro unmarshal_marshal_core) blast
  have ps: "load_param (file_value (cfg_PrefetchBlocks c)) (NewParam 0 1) = cfg_PrefetchBlocks c"
    "load_param (file_value (cfg_BlockCacheMode c)) (NewParam [] ''encrypted'') = cfg_BlockCacheMode c"
    "load_param (file_value (cfg_EventPollInterval c)) (NewParam 0 5) = cfg_EventPollInterval c"
    using cl by (auto intro: load_file_value)
  define m where "m = filter (\<lambda>(_, sy). sy \<noteq> empty_coreYAML) (map (\<lambda>(name, sub). (name, marshalCoreConfig sub)) (cfg_Subsystems c))"
  have subs: "(case (if m = [] then None else Some m) of None \<Rightarrow> []
      | Some m \<Rightarrow> fold (\<lambda>(name, sy) subs. AList.update name (unmarshalCoreConfig sy (new_CoreConfig workers)) subs) m []) =
      filter (\<lambda>(_, sub). has_settings sub) (cfg_Subsystems c)"
    using marshalled_subs[of "cfg_Subsystems c" workers] cl unfolding m_def[symmetric] by auto
  define y where "y = Config_MarshalYAML c"
  have y: "y_Core y = marshalCoreConfig (cfg_Core c)" "y_Watermark y = map_option print_watermark (file_value (cfg_Watermark c))"
    "y_PrefetchBlocks y = file_value (cfg_PrefetchBlocks c)" "y_BlockCacheMode y = file_value (cfg_BlockCacheMode c)"
    "y_EventPollInterval y = file_value (cfg_EventPollInterval c)"
    "y_Shares y = (if cfg_Shares c = [] then None else Some (cfg_Shares c))"
    "y_Subsystems y = (if m = [] then None else Some m)"
    by (simp_all add: y_def Config_MarshalYAML_def Let_def m_def)
  have d: "cfg_Core (DefaultConfig workers) = new_CoreConfig workers" "cfg_Shares (DefaultConfig workers) = []"
    "cfg_Subsystems (DefaultConfig workers) = []" "cfg_PrefetchBlocks (DefaultConfig workers) = NewParam 0 1"
    "cfg_BlockCacheMode (DefaultConfig workers) = NewParam [] ''encrypted''"
    "cfg_EventPollInterval (DefaultConfig workers) = NewParam 0 5" by (simp_all add: DefaultConfig_def)
  have "Config_UnmarshalYAML workers y (DefaultConfig workers) =
      Inr (c\<lparr>cfg_Subsystems := filter (\<lambda>(_, sub). has_settings sub) (cfg_Subsystems c)\<rparr>)"
    unfolding Config_UnmarshalYAML_def y wm sum.case d core ps subs
    by (intro arg_cong[where f = Inr] Config.equality) simp_all
  then show ?thesis by (simp add: LoadConfig_def y_def)
qed

end
