(* ===== verification/ConfigSelector.thy ===== *)
theory ConfigSelector
  imports Strconv
begin

text \<open>
  Selector paths of the configuration, \<^verbatim>\<open>api/config/selector.go\<close> and \<^verbatim>\<open>api/config/match.go\<close>:
  printing, parsing, and matching by prefix or glob.  Strings are byte strings.
\<close>

section \<open>Selectors\<close>

record Segment =
  seg_Name :: string
  seg_IndexKey :: string
  seg_IndexVal :: string

type_synonym selector = "Segment list"

definition segment_String :: "Segment \<Rightarrow> string" where
  "segment_String seg = seg_Name seg @
     (if seg_IndexKey seg \<noteq> [] then ''['' @ seg_IndexKey seg @ ''='' @ seg_IndexVal seg @ '']'' else [])"

fun selector_String :: "selector \<Rightarrow> string" where
  "selector_String [] = []"
| "selector_String [seg] = segment_String seg"
| "selector_String (seg # segs) = segment_String seg @ ''.'' @ selector_String segs"

datatype selectorErr =
    EmptyInput
  | EmptyIdentifier nat
  | UnmatchedBracket string
  | MissingEquals string
  | EmptyValue string
  | UnexpectedChar char nat

definition isIdentStart :: "char \<Rightarrow> bool" where
  "isIdentStart c \<longleftrightarrow> (CHR ''a'' \<le> c \<and> c \<le> CHR ''z'') \<or> (CHR ''A'' \<le> c \<and> c \<le> CHR ''Z'') \<or> c = CHR ''_''"

definition isIdentCont :: "char \<Rightarrow> bool" where
  "isIdentCont c \<longleftrightarrow> isIdentStart c \<or> (CHR ''0'' \<le> c \<and> c \<le> CHR ''9'') \<or> c = CHR ''-''"

text \<open>One segment at position \<open>pos\<close> of the input, with the rest of the input.\<close>

definition parse_segment :: "nat \<Rightarrow> string \<Rightarrow> selectorErr + (Segment \<times> string)" where
  "parse_segment pos inp =
     (if inp = [] \<or> \<not> isIdentStart (hd inp) then Inl (EmptyIdentifier pos)
      else let name = hd inp # takeWhile isIdentCont (tl inp); rest = dropWhile isIdentCont (tl inp)
           in if rest \<noteq> [] \<and> hd rest = CHR ''['' then
                (case indexByte (CHR '']'') (tl rest) of
                   None \<Rightarrow> Inl (UnmatchedBracket name)
                 | Some closeIdx \<Rightarrow>
                     let inner = take closeIdx (tl rest);
                         rest2 = drop (Suc closeIdx) (tl rest);
                         raw = ''['' @ inner @ '']''
                     in (case indexByte (CHR ''='') inner of
                           None \<Rightarrow> Inl (MissingEquals (name @ raw))
                         | Some eqIdx \<Rightarrow>
                             let key = take eqIdx inner; val = drop (Suc eqIdx) inner
                             in if val = [] then Inl (EmptyValue (name @ raw))
                                else Inr (\<lparr>seg_Name = name, seg_IndexKey = key, seg_IndexVal = val\<rparr>, rest2)))
              else Inr (\<lparr>seg_Name = name, seg_IndexKey = [], seg_IndexVal = []\<rparr>, rest))"

lemma parse_segment_shorter: "parse_segment pos inp = Inr (seg, rest) \<Longrightarrow> length rest < length inp"
proof -
  assume a: "parse_segment pos inp = Inr (seg, rest)"
  then have ne: "inp \<noteq> []" by (auto simp: parse_segment_def)
  have "length rest \<le> length (dropWhile isIdentCont (tl inp))"
    using a by (auto simp: parse_segment_def Let_def split: if_splits option.splits)
  also have "\<dots> \<le> length (tl inp)" by (rule length_dropWhile_le)
  also have "\<dots> < length inp" using ne by simp
  finally show ?thesis .
qed

function parse_segments :: "nat \<Rightarrow> string \<Rightarrow> selectorErr + selector" where
  "parse_segments pos inp =
     (case parse_segment pos inp of
        Inl err \<Rightarrow> Inl err
      | Inr (seg, rest) \<Rightarrow>
          (let pos' = pos + (length inp - length rest) in
           if rest = [] then Inr [seg]
           else if hd rest = CHR ''.'' then
             (case parse_segments (Suc pos') (tl rest) of Inl err \<Rightarrow> Inl err | Inr segs \<Rightarrow> Inr (seg # segs))
           else Inl (UnexpectedChar (hd rest) pos')))"
  by pat_completeness auto
termination
proof (relation "measure (\<lambda>(pos, inp). length inp)", goal_cases)
  case (2 pos inp x2 seg rest pos')
  then show ?case using parse_segment_shorter[of pos inp seg rest] by auto
qed simp

declare parse_segments.simps [simp del]

definition selector_Parse :: "string \<Rightarrow> selectorErr + selector" where
  "selector_Parse inp = (if inp = [] then Inl EmptyInput else parse_segments 0 inp)"

section \<open>Matching\<close>

definition MatchPrefix :: "string \<Rightarrow> string \<Rightarrow> bool" where
  "MatchPrefix sel prfx =
     (if prfx = [] then True
      else if \<not> hasPrefix sel prfx then False
      else if length sel = length prfx then True
      else sel ! length prfx = CHR ''.'')"

fun escapeBrackets :: "string \<Rightarrow> string" where
  "escapeBrackets [] = []"
| "escapeBrackets (c # cs) =
     (if c = CHR ''['' \<or> c = CHR '']'' then [CHR 0x5C, c] else [c]) @ escapeBrackets cs"

text \<open>\<^verbatim>\<open>filepath.Match\<close> (with a malformed pattern matching nothing): the pattern as tokens, then the
  match of the tokens.\<close>

datatype globTok = Star | AnyChar | Lit char | CharClass bool "(char \<times> char) list"

definition getEsc :: "string \<Rightarrow> (char \<times> string) option" where
  "getEsc chunk =
     (case chunk of
        [] \<Rightarrow> None
      | c # r \<Rightarrow>
          (if c = CHR ''-'' \<or> c = CHR '']'' then None
           else let cs = (if c = CHR 0x5C then r else chunk)
                in (case cs of [] \<Rightarrow> None | x # rest \<Rightarrow> if rest = [] then None else Some (x, rest))))"

lemma getEsc_shorter: "getEsc s = Some (c, r) \<Longrightarrow> length r < length s"
  by (auto simp: getEsc_def Let_def split: list.splits if_splits)

function classRanges :: "bool \<Rightarrow> string \<Rightarrow> ((char \<times> char) list \<times> string) option" where
  "classRanges first s =
     (if s \<noteq> [] \<and> hd s = CHR '']'' \<and> \<not> first then Some ([], tl s)
      else (case getEsc s of
        None \<Rightarrow> None
      | Some (lo, r) \<Rightarrow>
          (if r \<noteq> [] \<and> hd r = CHR ''-'' then
             (case getEsc (tl r) of
                None \<Rightarrow> None
              | Some (hi, r2) \<Rightarrow>
                  if length r2 < length s then map_option (apfst ((#) (lo, hi))) (classRanges False r2) else None)
           else if length r < length s then map_option (apfst ((#) (lo, lo))) (classRanges False r) else None)))"
  by pat_completeness auto
termination by (relation "measure (\<lambda>(f, s). length s)") auto

function globTokens :: "string \<Rightarrow> globTok list option" where
  "globTokens s =
     (case s of
        [] \<Rightarrow> Some []
      | c # r \<Rightarrow>
          (if c = CHR ''*'' then map_option ((#) Star) (globTokens r)
           else if c = CHR ''?'' then map_option ((#) AnyChar) (globTokens r)
           else if c = CHR 0x5C then
             (case r of [] \<Rightarrow> None | x # r' \<Rightarrow> map_option ((#) (Lit x)) (globTokens r'))
           else if c = CHR ''['' then
             (let (neg, r1) = (if r \<noteq> [] \<and> hd r = CHR ''^'' then (True, tl r) else (False, r))
              in (case classRanges True r1 of
                    None \<Rightarrow> None
                  | Some (rs, r2) \<Rightarrow>
                      if length r2 < length s then map_option ((#) (CharClass neg rs)) (globTokens r2) else None))
           else map_option ((#) (Lit c)) (globTokens r)))"
  by pat_completeness auto
termination by (relation "measure length") auto

declare globTokens.simps [simp del] classRanges.simps [simp del]

fun globMatch :: "globTok list \<Rightarrow> string \<Rightarrow> bool" where
  "globMatch [] s = (s = [])"
| "globMatch (Star # ts) [] = globMatch ts []"
| "globMatch (Star # ts) (c # cs) = (globMatch ts (c # cs) \<or> (c \<noteq> CHR ''/'' \<and> globMatch (Star # ts) cs))"
| "globMatch (AnyChar # ts) (c # cs) = (c \<noteq> CHR ''/'' \<and> globMatch ts cs)"
| "globMatch (Lit x # ts) (c # cs) = (x = c \<and> globMatch ts cs)"
| "globMatch (CharClass neg rs # ts) (c # cs) =
     ((list_ex (\<lambda>(lo, hi). lo \<le> c \<and> c \<le> hi) rs \<noteq> neg) \<and> globMatch ts cs)"
| "globMatch (_ # ts) [] = False"

definition filepath_Match :: "string \<Rightarrow> string \<Rightarrow> bool" where
  "filepath_Match pattern name = (case globTokens pattern of None \<Rightarrow> False | Some ts \<Rightarrow> globMatch ts name)"

definition MatchPattern :: "string \<Rightarrow> string \<Rightarrow> bool" where
  "MatchPattern sel pattern =
     (if CHR ''*'' \<in> set pattern \<or> CHR ''?'' \<in> set pattern then filepath_Match (escapeBrackets pattern) sel
      else MatchPrefix sel pattern)"

section \<open>Printing and parsing\<close>

definition wf_segment :: "Segment \<Rightarrow> bool" where
  "wf_segment seg \<longleftrightarrow>
     (\<exists>c cs. seg_Name seg = c # cs \<and> isIdentStart c \<and> (\<forall>x\<in>set cs. isIdentCont x)) \<and>
     (seg_IndexKey seg = [] \<and> seg_IndexVal seg = [] \<or>
      seg_IndexKey seg \<noteq> [] \<and> CHR ''='' \<notin> set (seg_IndexKey seg) \<and> CHR '']'' \<notin> set (seg_IndexKey seg) \<and>
      seg_IndexVal seg \<noteq> [] \<and> CHR '']'' \<notin> set (seg_IndexVal seg))"

definition wf_selector :: "selector \<Rightarrow> bool" where
  "wf_selector segs \<longleftrightarrow> segs \<noteq> [] \<and> (\<forall>seg\<in>set segs. wf_segment seg)"

lemma not_ident [simp]: "\<not> isIdentCont (CHR ''['')" "\<not> isIdentCont (CHR ''.'')"
  by (simp_all add: isIdentCont_def isIdentStart_def)

lemma span_ident:
  assumes "\<forall>x\<in>set cs. P x" "rest = [] \<or> \<not> P (hd rest)"
  shows "takeWhile P (cs @ rest) = cs" "dropWhile P (cs @ rest) = rest"
  using assms by (induction cs) (cases rest; auto)+

text \<open>The tail that may follow a printed segment: nothing, or a separator.\<close>

definition ends_segment :: "string \<Rightarrow> bool" where
  "ends_segment rest \<longleftrightarrow> rest = [] \<or> hd rest = CHR ''.''"

lemma parse_segment_print:
  assumes wf: "wf_segment seg" and e: "ends_segment rest"
  shows "parse_segment pos (segment_String seg @ rest) = Inr (seg, rest)"
proof -
  obtain c cs where n: "seg_Name seg = c # cs" "isIdentStart c" "\<forall>x\<in>set cs. isIdentCont x"
    using wf by (auto simp: wf_segment_def)
  show ?thesis
  proof (cases "seg_IndexKey seg = []")
    case True
    with wf have v: "seg_IndexVal seg = []" by (simp add: wf_segment_def)
    have r: "rest = [] \<or> \<not> isIdentCont (hd rest)" "\<not> (rest \<noteq> [] \<and> hd rest = CHR ''['')"
      using e by (auto simp: ends_segment_def)
    have "segment_String seg @ rest = c # (cs @ rest)" by (simp add: segment_String_def True n(1))
    moreover have "seg = \<lparr>seg_Name = c # cs, seg_IndexKey = [], seg_IndexVal = []\<rparr>"
      using True v n(1) by (cases seg) simp
    ultimately show ?thesis
      using n(2) r(2) by (auto simp: parse_segment_def Let_def span_ident[OF n(3) r(1)])
  next
    case False
    with wf have k: "CHR ''='' \<notin> set (seg_IndexKey seg)" "CHR '']'' \<notin> set (seg_IndexKey seg)"
      "seg_IndexVal seg \<noteq> []" "CHR '']'' \<notin> set (seg_IndexVal seg)" by (simp_all add: wf_segment_def)
    define inner where "inner = seg_IndexKey seg @ CHR ''='' # seg_IndexVal seg"
    have str: "segment_String seg @ rest = c # (cs @ CHR ''['' # inner @ CHR '']'' # rest)"
      by (simp add: segment_String_def False n(1) inner_def)
    have sp: "takeWhile isIdentCont (cs @ CHR ''['' # inner @ CHR '']'' # rest) = cs"
      "dropWhile isIdentCont (cs @ CHR ''['' # inner @ CHR '']'' # rest) = CHR ''['' # inner @ CHR '']'' # rest"
      using span_ident[OF n(3), of "CHR ''['' # inner @ CHR '']'' # rest"] by simp_all
    have "CHR '']'' \<notin> set inner" using k by (simp add: inner_def)
    then have close: "indexByte (CHR '']'') (inner @ CHR '']'' # rest) = Some (length inner)" by (rule indexByte_append)
    have eq: "indexByte (CHR ''='') inner = Some (length (seg_IndexKey seg))"
      unfolding inner_def by (rule indexByte_append[OF k(1)])
    have parts: "take (length (seg_IndexKey seg)) inner = seg_IndexKey seg"
      "drop (Suc (length (seg_IndexKey seg))) inner = seg_IndexVal seg" by (simp_all add: inner_def)
    have "parse_segment pos (segment_String seg @ rest) =
        Inr (\<lparr>seg_Name = c # cs, seg_IndexKey = seg_IndexKey seg, seg_IndexVal = seg_IndexVal seg\<rparr>, rest)"
      unfolding str parse_segment_def Let_def
      using n(2) k(3) by (simp add: sp close eq parts)
    then show ?thesis by (simp add: n(1)[symmetric])
  qed
qed

lemma parse_segment_shape:
  assumes "parse_segment pos inp = Inr (seg, rest)"
  shows "(\<exists>c cs. seg_Name seg = c # cs \<and> isIdentStart c \<and> (\<forall>x\<in>set cs. isIdentCont x)) \<and>
    (seg_IndexKey seg = [] \<and> seg_IndexVal seg = [] \<and> inp = seg_Name seg @ rest \<or>
     inp = seg_Name seg @ ''['' @ seg_IndexKey seg @ ''='' @ seg_IndexVal seg @ '']'' @ rest \<and>
     CHR ''='' \<notin> set (seg_IndexKey seg) \<and> CHR '']'' \<notin> set (seg_IndexKey seg) \<and>
     seg_IndexVal seg \<noteq> [] \<and> CHR '']'' \<notin> set (seg_IndexVal seg))"
proof -
  obtain c cs where inp: "inp = c # cs" "isIdentStart c"
    using assms by (cases inp) (auto simp: parse_segment_def split: if_splits)
  let ?n = "takeWhile isIdentCont cs" and ?r = "dropWhile isIdentCont cs"
  have name: "\<forall>x\<in>set ?n. isIdentCont x" by (auto dest: set_takeWhileD)
  show ?thesis
  proof (cases "?r \<noteq> [] \<and> hd ?r = CHR ''[''")
    case False
    with assms inp have "seg = \<lparr>seg_Name = c # ?n, seg_IndexKey = [], seg_IndexVal = []\<rparr>" "rest = ?r"
      by (auto simp: parse_segment_def Let_def split: if_splits)
    with inp show ?thesis by (auto dest: set_takeWhileD)
  next
    case True
    then obtain t where t: "?r = CHR ''['' # t" by (cases ?r) auto
    from assms inp t obtain ci where ci: "indexByte (CHR '']'') t = Some ci"
      by (auto simp: parse_segment_def Let_def split: option.splits)
    from assms inp t ci obtain ei where ei: "indexByte (CHR ''='') (take ci t) = Some ei"
      by (auto simp: parse_segment_def Let_def split: option.splits)
    have r: "seg = \<lparr>seg_Name = c # ?n, seg_IndexKey = take ei (take ci t), seg_IndexVal = drop (Suc ei) (take ci t)\<rparr>"
      "rest = drop (Suc ci) t" "drop (Suc ei) (take ci t) \<noteq> []"
      using assms inp t ci ei by (auto simp: parse_segment_def Let_def split: if_splits)
    from indexByte_Some[OF ci] have tt: "t = take ci t @ CHR '']'' # rest" "CHR '']'' \<notin> set (take ci t)"
      unfolding r(2) by blast+
    from indexByte_Some[OF ei] have ii: "take ci t = take ei (take ci t) @ CHR ''='' # drop (Suc ei) (take ci t)"
      "CHR ''='' \<notin> set (take ei (take ci t))" by blast+
    have "cs = ?n @ CHR ''['' # t" unfolding t[symmetric] by simp
    then have "inp = (c # ?n) @ ''['' @ (take ei (take ci t) @ CHR ''='' # drop (Suc ei) (take ci t)) @ '']'' @ rest"
      unfolding ii(1)[symmetric] using inp(1) tt(1) by (simp del: take_take)
    moreover have "CHR '']'' \<notin> set (take ei (take ci t))" "CHR '']'' \<notin> set (drop (Suc ei) (take ci t))"
      using tt(2) by (meson in_set_takeD in_set_dropD)+
    ultimately show ?thesis using name inp(2) ii(2) r by (auto simp del: take_take)
  qed
qed

lemma selector_String_Cons: "segs \<noteq> [] \<Longrightarrow> selector_String (seg # segs) = segment_String seg @ CHR ''.'' # selector_String segs"
  by (cases segs) simp_all

lemma segment_String_ne [simp]: "wf_segment seg \<Longrightarrow> segment_String seg \<noteq> []"
  by (auto simp: wf_segment_def segment_String_def)

lemma parse_segments_print:
  assumes "wf_selector segs"
  shows "parse_segments pos (selector_String segs) = Inr segs"
    and "parse_segments pos (selector_String segs @ CHR ''.'' # r) =
      (case parse_segments (pos + length (selector_String segs) + 1) r of Inl e \<Rightarrow> Inl e | Inr rs \<Rightarrow> Inr (segs @ rs))"
proof -
  have "parse_segments pos (selector_String segs) = Inr segs \<and>
    parse_segments pos (selector_String segs @ CHR ''.'' # r) =
      (case parse_segments (pos + length (selector_String segs) + 1) r of Inl e \<Rightarrow> Inl e | Inr rs \<Rightarrow> Inr (segs @ rs))"
    using assms
  proof (induction segs arbitrary: pos)
    case Nil
    then show ?case by (simp add: wf_selector_def)
  next
    case (Cons seg segs)
    then have wf: "wf_segment seg" by (simp add: wf_selector_def)
    note ps = parse_segment_print[OF wf]
    show ?case
    proof (cases "segs = []")
      case True
      have "ends_segment []" "ends_segment (CHR ''.'' # r)" by (simp_all add: ends_segment_def)
      note q = ps[OF this(1), of pos, simplified] ps[OF this(2), of pos]
      show ?thesis
        by (subst (1 2) parse_segments.simps) (simp add: True q Let_def split: sum.splits)
    next
      case False
      with Cons have ih: "parse_segments p (selector_String segs) = Inr segs"
        "parse_segments p (selector_String segs @ CHR ''.'' # r) =
          (case parse_segments (p + length (selector_String segs) + 1) r of Inl e \<Rightarrow> Inl e | Inr rs \<Rightarrow> Inr (segs @ rs))" for p
        by (auto simp: wf_selector_def)
      have "ends_segment (CHR ''.'' # selector_String segs)"
        "ends_segment (CHR ''.'' # selector_String segs @ CHR ''.'' # r)" by (simp_all add: ends_segment_def)
      note q = ps[OF this(1), of pos] ps[OF this(2), of pos]
      show ?thesis
        by (subst (1 2) parse_segments.simps)
          (simp add: selector_String_Cons[OF False] q ih Let_def add.commute add.left_commute split: sum.splits)
    qed
  qed
  then show "parse_segments pos (selector_String segs) = Inr segs"
    "parse_segments pos (selector_String segs @ CHR ''.'' # r) =
      (case parse_segments (pos + length (selector_String segs) + 1) r of Inl e \<Rightarrow> Inl e | Inr rs \<Rightarrow> Inr (segs @ rs))"
    by blast+
qed

lemma parse_segments_shape:
  assumes "parse_segments pos inp = Inr segs" "\<forall>seg\<in>set segs. seg_IndexKey seg = [] \<longrightarrow> seg_IndexVal seg = []"
  shows "selector_String segs = inp \<and> wf_selector segs"
  using assms
proof (induction pos inp arbitrary: segs rule: parse_segments.induct)
  case (1 pos inp)
  from "1.prems"(1) obtain seg rest where p: "parse_segment pos inp = Inr (seg, rest)"
    by (subst (asm) parse_segments.simps) (auto split: sum.splits)
  have sg: "seg \<in> set segs"
    using "1.prems"(1) p by (subst (asm) parse_segments.simps) (auto simp: Let_def split: if_splits sum.splits)
  from parse_segment_shape[OF p] "1.prems"(2) sg
  have s: "inp = segment_String seg @ rest" "wf_segment seg"
    by (auto simp: segment_String_def wf_segment_def)
  show ?case
  proof (cases "rest = []")
    case True
    with "1.prems"(1) p have "segs = [seg]" by (subst (asm) parse_segments.simps) (simp add: Let_def)
    with s True show ?thesis by (simp add: wf_selector_def)
  next
    case False
    with "1.prems"(1) p have d: "hd rest = CHR ''.''"
      by (subst (asm) parse_segments.simps) (auto simp: Let_def split: if_splits)
    define pos' where "pos' = pos + (length inp - length rest)"
    from "1.prems"(1) p False d obtain ss where ss: "parse_segments (Suc pos') (tl rest) = Inr ss" "segs = seg # ss"
      by (subst (asm) parse_segments.simps) (auto simp: Let_def pos'_def split: sum.splits)
    have "selector_String ss = tl rest \<and> wf_selector ss"
      by (rule "1.IH"[OF p refl pos'_def False d ss(1)]) (use "1.prems"(2) ss(2) in simp)
    with s d False ss(2) show ?thesis
      by (cases rest) (auto simp: wf_selector_def selector_String_Cons)
  qed
qed

text \<open>
  C14: selectors round trip.  Every well-formed selector is parsed back from its printed form; and
  whenever \<^verbatim>\<open>Parse\<close> accepts an input without an empty index key, the result is well formed and
  prints to exactly that input, so two accepted inputs never denote the same selector.
\<close>

theorem selector_roundtrip:
  "(wf_selector sel \<longrightarrow> selector_Parse (selector_String sel) = Inr sel) \<and>
   (selector_Parse inp = Inr sel \<and> (\<forall>seg\<in>set sel. seg_IndexKey seg = [] \<longrightarrow> seg_IndexVal seg = []) \<longrightarrow>
     selector_String sel = inp \<and> wf_selector sel)"
proof (intro conjI impI, goal_cases)
  case 1
  then obtain seg segs where c: "sel = seg # segs" "wf_segment seg" by (cases sel) (auto simp: wf_selector_def)
  then have "selector_String sel \<noteq> []" by (cases segs) auto
  with parse_segments_print(1)[OF 1] show ?case by (simp add: selector_Parse_def)
next
  case 2
  then show ?case using parse_segments_shape[of 0 inp sel] by (auto simp: selector_Parse_def split: if_splits)
next
  case 3
  then show ?case using parse_segments_shape[of 0 inp sel] by (auto simp: selector_Parse_def split: if_splits)
qed

theorem selector_roundtrip_witness:
  "selector_Parse ''share[id=abc].x'' =
    Inr [\<lparr>seg_Name = ''share'', seg_IndexKey = ''id'', seg_IndexVal = ''abc''\<rparr>,
         \<lparr>seg_Name = ''x'', seg_IndexKey = [], seg_IndexVal = []\<rparr>]"
proof -
  let ?s = "[\<lparr>seg_Name = ''share'', seg_IndexKey = ''id'', seg_IndexVal = ''abc''\<rparr>,
         \<lparr>seg_Name = ''x'', seg_IndexKey = [], seg_IndexVal = []\<rparr>]"
  have "wf_selector ?s" by (simp add: wf_selector_def wf_segment_def isIdentStart_def isIdentCont_def)
  with selector_roundtrip[of ?s] show ?thesis by (simp add: segment_String_def)
qed

text \<open>The documented grammar requires an identifier as the index key; the parser accepts an empty
  one, which the printed form then loses.\<close>

lemma selector_empty_key:
  "\<exists>sel. selector_Parse ''share[=x].y'' = Inr sel \<and> selector_String sel = ''share.y''"
proof -
  have "parse_segment 0 ''share[=x].y'' = Inr (\<lparr>seg_Name = ''share'', seg_IndexKey = [], seg_IndexVal = ''x''\<rparr>, ''.y'')"
    by (simp add: parse_segment_def isIdentStart_def isIdentCont_def Let_def)
  moreover have "parse_segment n ''y'' = Inr (\<lparr>seg_Name = ''y'', seg_IndexKey = [], seg_IndexVal = []\<rparr>, [])" for n
    by (simp add: parse_segment_def isIdentStart_def isIdentCont_def Let_def)
  ultimately show ?thesis
    by (simp add: selector_Parse_def parse_segments.simps segment_String_def Let_def)
qed

text \<open>
  prefix matching works on whole segments.  For well-formed selectors, \<^verbatim>\<open>MatchPrefix\<close> of the
  printed forms holds exactly when the segments of the prefix are the first segments of the
  selector, whatever characters the index values contain.
\<close>

theorem match_prefix_segments:
  assumes "wf_selector sel" "wf_selector p"
  shows "MatchPrefix (selector_String sel) (selector_String p) \<longleftrightarrow> (\<exists>rest. sel = p @ rest)"
proof
  have ne: "selector_String q \<noteq> []" if "wf_selector q" for q
    using that by (cases q; cases "tl q") (auto simp: wf_selector_def)
  assume "\<exists>rest. sel = p @ rest"
  then obtain rest where r: "sel = p @ rest" by blast
  have str: "selector_String (p @ q # qs) = selector_String p @ CHR ''.'' # selector_String (q # qs)" for q qs
    using assms(2)[unfolded wf_selector_def, THEN conjunct1]
    by (induction p rule: selector_String.induct) (simp_all add: selector_String_Cons)
  show "MatchPrefix (selector_String sel) (selector_String p)"
    by (cases rest) (simp_all add: r MatchPrefix_def str hasPrefix_iff)
next
  have ne: "selector_String p \<noteq> []"
    using assms(2) by (cases p; cases "tl p") (auto simp: wf_selector_def)
  assume m: "MatchPrefix (selector_String sel) (selector_String p)"
  then obtain r where r: "selector_String sel = selector_String p @ r"
    using ne by (auto simp: MatchPrefix_def hasPrefix_iff split: if_splits)
  show "\<exists>rest. sel = p @ rest"
  proof (cases r)
    case Nil
    then have "parse_segments 0 (selector_String sel) = parse_segments 0 (selector_String p)" using r by simp
    then show ?thesis using parse_segments_print(1)[OF assms(1), of 0] parse_segments_print(1)[OF assms(2), of 0] by simp
  next
    case (Cons c r')
    have "c = CHR ''.''" using m ne r Cons by (simp add: MatchPrefix_def split: if_splits)
    with r Cons have s: "selector_String sel = selector_String p @ CHR ''.'' # r'" by simp
    from parse_segments_print(1)[OF assms(1), of 0] show ?thesis
      unfolding s parse_segments_print(2)[OF assms(2)] by (auto split: sum.splits)
  qed
qed

theorem match_prefix_segments_witness:
  "\<not> MatchPrefix (selector_String [\<lparr>seg_Name = ''ab'', seg_IndexKey = [], seg_IndexVal = []\<rparr>])
     (selector_String [\<lparr>seg_Name = ''a'', seg_IndexKey = [], seg_IndexVal = []\<rparr>])"
proof -
  have "wf_selector [\<lparr>seg_Name = ''ab'', seg_IndexKey = [], seg_IndexVal = []\<rparr>]"
    "wf_selector [\<lparr>seg_Name = ''a'', seg_IndexKey = [], seg_IndexVal = []\<rparr>]"
    by (simp_all add: wf_selector_def wf_segment_def isIdentStart_def isIdentCont_def)
  from match_prefix_segments[OF this] show ?thesis by simp
qed

end
