(* ===== verification/ConfigMapping.thy ===== *)
theory ConfigMapping
  imports ConfigSettings ConfigSelector
begin

text \<open>
  Reading and changing the configuration by selector, \<^verbatim>\<open>api/config/mapping.go\<close>: the table of core
  fields, shared by the core and the subsystem namespaces, and the dispatch on the namespace.
\<close>

section \<open>Errors and values\<close>

datatype mapErr =
    TooFewSegments selector
  | UnknownNamespace string "string list"
  | UnknownField string string "string list"     \<comment> \<open>field, namespace, the valid names\<close>
  | NotPositiveInt string | NotNonNegativeInt string | EmptyString
  | WatermarkErr watermarkErr
  | BadMemoryCache string | BadDiskCache string | BadBlockCacheMode string | BadEventPoll string
  | ShareNeedsIndex | ShareNeedsField

datatype fieldVal = VInt int | VStr string

section \<open>Parsing and formatting\<close>

definition parsePositiveInt :: "string \<Rightarrow> mapErr + int" where
  "parsePositiveInt s = (case atoi s of None \<Rightarrow> Inl (NotPositiveInt s) | Some n \<Rightarrow> if n \<le> 0 then Inl (NotPositiveInt s) else Inr n)"

definition parseNonNegativeInt :: "string \<Rightarrow> mapErr + int" where
  "parseNonNegativeInt s =
     (case atoi s of None \<Rightarrow> Inl (NotNonNegativeInt s) | Some n \<Rightarrow> if n < 0 then Inl (NotNonNegativeInt s) else Inr n)"

definition parseNonEmptyString :: "string \<Rightarrow> mapErr + string" where
  "parseNonEmptyString s = (if s = [] then Inl EmptyString else Inr s)"

definition parseWatermark :: "string \<Rightarrow> mapErr + (int \<times> int)" where
  "parseWatermark s =
     (case splitColon s of
        None \<Rightarrow> Inl (WatermarkErr (BadFormat s))
      | Some (a, b) \<Rightarrow>
          (case atoi (trimSpace a) of
             None \<Rightarrow> Inl (WatermarkErr (BadMin a))
           | Some lo \<Rightarrow>
               (case atoi (trimSpace b) of
                  None \<Rightarrow> Inl (WatermarkErr (BadMax b))
                | Some hi \<Rightarrow>
                    if lo < 0 then Inl (WatermarkErr (NegativeMin lo))
                    else if hi < lo then Inl (WatermarkErr (MaxBelowMin hi lo))
                    else Inr (lo, hi))))"

definition parseMemoryCacheLevel :: "string \<Rightarrow> mapErr + MemoryCacheLevel" where
  "parseMemoryCacheLevel s =
     (if s = ''disabled'' then Inr CacheDisabled
      else if s = ''linkname'' then Inr CacheLinkName
      else if s = ''metadata'' then Inr CacheMetadata
      else Inl (BadMemoryCache s))"

definition parseDiskCacheLevel :: "string \<Rightarrow> mapErr + DiskCacheLevel" where
  "parseDiskCacheLevel s =
     (if s = ''disabled'' then Inr DiskCacheDisabled
      else if s = ''objectstore'' then Inr DiskCacheObjectStore
      else Inl (BadDiskCache s))"

fun formatVal :: "fieldVal \<Rightarrow> string" where
  "formatVal (VInt n) = itoa n"
| "formatVal (VStr s) = s"

section \<open>The field table\<close>

record ParamDef =
  pd_Parse :: "string \<Rightarrow> mapErr + fieldVal"
  pd_Get :: "CoreConfig \<Rightarrow> ParamInfo"
  pd_Set :: "fieldVal \<Rightarrow> CoreConfig \<Rightarrow> CoreConfig"
  pd_Unset :: "CoreConfig \<Rightarrow> CoreConfig"

text \<open>A setter applied to a value of the other type is a failed type assertion; the parser of the
  same entry never produces one.\<close>

definition field_max_jobs :: ParamDef where
  "field_max_jobs =
     \<lparr>pd_Parse = \<lambda>s. map_sum id VInt (parsePositiveInt s),
      pd_Get = \<lambda>cc. Param_Info itoa (cc_MaxJobs cc),
      pd_Set = \<lambda>v cc. (case v of VInt n \<Rightarrow> cc\<lparr>cc_MaxJobs := Param_SetFile n (cc_MaxJobs cc)\<rparr> | VStr _ \<Rightarrow> cc),
      pd_Unset = \<lambda>cc. cc\<lparr>cc_MaxJobs := Param_Reset 0 (cc_MaxJobs cc)\<rparr>\<rparr>"

definition field_account :: ParamDef where
  "field_account =
     \<lparr>pd_Parse = \<lambda>s. map_sum id VStr (parseNonEmptyString s),
      pd_Get = \<lambda>cc. Param_Info id (cc_Account cc),
      pd_Set = \<lambda>v cc. (case v of VStr s \<Rightarrow> cc\<lparr>cc_Account := Param_SetFile s (cc_Account cc)\<rparr> | VInt _ \<Rightarrow> cc),
      pd_Unset = \<lambda>cc. cc\<lparr>cc_Account := Param_Reset [] (cc_Account cc)\<rparr>\<rparr>"

definition field_app_version :: ParamDef where
  "field_app_version =
     \<lparr>pd_Parse = \<lambda>s. map_sum id VStr (parseNonEmptyString s),
      pd_Get = \<lambda>cc. Param_Info id (cc_AppVersion cc),
      pd_Set = \<lambda>v cc. (case v of VStr s \<Rightarrow> cc\<lparr>cc_AppVersion := Param_SetFile s (cc_AppVersion cc)\<rparr> | VInt _ \<Rightarrow> cc),
      pd_Unset = \<lambda>cc. cc\<lparr>cc_AppVersion := Param_Reset [] (cc_AppVersion cc)\<rparr>\<rparr>"

definition coreFields :: "(string, ParamDef) gomap" where
  "coreFields = [(''max_jobs'', field_max_jobs), (''account'', field_account), (''app_version'', field_app_version)]"

definition shareFields :: "string list" where "shareFields = [''memory_cache'', ''disk_cache'']"

definition protonfsFields :: "string list" where "protonfsFields = [''prefetch_blocks'', ''block_cache_mode'']"

definition unknownNamespaceError :: "string \<Rightarrow> mapErr" where
  "unknownNamespaceError ns = UnknownNamespace ns (sort ([''core'', ''protonfs'', ''share''] @ keys Services))"

definition unknownFieldError :: "string \<Rightarrow> string \<Rightarrow> mapErr" where
  "unknownFieldError ns field =
     UnknownField field ns (sort (
       if ns = ''share'' then shareFields
       else if ns = ''protonfs'' then protonfsFields
       else keys coreFields @ (if ns = ''core'' then [''memory_cache_watermark''] else [])))"

section \<open>Core and protonfs fields\<close>

definition field_of :: "selector \<Rightarrow> string" where "field_of sel = seg_Name (sel ! 1)"

definition getCoreField :: "Config \<Rightarrow> selector \<Rightarrow> mapErr + string" where
  "getCoreField cfg sel =
     (if field_of sel = ''memory_cache_watermark'' then Inr (print_watermark (Param_Value (cfg_Watermark cfg)))
      else (case map_of coreFields (field_of sel) of
              None \<Rightarrow> Inl (unknownFieldError ''core'' (field_of sel))
            | Some pd \<Rightarrow> Inr (pi_Value (pd_Get pd (cfg_Core cfg)))))"

definition setCoreField :: "Config \<Rightarrow> selector \<Rightarrow> string \<Rightarrow> mapErr + Config" where
  "setCoreField cfg sel value =
     (if field_of sel = ''memory_cache_watermark''
      then map_sum id (\<lambda>wm. cfg\<lparr>cfg_Watermark := Param_SetFile wm (cfg_Watermark cfg)\<rparr>) (parseWatermark value)
      else (case map_of coreFields (field_of sel) of
              None \<Rightarrow> Inl (unknownFieldError ''core'' (field_of sel))
            | Some pd \<Rightarrow> map_sum id (\<lambda>v. cfg\<lparr>cfg_Core := pd_Set pd v (cfg_Core cfg)\<rparr>) (pd_Parse pd value)))"

definition unsetCoreField :: "Config \<Rightarrow> selector \<Rightarrow> mapErr + Config" where
  "unsetCoreField cfg sel =
     (if field_of sel = ''memory_cache_watermark''
      then Inr (cfg\<lparr>cfg_Watermark := Param_Reset (0, 0) (cfg_Watermark cfg)\<rparr>)
      else (case map_of coreFields (field_of sel) of
              None \<Rightarrow> Inl (unknownFieldError ''core'' (field_of sel))
            | Some pd \<Rightarrow> Inr (cfg\<lparr>cfg_Core := pd_Unset pd (cfg_Core cfg)\<rparr>)))"

definition getProtonFSField :: "Config \<Rightarrow> selector \<Rightarrow> mapErr + string" where
  "getProtonFSField cfg sel =
     (if field_of sel = ''prefetch_blocks'' then Inr (itoa (Param_Value (cfg_PrefetchBlocks cfg)))
      else if field_of sel = ''block_cache_mode'' then Inr (Param_Value (cfg_BlockCacheMode cfg))
      else if field_of sel = ''event_poll_interval'' then Inr (itoa (Param_Value (cfg_EventPollInterval cfg)))
      else Inl (unknownFieldError ''protonfs'' (field_of sel)))"

definition setProtonFSField :: "Config \<Rightarrow> selector \<Rightarrow> string \<Rightarrow> mapErr + Config" where
  "setProtonFSField cfg sel value =
     (if field_of sel = ''prefetch_blocks'' then
        map_sum id (\<lambda>n. cfg\<lparr>cfg_PrefetchBlocks := Param_SetFile n (cfg_PrefetchBlocks cfg)\<rparr>) (parseNonNegativeInt value)
      else if field_of sel = ''block_cache_mode'' then
        (if value \<noteq> ''encrypted'' \<and> value \<noteq> ''decrypted'' then Inl (BadBlockCacheMode value)
         else Inr (cfg\<lparr>cfg_BlockCacheMode := Param_SetFile value (cfg_BlockCacheMode cfg)\<rparr>))
      else if field_of sel = ''event_poll_interval'' then
        map_sum (\<lambda>_. BadEventPoll value)
          (\<lambda>n. cfg\<lparr>cfg_EventPollInterval := Param_SetFile n (cfg_EventPollInterval cfg)\<rparr>) (parsePositiveInt value)
      else Inl (unknownFieldError ''protonfs'' (field_of sel)))"

definition unsetProtonFSField :: "Config \<Rightarrow> selector \<Rightarrow> mapErr + Config" where
  "unsetProtonFSField cfg sel =
     (if field_of sel = ''prefetch_blocks'' then Inr (cfg\<lparr>cfg_PrefetchBlocks := Param_Reset 0 (cfg_PrefetchBlocks cfg)\<rparr>)
      else if field_of sel = ''block_cache_mode'' then Inr (cfg\<lparr>cfg_BlockCacheMode := Param_Reset [] (cfg_BlockCacheMode cfg)\<rparr>)
      else if field_of sel = ''event_poll_interval'' then Inr (cfg\<lparr>cfg_EventPollInterval := Param_Reset 0 (cfg_EventPollInterval cfg)\<rparr>)
      else Inl (unknownFieldError ''protonfs'' (field_of sel)))"

section \<open>Share fields\<close>

text \<open>An absent share reads as the zero value of its type.\<close>

definition share_of :: "Config \<Rightarrow> string \<Rightarrow> ShareConfig" where
  "share_of cfg shareID = (case map_of (cfg_Shares cfg) shareID of None \<Rightarrow> zero_ShareConfig | Some sc \<Rightarrow> sc)"

definition getShareField :: "Config \<Rightarrow> selector \<Rightarrow> mapErr + string" where
  "getShareField cfg sel =
     (if seg_IndexKey (sel ! 0) = [] then Inl ShareNeedsIndex
      else if length sel < 2 then Inl ShareNeedsField
      else if field_of sel \<notin> set shareFields then Inl (unknownFieldError ''share'' (field_of sel))
      else let sc = share_of cfg (seg_IndexVal (sel ! 0))
           in if field_of sel = ''memory_cache'' then Inr (MemoryCacheLevel_String (sc_MemoryCache sc))
              else Inr (DiskCacheLevel_String (sc_DiskCache sc)))"

definition setShareField :: "Config \<Rightarrow> selector \<Rightarrow> string \<Rightarrow> mapErr + Config" where
  "setShareField cfg sel value =
     (if seg_IndexKey (sel ! 0) = [] then Inl ShareNeedsIndex
      else if length sel < 2 then Inl ShareNeedsField
      else let shareID = seg_IndexVal (sel ! 0); sc = share_of cfg shareID;
               put = (\<lambda>sc'. cfg\<lparr>cfg_Shares := AList.update shareID sc' (cfg_Shares cfg)\<rparr>)
           in if field_of sel = ''memory_cache''
              then map_sum id (\<lambda>m. put (sc\<lparr>sc_MemoryCache := m\<rparr>)) (parseMemoryCacheLevel value)
              else if field_of sel = ''disk_cache''
              then map_sum id (\<lambda>d. put (sc\<lparr>sc_DiskCache := d\<rparr>)) (parseDiskCacheLevel value)
              else Inl (unknownFieldError ''share'' (field_of sel)))"

definition unsetShareField :: "Config \<Rightarrow> selector \<Rightarrow> mapErr + Config" where
  "unsetShareField cfg sel =
     (if seg_IndexKey (sel ! 0) = [] then Inl ShareNeedsIndex
      else if length sel < 2 then Inl ShareNeedsField
      else if field_of sel \<notin> set shareFields then Inl (unknownFieldError ''share'' (field_of sel))
      else let shareID = seg_IndexVal (sel ! 0)
           in (case map_of (cfg_Shares cfg) shareID of
                 None \<Rightarrow> Inr cfg
               | Some sc \<Rightarrow>
                   let sc' = (if field_of sel = ''memory_cache'' then sc\<lparr>sc_MemoryCache := CacheDisabled\<rparr>
                              else sc\<lparr>sc_DiskCache := DiskCacheDisabled\<rparr>)
                   in if sc_MemoryCache sc' = CacheDisabled \<and> sc_DiskCache sc' = DiskCacheDisabled
                      then Inr (cfg\<lparr>cfg_Shares := AList.delete shareID (cfg_Shares cfg)\<rparr>)
                      else Inr (cfg\<lparr>cfg_Shares := AList.update shareID sc' (cfg_Shares cfg)\<rparr>)))"

section \<open>Subsystem fields\<close>

definition getSubsystemField :: "Config \<Rightarrow> selector \<Rightarrow> mapErr + string" where
  "getSubsystemField cfg sel =
     (let svc = seg_Name (sel ! 0) in
      if LookupService svc = None then Inl (unknownNamespaceError svc)
      else (case map_of coreFields (field_of sel) of
              None \<Rightarrow> Inl (unknownFieldError svc (field_of sel))
            | Some pd \<Rightarrow>
                (case map_of (cfg_Subsystems cfg) svc of
                   Some sub \<Rightarrow>
                     if pi_Source (pd_Get pd sub) \<noteq> Unset then Inr (pi_Value (pd_Get pd sub))
                     else Inr (pi_Value (pd_Get pd (cfg_Core cfg)))
                 | None \<Rightarrow> Inr (pi_Value (pd_Get pd (cfg_Core cfg))))))"

definition setSubsystemField :: "int \<Rightarrow> Config \<Rightarrow> selector \<Rightarrow> string \<Rightarrow> mapErr + Config" where
  "setSubsystemField workers cfg sel value =
     (let svc = seg_Name (sel ! 0) in
      if LookupService svc = None then Inl (unknownNamespaceError svc)
      else (case map_of coreFields (field_of sel) of
              None \<Rightarrow> Inl (unknownFieldError svc (field_of sel))
            | Some pd \<Rightarrow>
                map_sum id (\<lambda>v.
                  let sub = (case map_of (cfg_Subsystems cfg) svc of Some sub \<Rightarrow> sub | None \<Rightarrow> new_CoreConfig workers)
                  in cfg\<lparr>cfg_Subsystems := AList.update svc (pd_Set pd v sub) (cfg_Subsystems cfg)\<rparr>)
                (pd_Parse pd value)))"

definition unsetSubsystemField :: "Config \<Rightarrow> selector \<Rightarrow> mapErr + Config" where
  "unsetSubsystemField cfg sel =
     (let svc = seg_Name (sel ! 0) in
      if LookupService svc = None then Inl (unknownNamespaceError svc)
      else (case map_of coreFields (field_of sel) of
              None \<Rightarrow> Inl (unknownFieldError svc (field_of sel))
            | Some pd \<Rightarrow>
                (case map_of (cfg_Subsystems cfg) svc of
                   None \<Rightarrow> Inr cfg
                 | Some sub \<Rightarrow>
                     let sub' = pd_Unset pd sub
                     in if \<not> Param_IsSet (cc_MaxJobs sub') \<and> \<not> Param_IsSet (cc_Account sub') \<and> \<not> Param_IsSet (cc_AppVersion sub')
                        then Inr (cfg\<lparr>cfg_Subsystems := AList.delete svc (cfg_Subsystems cfg)\<rparr>)
                        else Inr (cfg\<lparr>cfg_Subsystems := AList.update svc sub' (cfg_Subsystems cfg)\<rparr>))))"

section \<open>Get, Set, UnsetField, List, Show\<close>

definition Config_Get :: "Config \<Rightarrow> selector \<Rightarrow> mapErr + string" where
  "Config_Get cfg sel =
     (if length sel < 2 then Inl (TooFewSegments sel)
      else let ns = seg_Name (sel ! 0)
           in if ns = ''core'' then getCoreField cfg sel
              else if ns = ''protonfs'' then getProtonFSField cfg sel
              else if ns = ''share'' then getShareField cfg sel
              else getSubsystemField cfg sel)"

definition Config_Set :: "int \<Rightarrow> Config \<Rightarrow> selector \<Rightarrow> string \<Rightarrow> mapErr + Config" where
  "Config_Set workers cfg sel value =
     (if length sel < 2 then Inl (TooFewSegments sel)
      else let ns = seg_Name (sel ! 0)
           in if ns = ''core'' then setCoreField cfg sel value
              else if ns = ''protonfs'' then setProtonFSField cfg sel value
              else if ns = ''share'' then setShareField cfg sel value
              else setSubsystemField workers cfg sel value)"

definition Config_UnsetField :: "Config \<Rightarrow> selector \<Rightarrow> mapErr + Config" where
  "Config_UnsetField cfg sel =
     (if length sel < 2 then Inl (TooFewSegments sel)
      else let ns = seg_Name (sel ! 0)
           in if ns = ''core'' then unsetCoreField cfg sel
              else if ns = ''protonfs'' then unsetProtonFSField cfg sel
              else if ns = ''share'' then unsetShareField cfg sel
              else unsetSubsystemField cfg sel)"

record Entry =
  en_Selector :: string
  en_Value :: string
  en_Source :: ParamSource

definition sortedCoreFieldNames :: "string list" where
  "sortedCoreFieldNames = sort (keys coreFields)"

definition sortedKeys :: "(string, 'v) gomap \<Rightarrow> string list" where
  "sortedKeys m = sort (keys m)"

definition entry_of :: "string \<Rightarrow> ParamInfo \<Rightarrow> Entry" where
  "entry_of sel pinf = \<lparr>en_Selector = sel, en_Value = pi_Value pinf, en_Source = pi_Source pinf\<rparr>"

definition core_entries :: "string \<Rightarrow> CoreConfig \<Rightarrow> Entry list" where
  "core_entries ns cc =
     map (\<lambda>name. entry_of (ns @ ''.'' @ name) (pd_Get (the (map_of coreFields name)) cc)) sortedCoreFieldNames"

definition special_entries :: "Config \<Rightarrow> Entry list" where
  "special_entries cfg =
     [entry_of ''core.memory_cache_watermark'' (Param_Info print_watermark (cfg_Watermark cfg)),
      entry_of ''protonfs.prefetch_blocks'' (Param_Info itoa (cfg_PrefetchBlocks cfg)),
      entry_of ''protonfs.block_cache_mode'' (Param_Info id (cfg_BlockCacheMode cfg)),
      entry_of ''protonfs.event_poll_interval'' (Param_Info itoa (cfg_EventPollInterval cfg))]"

definition share_entries :: "string \<Rightarrow> ShareConfig \<Rightarrow> (bool \<times> Entry) list" where
  "share_entries shareID sc =
     [(sc_MemoryCache sc \<noteq> CacheDisabled,
       \<lparr>en_Selector = ''share[id='' @ shareID @ ''].memory_cache'', en_Value = MemoryCacheLevel_String (sc_MemoryCache sc), en_Source = File\<rparr>),
      (sc_DiskCache sc \<noteq> DiskCacheDisabled,
       \<lparr>en_Selector = ''share[id='' @ shareID @ ''].disk_cache'', en_Value = DiskCacheLevel_String (sc_DiskCache sc), en_Source = File\<rparr>)]"

definition from_file :: "Entry \<Rightarrow> bool" where "from_file e \<longleftrightarrow> en_Source e = File"

definition subsystem_entries :: "Config \<Rightarrow> Entry list" where
  "subsystem_entries cfg =
     concat (map (\<lambda>svc. filter from_file (core_entries svc (the (map_of (cfg_Subsystems cfg) svc))))
       (sortedKeys (cfg_Subsystems cfg)))"

definition Config_List :: "Config \<Rightarrow> Entry list" where
  "Config_List cfg =
     filter from_file (core_entries ''core'' (cfg_Core cfg)) @ filter from_file (special_entries cfg) @
     subsystem_entries cfg @
     concat (map (\<lambda>i. map snd (filter fst (share_entries i (share_of cfg i)))) (sortedKeys (cfg_Shares cfg)))"

definition Config_Show :: "Config \<Rightarrow> Entry list" where
  "Config_Show cfg =
     core_entries ''core'' (cfg_Core cfg) @ special_entries cfg @ subsystem_entries cfg @
     concat (map (\<lambda>i. map snd (share_entries i (share_of cfg i))) (sortedKeys (cfg_Shares cfg)))"

text \<open>The selectors of \<^verbatim>\<open>config unset --all\<close>, \<^verbatim>\<open>internal/cli/config/unset.go\<close>: every entry of the
  list that matches the prefix is parsed and unset; an entry that fails is skipped.\<close>

definition unset_entry :: "string \<Rightarrow> Entry \<Rightarrow> Config \<times> string list \<Rightarrow> Config \<times> string list" where
  "unset_entry prfx e = (\<lambda>(cfg, removed).
     if MatchPrefix (en_Selector e) prfx then
       (case selector_Parse (en_Selector e) of
          Inl _ \<Rightarrow> (cfg, removed)
        | Inr sel \<Rightarrow> (case Config_UnsetField cfg sel of
            Inl _ \<Rightarrow> (cfg, removed)
          | Inr cfg' \<Rightarrow> (cfg', removed @ [en_Selector e])))
     else (cfg, removed))"

definition runUnsetAll :: "Config \<Rightarrow> string \<Rightarrow> Config \<times> string list" where
  "runUnsetAll cfg prfx = fold (unset_entry prfx) (Config_List cfg) (cfg, [])"

section \<open>The contract of a table entry\<close>

text \<open>What the operations rely on in an entry of \<^verbatim>\<open>coreFields\<close>: a parsed value is stored, displayed and
  parsed back as itself, is marked as coming from the file, and is undone by the entry's reset.\<close>

locale param_field =
  fixes pd :: ParamDef
  assumes get_set: "pd_Parse pd s = Inr v \<Longrightarrow> pi_Value (pd_Get pd (pd_Set pd v cc)) = formatVal v"
    and set_source: "pd_Parse pd s = Inr v \<Longrightarrow> pi_Source (pd_Get pd (pd_Set pd v cc)) = File"
    and parse_format: "pd_Parse pd s = Inr v \<Longrightarrow> pd_Parse pd (formatVal v) = Inr v"
    and unset_set: "pd_Unset pd (pd_Set pd v cc) = pd_Unset pd cc"
    and unset_source: "pi_Source (pd_Get pd (pd_Unset pd cc)) = Unset"
begin

lemma reparse:
  assumes "pd_Parse pd s = Inr v"
  shows "pd_Parse pd (pi_Value (pd_Get pd (pd_Set pd v cc))) = Inr v"
  using assms by (simp add: get_set parse_format)

lemma set_is_set: "pd_Parse pd s = Inr v \<Longrightarrow> pi_Source (pd_Get pd (pd_Set pd v cc)) \<noteq> Unset"
  by (simp add: set_source)

end

lemma map_sum_Inr [simp]: "map_sum f g x = Inr y \<longleftrightarrow> (\<exists>z. x = Inr z \<and> y = g z)"
  by (cases x) auto

lemma parse_int_range:
  "parsePositiveInt s = Inr n \<Longrightarrow> parsePositiveInt (itoa n) = Inr n"
  "parseNonNegativeInt s = Inr n \<Longrightarrow> parseNonNegativeInt (itoa n) = Inr n"
  using atoi_range by (auto simp: parsePositiveInt_def parseNonNegativeInt_def atoi_itoa split: option.splits if_splits)

interpretation max_jobs: param_field field_max_jobs
  by unfold_locales (auto simp: field_max_jobs_def Param_Info_def Param_Reset_def Param_SetFile_def Param_Value_def
      parse_int_range split: fieldVal.split)

interpretation account: param_field field_account
  by unfold_locales (auto simp: field_account_def Param_Info_def Param_Reset_def Param_SetFile_def Param_Value_def
      parseNonEmptyString_def split: fieldVal.split if_splits)

interpretation app_version: param_field field_app_version
  by unfold_locales (auto simp: field_app_version_def Param_Info_def Param_Reset_def Param_SetFile_def Param_Value_def
      parseNonEmptyString_def split: fieldVal.split if_splits)

lemma coreFields_cases:
  assumes "map_of coreFields f = Some pd"
  obtains "f = ''max_jobs''" "pd = field_max_jobs" | "f = ''account''" "pd = field_account"
    | "f = ''app_version''" "pd = field_app_version"
  using assms by (auto simp: coreFields_def split: if_splits)

lemma coreFields_param_field:
  assumes "map_of coreFields f = Some pd"
  shows "param_field pd"
  using assms max_jobs.param_field_axioms account.param_field_axioms app_version.param_field_axioms
  by (elim coreFields_cases) simp_all

text \<open>Distinct entries do not touch each other's field.\<close>

lemma coreFields_frame:
  assumes "map_of coreFields f = Some pd" "map_of coreFields g = Some pe" "f \<noteq> g"
  shows "pd_Get pe (pd_Set pd v cc) = pd_Get pe cc"
  using assms
  by (elim coreFields_cases) (simp_all add: field_max_jobs_def field_account_def field_app_version_def split: fieldVal.split)

lemma parse_watermark_range:
  assumes "parseWatermark s = Inr wm"
  shows "int64_range (fst wm) \<and> int64_range (snd wm) \<and> parseWatermark (print_watermark wm) = Inr wm"
proof -
  from assms obtain a b where ab: "atoi (trimSpace a) = Some (fst wm)" "atoi (trimSpace b) = Some (snd wm)"
    "0 \<le> fst wm" "fst wm \<le> snd wm"
    by (auto simp: parseWatermark_def split: option.splits if_splits)
  have r: "- (2 ^ 63) \<le> fst wm" "fst wm \<le> maxInt64" "- (2 ^ 63) \<le> snd wm" "snd wm \<le> maxInt64"
    using ab atoi_range by blast+
  then show ?thesis using ab
    by (simp add: int64_range_def parseWatermark_def print_watermark_def splitColon_print[simplified] atoi_itoa)
qed

lemma parse_levels:
  "parseMemoryCacheLevel s = Inr m \<Longrightarrow> parseMemoryCacheLevel (MemoryCacheLevel_String m) = Inr m"
  "parseDiskCacheLevel s = Inr d \<Longrightarrow> parseDiskCacheLevel (DiskCacheLevel_String d) = Inr d"
  by (auto simp: parseMemoryCacheLevel_def parseDiskCacheLevel_def split: if_splits)

section \<open>Setting, then reading and resetting\<close>

lemma set_get_core:
  assumes "setCoreField cfg sel value = Inr cfg'"
  shows "\<exists>w. getCoreField cfg' sel = Inr w \<and> setCoreField cfg sel w = Inr cfg'"
proof (cases "field_of sel = ''memory_cache_watermark''")
  case True
  then show ?thesis using assms parse_watermark_range by (auto simp: setCoreField_def getCoreField_def)
next
  case False
  then obtain pd v where pd: "map_of coreFields (field_of sel) = Some pd" "pd_Parse pd value = Inr v"
    "cfg' = cfg\<lparr>cfg_Core := pd_Set pd v (cfg_Core cfg)\<rparr>"
    using assms by (auto simp: setCoreField_def split: option.splits)
  then show ?thesis using False param_field.reparse[OF coreFields_param_field[OF pd(1)] pd(2)]
    by (simp add: setCoreField_def getCoreField_def)
qed

lemma set_get_protonfs:
  assumes "setProtonFSField cfg sel value = Inr cfg'"
  shows "\<exists>w. getProtonFSField cfg' sel = Inr w \<and> setProtonFSField cfg sel w = Inr cfg'"
  using assms parse_int_range by (auto simp: setProtonFSField_def getProtonFSField_def split: if_splits)

lemma set_get_share:
  assumes "setShareField cfg sel value = Inr cfg'"
  shows "\<exists>w. getShareField cfg' sel = Inr w \<and> setShareField cfg sel w = Inr cfg'"
  using assms parse_levels
  by (auto simp: setShareField_def getShareField_def shareFields_def share_of_def Let_def update_conv' split: if_splits)

lemma set_get_subsystem:
  assumes "setSubsystemField workers cfg sel value = Inr cfg'"
  shows "\<exists>w. getSubsystemField cfg' sel = Inr w \<and> setSubsystemField workers cfg sel w = Inr cfg'"
proof -
  let ?svc = "seg_Name (sel ! 0)"
  let ?sub = "case map_of (cfg_Subsystems cfg) ?svc of Some sub \<Rightarrow> sub | None \<Rightarrow> new_CoreConfig workers"
  from assms obtain pd v where pd: "LookupService ?svc \<noteq> None" "map_of coreFields (field_of sel) = Some pd"
    "pd_Parse pd value = Inr v" "cfg' = cfg\<lparr>cfg_Subsystems := AList.update ?svc (pd_Set pd v ?sub) (cfg_Subsystems cfg)\<rparr>"
    by (auto simp: setSubsystemField_def Let_def split: if_splits option.splits)
  note F = coreFields_param_field[OF pd(2)]
  show ?thesis using pd param_field.reparse[OF F pd(3)] param_field.set_is_set[OF F pd(3)]
    by (simp add: setSubsystemField_def getSubsystemField_def Let_def update_conv')
qed

text \<open>
  C13: Setting a configuration value by selector and reading it back.  When Set accepts a text, Get on the same selector
  succeeds, and the text it displays is one that Set accepts and that leads to the same configuration: a
  displayed value can always be typed back in, whichever namespace the selector is in.  In
  particular a subsystem override hides the core value as soon as it is set.
\<close>

theorem set_then_get:
  assumes "Config_Set workers cfg sel value = Inr cfg'"
  shows "\<exists>w. Config_Get cfg' sel = Inr w \<and> Config_Set workers cfg sel w = Inr cfg'"
  using assms set_get_core set_get_protonfs set_get_share set_get_subsystem
  by (auto simp: Config_Set_def Config_Get_def Let_def split: if_splits)

theorem set_then_get_witness:
  "\<exists>cfg'. Config_Set 4 (DefaultConfig 4) [\<lparr>seg_Name = ''drive'', seg_IndexKey = [], seg_IndexVal = []\<rparr>,
      \<lparr>seg_Name = ''max_jobs'', seg_IndexKey = [], seg_IndexVal = []\<rparr>] ''+7'' = Inr cfg' \<and>
    (\<exists>w. Config_Get cfg' [\<lparr>seg_Name = ''drive'', seg_IndexKey = [], seg_IndexVal = []\<rparr>,
      \<lparr>seg_Name = ''max_jobs'', seg_IndexKey = [], seg_IndexVal = []\<rparr>] = Inr w)"
proof -
  let ?sel = "[\<lparr>seg_Name = ''drive'', seg_IndexKey = [], seg_IndexVal = []\<rparr>,
      \<lparr>seg_Name = ''max_jobs'', seg_IndexKey = [], seg_IndexVal = []\<rparr>]"
  have "parsePositiveInt ''+7'' = Inr 7" by (simp add: parsePositiveInt_def atoi_def parse_nat_def digit_val_def maxInt64_def)
  then obtain cfg' where "Config_Set 4 (DefaultConfig 4) ?sel ''+7'' = Inr cfg'"
    by (simp add: Config_Set_def setSubsystemField_def LookupService_def Services_def coreFields_def field_of_def field_max_jobs_def Let_def)
  from this set_then_get[OF this] show ?thesis by blast
qed

section \<open>Setting leaves the other selectors alone\<close>

text \<open>What a selector addresses: the namespace, the share for \<^verbatim>\<open>share\<close>, and the field.\<close>

definition sel_key :: "selector \<Rightarrow> string \<times> string \<times> string" where
  "sel_key sel = (seg_Name (sel ! 0), (if seg_Name (sel ! 0) = ''share'' then seg_IndexVal (sel ! 0) else []), field_of sel)"

text \<open>A subsystem reads the core value of the same field when it has none of its own.\<close>

definition inherits :: "selector \<Rightarrow> selector \<Rightarrow> bool" where
  "inherits sel' sel \<longleftrightarrow> seg_Name (sel ! 0) = ''core'' \<and> seg_Name (sel' ! 0) \<notin> {''core'', ''protonfs'', ''share''} \<and>
     field_of sel' = field_of sel"

lemma new_core_unset:
  "map_of coreFields f = Some pd \<Longrightarrow> pi_Source (pd_Get pd (new_CoreConfig workers)) = Unset"
  by (elim coreFields_cases)
    (simp_all add: field_max_jobs_def field_account_def field_app_version_def new_CoreConfig_def NewParam_def Param_Info_def)

text \<open>Each reader depends on its own part of the configuration only.\<close>

lemma get_congs:
  "cfg_Core c' = cfg_Core c \<Longrightarrow> cfg_Watermark c' = cfg_Watermark c \<Longrightarrow> getCoreField c' s = getCoreField c s"
  "cfg_PrefetchBlocks c' = cfg_PrefetchBlocks c \<Longrightarrow> cfg_BlockCacheMode c' = cfg_BlockCacheMode c \<Longrightarrow>
    cfg_EventPollInterval c' = cfg_EventPollInterval c \<Longrightarrow> getProtonFSField c' s = getProtonFSField c s"
  "cfg_Shares c' = cfg_Shares c \<Longrightarrow> getShareField c' s = getShareField c s"
  "cfg_Core c' = cfg_Core c \<Longrightarrow> cfg_Subsystems c' = cfg_Subsystems c \<Longrightarrow> getSubsystemField c' s = getSubsystemField c s"
  by (simp_all add: getCoreField_def getProtonFSField_def getShareField_def share_of_def getSubsystemField_def Let_def split: option.splits)

lemma Config_Get_cong:
  assumes "seg_Name (s ! 0) = ''core'' \<Longrightarrow> getCoreField c' s = getCoreField c s"
    and "seg_Name (s ! 0) = ''protonfs'' \<Longrightarrow> getProtonFSField c' s = getProtonFSField c s"
    and "seg_Name (s ! 0) = ''share'' \<Longrightarrow> getShareField c' s = getShareField c s"
    and "seg_Name (s ! 0) \<notin> {''core'', ''protonfs'', ''share''} \<Longrightarrow> getSubsystemField c' s = getSubsystemField c s"
  shows "Config_Get c' s = Config_Get c s"
  using assms by (simp add: Config_Get_def Let_def)

lemma set_core_frame:
  assumes "setCoreField cfg sel value = Inr cfg'" "seg_Name (sel ! 0) = ''core''" "sel_key sel' \<noteq> sel_key sel"
    "\<not> inherits sel' sel"
  shows "Config_Get cfg' sel' = Config_Get cfg sel'"
proof (cases "field_of sel = ''memory_cache_watermark''")
  case True
  then obtain wm where cfg': "cfg' = cfg\<lparr>cfg_Watermark := Param_SetFile wm (cfg_Watermark cfg)\<rparr>"
    using assms(1) by (auto simp: setCoreField_def)
  have "getCoreField cfg' sel' = getCoreField cfg sel'" if "seg_Name (sel' ! 0) = ''core''"
    using that True assms(2,3) by (simp add: getCoreField_def sel_key_def cfg' split: option.split)
  moreover have "getProtonFSField cfg' sel' = getProtonFSField cfg sel'" "getShareField cfg' sel' = getShareField cfg sel'"
    "getSubsystemField cfg' sel' = getSubsystemField cfg sel'"
    by (rule get_congs; simp add: cfg')+
  ultimately show ?thesis by (rule Config_Get_cong)
next
  case False
  then obtain pd v where pd: "map_of coreFields (field_of sel) = Some pd"
    "cfg' = cfg\<lparr>cfg_Core := pd_Set pd v (cfg_Core cfg)\<rparr>"
    using assms by (auto simp: setCoreField_def split: option.splits)
  have fr: "pd_Get pe (pd_Set pd v (cfg_Core cfg)) = pd_Get pe (cfg_Core cfg)"
    if "map_of coreFields (field_of sel') = Some pe" "seg_Name (sel' ! 0) \<noteq> ''protonfs''" "seg_Name (sel' ! 0) \<noteq> ''share''" for pe
    using coreFields_frame[OF pd(1) that(1)] assms(2-4) that by (auto simp: sel_key_def inherits_def)
  have "getCoreField cfg' sel' = getCoreField cfg sel'" if "seg_Name (sel' ! 0) = ''core''"
    using fr that by (auto simp: pd(2) getCoreField_def split: option.split)
  moreover have "getProtonFSField cfg' sel' = getProtonFSField cfg sel'" "getShareField cfg' sel' = getShareField cfg sel'"
    by (rule get_congs; simp add: pd(2))+
  moreover have "getSubsystemField cfg' sel' = getSubsystemField cfg sel'" if "seg_Name (sel' ! 0) \<notin> {''core'', ''protonfs'', ''share''}"
    using fr that by (auto simp: pd(2) getSubsystemField_def Let_def split: option.split)
  ultimately show ?thesis by (rule Config_Get_cong)
qed

lemma set_protonfs_frame:
  assumes "setProtonFSField cfg sel value = Inr cfg'" "seg_Name (sel ! 0) = ''protonfs''" "sel_key sel' \<noteq> sel_key sel"
  shows "Config_Get cfg' sel' = Config_Get cfg sel'"
proof -
  have "cfg_Core cfg' = cfg_Core cfg" "cfg_Watermark cfg' = cfg_Watermark cfg" "cfg_Shares cfg' = cfg_Shares cfg"
    "cfg_Subsystems cfg' = cfg_Subsystems cfg"
    using assms by (auto simp: setProtonFSField_def split: if_splits)
  moreover have "getProtonFSField cfg' sel' = getProtonFSField cfg sel'" if "seg_Name (sel' ! 0) = ''protonfs''"
    using that assms by (auto simp: setProtonFSField_def getProtonFSField_def sel_key_def split: if_splits)
  ultimately show ?thesis by (intro Config_Get_cong) (auto intro: get_congs)
qed

lemma set_share_frame:
  assumes "setShareField cfg sel value = Inr cfg'" "seg_Name (sel ! 0) = ''share''" "sel_key sel' \<noteq> sel_key sel"
  shows "Config_Get cfg' sel' = Config_Get cfg sel'"
proof -
  have "cfg_Core cfg' = cfg_Core cfg" "cfg_Watermark cfg' = cfg_Watermark cfg" "cfg_PrefetchBlocks cfg' = cfg_PrefetchBlocks cfg"
    "cfg_BlockCacheMode cfg' = cfg_BlockCacheMode cfg" "cfg_EventPollInterval cfg' = cfg_EventPollInterval cfg"
    "cfg_Subsystems cfg' = cfg_Subsystems cfg"
    using assms by (auto simp: setShareField_def Let_def split: if_splits)
  moreover have "getShareField cfg' sel' = getShareField cfg sel'" if "seg_Name (sel' ! 0) = ''share''"
    using that assms
    by (auto simp: setShareField_def getShareField_def shareFields_def share_of_def sel_key_def Let_def update_conv' split: if_splits)
  ultimately show ?thesis by (intro Config_Get_cong) (auto intro: get_congs)
qed

lemma set_subsystem_frame:
  assumes "setSubsystemField workers cfg sel value = Inr cfg'" "seg_Name (sel ! 0) \<notin> {''core'', ''protonfs'', ''share''}"
    "sel_key sel' \<noteq> sel_key sel"
  shows "Config_Get cfg' sel' = Config_Get cfg sel'"
proof -
  let ?svc = "seg_Name (sel ! 0)"
  let ?sub = "case map_of (cfg_Subsystems cfg) ?svc of Some sub \<Rightarrow> sub | None \<Rightarrow> new_CoreConfig workers"
  from assms(1) obtain pd v where pd: "map_of coreFields (field_of sel) = Some pd"
    "cfg' = cfg\<lparr>cfg_Subsystems := AList.update ?svc (pd_Set pd v ?sub) (cfg_Subsystems cfg)\<rparr>"
    by (auto simp: setSubsystemField_def Let_def split: if_splits option.splits)
  have fr: "pd_Get pe (pd_Set pd v ?sub) = pd_Get pe ?sub"
    if "map_of coreFields (field_of sel') = Some pe" "seg_Name (sel' ! 0) = ?svc" for pe
    using coreFields_frame[OF pd(1) that(1)] assms(2,3) that by (auto simp: sel_key_def)
  have "getSubsystemField cfg' sel' = getSubsystemField cfg sel'"
    using fr new_core_unset
    by (auto simp: pd(2) getSubsystemField_def Let_def update_conv' split: option.splits)
  moreover have "cfg_Core cfg' = cfg_Core cfg" "cfg_Watermark cfg' = cfg_Watermark cfg" "cfg_Shares cfg' = cfg_Shares cfg"
    "cfg_PrefetchBlocks cfg' = cfg_PrefetchBlocks cfg" "cfg_BlockCacheMode cfg' = cfg_BlockCacheMode cfg"
    "cfg_EventPollInterval cfg' = cfg_EventPollInterval cfg" by (simp_all add: pd(2))
  ultimately show ?thesis by (intro Config_Get_cong) (auto intro: get_congs)
qed

text \<open>
  Setting one value changes no other.  After a successful Set, every selector that addresses another namespace,
  share or field reads as before, the errors included; the one exception is the
  inheritance the program has, a subsystem without a value of its own following the core field of the
  same name.
\<close>

theorem set_frame:
  assumes "Config_Set workers cfg sel value = Inr cfg'" "sel_key sel' \<noteq> sel_key sel" "\<not> inherits sel' sel"
  shows "Config_Get cfg' sel' = Config_Get cfg sel'"
  using assms set_core_frame set_protonfs_frame set_share_frame set_subsystem_frame
  unfolding Config_Set_def Let_def by (auto split: if_splits)

theorem set_frame_witness:
  "\<exists>cfg'. Config_Set 4 (DefaultConfig 4) [\<lparr>seg_Name = ''protonfs'', seg_IndexKey = [], seg_IndexVal = []\<rparr>,
      \<lparr>seg_Name = ''block_cache_mode'', seg_IndexKey = [], seg_IndexVal = []\<rparr>] ''decrypted'' = Inr cfg' \<and>
    Config_Get cfg' [\<lparr>seg_Name = ''drive'', seg_IndexKey = [], seg_IndexVal = []\<rparr>,
      \<lparr>seg_Name = ''account'', seg_IndexKey = [], seg_IndexVal = []\<rparr>] = Inr ''default''"
proof -
  let ?sel = "[\<lparr>seg_Name = ''protonfs'', seg_IndexKey = [], seg_IndexVal = []\<rparr>,
      \<lparr>seg_Name = ''block_cache_mode'', seg_IndexKey = [], seg_IndexVal = []\<rparr>]"
  let ?other = "[\<lparr>seg_Name = ''drive'', seg_IndexKey = [], seg_IndexVal = []\<rparr>,
      \<lparr>seg_Name = ''account'', seg_IndexKey = [], seg_IndexVal = []\<rparr>]"
  obtain cfg' where set: "Config_Set 4 (DefaultConfig 4) ?sel ''decrypted'' = Inr cfg'"
    by (simp add: Config_Set_def setProtonFSField_def field_of_def Let_def)
  have "Config_Get (DefaultConfig 4) ?other = Inr ''default''"
    by (simp add: Config_Get_def getSubsystemField_def LookupService_def Services_def coreFields_def field_of_def Let_def
        field_account_def Param_Info_def Param_Value_def DefaultConfig_def new_CoreConfig_def NewParam_def)
  moreover have "Config_Get cfg' ?other = Config_Get (DefaultConfig 4) ?other"
    by (rule set_frame[OF set]) (simp_all add: sel_key_def inherits_def field_of_def)
  ultimately show ?thesis using set by auto
qed

section \<open>Unsetting undoes a setting\<close>

lemma aupdate_aupdate [simp]: "AList.update k v (AList.update k w m) = AList.update k v m"
  by (induction m) auto

lemma adelete_aupdate [simp]: "AList.delete k (AList.update k w m) = AList.delete k m"
  by (induction m) (auto simp: AList.delete_eq)

lemma adelete_absent: "map_of m k = None \<Longrightarrow> AList.delete k m = m"
  by (induction m) (auto simp: AList.delete_eq split: if_splits)

lemma unset_set_share:
  assumes "setShareField cfg sel value = Inr cfg'"
  shows "unsetShareField cfg' sel = unsetShareField cfg sel"
  using assms
  by (cases "map_of (cfg_Shares cfg) (seg_IndexVal (sel ! 0))")
    (auto simp: setShareField_def unsetShareField_def shareFields_def share_of_def zero_ShareConfig_def Let_def update_conv'
      adelete_absent split: if_splits)

lemma new_core_unset_same:
  "map_of coreFields f = Some pd \<Longrightarrow> pd_Unset pd (new_CoreConfig workers) = new_CoreConfig workers"
  by (elim coreFields_cases)
    (simp_all add: field_max_jobs_def field_account_def field_app_version_def new_CoreConfig_def NewParam_def Param_Reset_def)

lemma new_core_not_set:
  "\<not> Param_IsSet (cc_MaxJobs (new_CoreConfig workers)) \<and> \<not> Param_IsSet (cc_Account (new_CoreConfig workers)) \<and>
   \<not> Param_IsSet (cc_AppVersion (new_CoreConfig workers))"
  by (simp add: new_CoreConfig_def NewParam_def Param_IsSet_def)

lemma unset_set_subsystem:
  assumes "setSubsystemField workers cfg sel value = Inr cfg'"
  shows "unsetSubsystemField cfg' sel = unsetSubsystemField cfg sel"
proof -
  let ?svc = "seg_Name (sel ! 0)"
  let ?sub = "case map_of (cfg_Subsystems cfg) ?svc of Some sub \<Rightarrow> sub | None \<Rightarrow> new_CoreConfig workers"
  from assms obtain pd v where pd: "LookupService ?svc \<noteq> None" "map_of coreFields (field_of sel) = Some pd"
    "pd_Parse pd value = Inr v" "cfg' = cfg\<lparr>cfg_Subsystems := AList.update ?svc (pd_Set pd v ?sub) (cfg_Subsystems cfg)\<rparr>"
    by (auto simp: setSubsystemField_def Let_def split: if_splits option.splits)
  note F = coreFields_param_field[OF pd(2)]
  show ?thesis
  proof (cases "map_of (cfg_Subsystems cfg) ?svc")
    case None
    then show ?thesis using pd new_core_unset_same[OF pd(2)] new_core_not_set
      by (simp add: unsetSubsystemField_def Let_def update_conv' param_field.unset_set[OF F] adelete_absent)
  next
    case (Some sub)
    then show ?thesis using pd by (auto simp: unsetSubsystemField_def Let_def update_conv' param_field.unset_set[OF F])
  qed
qed

lemma unset_set_core:
  assumes "setCoreField cfg sel value = Inr cfg'"
  shows "unsetCoreField cfg' sel = unsetCoreField cfg sel"
proof (cases "field_of sel = ''memory_cache_watermark''")
  case True
  then show ?thesis using assms by (auto simp: setCoreField_def unsetCoreField_def Param_SetFile_def Param_Reset_def)
next
  case False
  then obtain pd v where pd: "map_of coreFields (field_of sel) = Some pd"
    "cfg' = cfg\<lparr>cfg_Core := pd_Set pd v (cfg_Core cfg)\<rparr>"
    using assms by (auto simp: setCoreField_def split: option.splits)
  then show ?thesis using False by (simp add: unsetCoreField_def param_field.unset_set[OF coreFields_param_field[OF pd(1)]])
qed

lemma unset_set_protonfs:
  "setProtonFSField cfg sel value = Inr cfg' \<Longrightarrow> unsetProtonFSField cfg' sel = unsetProtonFSField cfg sel"
  by (auto simp: setProtonFSField_def unsetProtonFSField_def Param_SetFile_def Param_Reset_def split: if_splits)

text \<open>What can be set can be unset: the error checks of the two are the same.\<close>

lemma set_unset_defined:
  "setCoreField cfg sel value = Inr cfg' \<Longrightarrow> \<exists>c. unsetCoreField cfg sel = Inr c"
  "setProtonFSField cfg sel value = Inr cfg' \<Longrightarrow> \<exists>c. unsetProtonFSField cfg sel = Inr c"
  "setShareField cfg sel value = Inr cfg' \<Longrightarrow> \<exists>c. unsetShareField cfg sel = Inr c"
  "setSubsystemField workers cfg sel value = Inr cfg' \<Longrightarrow> \<exists>c. unsetSubsystemField cfg sel = Inr c"
     apply (force simp: setCoreField_def unsetCoreField_def split: if_splits option.splits)
    apply (force simp: setProtonFSField_def unsetProtonFSField_def split: if_splits)
   apply (force simp: setShareField_def unsetShareField_def shareFields_def Let_def split: if_splits option.splits)
  apply (force simp: setSubsystemField_def unsetSubsystemField_def Let_def split: if_splits option.splits)
  done

text \<open>
  Unsetting undoes a setting.  Unsetting a field that was just set gives exactly the configuration that
  unsetting it without the intermediate Set gives: a share or subsystem section created by the Set
  is removed again when nothing else is in it, and a section with other settings keeps them.  The
  field itself is then no longer marked as set in the core, protonfs or subsystem namespaces.
\<close>

theorem set_then_unset:
  assumes "Config_Set workers cfg sel value = Inr cfg'"
  shows "Config_UnsetField cfg' sel = Config_UnsetField cfg sel \<and> (\<exists>cfg''. Config_UnsetField cfg' sel = Inr cfg'')"
proof -
  have "Config_UnsetField cfg' sel = Config_UnsetField cfg sel"
    using assms unset_set_core unset_set_protonfs unset_set_share unset_set_subsystem
    unfolding Config_Set_def Config_UnsetField_def Let_def by (auto split: if_splits)
  moreover have "\<exists>cfg''. Config_UnsetField cfg sel = Inr cfg''"
    using assms set_unset_defined unfolding Config_Set_def Config_UnsetField_def Let_def by (auto split: if_splits)
  ultimately show ?thesis by simp
qed

theorem set_then_unset_witness:
  "\<exists>cfg'. Config_Set 4 (DefaultConfig 4) [\<lparr>seg_Name = ''share'', seg_IndexKey = ''id'', seg_IndexVal = ''s1''\<rparr>,
      \<lparr>seg_Name = ''disk_cache'', seg_IndexKey = [], seg_IndexVal = []\<rparr>] ''objectstore'' = Inr cfg' \<and>
    cfg_Shares cfg' \<noteq> [] \<and>
    Config_UnsetField cfg' [\<lparr>seg_Name = ''share'', seg_IndexKey = ''id'', seg_IndexVal = ''s1''\<rparr>,
      \<lparr>seg_Name = ''disk_cache'', seg_IndexKey = [], seg_IndexVal = []\<rparr>] = Inr (DefaultConfig 4)"
proof -
  let ?sel = "[\<lparr>seg_Name = ''share'', seg_IndexKey = ''id'', seg_IndexVal = ''s1''\<rparr>,
      \<lparr>seg_Name = ''disk_cache'', seg_IndexKey = [], seg_IndexVal = []\<rparr>]"
  obtain cfg' where set: "Config_Set 4 (DefaultConfig 4) ?sel ''objectstore'' = Inr cfg'" "cfg_Shares cfg' \<noteq> []"
    by (simp add: Config_Set_def setShareField_def field_of_def parseDiskCacheLevel_def Let_def DefaultConfig_def)
  have "Config_UnsetField (DefaultConfig 4) ?sel = Inr (DefaultConfig 4)"
    by (simp add: Config_UnsetField_def unsetShareField_def field_of_def shareFields_def Let_def DefaultConfig_def)
  then show ?thesis using set set_then_unset[OF set(1)] by auto
qed

text \<open>
  The account a service uses is the one the configuration shows.  For every registered service,
  DefaultAccount, which the commands call to choose the account, returns exactly what Get displays for
  the selector \<^verbatim>\<open><service>.account\<close>, whatever has been set in the subsystem, in core or on the
  command line.
\<close>

theorem default_account_is_get:
  assumes "LookupService svc \<noteq> None"
  shows "Config_Get cfg [\<lparr>seg_Name = svc, seg_IndexKey = [], seg_IndexVal = []\<rparr>,
      \<lparr>seg_Name = ''account'', seg_IndexKey = [], seg_IndexVal = []\<rparr>] = Inr (DefaultAccount cfg svc)"
proof -
  have "svc \<noteq> ''core''" "svc \<noteq> ''protonfs''" "svc \<noteq> ''share''"
    using assms by (auto simp: LookupService_def Services_def)
  then show ?thesis using assms
    by (auto simp: Config_Get_def getSubsystemField_def field_of_def coreFields_def field_account_def Param_Info_def
        DefaultAccount_def Param_IsSet_def Param_Value_def Let_def split: option.split)
qed

theorem default_account_is_get_witness:
  "Config_Get ((DefaultConfig 4)\<lparr>cfg_Subsystems := [(''drive'', (new_CoreConfig 4)\<lparr>cc_Account := Param_SetFile ''work'' (NewParam [] ''default'')\<rparr>)]\<rparr>)
      [\<lparr>seg_Name = ''drive'', seg_IndexKey = [], seg_IndexVal = []\<rparr>, \<lparr>seg_Name = ''account'', seg_IndexKey = [], seg_IndexVal = []\<rparr>] = Inr ''work''"
  by (subst default_account_is_get)
    (simp_all add: LookupService_def Services_def DefaultAccount_def Param_IsSet_def)

section \<open>Settings survive a save and a load\<close>

lemma clean_SetFile: "clean_param z d p \<Longrightarrow> clean_param z d (Param_SetFile v p)"
  by (auto simp: clean_param_def Param_SetFile_def NewParam_def)

lemma clean_new_core: "clean_core workers (new_CoreConfig workers)"
  by (simp add: clean_core_def new_CoreConfig_def clean_param_def)

lemma clean_pd_Set:
  assumes "map_of coreFields f = Some pd" "clean_core workers cc"
  shows "clean_core workers (pd_Set pd v cc)"
  using assms
  by (elim coreFields_cases)
    (simp_all add: field_max_jobs_def field_account_def field_app_version_def clean_core_def clean_SetFile split: fieldVal.split)

lemma clean_set_core:
  assumes "setCoreField cfg sel value = Inr cfg'" "clean_config workers cfg"
  shows "clean_config workers cfg'"
proof (cases "field_of sel = ''memory_cache_watermark''")
  case True
  then show ?thesis using assms parse_watermark_range
    by (auto simp: setCoreField_def clean_config_def clean_SetFile)
next
  case False
  then obtain pd v where pd: "map_of coreFields (field_of sel) = Some pd"
    "cfg' = cfg\<lparr>cfg_Core := pd_Set pd v (cfg_Core cfg)\<rparr>"
    using assms by (auto simp: setCoreField_def split: option.splits)
  then show ?thesis using assms(2) clean_pd_Set[OF pd(1)] by (simp add: clean_config_def)
qed

lemma clean_set_protonfs:
  assumes "setProtonFSField cfg sel value = Inr cfg'" "clean_config workers cfg"
  shows "clean_config workers cfg'"
  using assms by (auto simp: setProtonFSField_def clean_config_def clean_SetFile split: if_splits)

lemma clean_set_share:
  assumes "setShareField cfg sel value = Inr cfg'" "clean_config workers cfg"
  shows "clean_config workers cfg'"
  using assms by (auto simp: setShareField_def clean_config_def Let_def split: if_splits)

lemma clean_set_subsystem:
  assumes "setSubsystemField workers cfg sel value = Inr cfg'" "clean_config workers cfg"
  shows "clean_config workers cfg'"
proof -
  let ?svc = "seg_Name (sel ! 0)"
  let ?sub = "case map_of (cfg_Subsystems cfg) ?svc of Some sub \<Rightarrow> sub | None \<Rightarrow> new_CoreConfig workers"
  from assms(1) obtain pd v where pd: "map_of coreFields (field_of sel) = Some pd"
    "cfg' = cfg\<lparr>cfg_Subsystems := AList.update ?svc (pd_Set pd v ?sub) (cfg_Subsystems cfg)\<rparr>"
    by (auto simp: setSubsystemField_def Let_def split: if_splits option.splits)
  have old: "distinct (keys (cfg_Subsystems cfg))" "\<And>name sub. (name, sub) \<in> set (cfg_Subsystems cfg) \<Longrightarrow> clean_core workers sub"
    using assms(2) by (auto simp: clean_config_def)
  then have "clean_core workers ?sub" using clean_new_core by (auto split: option.split dest: map_of_SomeD)
  then have new: "clean_core workers (pd_Set pd v ?sub)" using clean_pd_Set[OF pd(1)] by blast
  have "clean_core workers sub" if "(name, sub) \<in> set (AList.update ?svc (pd_Set pd v ?sub) (cfg_Subsystems cfg))" for name sub
  proof -
    have d: "distinct (keys (AList.update ?svc (pd_Set pd v ?sub) (cfg_Subsystems cfg)))" using old(1) by simp
    have "map_of (AList.update ?svc (pd_Set pd v ?sub) (cfg_Subsystems cfg)) name = Some sub"
      using that d by (simp only: set_map_of)
    then show ?thesis using new old(2) by (auto simp: update_conv' split: if_splits dest: map_of_SomeD)
  qed
  then show ?thesis using assms(2) old(1) by (auto simp: clean_config_def pd(2))
qed

lemma clean_set:
  assumes "Config_Set workers cfg sel value = Inr cfg'" "clean_config workers cfg"
  shows "clean_config workers cfg'"
  using assms clean_set_core clean_set_protonfs clean_set_share clean_set_subsystem
  unfolding Config_Set_def Let_def by (auto split: if_splits)

lemma clean_default: "clean_config workers (DefaultConfig workers)"
  by (simp add: clean_config_def DefaultConfig_def clean_new_core clean_param_def NewParam_def Param_Value_def int64_range_def maxInt64_def)

text \<open>A subsystem section the save drops holds nothing the readers would use.\<close>

lemma unset_section_get:
  assumes "\<not> has_settings sub" "clean_core workers sub" "map_of coreFields f = Some pd"
  shows "pi_Source (pd_Get pd sub) = Unset"
  using assms(3) assms(1,2)
  by (elim coreFields_cases)
    (auto simp: has_settings_def marshalCoreConfig_def empty_coreYAML_def file_value_def clean_core_def clean_param_def
      NewParam_def field_max_jobs_def field_account_def field_app_version_def Param_Info_def split: if_splits)

lemma map_of_filter_value:
  assumes "distinct (keys m)"
  shows "map_of (filter (\<lambda>(_, v). P v) m) k = (case map_of m k of Some v \<Rightarrow> if P v then Some v else None | None \<Rightarrow> None)"
  using assms
proof (induction m)
  case (Cons e m)
  obtain j v where e: "e = (j, v)" by (cases e)
  have "map_of m j = None" using Cons.prems by (simp add: e map_of_eq_None_iff)
  then show ?case using Cons.IH Cons.prems by (auto simp: e)
qed simp

lemma drop_unset_get:
  assumes "clean_config workers cfg"
  shows "Config_Get (cfg\<lparr>cfg_Subsystems := filter (\<lambda>(_, sub). has_settings sub) (cfg_Subsystems cfg)\<rparr>) sel = Config_Get cfg sel"
proof -
  let ?m = "cfg_Subsystems cfg" and ?svc = "seg_Name (sel ! 0)"
  let ?f = "filter (\<lambda>(_, sub). has_settings sub) ?m"
  have d: "distinct (keys ?m)" and cl: "\<And>sub. map_of ?m ?svc = Some sub \<Longrightarrow> clean_core workers sub"
    using assms by (auto simp: clean_config_def dest!: map_of_SomeD)
  have f: "map_of ?f ?svc = (case map_of ?m ?svc of Some sub \<Rightarrow> if has_settings sub then Some sub else None | None \<Rightarrow> None)"
    by (rule map_of_filter_value[OF d])
  let ?c = "cfg\<lparr>cfg_Subsystems := ?f\<rparr>"
  have "getCoreField ?c sel = getCoreField cfg sel" "getProtonFSField ?c sel = getProtonFSField cfg sel"
    "getShareField ?c sel = getShareField cfg sel"
    by (rule get_congs; simp)+
  moreover have "getSubsystemField ?c sel = getSubsystemField cfg sel"
  proof (cases "map_of ?m ?svc")
    case None
    then show ?thesis by (simp add: getSubsystemField_def Let_def f[unfolded None] split: option.split)
  next
    case (Some sub)
    show ?thesis
    proof (cases "has_settings sub")
      case True
      then have "map_of ?f ?svc = Some sub" by (simp add: f Some)
      then show ?thesis by (simp add: getSubsystemField_def Let_def Some split: option.split)
    next
      case False
      then have "map_of ?f ?svc = None" by (simp add: f Some)
      then show ?thesis using unset_section_get[OF False cl[OF Some]]
        by (simp add: getSubsystemField_def Let_def Some split: option.split)
    qed
  qed
  ultimately show ?thesis by (rule Config_Get_cong)
qed

fun set_all :: "int \<Rightarrow> Config \<Rightarrow> (selector \<times> string) list \<Rightarrow> mapErr + Config" where
  "set_all workers cfg [] = Inr cfg"
| "set_all workers cfg ((sel, value) # rest) =
     (case Config_Set workers cfg sel value of Inl e \<Rightarrow> Inl e | Inr cfg' \<Rightarrow> set_all workers cfg' rest)"

text \<open>
  C12: What is set stays set across restarts.  The well-formedness of the configuration (every
  parameter unset or set from the file, watermarks representable, one section per subsystem) holds
  for the defaults and is kept by every Set; and after any
  sequence of successful Sets, saving the configuration and loading it again succeeds and every selector
  reads the same.
\<close>

theorem settings_persist:
  assumes "set_all workers (DefaultConfig workers) changes = Inr cfg"
  shows "clean_config workers cfg \<and>
    (\<exists>loaded. LoadConfig workers (Some (Inr (Config_MarshalYAML cfg))) = Inr loaded \<and>
      (\<forall>sel. Config_Get loaded sel = Config_Get cfg sel))"
proof -
  have "set_all workers c changes = Inr c' \<Longrightarrow> clean_config workers c \<Longrightarrow> clean_config workers c'" for c c'
    by (induction workers c changes rule: set_all.induct) (auto split: sum.splits dest: clean_set)
  then have "clean_config workers cfg" using assms clean_default by blast
  then show ?thesis using save_load_roundtrip drop_unset_get by blast
qed

theorem settings_persist_witness:
  "\<exists>cfg loaded. set_all 4 (DefaultConfig 4)
      [([\<lparr>seg_Name = ''drive'', seg_IndexKey = [], seg_IndexVal = []\<rparr>, \<lparr>seg_Name = ''account'', seg_IndexKey = [], seg_IndexVal = []\<rparr>], ''work'')] = Inr cfg \<and>
    cfg_Subsystems cfg \<noteq> [] \<and> LoadConfig 4 (Some (Inr (Config_MarshalYAML cfg))) = Inr loaded \<and>
    (\<forall>sel. Config_Get loaded sel = Config_Get cfg sel)"
proof -
  obtain cfg where "set_all 4 (DefaultConfig 4)
      [([\<lparr>seg_Name = ''drive'', seg_IndexKey = [], seg_IndexVal = []\<rparr>, \<lparr>seg_Name = ''account'', seg_IndexKey = [], seg_IndexVal = []\<rparr>], ''work'')] = Inr cfg"
    "cfg_Subsystems cfg \<noteq> []"
    by (simp add: Config_Set_def setSubsystemField_def LookupService_def Services_def coreFields_def field_of_def field_account_def
        parseNonEmptyString_def Let_def DefaultConfig_def)
  then show ?thesis using settings_persist by blast
qed

end
