(* ===== verification/SessionIndex.thy ===== *)
theory SessionIndex
  imports GoPrelude
begin

text \<open>
  The session index, \<^verbatim>\<open>internal/keyring/session_index.go\<close>: a file that maps (account, service) to the
  identifiers under which the secrets are kept in the system keyring.
\<close>

section \<open>State\<close>

text \<open>The \<^verbatim>\<open>Sessions\<close> map of an account read from a file may be nil.\<close>

record AccountEntry =
  ae_Username :: string
  ae_Sessions :: "(string, string) gomap option"

type_synonym SessionIndexData = "(string, AccountEntry) gomap"

text \<open>The index file: missing, not readable, not JSON, or an index.\<close>

datatype indexFile = NoFile | Unreadable string | BadJSON string | IndexFile SessionIndexData

record 'k sessWorld =
  sx_file :: indexFile
  sx_kr :: 'k

text \<open>The path and the keyring of a store are those of the world it works in.\<close>

record SessionIndex =
  si_account :: string
  si_service :: string

text \<open>Parameters: the system keyring over its own state, the encoding of the credentials, and the file
  system; \<open>ke_writeFile old new\<close> is the outcome of \<^verbatim>\<open>os.WriteFile\<close> and what the file holds afterwards.\<close>

record ('k, 'c) keyringEnv =
  ke_Get :: "'k \<Rightarrow> string \<Rightarrow> (string + string) \<times> 'k"
  ke_Set :: "'k \<Rightarrow> string \<Rightarrow> string \<Rightarrow> string option \<times> 'k"
  ke_Delete :: "'k \<Rightarrow> string \<Rightarrow> string option \<times> 'k"
  ke_marshal :: "'c \<Rightarrow> string + string"
  ke_unmarshal :: "string \<Rightarrow> string + 'c"
  ke_writeFile :: "indexFile \<Rightarrow> SessionIndexData \<Rightarrow> string option \<times> indexFile"
  ke_mkdirAll :: "string option"

datatype sessCause = KeyNotFound | OsErr string | JsonErr string | KeyringErr string | NilMapPanic
datatype sessErr = LoadErr string string sessCause | SaveErr string string sessCause | DeleteErr string string sessErr
  | DeleteKeyErr string string sessCause | DeleteAllErr string sessErr | DeleteServiceErr string sessCause

definition NewSessionStore :: "string \<Rightarrow> string \<Rightarrow> SessionIndex" where
  "NewSessionStore account service = \<lparr>si_account = account, si_service = service\<rparr>"

definition readIndex :: "SessionIndex \<Rightarrow> 'k sessWorld \<Rightarrow> sessErr + SessionIndexData" where
  "readIndex si w =
     (case sx_file w of
        NoFile \<Rightarrow> Inr []
      | Unreadable e \<Rightarrow> Inl (LoadErr (si_account si) (si_service si) (OsErr e))
      | BadJSON e \<Rightarrow> Inl (LoadErr (si_account si) (si_service si) (JsonErr e))
      | IndexFile idx \<Rightarrow> Inr idx)"

definition writeIndex :: "('k, 'c) keyringEnv \<Rightarrow> SessionIndex \<Rightarrow> SessionIndexData \<Rightarrow> 'k sessWorld \<Rightarrow> sessErr option \<times> 'k sessWorld" where
  "writeIndex E si idx w =
     (case ke_writeFile E (sx_file w) idx of
        (None, f) \<Rightarrow> (None, w\<lparr>sx_file := f\<rparr>)
      | (Some e, f) \<Rightarrow> (Some (SaveErr (si_account si) (si_service si) (OsErr e)), w\<lparr>sx_file := f\<rparr>))"

abbreviation sessions :: "AccountEntry \<Rightarrow> (string, string) gomap" where
  "sessions acct \<equiv> (case ae_Sessions acct of None \<Rightarrow> [] | Some m \<Rightarrow> m)"

text \<open>The account with a service removed; \<^verbatim>\<open>delete\<close> on a nil map does nothing.\<close>

definition drop_service :: "string \<Rightarrow> string \<Rightarrow> AccountEntry \<Rightarrow> SessionIndexData \<Rightarrow> SessionIndexData" where
  "drop_service account service acct idx =
     (let acct' = acct\<lparr>ae_Sessions := map_option (AList.delete service) (ae_Sessions acct)\<rparr>
      in if sessions acct' = [] then AList.delete account idx else AList.update account acct' idx)"

section \<open>Operations\<close>

text \<open>The service whose entry an account is resolved with: the exact one, else the wildcard.\<close>

definition resolved_service :: "string \<Rightarrow> AccountEntry \<Rightarrow> string option" where
  "resolved_service service acct =
     (if map_of (sessions acct) service \<noteq> None then Some service
      else if map_of (sessions acct) ''*'' \<noteq> None then Some ''*'' else None)"

definition session_Load :: "('k, 'c) keyringEnv \<Rightarrow> SessionIndex \<Rightarrow> 'k sessWorld \<Rightarrow> (sessErr + 'c) \<times> 'k sessWorld" where
  "session_Load E si w =
     (let notFound = LoadErr (si_account si) (si_service si) KeyNotFound in
      case readIndex si w of
        Inl err \<Rightarrow> (Inl err, w)
      | Inr idx \<Rightarrow>
          (case map_of idx (si_account si) of
             None \<Rightarrow> (Inl notFound, w)
           | Some acct \<Rightarrow>
               (case resolved_service (si_service si) acct of
                  None \<Rightarrow> (Inl notFound, w)
                | Some service \<Rightarrow>
                    let uuid = the (map_of (sessions acct) service) in
                    (case ke_Get E (sx_kr w) uuid of
                       (Inl e, k) \<Rightarrow>
                         (Inl notFound, snd (writeIndex E si (drop_service (si_account si) service acct idx) (w\<lparr>sx_kr := k\<rparr>)))
                     | (Inr secret, k) \<Rightarrow>
                         (case ke_unmarshal E secret of
                            Inl e \<Rightarrow> (Inl (LoadErr (si_account si) (si_service si) (JsonErr e)), w\<lparr>sx_kr := k\<rparr>)
                          | Inr creds \<Rightarrow> (Inr creds, w\<lparr>sx_kr := k\<rparr>))))))"

text \<open>\<open>newUUID\<close> is what \<^verbatim>\<open>uuid.New\<close> returns.\<close>

definition session_Save ::
    "('k, 'c) keyringEnv \<Rightarrow> SessionIndex \<Rightarrow> string \<Rightarrow> 'c \<Rightarrow> 'k sessWorld \<Rightarrow> sessErr option \<times> 'k sessWorld" where
  "session_Save E si newUUID creds w =
     (let fail = (\<lambda>c. SaveErr (si_account si) (si_service si) c) in
      case readIndex si w of
        Inl err \<Rightarrow> (Some err, w)
      | Inr idx \<Rightarrow>
          let acct = (case map_of idx (si_account si) of
                        None \<Rightarrow> \<lparr>ae_Username = si_account si, ae_Sessions = Some []\<rparr> | Some acct \<Rightarrow> acct)
          in if map_of (sessions acct) (si_service si) = None \<and> ae_Sessions acct = None then (Some (fail NilMapPanic), w)
             else let (id', acct') = (case map_of (sessions acct) (si_service si) of
                         Some x \<Rightarrow> (x, acct)
                       | None \<Rightarrow> (newUUID, acct\<lparr>ae_Sessions := Some (AList.update (si_service si) newUUID (sessions acct))\<rparr>))
                  in (case ke_marshal E creds of
                        Inl e \<Rightarrow> (Some (fail (JsonErr e)), w)
                      | Inr data \<Rightarrow>
                          (case ke_Set E (sx_kr w) id' data of
                             (Some e, k) \<Rightarrow> (Some (fail (KeyringErr e)), w\<lparr>sx_kr := k\<rparr>)
                           | (None, k) \<Rightarrow>
                               (case ke_mkdirAll E of
                                  Some e \<Rightarrow> (Some (fail (OsErr e)), w\<lparr>sx_kr := k\<rparr>)
                                | None \<Rightarrow> writeIndex E si (AList.update (si_account si) acct' idx) (w\<lparr>sx_kr := k\<rparr>)))))"

definition session_List :: "SessionIndex \<Rightarrow> 'k sessWorld \<Rightarrow> sessErr + string list" where
  "session_List si w = map_sum id (\<lambda>idx. keys idx) (readIndex si w)"

definition session_Switch :: "string \<Rightarrow> SessionIndex \<Rightarrow> SessionIndex" where
  "session_Switch account si = si\<lparr>si_account := account\<rparr>"

definition session_Delete :: "('k, 'c) keyringEnv \<Rightarrow> SessionIndex \<Rightarrow> 'k sessWorld \<Rightarrow> sessErr option \<times> 'k sessWorld" where
  "session_Delete E si w =
     (case readIndex si w of
        Inl err \<Rightarrow> (Some (DeleteErr (si_account si) (si_service si) err), w)
      | Inr idx \<Rightarrow>
          (case map_of idx (si_account si) of
             None \<Rightarrow> (None, w)
           | Some acct \<Rightarrow>
               (case map_of (sessions acct) (si_service si) of
                  None \<Rightarrow> (None, w)
                | Some x \<Rightarrow>
                    (case ke_Delete E (sx_kr w) x of
                       (Some e, k) \<Rightarrow> (Some (DeleteKeyErr (si_account si) (si_service si) (KeyringErr e)), w\<lparr>sx_kr := k\<rparr>)
                     | (None, k) \<Rightarrow>
                         (case writeIndex E si (drop_service (si_account si) (si_service si) acct idx) (w\<lparr>sx_kr := k\<rparr>) of
                            (None, w') \<Rightarrow> (None, w')
                          | (Some err, w') \<Rightarrow> (Some (DeleteErr (si_account si) (si_service si) err), w'))))))"

fun delete_secrets :: "('k, 'c) keyringEnv \<Rightarrow> (string \<times> string) list \<Rightarrow> 'k \<Rightarrow> sessErr list \<times> 'k" where
  "delete_secrets E [] k = ([], k)"
| "delete_secrets E ((service, x) # rest) k =
     (let (r, k1) = ke_Delete E k x; (errs, k2) = delete_secrets E rest k1
      in ((case r of None \<Rightarrow> errs | Some e \<Rightarrow> DeleteServiceErr service (KeyringErr e) # errs), k2))"

definition DeleteAllSessions :: "('k, 'c) keyringEnv \<Rightarrow> SessionIndex \<Rightarrow> 'k sessWorld \<Rightarrow> sessErr list \<times> 'k sessWorld" where
  "DeleteAllSessions E si w =
     (case readIndex si w of
        Inl err \<Rightarrow> ([DeleteAllErr (si_account si) err], w)
      | Inr idx \<Rightarrow>
          (case map_of idx (si_account si) of
             None \<Rightarrow> ([], w)
           | Some acct \<Rightarrow>
               (case delete_secrets E (sessions acct) (sx_kr w) of
                  (errs, k) \<Rightarrow>
                    (case writeIndex E si (AList.delete (si_account si) idx) (w\<lparr>sx_kr := k\<rparr>) of
                       (None, w') \<Rightarrow> (errs, w')
                     | (Some e, w') \<Rightarrow> (errs @ [e], w')))))"

section \<open>What is stored\<close>

text \<open>
  The documented behaviour of the keyring and of the codec: \<open>holds\<close> reads the secrets, a lookup
  returns the secret or ``not found'', a successful Set or Delete changes that one secret, a failed one
  nothing; a successful write of the file leaves the new index there; credentials are decoded from
  their encoding.
\<close>

definition keyring_laws :: "('k, 'c) keyringEnv \<Rightarrow> ('k \<Rightarrow> string \<Rightarrow> string option) \<Rightarrow> bool" where
  "keyring_laws E holds \<longleftrightarrow>
     (\<forall>k x. fst (ke_Get E k x) = (case holds k x of Some s \<Rightarrow> Inr s | None \<Rightarrow> Inl ''secret not found in keyring'')) \<and>
     (\<forall>k x. holds (snd (ke_Get E k x)) = holds k) \<and>
     (\<forall>k x s. holds (snd (ke_Set E k x s)) = (if fst (ke_Set E k x s) = None then (holds k)(x \<mapsto> s) else holds k)) \<and>
     (\<forall>k x. holds (snd (ke_Delete E k x)) = (if fst (ke_Delete E k x) = None then (holds k)(x := None) else holds k)) \<and>
     (\<forall>old new f. ke_writeFile E old new = (None, f) \<longrightarrow> f = IndexFile new) \<and>
     (\<forall>c d. ke_marshal E c = Inr d \<longrightarrow> ke_unmarshal E d = Inr c)"

lemma keyring_lawsD:
  assumes "keyring_laws E holds"
  shows "fst (ke_Get E k x) = (case holds k x of Some s \<Rightarrow> Inr s | None \<Rightarrow> Inl ''secret not found in keyring'')"
    "holds (snd (ke_Get E k x)) = holds k"
    "ke_Set E k x s = (None, k') \<Longrightarrow> holds k' = (holds k)(x \<mapsto> s)"
    "ke_Delete E k x = (None, k') \<Longrightarrow> holds k' = (holds k)(x := None)"
    "ke_Delete E k x = (r, k') \<Longrightarrow> y \<noteq> x \<Longrightarrow> holds k' y = holds k y"
    "ke_writeFile E old new = (None, f) \<Longrightarrow> f = IndexFile new"
    "ke_marshal E c = Inr d \<Longrightarrow> ke_unmarshal E d = Inr c"
  using assms unfolding keyring_laws_def by (metis fst_conv snd_conv fun_upd_other)+

definition file_index :: "'k sessWorld \<Rightarrow> SessionIndexData" where
  "file_index w = (case sx_file w of IndexFile idx \<Rightarrow> idx | _ \<Rightarrow> [])"

lemma readIndex_Inr: "readIndex si w = Inr idx \<Longrightarrow> idx = file_index w"
  by (auto simp: readIndex_def file_index_def split: indexFile.splits)

text \<open>The identifier a service of an account is registered under, exactly.\<close>

definition uuid_of :: "SessionIndexData \<Rightarrow> string \<Rightarrow> string \<Rightarrow> string option" where
  "uuid_of idx a s = (case map_of idx a of None \<Rightarrow> None | Some acct \<Rightarrow> map_of (sessions acct) s)"

text \<open>No two registrations share an identifier.\<close>

definition uuids_distinct :: "SessionIndexData \<Rightarrow> bool" where
  "uuids_distinct idx \<longleftrightarrow> (\<forall>a s a' s' x. uuid_of idx a s = Some x \<and> uuid_of idx a' s' = Some x \<longrightarrow> a = a' \<and> s = s')"

definition uuid_fresh :: "SessionIndexData \<Rightarrow> string \<Rightarrow> bool" where
  "uuid_fresh idx x \<longleftrightarrow> (\<forall>a s. uuid_of idx a s \<noteq> Some x)"

text \<open>Load in terms of the registrations.\<close>

definition resolve_uuid :: "SessionIndexData \<Rightarrow> string \<Rightarrow> string \<Rightarrow> string option" where
  "resolve_uuid idx a s = (case uuid_of idx a s of Some x \<Rightarrow> Some x | None \<Rightarrow> uuid_of idx a ''*'')"

definition load_result :: "('k, 'c) keyringEnv \<Rightarrow> ('k \<Rightarrow> string \<Rightarrow> string option) \<Rightarrow> SessionIndex \<Rightarrow> SessionIndexData \<Rightarrow> 'k \<Rightarrow> sessErr + 'c" where
  "load_result E holds si idx k =
     (case resolve_uuid idx (si_account si) (si_service si) of
        None \<Rightarrow> Inl (LoadErr (si_account si) (si_service si) KeyNotFound)
      | Some x \<Rightarrow>
          (case holds k x of
             None \<Rightarrow> Inl (LoadErr (si_account si) (si_service si) KeyNotFound)
           | Some secret \<Rightarrow>
               (case ke_unmarshal E secret of
                  Inl e \<Rightarrow> Inl (LoadErr (si_account si) (si_service si) (JsonErr e)) | Inr c \<Rightarrow> Inr c)))"

lemma load_refines:
  assumes "keyring_laws E holds" "readIndex si w = Inr idx"
  shows "fst (session_Load E si w) = load_result E holds si idx (sx_kr w)"
proof (cases "map_of idx (si_account si)")
  case None
  then show ?thesis using assms(2) by (simp add: session_Load_def load_result_def resolve_uuid_def uuid_of_def Let_def)
next
  case (Some acct)
  show ?thesis
  proof (cases "resolve_uuid idx (si_account si) (si_service si)")
    case None
    then have "resolved_service (si_service si) acct = None"
      using Some by (auto simp: resolve_uuid_def uuid_of_def resolved_service_def split: option.splits)
    then show ?thesis using assms(2) Some None by (simp add: session_Load_def load_result_def Let_def)
  next
    case x: (Some x)
    obtain service where s: "resolved_service (si_service si) acct = Some service" "map_of (sessions acct) service = Some x"
      using Some x by (auto simp: resolve_uuid_def uuid_of_def resolved_service_def split: option.splits if_splits)
    obtain r k where g: "ke_Get E (sx_kr w) x = (r, k)" by force
    then have "r = (case holds (sx_kr w) x of Some s \<Rightarrow> Inr s | None \<Rightarrow> Inl ''secret not found in keyring'')"
      using keyring_lawsD(1)[OF assms(1), of "sx_kr w" x] by simp
    then show ?thesis using assms(2) Some x s g
      by (auto simp: session_Load_def load_result_def Let_def split: option.splits sum.splits)
  qed
qed

text \<open>What a successful Save did.\<close>

lemma save_shape:
  assumes "keyring_laws E holds" "session_Save E si newUUID c w = (None, w')"
  obtains x idx d where "readIndex si w = Inr idx" "ke_marshal E c = Inr d" "sx_file w' = IndexFile (file_index w')"
    "holds (sx_kr w') = (holds (sx_kr w))(x \<mapsto> d)"
    "\<And>a s. uuid_of (file_index w') a s = (if a = si_account si \<and> s = si_service si then Some x else uuid_of idx a s)"
    "uuid_of idx (si_account si) (si_service si) = Some x \<or> (uuid_of idx (si_account si) (si_service si) = None \<and> x = newUUID)"
proof -
  obtain idx where idx: "readIndex si w = Inr idx" using assms(2) by (auto simp: session_Save_def Let_def split: sum.splits)
  define acct where "acct = (case map_of idx (si_account si) of
      None \<Rightarrow> \<lparr>ae_Username = si_account si, ae_Sessions = Some []\<rparr> | Some acct \<Rightarrow> acct)"
  define xa where "xa = (case map_of (sessions acct) (si_service si) of
      Some x \<Rightarrow> (x, acct)
    | None \<Rightarrow> (newUUID, acct\<lparr>ae_Sessions := Some (AList.update (si_service si) newUUID (sessions acct))\<rparr>))"
  obtain x acct' where xa': "xa = (x, acct')" by force
  have np: "\<not> (map_of (sessions acct) (si_service si) = None \<and> ae_Sessions acct = None)"
    using assms(2) idx by (auto simp: session_Save_def Let_def acct_def[symmetric])
  obtain d k where d: "ke_marshal E c = Inr d" "ke_Set E (sx_kr w) x d = (None, k)" "ke_mkdirAll E = None"
      "writeIndex E si (AList.update (si_account si) acct' idx) (w\<lparr>sx_kr := k\<rparr>) = (None, w')"
    using assms(2) idx np
    by (auto simp: session_Save_def Let_def acct_def[symmetric] xa_def[symmetric] xa' split: sum.splits prod.splits option.splits)
  obtain f where f: "ke_writeFile E (sx_file w) (AList.update (si_account si) acct' idx) = (None, f)" "w' = w\<lparr>sx_kr := k, sx_file := f\<rparr>"
    using d(4) by (auto simp: writeIndex_def split: prod.splits option.splits)
  have fl: "sx_file w' = IndexFile (AList.update (si_account si) acct' idx)"
    using keyring_lawsD(6)[OF assms(1) f(1)] f(2) by simp
  have sess: "map_of (sessions acct') s = (if s = si_service si then Some x else map_of (sessions acct) s)" for s
    using xa' by (auto simp: xa_def update_conv' split: option.splits)
  have old: "map_of (sessions acct) s = uuid_of idx (si_account si) s" for s
    by (auto simp: acct_def uuid_of_def split: option.split)
  show ?thesis
  proof (rule that[OF idx d(1)])
    show "sx_file w' = IndexFile (file_index w')" using fl by (simp add: file_index_def)
    show "holds (sx_kr w') = (holds (sx_kr w))(x \<mapsto> d)" using keyring_lawsD(3)[OF assms(1) d(2)] f(2) by simp
    show "uuid_of (file_index w') a s = (if a = si_account si \<and> s = si_service si then Some x else uuid_of idx a s)" for a s
      using sess old by (auto simp: fl file_index_def uuid_of_def update_conv')
    show "uuid_of idx (si_account si) (si_service si) = Some x \<or> (uuid_of idx (si_account si) (si_service si) = None \<and> x = newUUID)"
      using xa' old[of "si_service si"] by (auto simp: xa_def split: option.splits)
  qed
qed

section \<open>Properties\<close>

text \<open>
  C19: A saved session is loaded, and saving touches no other.  After a successful Save, with a fresh identifier
  when the service had none, Load for the same account and service returns the saved credentials, the
  identifiers of the index stay distinct, and Load for any other account, or for another service that has an
  entry of its own or does not fall back to the one saved, gives what it gave before.
\<close>

theorem save_then_load:
  assumes "keyring_laws E holds" "session_Save E si newUUID c w = (None, w')"
    and "uuids_distinct (file_index w)" "uuid_fresh (file_index w) newUUID"
  shows "fst (session_Load E si w') = Inr c \<and> uuids_distinct (file_index w') \<and>
    (\<forall>si'. (si_account si', si_service si') \<noteq> (si_account si, si_service si) \<and>
       (si_account si' \<noteq> si_account si \<or> si_service si \<noteq> ''*'' \<or> uuid_of (file_index w) (si_account si') (si_service si') \<noteq> None) \<longrightarrow>
       fst (session_Load E si' w') = fst (session_Load E si' w))"
proof -
  obtain x idx d where sh: "readIndex si w = Inr idx" "ke_marshal E c = Inr d" "sx_file w' = IndexFile (file_index w')"
    "holds (sx_kr w') = (holds (sx_kr w))(x \<mapsto> d)"
    "\<And>a s. uuid_of (file_index w') a s = (if a = si_account si \<and> s = si_service si then Some x else uuid_of idx a s)"
    "uuid_of idx (si_account si) (si_service si) = Some x \<or> (uuid_of idx (si_account si) (si_service si) = None \<and> x = newUUID)"
    by (rule save_shape[OF assms(1,2)]) (rule that)
  have idx: "idx = file_index w" by (rule readIndex_Inr[OF sh(1)])
  have only: "a = si_account si \<and> s = si_service si" if "uuid_of idx a s = Some x" for a s
    using that sh(6) assms(3,4) unfolding idx uuids_distinct_def uuid_fresh_def by metis
  have ri: "readIndex si' w' = Inr (file_index w')" "readIndex si' w = Inr idx" for si'
    using sh(1,3) by (auto simp: readIndex_def split: indexFile.splits)
  have "fst (session_Load E si w') = Inr c"
    using load_refines[OF assms(1) ri(1)] sh(4,5) keyring_lawsD(7)[OF assms(1) sh(2)]
    by (simp add: load_result_def resolve_uuid_def)
  moreover have "uuids_distinct (file_index w')"
    unfolding uuids_distinct_def
  proof (intro allI impI)
    fix a s a' s' y assume "uuid_of (file_index w') a s = Some y \<and> uuid_of (file_index w') a' s' = Some y"
    then have y: "(if a = si_account si \<and> s = si_service si then Some x else uuid_of idx a s) = Some y"
      "(if a' = si_account si \<and> s' = si_service si then Some x else uuid_of idx a' s') = Some y" unfolding sh(5) by blast+
    show "a = a' \<and> s = s'"
    proof (cases "y = x")
      case True
      then show ?thesis using y only[of a s] only[of a' s'] by (metis option.inject)
    next
      case False
      then have "uuid_of idx a s = Some y" "uuid_of idx a' s' = Some y" using y by (auto split: if_splits)
      then show ?thesis using assms(3) unfolding idx[symmetric] uuids_distinct_def by blast
    qed
  qed
  moreover have "fst (session_Load E si' w') = fst (session_Load E si' w)"
    if ne: "(si_account si', si_service si') \<noteq> (si_account si, si_service si)"
      and fb: "si_account si' \<noteq> si_account si \<or> si_service si \<noteq> ''*'' \<or> uuid_of idx (si_account si') (si_service si') \<noteq> None" for si'
  proof -
    have r: "resolve_uuid (file_index w') (si_account si') (si_service si') = resolve_uuid idx (si_account si') (si_service si')"
      using ne fb by (auto simp: resolve_uuid_def sh(5) split: option.split)
    have "resolve_uuid idx (si_account si') (si_service si') \<noteq> Some x"
    proof (cases "uuid_of idx (si_account si') (si_service si')")
      case None
      then have "uuid_of idx (si_account si') ''*'' \<noteq> Some x" using only[of "si_account si'" "''*''"] fb by auto
      with None show ?thesis by (simp add: resolve_uuid_def)
    next
      case (Some y)
      then have "y \<noteq> x" using only[of "si_account si'" "si_service si'"] ne by blast
      with Some show ?thesis by (simp add: resolve_uuid_def)
    qed
    then show ?thesis
      unfolding load_refines[OF assms(1) ri(1)] load_refines[OF assms(1) ri(2)]
      by (auto simp: load_result_def r sh(4) split: option.split)
  qed
  ultimately show ?thesis unfolding idx[symmetric] by blast
qed

text \<open>A keyring and a file system for the witnesses; the credentials are their own encoding.\<close>

definition demo_keyring :: "((string, string) gomap, string) keyringEnv" where
  "demo_keyring =
     \<lparr>ke_Get = \<lambda>k x. (case map_of k x of Some s \<Rightarrow> (Inr s, k) | None \<Rightarrow> (Inl ''secret not found in keyring'', k)),
      ke_Set = \<lambda>k x s. (None, AList.update x s k), ke_Delete = \<lambda>k x. (None, AList.delete x k),
      ke_marshal = Inr, ke_unmarshal = Inr, ke_writeFile = \<lambda>_ idx. (None, IndexFile idx), ke_mkdirAll = None\<rparr>"

lemma demo_keyring_laws: "keyring_laws demo_keyring map_of"
  by (auto simp: keyring_laws_def demo_keyring_def update_conv' delete_conv' split: option.split)

theorem save_then_load_witness:
  "\<exists>w'. session_Save demo_keyring (NewSessionStore ''me'' ''drive'') ''u1'' ''tok'' \<lparr>sx_file = NoFile, sx_kr = []\<rparr> = (None, w') \<and>
     fst (session_Load demo_keyring (NewSessionStore ''me'' ''drive'') w') = Inr ''tok''"
proof -
  let ?si = "NewSessionStore ''me'' ''drive''" and ?w = "\<lparr>sx_file = NoFile, sx_kr = []\<rparr> :: (string, string) gomap sessWorld"
  obtain w' where w': "session_Save demo_keyring ?si ''u1'' ''tok'' ?w = (None, w')"
    by (simp add: session_Save_def readIndex_def writeIndex_def NewSessionStore_def demo_keyring_def Let_def)
  from save_then_load[OF demo_keyring_laws w'] w' show ?thesis
    by (auto simp: uuids_distinct_def uuid_fresh_def uuid_of_def file_index_def)
qed

lemma uuid_of_drop:
  assumes "map_of idx a = Some acct"
  shows "uuid_of (drop_service a s acct idx) a' s' = (if a' = a \<and> s' = s then None else uuid_of idx a' s')"
proof -
  have m: "map_of (sessions (acct\<lparr>ae_Sessions := map_option (AList.delete s) (ae_Sessions acct)\<rparr>)) t =
      (if t = s then None else map_of (sessions acct) t)" for t
    by (auto simp: delete_conv' split: option.split)
  show ?thesis
  proof (cases "sessions (acct\<lparr>ae_Sessions := map_option (AList.delete s) (ae_Sessions acct)\<rparr>) = []")
    case True
    then have "map_of (sessions acct) t = None" if "t \<noteq> s" for t using m[of t] that by simp
    then show ?thesis using True assms by (auto simp: drop_service_def Let_def uuid_of_def delete_conv')
  next
    case False
    then show ?thesis using m assms by (auto simp: drop_service_def Let_def uuid_of_def update_conv')
  qed
qed

text \<open>
  A keyring that cannot be read loses the session.  Whatever the reason for which the keyring refuses a lookup
  (the secret is gone, the keyring is locked, the user denied access), Load removes the
  registration and, once the index is written, no later Load finds the session again even when the keyring
  works and still holds the secret; the registrations of other services and accounts are kept.
\<close>

theorem failed_lookup_forgets:
  fixes E :: "('k, 'c) keyringEnv"
  assumes "readIndex si w = Inr idx" "uuid_of idx (si_account si) (si_service si) = Some x"
    and "ke_Get E (sx_kr w) x = (Inl e, k)" "session_Load E si w = (r, w')"
    and "\<forall>old new. ke_writeFile E old new = (None, IndexFile new)"
  shows "r = Inl (LoadErr (si_account si) (si_service si) KeyNotFound) \<and> sx_kr w' = k \<and>
    (\<forall>a s. uuid_of (file_index w') a s = (if a = si_account si \<and> s = si_service si then None else uuid_of idx a s)) \<and>
    (uuid_of idx (si_account si) ''*'' = None \<or> si_service si = ''*'' \<longrightarrow>
       (\<forall>(E2 :: ('k, 'c) keyringEnv) k2. keyring_laws E2 holds \<longrightarrow>
          fst (session_Load E2 si (w'\<lparr>sx_kr := k2\<rparr>)) = Inl (LoadErr (si_account si) (si_service si) KeyNotFound)))"
proof -
  obtain acct where acct: "map_of idx (si_account si) = Some acct" "map_of (sessions acct) (si_service si) = Some x"
    using assms(2) by (auto simp: uuid_of_def split: option.splits)
  then have s: "resolved_service (si_service si) acct = Some (si_service si)" by (simp add: resolved_service_def)
  let ?idx = "drop_service (si_account si) (si_service si) acct idx"
  have r: "r = Inl (LoadErr (si_account si) (si_service si) KeyNotFound)" "w' = snd (writeIndex E si ?idx (w\<lparr>sx_kr := k\<rparr>))"
    using assms(1,3,4) acct s by (simp_all add: session_Load_def Let_def)
  then have w': "w' = \<lparr>sx_file = IndexFile ?idx, sx_kr = k\<rparr>" using assms(5) by (simp add: writeIndex_def)
  have fi: "file_index w' = ?idx" by (simp add: w' file_index_def)
  have "fst (session_Load E2 si (w'\<lparr>sx_kr := k2\<rparr>)) = Inl (LoadErr (si_account si) (si_service si) KeyNotFound)"
    if "uuid_of idx (si_account si) ''*'' = None \<or> si_service si = ''*''" "keyring_laws E2 holds" for E2 :: "('k, 'c) keyringEnv" and k2
  proof -
    have "readIndex si (w'\<lparr>sx_kr := k2\<rparr>) = Inr ?idx" by (simp add: w' readIndex_def)
    from load_refines[OF that(2) this] that(1) show ?thesis
      by (auto simp: load_result_def resolve_uuid_def uuid_of_drop[OF acct(1)])
  qed
  then show ?thesis using r(1) fi by (simp add: uuid_of_drop[OF acct(1)] w')
qed

text \<open>A keyring that is locked.\<close>

definition locked_keyring :: "((string, string) gomap, string) keyringEnv" where
  "locked_keyring = demo_keyring\<lparr>ke_Get := \<lambda>k x. (Inl ''locked'', k)\<rparr>"

theorem failed_lookup_forgets_witness:
  "\<exists>w'. session_Load locked_keyring (NewSessionStore ''me'' ''drive'')
        \<lparr>sx_file = IndexFile [(''me'', \<lparr>ae_Username = ''me'', ae_Sessions = Some [(''drive'', ''u1'')]\<rparr>)], sx_kr = [(''u1'', ''tok'')]\<rparr> =
      (Inl (LoadErr ''me'' ''drive'' KeyNotFound), w') \<and>
    sx_kr w' = [(''u1'', ''tok'')] \<and>
    fst (session_Load demo_keyring (NewSessionStore ''me'' ''drive'') w') = Inl (LoadErr ''me'' ''drive'' KeyNotFound)"
proof -
  let ?si = "NewSessionStore ''me'' ''drive''" and ?idx = "[(''me'', \<lparr>ae_Username = ''me'', ae_Sessions = Some [(''drive'', ''u1'')]\<rparr>)]"
  let ?w = "\<lparr>sx_file = IndexFile ?idx, sx_kr = [(''u1'', ''tok'')]\<rparr> :: (string, string) gomap sessWorld"
  obtain r w' where l: "session_Load locked_keyring ?si ?w = (r, w')" by force
  have h: "readIndex ?si ?w = Inr ?idx" "uuid_of ?idx (si_account ?si) (si_service ?si) = Some ''u1''"
    "ke_Get locked_keyring (sx_kr ?w) ''u1'' = (Inl ''locked'', [(''u1'', ''tok'')])"
    "\<forall>old new. ke_writeFile locked_keyring old new = (None, IndexFile new)"
    by (simp_all add: readIndex_def uuid_of_def NewSessionStore_def locked_keyring_def demo_keyring_def)
  have no: "uuid_of ?idx (si_account ?si) ''*'' = None" by (simp add: uuid_of_def NewSessionStore_def)
  note f = failed_lookup_forgets[OF h(1-3) l h(4), where holds = map_of]
  have "fst (session_Load demo_keyring ?si (w'\<lparr>sx_kr := [(''u1'', ''tok'')]\<rparr>)) = Inl (LoadErr ''me'' ''drive'' KeyNotFound)"
    using f no demo_keyring_laws by (auto simp: NewSessionStore_def)
  moreover have "w'\<lparr>sx_kr := [(''u1'', ''tok'')]\<rparr> = w'" using f by simp
  ultimately show ?thesis using f l by (auto simp: NewSessionStore_def)
qed

section \<open>Deleting an account\<close>

lemma delete_secrets_gone:
  assumes "keyring_laws E holds" "delete_secrets E ss k = (errs, k')"
  shows "(\<forall>y. y \<notin> snd ` set ss \<longrightarrow> holds k' y = holds k y) \<and>
    (errs = [] \<longrightarrow> (\<forall>y\<in>snd ` set ss. holds k' y = None))"
  using assms(2)
proof (induction ss arbitrary: k errs k')
  case (Cons sx ss)
  obtain s x where sx: "sx = (s, x)" by force
  obtain r k1 where d: "ke_Delete E k x = (r, k1)" by force
  obtain errs2 where rest: "delete_secrets E ss k1 = (errs2, k')" "errs = [] \<longleftrightarrow> r = None \<and> errs2 = []"
    using Cons.prems by (auto simp: sx d Let_def split: prod.splits option.splits)
  note ih = Cons.IH[OF rest(1)]
  have k1: "y \<noteq> x \<Longrightarrow> holds k1 y = holds k y" for y using keyring_lawsD(5)[OF assms(1) d] by blast
  have x: "holds k' x = None" if "errs = []"
  proof (cases "x \<in> snd ` set ss")
    case True
    then show ?thesis using ih rest(2) that by auto
  next
    case False
    have "holds k1 x = None" using keyring_lawsD(4)[OF assms(1)] d rest(2) that by simp
    then show ?thesis using ih False by simp
  qed
  show ?case using ih k1 x rest(2) by (auto simp: sx)
qed simp



end
