(* ===== verification/EventWatch.thy ===== *)
theory EventWatch
  imports GoPrelude
begin

text \<open>
  Watching volumes and shares for events, \<^verbatim>\<open>api/drive/event.go\<close>: the polling cursors, the batches
  that are delivered, and the re-anchoring after a refresh or a rejected cursor.
\<close>

section \<open>State\<close>

record 'e DriveEvent =
  ev_EventID :: string
  ev_Events :: "'e list"
  ev_Refresh :: bool

text \<open>An error of the API client carries its HTTP status; wrapping with a prefix keeps it visible.\<close>

datatype fetchErr = ApiStatus int string | NetErr string
datatype watchErr =
    PollVolumeErr string fetchErr | PollShareErr string fetchErr
  | LatestVolumeErr string fetchErr | LatestShareErr string fetchErr

fun cause_of :: "watchErr \<Rightarrow> fetchErr" where
  "cause_of (PollVolumeErr v e) = e"
| "cause_of (PollShareErr v e) = e"
| "cause_of (LatestVolumeErr v e) = e"
| "cause_of (LatestShareErr v e) = e"

text \<open>The calls of the API client, over the state of the service.\<close>

record ('h, 'e) eventFetcher =
  ef_volumeEvent :: "string \<Rightarrow> string \<Rightarrow> 'h \<Rightarrow> (fetchErr + 'e DriveEvent) \<times> 'h"
  ef_shareEvent :: "string \<Rightarrow> string \<Rightarrow> 'h \<Rightarrow> (fetchErr + 'e DriveEvent) \<times> 'h"
  ef_latestVolume :: "string \<Rightarrow> 'h \<Rightarrow> (fetchErr + string) \<times> 'h"
  ef_latestShare :: "string \<Rightarrow> 'h \<Rightarrow> (fetchErr + string) \<times> 'h"

record WatchTarget =
  wt_VolumeID :: string
  wt_ShareID :: string
  wt_Cursor :: string

record 'e EventBatch =
  eb_Target :: WatchTarget
  eb_Event :: "'e DriveEvent"
  eb_Err :: "watchErr option"

definition zero_event :: "'e DriveEvent" where
  "zero_event = \<lparr>ev_EventID = [], ev_Events = [], ev_Refresh = False\<rparr>"

section \<open>Operations\<close>

definition PollVolumeOnce :: "('h, 'e) eventFetcher \<Rightarrow> string \<Rightarrow> string \<Rightarrow> 'h \<Rightarrow> (watchErr + 'e DriveEvent) \<times> 'h" where
  "PollVolumeOnce F volumeID from h = apfst (map_sum (PollVolumeErr volumeID) id) (ef_volumeEvent F volumeID from h)"

definition PollShareOnce :: "('h, 'e) eventFetcher \<Rightarrow> string \<Rightarrow> string \<Rightarrow> 'h \<Rightarrow> (watchErr + 'e DriveEvent) \<times> 'h" where
  "PollShareOnce F shareID from h = apfst (map_sum (PollShareErr shareID) id) (ef_shareEvent F shareID from h)"

definition LatestVolumeCursor :: "('h, 'e) eventFetcher \<Rightarrow> string \<Rightarrow> 'h \<Rightarrow> (watchErr + string) \<times> 'h" where
  "LatestVolumeCursor F volumeID h = apfst (map_sum (LatestVolumeErr volumeID) id) (ef_latestVolume F volumeID h)"

definition LatestShareCursor :: "('h, 'e) eventFetcher \<Rightarrow> string \<Rightarrow> 'h \<Rightarrow> (watchErr + string) \<times> 'h" where
  "LatestShareCursor F shareID h = apfst (map_sum (LatestShareErr shareID) id) (ef_latestShare F shareID h)"

definition isStaleCursorErr :: "watchErr \<Rightarrow> bool" where
  "isStaleCursorErr err = (case cause_of err of ApiStatus s _ \<Rightarrow> s = 422 | NetErr _ \<Rightarrow> False)"

definition latestCursor :: "('h, 'e) eventFetcher \<Rightarrow> WatchTarget \<Rightarrow> 'h \<Rightarrow> (watchErr + string) \<times> 'h" where
  "latestCursor F t h =
     (if wt_ShareID t \<noteq> [] then LatestShareCursor F (wt_ShareID t) h else LatestVolumeCursor F (wt_VolumeID t) h)"

definition pollTargetOnce :: "('h, 'e) eventFetcher \<Rightarrow> WatchTarget \<Rightarrow> string \<Rightarrow> 'h \<Rightarrow> (watchErr + 'e DriveEvent) \<times> 'h" where
  "pollTargetOnce F t cursor h =
     (if wt_ShareID t \<noteq> [] then PollShareOnce F (wt_ShareID t) cursor h else PollVolumeOnce F (wt_VolumeID t) cursor h)"

text \<open>The send on the unbuffered channel: \<open>taken\<close> says that the consumer took the batch, otherwise the
  context was cancelled first.\<close>

definition deliverBatch :: "bool \<Rightarrow> 'e EventBatch \<Rightarrow> 'e EventBatch list" where
  "deliverBatch taken batch = (if taken then [batch] else [])"

definition poll_from :: "('h, 'e) eventFetcher \<Rightarrow> bool \<Rightarrow> WatchTarget \<Rightarrow> 'h \<Rightarrow> WatchTarget \<times> 'h \<times> 'e EventBatch list" where
  "poll_from F taken t h =
     (case pollTargetOnce F t (wt_Cursor t) h of
        (Inl err, h1) \<Rightarrow>
          if isStaleCursorErr err then
            (case latestCursor F t h1 of
               (r, h2) \<Rightarrow>
                 let t1 = (case r of Inl _ \<Rightarrow> t | Inr c \<Rightarrow> t\<lparr>wt_Cursor := c\<rparr>)
                 in (t1, h2, deliverBatch taken \<lparr>eb_Target = t1,
                       eb_Event = zero_event\<lparr>ev_EventID := wt_Cursor t1, ev_Refresh := True\<rparr>, eb_Err = None\<rparr>))
          else (t, h1, deliverBatch taken \<lparr>eb_Target = t, eb_Event = zero_event, eb_Err = Some err\<rparr>)
      | (Inr event, h1) \<Rightarrow>
          let t1 = t\<lparr>wt_Cursor := ev_EventID event\<rparr>;
              out = deliverBatch taken \<lparr>eb_Target = t1, eb_Event = event, eb_Err = None\<rparr>
          in if ev_Refresh event then
               (case latestCursor F t1 h1 of
                  (Inl _, h2) \<Rightarrow> (t1, h2, out)
                | (Inr c, h2) \<Rightarrow> (t1\<lparr>wt_Cursor := c\<rparr>, h2, out))
             else (t1, h1, out))"

definition pollWatchTarget :: "('h, 'e) eventFetcher \<Rightarrow> bool \<Rightarrow> WatchTarget \<Rightarrow> 'h \<Rightarrow> WatchTarget \<times> 'h \<times> 'e EventBatch list" where
  "pollWatchTarget F taken t h =
     (if wt_Cursor t = [] then
        (case latestCursor F t h of
           (Inl err, h1) \<Rightarrow> (t, h1, deliverBatch taken \<lparr>eb_Target = t, eb_Event = zero_event, eb_Err = Some err\<rparr>)
         | (Inr c, h1) \<Rightarrow> poll_from F taken (t\<lparr>wt_Cursor := c\<rparr>) h1)
      else poll_from F taken t h)"

text \<open>One tick: the targets in order, until the context is cancelled.  A flag pair per target says whether
  the context is cancelled before its poll and whether its batch is taken; batches are tagged with
  the index of their target.\<close>

fun watch_round ::
    "('h, 'e) eventFetcher \<Rightarrow> nat \<Rightarrow> (bool \<times> bool) list \<Rightarrow> WatchTarget list \<Rightarrow> 'h
      \<Rightarrow> bool \<times> WatchTarget list \<times> 'h \<times> (nat \<times> 'e EventBatch) list" where
  "watch_round F i flags [] h = (False, [], h, [])"
| "watch_round F i [] (t # ts) h = (True, t # ts, h, [])"
| "watch_round F i ((cancelled, taken) # flags) (t # ts) h =
     (if cancelled then (True, t # ts, h, [])
      else (case pollWatchTarget F taken t h of
              (t', h1, out1) \<Rightarrow>
                (case watch_round F (Suc i) flags ts h1 of
                   (stop, ts', h2, out2) \<Rightarrow> (stop, t' # ts', h2, map (Pair i) out1 @ out2))))"

fun WatchDriveEvents ::
    "('h, 'e) eventFetcher \<Rightarrow> (bool \<times> bool) list list \<Rightarrow> WatchTarget list \<Rightarrow> 'h
      \<Rightarrow> WatchTarget list \<times> 'h \<times> (nat \<times> 'e EventBatch) list" where
  "WatchDriveEvents F [] ts h = (ts, h, [])"
| "WatchDriveEvents F (flags # ticks) ts h =
     (case watch_round F 0 flags ts h of
        (stop, ts1, h1, out1) \<Rightarrow>
          if stop then (ts1, h1, out1)
          else (case WatchDriveEvents F ticks ts1 h1 of (ts2, h2, out2) \<Rightarrow> (ts2, h2, out1 @ out2)))"

section \<open>What the service promises\<close>

text \<open>
  The log of one target: it only grows; the latest cursor is a position between its length before and
  after the call; a poll without refresh returns the entries from its cursor to the new one.
\<close>

definition log_grows :: "('h, 'e) eventFetcher \<Rightarrow> ('h \<Rightarrow> 'e list) \<Rightarrow> bool" where
  "log_grows F log \<longleftrightarrow>
     (\<forall>v c h. prefix (log h) (log (snd (ef_volumeEvent F v c h))) \<and> prefix (log h) (log (snd (ef_shareEvent F v c h))) \<and>
        prefix (log h) (log (snd (ef_latestVolume F v h))) \<and> prefix (log h) (log (snd (ef_latestShare F v h))))"

definition latest_in_log :: "('h, 'e) eventFetcher \<Rightarrow> WatchTarget \<Rightarrow> ('h \<Rightarrow> 'e list) \<Rightarrow> (string \<Rightarrow> nat) \<Rightarrow> bool" where
  "latest_in_log F t log pos \<longleftrightarrow>
     (\<forall>h c h'. latestCursor F t h = (Inr c, h') \<longrightarrow> c \<noteq> [] \<and> length (log h) \<le> pos c \<and> pos c \<le> length (log h'))"

definition poll_in_log :: "('h, 'e) eventFetcher \<Rightarrow> WatchTarget \<Rightarrow> ('h \<Rightarrow> 'e list) \<Rightarrow> (string \<Rightarrow> nat) \<Rightarrow> bool" where
  "poll_in_log F t log pos \<longleftrightarrow>
     (\<forall>h c e h'. pollTargetOnce F t c h = (Inr e, h') \<longrightarrow> \<not> ev_Refresh e \<longrightarrow>
        ev_EventID e \<noteq> [] \<and> pos c \<le> pos (ev_EventID e) \<and> pos (ev_EventID e) \<le> length (log h') \<and>
        ev_Events e = take (pos (ev_EventID e) - pos c) (drop (pos c) (log h')))"

definition watch_laws ::
    "('h, 'e) eventFetcher \<Rightarrow> WatchTarget \<Rightarrow> ('h \<Rightarrow> 'e list) \<Rightarrow> (string \<Rightarrow> nat) \<Rightarrow> bool" where
  "watch_laws F t log pos \<longleftrightarrow> log_grows F log \<and> latest_in_log F t log pos \<and> poll_in_log F t log pos"

lemma latest_grows: "log_grows F log \<Longrightarrow> latestCursor F t h = (q, h') \<Longrightarrow> prefix (log h) (log h')"
  by (auto simp: log_grows_def latestCursor_def LatestShareCursor_def LatestVolumeCursor_def split: if_splits prod.splits)
    (metis snd_apfst snd_conv)+

lemma poll_grows: "log_grows F log \<Longrightarrow> pollTargetOnce F t c h = (r, h') \<Longrightarrow> prefix (log h) (log h')"
  by (auto simp: log_grows_def pollTargetOnce_def PollShareOnce_def PollVolumeOnce_def split: if_splits prod.splits)
    (metis snd_apfst snd_conv)+

lemma watch_lawsD:
  assumes "watch_laws F t log pos"
  shows "latestCursor F t' h = (q, h') \<Longrightarrow> prefix (log h) (log h')"
    "pollTargetOnce F t' c h = (r, h') \<Longrightarrow> prefix (log h) (log h')"
    "latestCursor F t h = (Inr c, h') \<Longrightarrow> c \<noteq> [] \<and> length (log h) \<le> pos c \<and> pos c \<le> length (log h')"
    "pollTargetOnce F t c h = (Inr e, h') \<Longrightarrow> \<not> ev_Refresh e \<Longrightarrow>
       ev_EventID e \<noteq> [] \<and> pos c \<le> pos (ev_EventID e) \<and> pos (ev_EventID e) \<le> length (log h') \<and>
       ev_Events e = take (pos (ev_EventID e) - pos c) (drop (pos c) (log h'))"
proof -
  note l = assms[unfolded watch_laws_def]
  show "latestCursor F t' h = (q, h') \<Longrightarrow> prefix (log h) (log h')" by (rule latest_grows[OF l[THEN conjunct1]])
  show "pollTargetOnce F t' c h = (r, h') \<Longrightarrow> prefix (log h) (log h')" by (rule poll_grows[OF l[THEN conjunct1]])
  show "latestCursor F t h = (Inr c, h') \<Longrightarrow> c \<noteq> [] \<and> length (log h) \<le> pos c \<and> pos c \<le> length (log h')"
    by (rule l[THEN conjunct2, THEN conjunct1, unfolded latest_in_log_def, rule_format])
  show "pollTargetOnce F t c h = (Inr e, h') \<Longrightarrow> \<not> ev_Refresh e \<Longrightarrow>
       ev_EventID e \<noteq> [] \<and> pos c \<le> pos (ev_EventID e) \<and> pos (ev_EventID e) \<le> length (log h') \<and>
       ev_Events e = take (pos (ev_EventID e) - pos c) (drop (pos c) (log h'))"
    by (rule l[THEN conjunct2, THEN conjunct2, unfolded poll_in_log_def, rule_format])
qed

text \<open>The payload of the batches.\<close>

definition batch_events :: "'e EventBatch list \<Rightarrow> 'e list" where
  "batch_events bs = concat (map (\<lambda>b. ev_Events (eb_Event b)) bs)"

lemma batch_events_simps [simp]:
  "batch_events [] = []" "batch_events (b # bs) = ev_Events (eb_Event b) @ batch_events bs"
  "batch_events (bs @ cs) = batch_events bs @ batch_events cs"
  by (simp_all add: batch_events_def)

section \<open>No event is skipped\<close>

lemma target_ids [simp]:
  "latestCursor F (t\<lparr>wt_Cursor := c\<rparr>) h = latestCursor F t h" "pollTargetOnce F (t\<lparr>wt_Cursor := c\<rparr>) d h = pollTargetOnce F t d h"
  "watch_laws F (t\<lparr>wt_Cursor := c\<rparr>) log pos = watch_laws F t log pos"
  by (simp_all add: latestCursor_def pollTargetOnce_def watch_laws_def latest_in_log_def poll_in_log_def)

text \<open>What has been delivered for a target so far: the log from \<open>p0\<close> to the cursor.\<close>

definition delivered :: "('h \<Rightarrow> 'e list) \<Rightarrow> (string \<Rightarrow> nat) \<Rightarrow> nat \<Rightarrow> WatchTarget \<Rightarrow> 'h \<Rightarrow> 'e list \<Rightarrow> bool" where
  "delivered log pos p0 t h evs \<longleftrightarrow>
     (if wt_Cursor t = [] then evs = []
      else p0 \<le> pos (wt_Cursor t) \<and> pos (wt_Cursor t) \<le> length (log h) \<and>
           evs = take (pos (wt_Cursor t) - p0) (drop p0 (log h)))"

lemma take_drop_prefix:
  assumes "prefix xs ys" "b \<le> length xs"
  shows "take (b - a) (drop a ys) = take (b - a) (drop a xs)"
  using assms by (auto simp: prefix_def)

lemma delivered_grow:
  assumes "delivered log pos p0 t h evs" "prefix (log h) (log h')"
  shows "delivered log pos p0 t h' evs"
proof (cases "wt_Cursor t = []")
  case False
  have "length (log h) \<le> length (log h')" using assms(2) by (rule prefix_length_le)
  with False assms take_drop_prefix[OF assms(2), of "pos (wt_Cursor t)" p0] show ?thesis by (simp add: delivered_def)
qed (use assms in \<open>simp add: delivered_def\<close>)

lemma segment_append: "a \<le> b \<Longrightarrow> b \<le> c \<Longrightarrow> take (b - a) (drop a xs) @ take (c - b) (drop b xs) = take (c - a) (drop a xs)"
  using take_add[of "b - a" "c - b" "drop a xs"] by simp

lemma poll_from_delivered:
  assumes laws: "watch_laws F t log pos" and cur: "wt_Cursor t \<noteq> []" and d: "delivered log pos p0 t h evs"
    and run: "poll_from F True t h = (t', h', out)" and nr: "\<forall>b\<in>set out. \<not> ev_Refresh (eb_Event b)"
  shows "delivered log pos p0 t' h' (evs @ batch_events out) \<and> prefix (log h) (log h') \<and>
    wt_VolumeID t' = wt_VolumeID t \<and> wt_ShareID t' = wt_ShareID t"
proof -
  obtain r h1 where p: "pollTargetOnce F t (wt_Cursor t) h = (r, h1)" by force
  have g: "prefix (log h) (log h1)" by (rule watch_lawsD(2)[OF laws p])
  show ?thesis
  proof (cases r)
    case (Inl err)
    have "\<not> isStaleCursorErr err"
      using run nr by (auto simp: poll_from_def p Inl deliverBatch_def zero_event_def Let_def split: prod.splits)
    then have "t' = t" "h' = h1" "batch_events out = []"
      using run by (auto simp: poll_from_def p Inl deliverBatch_def zero_event_def)
    then show ?thesis using delivered_grow[OF d g] g by simp
  next
    case (Inr e)
    have e: "\<not> ev_Refresh e" using run nr by (auto simp: poll_from_def p Inr deliverBatch_def Let_def split: prod.splits sum.splits if_splits)
    then have r: "t' = t\<lparr>wt_Cursor := ev_EventID e\<rparr>" "h' = h1" "batch_events out = ev_Events e"
      using run by (auto simp: poll_from_def p Inr deliverBatch_def Let_def)
    note l = watch_lawsD(4)[OF laws p[unfolded Inr] e]
    have "delivered log pos p0 t h1 evs" by (rule delivered_grow[OF d g])
    then have "p0 \<le> pos (wt_Cursor t)" "evs = take (pos (wt_Cursor t) - p0) (drop p0 (log h1))" using cur by (simp_all add: delivered_def)
    then show ?thesis using l g segment_append[of p0 "pos (wt_Cursor t)" "pos (ev_EventID e)" "log h1"] by (simp add: delivered_def r)
  qed
qed

text \<open>One poll of a target.  A target without a cursor starts at some position after the log's end.\<close>

lemma poll_delivered:
  assumes laws: "watch_laws F t log pos" and s: "delivered log pos p0 t h evs" "wt_Cursor t \<noteq> [] \<longrightarrow> n \<le> p0" "n \<le> length (log h)"
    and run: "pollWatchTarget F True t h = (t', h', out)" and nr: "\<forall>b\<in>set out. \<not> ev_Refresh (eb_Event b)"
  shows "prefix (log h) (log h') \<and> wt_VolumeID t' = wt_VolumeID t \<and> wt_ShareID t' = wt_ShareID t \<and>
    (\<exists>p1. (wt_Cursor t \<noteq> [] \<longrightarrow> p1 = p0 \<and> wt_Cursor t' \<noteq> []) \<and> (wt_Cursor t' \<noteq> [] \<longrightarrow> n \<le> p1) \<and>
       delivered log pos p1 t' h' (evs @ batch_events out))"
proof (cases "wt_Cursor t = []")
  case False
  have "wt_Cursor t' \<noteq> []"
  proof -
    obtain r h1 where p: "pollTargetOnce F t (wt_Cursor t) h = (r, h1)" by force
    show ?thesis
    proof (cases r)
      case (Inl err)
      then show ?thesis using run nr False
        by (auto simp: pollWatchTarget_def poll_from_def p deliverBatch_def zero_event_def Let_def split: prod.splits if_splits sum.splits)
    next
      case (Inr e)
      have e: "\<not> ev_Refresh e"
        using run nr False by (auto simp: pollWatchTarget_def poll_from_def p Inr deliverBatch_def Let_def split: prod.splits sum.splits if_splits)
      then show ?thesis using run False watch_lawsD(4)[OF laws p[unfolded Inr] e]
        by (auto simp: pollWatchTarget_def poll_from_def p Inr deliverBatch_def Let_def)
    qed
  qed
  moreover have "poll_from F True t h = (t', h', out)" using run False by (simp add: pollWatchTarget_def)
  ultimately show ?thesis using poll_from_delivered[OF laws False s(1) _ nr] s(2) False by blast
next
  case True
  then have evs: "evs = []" using s(1) by (simp add: delivered_def)
  obtain q h1 where l: "latestCursor F t h = (q, h1)" by force
  have g: "prefix (log h) (log h1)" by (rule watch_lawsD(1)[OF laws l])
  show ?thesis
  proof (cases q)
    case (Inl err)
    then have "t' = t" "h' = h1" "batch_events out = []"
      using run True by (auto simp: pollWatchTarget_def l deliverBatch_def zero_event_def)
    then show ?thesis using g True evs by (simp add: delivered_def)
  next
    case (Inr c)
    note lc = watch_lawsD(3)[OF laws l[unfolded Inr]]
    let ?t = "t\<lparr>wt_Cursor := c\<rparr>"
    have d: "delivered log pos (pos c) ?t h1 []" using lc by (simp add: delivered_def)
    have run': "poll_from F True ?t h1 = (t', h', out)" using run True by (simp add: pollWatchTarget_def l Inr)
    have laws': "watch_laws F ?t log pos" using laws by simp
    from poll_from_delivered[OF laws' _ d run' nr] lc
    have "delivered log pos (pos c) t' h' ([] @ batch_events out)" "prefix (log h1) (log h')"
      "wt_VolumeID t' = wt_VolumeID t" "wt_ShareID t' = wt_ShareID t" by simp_all
    moreover have "n \<le> pos c" using lc s(3) by simp
    ultimately show ?thesis using g True evs prefix_order.trans[OF g] by auto
  qed
qed


definition tracked :: "('h \<Rightarrow> 'e list) \<Rightarrow> (string \<Rightarrow> nat) \<Rightarrow> string \<Rightarrow> nat \<Rightarrow> WatchTarget \<Rightarrow> 'h \<Rightarrow> 'e list \<Rightarrow> bool" where
  "tracked log pos c0 n t h evs \<longleftrightarrow> n \<le> length (log h) \<and>
     (\<exists>p0. (c0 \<noteq> [] \<longrightarrow> p0 = pos c0 \<and> wt_Cursor t \<noteq> []) \<and> (wt_Cursor t \<noteq> [] \<longrightarrow> n \<le> p0) \<and> delivered log pos p0 t h evs)"

lemma tracked_grow: "tracked log pos c0 n t h evs \<Longrightarrow> prefix (log h) (log h') \<Longrightarrow> tracked log pos c0 n t h' evs"
  unfolding tracked_def using delivered_grow prefix_length_le le_trans by metis

lemma poll_tracked:
  assumes laws: "watch_laws F t log pos" and s: "tracked log pos c0 n t h evs"
    and run: "pollWatchTarget F True t h = (t', h', out)" and nr: "\<forall>b\<in>set out. \<not> ev_Refresh (eb_Event b)"
  shows "tracked log pos c0 n t' h' (evs @ batch_events out) \<and> wt_VolumeID t' = wt_VolumeID t \<and> wt_ShareID t' = wt_ShareID t"
proof -
  obtain p0 where p: "c0 \<noteq> [] \<longrightarrow> p0 = pos c0 \<and> wt_Cursor t \<noteq> []" "wt_Cursor t \<noteq> [] \<longrightarrow> n \<le> p0" "delivered log pos p0 t h evs"
    "n \<le> length (log h)" using s unfolding tracked_def by blast
  note d = poll_delivered[OF laws p(3,2,4) run nr]
  have "n \<le> length (log h')" using d p(4) prefix_length_le by fastforce
  then show ?thesis using d p(1) unfolding tracked_def by blast
qed

lemma poll_from_grows:
  assumes g: "log_grows F log" and run: "poll_from F taken t h = (t', h', out)"
  shows "prefix (log h) (log h')"
proof -
  obtain r h1 where p: "pollTargetOnce F t (wt_Cursor t) h = (r, h1)" by force
  have a: "prefix (log h) (log h1)" by (rule poll_grows[OF g p])
  have b: "prefix (log h1) (log h2)" if "latestCursor F t2 h1 = (q, h2)" for t2 q h2 by (rule latest_grows[OF g that])
  have "h' = h1 \<or> (\<exists>t2 q. latestCursor F t2 h1 = (q, h'))"
    using run by (fastforce simp: poll_from_def p Let_def split: sum.splits prod.splits if_splits)
  then show ?thesis using a b prefix_order.trans by blast
qed

lemma poll_target_grows:
  assumes g: "log_grows F log" and run: "pollWatchTarget F taken t h = (t', h', out)"
  shows "prefix (log h) (log h')"
proof (cases "wt_Cursor t = []")
  case True
  obtain q h1 where l: "latestCursor F t h = (q, h1)" by force
  have a: "prefix (log h) (log h1)" by (rule latest_grows[OF g l])
  show ?thesis
  proof (cases q)
    case (Inl e)
    with run True l a show ?thesis by (simp add: pollWatchTarget_def)
  next
    case (Inr c)
    with run True l have "poll_from F taken (t\<lparr>wt_Cursor := c\<rparr>) h1 = (t', h', out)" by (simp add: pollWatchTarget_def)
    from poll_from_grows[OF g this] a show ?thesis using prefix_order.trans by blast
  qed
next
  case False
  with run have "poll_from F taken t h = (t', h', out)" by (simp add: pollWatchTarget_def)
  then show ?thesis by (rule poll_from_grows[OF g])
qed

text \<open>The payload of the batches of target \<open>i\<close>, in the order they are delivered.\<close>

definition events_of :: "nat \<Rightarrow> (nat \<times> 'e EventBatch) list \<Rightarrow> 'e list" where
  "events_of i out = batch_events (map snd (filter (\<lambda>b. fst b = i) out))"

lemma events_of_simps [simp]:
  "events_of i [] = []" "events_of i (out1 @ out2) = events_of i out1 @ events_of i out2"
  "events_of i (map (Pair j) bs) = (if i = j then batch_events bs else [])"
  by (induction bs) (auto simp: events_of_def)

lemma round_shape:
  "watch_round F k flags ts h = (stop, ts', h', out) \<Longrightarrow> log_grows F log \<Longrightarrow>
    prefix (log h) (log h') \<and> length ts' = length ts \<and> (\<forall>b\<in>set out. k \<le> fst b)"
proof (induction F k flags ts h arbitrary: stop ts' h' out rule: watch_round.induct)
  case (3 F i cancelled taken flags t ts h)
  show ?case
  proof (cases cancelled)
    case False
    obtain t1 h1 o1 where p: "pollWatchTarget F taken t h = (t1, h1, o1)" by (metis prod_cases3)
    obtain s2 ts2 h2 o2 where r: "watch_round F (Suc i) flags ts h1 = (s2, ts2, h2, o2)" by (metis prod_cases4)
    have "prefix (log h1) (log h2) \<and> length ts2 = length ts \<and> (\<forall>b\<in>set o2. Suc i \<le> fst b)"
      using "3.IH"[OF False p[symmetric] refl r "3.prems"(2)] .
    moreover have "prefix (log h) (log h1)" by (rule poll_target_grows[OF "3.prems"(2) p])
    ultimately show ?thesis using "3.prems" False p r prefix_order.trans by fastforce
  qed (use "3.prems" in auto)
qed auto

lemma watch_laws_ids:
  "wt_VolumeID t' = wt_VolumeID t \<Longrightarrow> wt_ShareID t' = wt_ShareID t \<Longrightarrow> watch_laws F t' log pos = watch_laws F t log pos"
  by (simp add: watch_laws_def latest_in_log_def poll_in_log_def latestCursor_def pollTargetOnce_def)

lemma events_of_none: "\<forall>b\<in>set out. Suc i \<le> fst b \<Longrightarrow> events_of i out = []"
  by (induction out) (auto simp: events_of_def)

lemma round_tracked:
  "watch_round F k flags ts h = (stop, ts', h', out) \<Longrightarrow> log_grows F log \<Longrightarrow> i < length ts \<Longrightarrow>
    watch_laws F (ts ! i) log pos \<Longrightarrow> tracked log pos c0 n (ts ! i) h evs \<Longrightarrow> \<forall>f\<in>set flags. snd f \<Longrightarrow>
    \<forall>b\<in>set out. fst b = k + i \<longrightarrow> \<not> ev_Refresh (eb_Event (snd b)) \<Longrightarrow>
    tracked log pos c0 n (ts' ! i) h' (evs @ events_of (k + i) out) \<and> watch_laws F (ts' ! i) log pos"
proof (induction F k flags ts h arbitrary: stop ts' h' out i evs rule: watch_round.induct)
  case (3 F k cancelled taken flags t ts h)
  show ?case
  proof (cases cancelled)
    case False
    obtain t1 h1 o1 where p: "pollWatchTarget F taken t h = (t1, h1, o1)" by (metis prod_cases3)
    obtain s2 ts2 h2 o2 where r: "watch_round F (Suc k) flags ts h1 = (s2, ts2, h2, o2)" by (metis prod_cases4)
    have res: "ts' = t1 # ts2" "h' = h2" "out = map (Pair k) o1 @ o2" using "3.prems"(1) False p r by auto
    note shape = round_shape[OF r "3.prems"(2)]
    have taken using "3.prems"(6) by simp
    show ?thesis
    proof (cases i)
      case 0
      have nr: "\<forall>b\<in>set o1. \<not> ev_Refresh (eb_Event b)" using "3.prems"(7) unfolding res(3) 0 by (simp add: ball_Un)
      have s: "watch_laws F t log pos" "tracked log pos c0 n t h evs" using "3.prems"(4,5) 0 by simp_all
      have "pollWatchTarget F True t h = (t1, h1, o1)" using p \<open>taken\<close> by simp
      note t = poll_tracked[OF s this nr]
      have "watch_laws F t1 log pos" using watch_laws_ids t s(1) by blast
      moreover have "tracked log pos c0 n t1 h2 (evs @ batch_events o1)" by (rule tracked_grow[OF conjunct1[OF t] conjunct1[OF shape]])
      moreover have "events_of k o2 = []" using events_of_none shape by blast
      ultimately show ?thesis by (simp add: res 0)
    next
      case (Suc m)
      have g: "prefix (log h) (log h1)" by (rule poll_target_grows[OF "3.prems"(2) p])
      have m: "tracked log pos c0 n (ts ! m) h1 evs" using "3.prems"(5) g Suc by (simp add: tracked_grow)
      have "\<forall>b\<in>set o2. fst b = Suc k + m \<longrightarrow> \<not> ev_Refresh (eb_Event (snd b))" using "3.prems"(7) res(3) Suc by auto
      from "3.IH"[OF False p[symmetric] refl r "3.prems"(2) _ _ m _ this] "3.prems" Suc
      show ?thesis by (simp add: res)
    qed
  qed (use "3.prems" in auto)
qed auto

lemma watch_tracked:
  "WatchDriveEvents F ticks ts h = (ts', h', out) \<Longrightarrow> log_grows F log \<Longrightarrow> i < length ts \<Longrightarrow>
    watch_laws F (ts ! i) log pos \<Longrightarrow> tracked log pos c0 n (ts ! i) h evs \<Longrightarrow> \<forall>flags\<in>set ticks. \<forall>f\<in>set flags. snd f \<Longrightarrow>
    \<forall>b\<in>set out. fst b = i \<longrightarrow> \<not> ev_Refresh (eb_Event (snd b)) \<Longrightarrow>
    tracked log pos c0 n (ts' ! i) h' (evs @ events_of i out)"
proof (induction F ticks ts h arbitrary: ts' h' out evs rule: WatchDriveEvents.induct)
  case (2 F flags ticks ts h)
  obtain stop ts1 h1 o1 where r: "watch_round F 0 flags ts h = (stop, ts1, h1, o1)" by (metis prod_cases4)
  obtain ts2 h2 o2 where w: "WatchDriveEvents F ticks ts1 h1 = (ts2, h2, o2)" by (metis prod_cases3)
  have nr: "\<forall>b\<in>set o1. fst b = 0 + i \<longrightarrow> \<not> ev_Refresh (eb_Event (snd b))"
    using "2.prems"(1,7) r w by (auto split: if_splits)
  have t1: "tracked log pos c0 n (ts1 ! i) h1 (evs @ events_of (0 + i) o1) \<and> watch_laws F (ts1 ! i) log pos"
    by (rule round_tracked[OF r "2.prems"(2,3,4,5) _ nr]) (use "2.prems"(6) in simp)
  show ?case
  proof (cases stop)
    case True
    with "2.prems"(1) r t1 show ?thesis by simp
  next
    case False
    have res: "ts' = ts2" "h' = h2" "out = o1 @ o2" using "2.prems"(1) r w False by auto
    have "i < length ts1" using round_shape[OF r "2.prems"(2)] "2.prems"(3) by simp
    have nr2: "\<forall>b\<in>set o2. fst b = i \<longrightarrow> \<not> ev_Refresh (eb_Event (snd b))" using "2.prems"(7) by (simp add: res)
    have t1': "tracked log pos c0 n (ts1 ! i) h1 (evs @ events_of i o1)" "watch_laws F (ts1 ! i) log pos" using t1 by simp_all
    from "2.IH"[OF r[symmetric] refl refl False w "2.prems"(2) \<open>i < length ts1\<close> t1'(2,1) _ nr2] "2.prems"(6)
    show ?thesis by (simp add: res)
  qed
qed auto


section \<open>The watcher\<close>

text \<open>
  C18: what the watcher delivers for a target, as long as its batches are taken and none of them asks for a
  refresh, is a contiguous segment of the target's log: from the cursor the caller passed in (or, when
  it passed none, from a position no earlier than the end of the log when the watch began) up to the
  cursor the watcher has reached, every event once and in order, whatever polls fail and however the polls of
  the other targets and other clients interleave.
\<close>

theorem watch_contiguous:
  assumes "log_grows F log" "watch_laws F (ts ! i) log pos" "i < length ts"
    and "wt_Cursor (ts ! i) \<noteq> [] \<longrightarrow> pos (wt_Cursor (ts ! i)) \<le> length (log h)"
    and "WatchDriveEvents F ticks ts h = (ts', h', out)"
    and "\<forall>flags\<in>set ticks. \<forall>f\<in>set flags. snd f"
    and "\<forall>b\<in>set out. fst b = i \<longrightarrow> \<not> ev_Refresh (eb_Event (snd b))"
  shows "\<exists>p0. (if wt_Cursor (ts ! i) = [] then wt_Cursor (ts' ! i) \<noteq> [] \<longrightarrow> length (log h) \<le> p0 else p0 = pos (wt_Cursor (ts ! i))) \<and>
    (if wt_Cursor (ts' ! i) = [] then events_of i out = []
     else p0 \<le> pos (wt_Cursor (ts' ! i)) \<and> pos (wt_Cursor (ts' ! i)) \<le> length (log h') \<and>
          events_of i out = take (pos (wt_Cursor (ts' ! i)) - p0) (drop p0 (log h')))"
proof -
  let ?c = "wt_Cursor (ts ! i)" and ?n = "if wt_Cursor (ts ! i) = [] then length (log h) else 0"
  have "tracked log pos ?c ?n (ts ! i) h []" using assms(4) by (auto simp: tracked_def delivered_def)
  from watch_tracked[OF assms(5,1,3,2) this assms(6,7)] show ?thesis
    unfolding tracked_def delivered_def by (auto split: if_splits)
qed

text \<open>
  A service that gains an event with every call.  A cursor is written in unary, its position is its length
  less one; a cursor beyond the log is rejected.
\<close>

definition unaryService :: "(nat list, nat) eventFetcher" where
  "unaryService =
     (let fetch = (\<lambda>v c h.
            (if length h < length c - 1 then Inl (ApiStatus 422 ''cursor'')
             else Inr \<lparr>ev_EventID = replicate (length h + 1) CHR ''x'', ev_Events = drop (length c - 1) h, ev_Refresh = False\<rparr>,
             h @ [length h]));
          latest = (\<lambda>v h. (Inr (replicate (length h + 1) CHR ''x''), h @ [length h]))
      in \<lparr>ef_volumeEvent = fetch, ef_shareEvent = fetch, ef_latestVolume = latest, ef_latestShare = latest\<rparr>)"

lemma unary_laws: "log_grows unaryService id" "watch_laws unaryService t id (\<lambda>c. length c - 1)"
proof -
  show g: "log_grows unaryService id" by (simp add: log_grows_def unaryService_def Let_def)
  have "latest_in_log unaryService t id (\<lambda>c. length c - 1)"
    by (auto simp: latest_in_log_def latestCursor_def LatestShareCursor_def LatestVolumeCursor_def unaryService_def Let_def split: if_splits)
  moreover have "poll_in_log unaryService t id (\<lambda>c. length c - 1)"
    by (auto simp: poll_in_log_def pollTargetOnce_def PollShareOnce_def PollVolumeOnce_def unaryService_def Let_def split: if_splits)
  ultimately show "watch_laws unaryService t id (\<lambda>c. length c - 1)" using g by (simp add: watch_laws_def)
qed

definition twoTargets :: "WatchTarget list" where
  "twoTargets = [\<lparr>wt_VolumeID = ''v'', wt_ShareID = [], wt_Cursor = []\<rparr>, \<lparr>wt_VolumeID = [], wt_ShareID = ''s'', wt_Cursor = ''x''\<rparr>]"

theorem watch_contiguous_witness:
  "\<exists>p0. p0 = 0 \<and> events_of 1 (snd (snd (WatchDriveEvents unaryService [[(False, True), (False, True)], [(True, True)]] twoTargets [7])))
     = take (3 - p0) (drop p0 [7, 1, 2, 3])"
proof -
  have run: "WatchDriveEvents unaryService [[(False, True), (False, True)], [(True, True)]] twoTargets [7] =
    ([\<lparr>wt_VolumeID = ''v'', wt_ShareID = [], wt_Cursor = ''xxx''\<rparr>, \<lparr>wt_VolumeID = [], wt_ShareID = ''s'', wt_Cursor = ''xxxx''\<rparr>], [7, 1, 2, 3],
     snd (snd (WatchDriveEvents unaryService [[(False, True), (False, True)], [(True, True)]] twoTargets [7])))" by code_simp
  have nr: "\<forall>b\<in>set (snd (snd (WatchDriveEvents unaryService [[(False, True), (False, True)], [(True, True)]] twoTargets [7]))).
    fst b = 1 \<longrightarrow> \<not> ev_Refresh (eb_Event (snd b))" by code_simp
  show ?thesis
    using watch_contiguous[OF unary_laws(1) unary_laws(2) _ _ run _ nr] by (simp add: twoTargets_def)
qed

text \<open>
  After a refresh the watcher moves to the latest cursor, although the batch it has delivered tells the
  consumer to continue at the batch's own cursor: an event that arrives in between is never delivered.
\<close>

definition refreshService :: "(nat list, nat) eventFetcher" where
  "refreshService = unaryService\<lparr>ef_volumeEvent := (\<lambda>v c h.
     (Inr \<lparr>ev_EventID = replicate (length h + 1) CHR ''x'', ev_Events = drop (length c - 1) h, ev_Refresh = (length h = 1)\<rparr>, h @ [length h]))\<rparr>"

lemma refresh_gap:
  "(case WatchDriveEvents refreshService [[(False, True)], [(False, True)]] [\<lparr>wt_VolumeID = ''v'', wt_ShareID = [], wt_Cursor = ''x''\<rparr>] [7] of
      (ts, h, out) \<Rightarrow> (h, map (\<lambda>b. (wt_Cursor (eb_Target (snd b)), ev_Events (eb_Event (snd b)), ev_Refresh (eb_Event (snd b)))) out)) =
   ([7, 1, 2, 3], [(''xx'', [7], True), (''xxxx'', [2], False)])"
  by code_simp

end
