(* ===== verification/DriveClient.thy ===== *)
theory DriveClient
  imports BlockStore ConfigSettings RevisionXAttr "HOL-Library.Multiset"
begin

text \<open>
  The state of the drive client (\<^verbatim>\<open>api/drive/client.go\<close>) and its cache of links
  (\<^verbatim>\<open>api/drive/objectcache.go\<close>, \<^verbatim>\<open>api/drive/invalidate.go\<close>): the link table, the staging map filled at
  start-up, the entries on disk, the fetch path and the eviction of old entries.
\<close>

section \<open>Data of the API\<close>

text \<open>The constants the code names; every other value of the API is \<open>Other\<close>.\<close>

datatype LinkType = LinkTypeFolder | LinkTypeFile | LinkTypeOther nat
datatype LinkState = LinkStateDraft | LinkStateActive | LinkStateTrashed | LinkStateOther nat
datatype RevisionState = RevisionStateActive | RevisionStateOther nat

record revisionMeta =
  rv_ID :: string
  rv_State :: RevisionState
  rv_CreateTime :: int
  rv_Size :: int
  rv_XAttr :: string
  rv_SignatureEmail :: string

text \<open>A raw link; the name and the key are ciphertexts.\<close>

record protonLink =
  pl_LinkID :: string
  pl_ParentLinkID :: string
  pl_Type :: LinkType
  pl_State :: LinkState
  pl_Name :: string
  pl_NameSignatureEmail :: string
  pl_NodeKey :: string
  pl_SignatureEmail :: string
  pl_CreateTime :: int
  pl_ModifyTime :: int
  pl_MIMEType :: string
  pl_XAttr :: string
  pl_ActiveRevision :: "revisionMeta option"   \<comment> \<open>\<^verbatim>\<open>FileProperties\<close> may be nil\<close>

section \<open>State\<close>

text \<open>Links are heap objects: a \<open>lref\<close> is a position of the client's heap.\<close>

type_synonym lref = nat

record Share =
  sh_ShareID :: string
  sh_AddressID :: string
  sh_Key :: string
  sh_VolumeID :: string
  sh_MemoryCacheLevel :: MemoryCacheLevel
  sh_DiskCacheLevel :: DiskCacheLevel

record resolvedMeta =
  rm_size :: int
  rm_mtime :: int
  rm_ctime :: int
  rm_mode :: "32 word"

record FileInfo =
  fi_LinkID :: string
  fi_Size :: int
  fi_ModifyTime :: int
  fi_CreateTime :: int
  fi_MIMEType :: string
  fi_IsDir :: bool

record 'kr Link =
  l_protonLink :: protonLink
  l_parentLink :: "lref option"
  l_share :: "Share option"
  l_cachedName :: string
  l_cachedStat :: "FileInfo option"
  l_cachedKeyRing :: "'kr option"
  l_cachedChildIDs :: "string list option"
  l_meta :: "resolvedMeta option"
  l_fetchDone :: bool
  l_fetchFailCount :: nat

text \<open>
  The object cache of the client is the disk cache of its block store; \<open>dc_evicting\<close> also says that the
  goroutine it guards is under way.  \<open>dc_fired\<close> is the sequence of calls of the invalidation hook.
\<close>

record ('dv, 'h, 'kr) Client =
  dc_Shares :: "(string, ShareConfig) gomap option"
  dc_addresses :: "(string, string) gomap"
  dc_addressKeyRings :: "(string, 'kr) gomap"
  dc_linkTable :: "(string, lref) gomap"
  dc_heap :: "'kr Link list"
  dc_store :: "('dv, 'h) blockStore"
  dc_xattrFailCount :: "(string, nat) gomap"
  dc_hydratedLinks :: "(string, protonLink) gomap"
  dc_cacheCount :: int
  dc_evicting :: bool
  dc_fired :: "string list"

text \<open>
  Parameters: the disk, \<^verbatim>\<open>encoding/gob\<close>, the API client over the state of the network, the modification
  times of the cache files, cryptography, the decoding of metadata and timestamps, and the outcome of waiting on the
  session's throttle.
\<close>

record ('dv, 'h, 'kr) driveEnv =
  de_disk :: "'dv diskv"
  de_encode :: "protonLink \<Rightarrow> bytes option"
  de_decode :: "bytes \<Rightarrow> protonLink option"
  de_mtime :: "'dv \<Rightarrow> string \<Rightarrow> nat option"
  de_GetLink :: "string \<Rightarrow> string \<Rightarrow> 'h \<Rightarrow> (string + protonLink) \<times> 'h"
  de_GetRevision :: "string \<Rightarrow> string \<Rightarrow> string \<Rightarrow> 'h \<Rightarrow> (string + (string \<times> int)) \<times> 'h"
  de_ListChildren :: "string \<Rightarrow> string \<Rightarrow> bool \<Rightarrow> 'h \<Rightarrow> (string + protonLink list) \<times> 'h"
  de_GetName :: "string \<Rightarrow> 'kr \<Rightarrow> 'kr \<Rightarrow> string + string"
  de_GetKeyRing :: "string \<Rightarrow> 'kr \<Rightarrow> 'kr \<Rightarrow> string + 'kr"
  de_ShareKeyRing :: "string \<Rightarrow> 'kr \<Rightarrow> string + 'kr"
  de_DecXAttr :: "string \<Rightarrow> 'kr \<Rightarrow> 'kr \<Rightarrow> string + revisionXAttr option"
  de_UnmarshalPosix :: "string \<Rightarrow> PosixXAttr option"
  de_ParseTime :: "string \<Rightarrow> int option"
  de_throttleWait :: "'h \<Rightarrow> string option"

definition maxCacheEntries :: int where "maxCacheEntries = 10000"
definition evictionTarget :: nat where "evictionTarget = 9000"
definition maxXAttrRetries :: nat where "maxXAttrRetries = 3"

abbreviation dc_objectCache :: "('dv, 'h, 'kr) Client \<Rightarrow> 'dv option" where
  "dc_objectCache c \<equiv> bs_cache (dc_store c)"

abbreviation set_objectCache :: "'dv option \<Rightarrow> ('dv, 'h, 'kr) Client \<Rightarrow> ('dv, 'h, 'kr) Client" where
  "set_objectCache d c \<equiv> c\<lparr>dc_store := (dc_store c)\<lparr>bs_cache := d\<rparr>\<rparr>"

abbreviation set_net :: "'h \<Rightarrow> ('dv, 'h, 'kr) Client \<Rightarrow> ('dv, 'h, 'kr) Client" where
  "set_net h c \<equiv> c\<lparr>dc_store := (dc_store c)\<lparr>bs_net := h\<rparr>\<rparr>"

definition NewClient :: "(string, string) gomap \<Rightarrow> (string, 'kr) gomap \<Rightarrow> 'h \<Rightarrow> ('dv, 'h, 'kr) Client" where
  "NewClient addrs keyrings h =
     \<lparr>dc_Shares = None, dc_addresses = addrs, dc_addressKeyRings = keyrings, dc_linkTable = [], dc_heap = [],
      dc_store = \<lparr>bs_bufCache = None, bs_cache = None, bs_net = h\<rparr>, dc_xattrFailCount = [], dc_hydratedLinks = [],
      dc_cacheCount = 0, dc_evicting = False, dc_fired = []\<rparr>"

section \<open>Keys and entries\<close>

definition SanitizeLinkID :: "string \<Rightarrow> string" where
  "SanitizeLinkID i = rev (dropWhile (\<lambda>c. c = CHR ''='') (rev i))"

definition is_block_key :: "string \<Rightarrow> bool" where
  "is_block_key key = sublist ''.block.'' key"

definition revision_XAttr :: "protonLink \<Rightarrow> string" where
  "revision_XAttr p = (case pl_ActiveRevision p of None \<Rightarrow> [] | Some rv \<Rightarrow> rv_XAttr rv)"

definition revision_ID :: "protonLink \<Rightarrow> string" where
  "revision_ID p = (case pl_ActiveRevision p of None \<Rightarrow> [] | Some rv \<Rightarrow> rv_ID rv)"

text \<open>An entry that needs no further fetch.\<close>

definition complete_entry :: "protonLink \<Rightarrow> bool" where
  "complete_entry p \<longleftrightarrow> pl_Type p = LinkTypeFolder \<or> revision_XAttr p \<noteq> []"

section \<open>The link table\<close>

definition NewLink :: "protonLink \<Rightarrow> lref option \<Rightarrow> Share option \<Rightarrow> 'kr Link" where
  "NewLink p parent share =
     \<lparr>l_protonLink = p, l_parentLink = parent, l_share = share, l_cachedName = [], l_cachedStat = None,
      l_cachedKeyRing = None, l_cachedChildIDs = None, l_meta = None, l_fetchDone = False, l_fetchFailCount = 0\<rparr>"

definition alloc_link :: "'kr Link \<Rightarrow> ('dv, 'h, 'kr) Client \<Rightarrow> lref \<times> ('dv, 'h, 'kr) Client" where
  "alloc_link l c = (length (dc_heap c), c\<lparr>dc_heap := dc_heap c @ [l]\<rparr>)"

definition upd_link :: "lref \<Rightarrow> ('kr Link \<Rightarrow> 'kr Link) \<Rightarrow> ('dv, 'h, 'kr) Client \<Rightarrow> ('dv, 'h, 'kr) Client" where
  "upd_link r f c = c\<lparr>dc_heap := (dc_heap c)[r := f (dc_heap c ! r)]\<rparr>"

definition client_GetLink :: "('dv, 'h, 'kr) Client \<Rightarrow> string \<Rightarrow> lref option" where
  "client_GetLink c linkID = map_of (dc_linkTable c) linkID"

definition putLink :: "string \<Rightarrow> lref \<Rightarrow> ('dv, 'h, 'kr) Client \<Rightarrow> ('dv, 'h, 'kr) Client" where
  "putLink linkID r c = c\<lparr>dc_linkTable := AList.update linkID r (dc_linkTable c)\<rparr>"

definition deleteLink :: "string \<Rightarrow> ('dv, 'h, 'kr) Client \<Rightarrow> ('dv, 'h, 'kr) Client" where
  "deleteLink linkID c = c\<lparr>dc_linkTable := AList.delete linkID (dc_linkTable c)\<rparr>"

definition clearLinks :: "('dv, 'h, 'kr) driveEnv \<Rightarrow> ('dv, 'h, 'kr) Client \<Rightarrow> ('dv, 'h, 'kr) Client" where
  "clearLinks E c =
     (let c1 = c\<lparr>dc_linkTable := [], dc_xattrFailCount := [], dc_hydratedLinks := []\<rparr>
      in (set_objectCache (snd (objectCache_EraseAll (de_disk E) (dc_objectCache c1))) c1)\<lparr>dc_cacheCount := 0\<rparr>)"

section \<open>Entries on disk\<close>

definition triggerEviction :: "('dv, 'h, 'kr) Client \<Rightarrow> ('dv, 'h, 'kr) Client" where
  "triggerEviction c = (if dc_cacheCount c \<le> maxCacheEntries \<or> dc_evicting c then c else c\<lparr>dc_evicting := True\<rparr>)"

definition writeCacheEntry :: "('dv, 'h, 'kr) driveEnv \<Rightarrow> string \<Rightarrow> protonLink \<Rightarrow> ('dv, 'h, 'kr) Client \<Rightarrow> ('dv, 'h, 'kr) Client" where
  "writeCacheEntry E linkID p c =
     (case de_encode E p of
        None \<Rightarrow> c
      | Some data \<Rightarrow>
          (case objectCache_Write (de_disk E) (dc_objectCache c) (SanitizeLinkID linkID) data of
             (ok, d) \<Rightarrow>
               let c1 = set_objectCache d c
               in if ok then triggerEviction (c1\<lparr>dc_cacheCount := dc_cacheCount c1 + 1\<rparr>) else c1))"

definition drop_count :: "('dv, 'h, 'kr) Client \<Rightarrow> ('dv, 'h, 'kr) Client" where
  "drop_count c = (if dc_cacheCount c > 0 then c\<lparr>dc_cacheCount := dc_cacheCount c - 1\<rparr> else c)"

definition eraseCacheEntry :: "('dv, 'h, 'kr) driveEnv \<Rightarrow> string \<Rightarrow> ('dv, 'h, 'kr) Client \<Rightarrow> ('dv, 'h, 'kr) Client" where
  "eraseCacheEntry E linkID c =
     (case objectCache_Erase (de_disk E) (dc_objectCache c) (SanitizeLinkID linkID) of
        (ok, d) \<Rightarrow>
          let c1 = set_objectCache d c; c2 = (if ok then drop_count c1 else c1)
          in c2\<lparr>dc_xattrFailCount := AList.delete linkID (dc_xattrFailCount c2)\<rparr>)"

text \<open>Removing an entry found to be corrupt or incomplete: whatever the outcome, the count goes down.\<close>

definition discard_entry :: "('dv, 'h, 'kr) driveEnv \<Rightarrow> string \<Rightarrow> ('dv, 'h, 'kr) Client \<Rightarrow> ('dv, 'h, 'kr) Client" where
  "discard_entry E linkID c =
     drop_count (set_objectCache (snd (objectCache_Erase (de_disk E) (dc_objectCache c) (SanitizeLinkID linkID))) c)"

definition NewChildLink ::
    "('dv, 'h, 'kr) driveEnv \<Rightarrow> lref \<Rightarrow> protonLink \<Rightarrow> ('dv, 'h, 'kr) Client \<Rightarrow> lref \<times> ('dv, 'h, 'kr) Client" where
  "NewChildLink E parent p c =
     (case map_of (dc_linkTable c) (pl_LinkID p) of
        Some existing \<Rightarrow> (existing, c)
      | None \<Rightarrow>
          let share = l_share (dc_heap c ! parent);
              (r, c1) = alloc_link (NewLink p (Some parent) share) c;
              c2 = c1\<lparr>dc_linkTable := AList.update (pl_LinkID p) r (dc_linkTable c1),
                      dc_hydratedLinks := AList.delete (pl_LinkID p) (dc_hydratedLinks c1)\<rparr>
          in (r, if pl_Type p = LinkTypeFolder \<and> (case share of None \<Rightarrow> False | Some s \<Rightarrow> sh_DiskCacheLevel s = DiskCacheObjectStore)
                 then writeCacheEntry E (pl_LinkID p) p c2 else c2))"

section \<open>The fetch path\<close>

definition sharePermitsDiskCache :: "('dv, 'h, 'kr) Client \<Rightarrow> string \<Rightarrow> bool" where
  "sharePermitsDiskCache c shareID =
     (case (dc_Shares c, dc_objectCache c) of
        (Some shares, Some _) \<Rightarrow> (case map_of shares shareID of None \<Rightarrow> False | Some sc \<Rightarrow> sc_DiskCache sc = DiskCacheObjectStore)
      | _ \<Rightarrow> False)"

definition tryObjectCacheHit ::
    "('dv, 'h, 'kr) driveEnv \<Rightarrow> string \<Rightarrow> ('dv, 'h, 'kr) Client \<Rightarrow> protonLink option \<times> ('dv, 'h, 'kr) Client" where
  "tryObjectCacheHit E linkID c =
     (let disk =
        (case objectCache_Read (de_disk E) (dc_objectCache c) (SanitizeLinkID linkID) of
           None \<Rightarrow> (None, c)
         | Some data \<Rightarrow>
             (case de_decode E data of
                None \<Rightarrow> (None, discard_entry E linkID c)
              | Some p \<Rightarrow> if complete_entry p then (Some p, c) else (None, discard_entry E linkID c)))
      in case map_of (dc_hydratedLinks c) linkID of
           Some staged \<Rightarrow>
             if complete_entry staged
             then (Some staged, c\<lparr>dc_hydratedLinks := AList.delete linkID (dc_hydratedLinks c)\<rparr>)
             else disk
         | None \<Rightarrow> disk)"

definition takeStagedIncomplete :: "string \<Rightarrow> ('dv, 'h, 'kr) Client \<Rightarrow> protonLink option \<times> ('dv, 'h, 'kr) Client" where
  "takeStagedIncomplete linkID c =
     (case map_of (dc_hydratedLinks c) linkID of
        None \<Rightarrow> (None, c)
      | Some staged \<Rightarrow>
          if pl_Type staged \<noteq> LinkTypeFile then (None, c)
          else if revision_ID staged = [] then (None, c)
          else if revision_XAttr staged \<noteq> [] then (None, c)
          else (Some staged, c\<lparr>dc_hydratedLinks := AList.delete linkID (dc_hydratedLinks c)\<rparr>))"

definition set_revision :: "string \<Rightarrow> int \<Rightarrow> protonLink \<Rightarrow> protonLink" where
  "set_revision xattr sz p =
     p\<lparr>pl_ActiveRevision := map_option (\<lambda>rv. rv\<lparr>rv_XAttr := xattr, rv_Size := sz\<rparr>) (pl_ActiveRevision p)\<rparr>"

text \<open>From step 2 on: the link is known, its revision's metadata may be missing.\<close>

definition fetch_xattr ::
    "('dv, 'h, 'kr) driveEnv \<Rightarrow> string \<Rightarrow> string \<Rightarrow> bool \<Rightarrow> protonLink \<Rightarrow> ('dv, 'h, 'kr) Client
      \<Rightarrow> protonLink \<times> ('dv, 'h, 'kr) Client" where
  "fetch_xattr E shareID linkID diskAllowed p c =
     (let cached = (\<lambda>p c. if diskAllowed then writeCacheEntry E linkID p c else c)
      in if pl_Type p = LinkTypeFolder then (p, cached p c)
         else if revision_ID p = [] then (p, c)
         else
           let fails = (case map_of (dc_xattrFailCount c) linkID of None \<Rightarrow> 0 | Some n \<Rightarrow> n)
           in if fails \<ge> maxXAttrRetries then (p, c)
              else (case de_GetRevision E shareID linkID (revision_ID p) (bs_net (dc_store c)) of
                      (Inl err, h) \<Rightarrow>
                        let c1 = set_net h c
                        in (p, c1\<lparr>dc_xattrFailCount := AList.update linkID (fails + 1) (dc_xattrFailCount c1)\<rparr>)
                    | (Inr (xattr, sz), h) \<Rightarrow>
                        let p' = set_revision xattr sz p; c1 = set_net h c;
                            c2 = c1\<lparr>dc_xattrFailCount := AList.delete linkID (dc_xattrFailCount c1)\<rparr>
                        in (p', cached p' c2)))"

definition fetchLinkWithXAttr ::
    "('dv, 'h, 'kr) driveEnv \<Rightarrow> string \<Rightarrow> string \<Rightarrow> bool \<Rightarrow> protonLink option \<Rightarrow> ('dv, 'h, 'kr) Client
      \<Rightarrow> (string + protonLink) \<times> ('dv, 'h, 'kr) Client" where
  "fetchLinkWithXAttr E shareID linkID diskAllowed staged c =
     (case staged of
        Some p \<Rightarrow> apfst Inr (fetch_xattr E shareID linkID diskAllowed p c)
      | None \<Rightarrow>
          (case de_GetLink E shareID linkID (bs_net (dc_store c)) of
             (Inl err, h) \<Rightarrow> (Inl err, set_net h c)
           | (Inr p, h) \<Rightarrow> apfst Inr (fetch_xattr E shareID linkID diskAllowed p (set_net h c))))"

definition GetCachedLink ::
    "('dv, 'h, 'kr) driveEnv \<Rightarrow> string \<Rightarrow> string \<Rightarrow> ('dv, 'h, 'kr) Client \<Rightarrow> (string + protonLink) \<times> ('dv, 'h, 'kr) Client" where
  "GetCachedLink E shareID linkID c =
     (if sharePermitsDiskCache c shareID then
        (case tryObjectCacheHit E linkID c of
           (Some p, c1) \<Rightarrow> (Inr p, c1)
         | (None, c1) \<Rightarrow>
             (case takeStagedIncomplete linkID c1 of
                (staged, c2) \<Rightarrow> fetchLinkWithXAttr E shareID linkID True staged c2))
      else fetchLinkWithXAttr E shareID linkID False None c)"

section \<open>Start-up\<close>

text \<open>One key of the cache: what is staged for it, whether it counts as complete, and the disk afterwards.\<close>

definition hydrate_key ::
    "('dv, 'h, 'kr) driveEnv \<Rightarrow> string \<Rightarrow> 'dv option \<Rightarrow> protonLink option \<times> bool \<times> 'dv option" where
  "hydrate_key E key d =
     (let erased = snd (objectCache_Erase (de_disk E) d key)
      in if is_block_key key then (None, False, d)
         else (case objectCache_Read (de_disk E) d key of
                 None \<Rightarrow> (None, False, d)
               | Some data \<Rightarrow>
                   (case de_decode E data of
                      None \<Rightarrow> (None, False, erased)
                    | Some p \<Rightarrow>
                        if pl_Type p = LinkTypeFile \<and> revision_ID p = [] then (None, False, erased)
                        else if pl_Type p = LinkTypeFile \<and> revision_XAttr p = [] then (Some p, False, erased)
                        else (Some p, True, d))))"

fun hydrate_keys ::
    "('dv, 'h, 'kr) driveEnv \<Rightarrow> string list \<Rightarrow> 'dv option \<Rightarrow> (string, protonLink) gomap \<times> int \<times> 'dv option" where
  "hydrate_keys E [] d = ([], 0, d)"
| "hydrate_keys E (key # ks) d =
     (case hydrate_key E key d of
        (p, complete, d1) \<Rightarrow>
          (case hydrate_keys E ks d1 of
             (staged, n, d2) \<Rightarrow>
               ((case p of None \<Rightarrow> staged
                 | Some p \<Rightarrow> if map_of staged (pl_LinkID p) = None then (pl_LinkID p, p) # staged else staged),
                (if complete then n + 1 else n), d2)))"

definition hydrateFromCache :: "('dv, 'h, 'kr) driveEnv \<Rightarrow> ('dv, 'h, 'kr) Client \<Rightarrow> ('dv, 'h, 'kr) Client" where
  "hydrateFromCache E c =
     (case dc_objectCache c of
        None \<Rightarrow> c
      | Some dv \<Rightarrow>
          (case hydrate_keys E (objectCache_Keys (de_disk E) (Some dv)) (Some dv) of
             (staged, n, d) \<Rightarrow>
               (set_objectCache d c)\<lparr>dc_hydratedLinks := fold (\<lambda>(i, p) m. AList.update i p m) staged (dc_hydratedLinks c),
                                    dc_cacheCount := n\<rparr>))"

text \<open>\<open>runtimeDir\<close> is \<^verbatim>\<open>$XDG_RUNTIME_DIR\<close>, \<open>newDisk\<close> the store opened in it.\<close>

definition InitObjectCache ::
    "('dv, 'h, 'kr) driveEnv \<Rightarrow> string \<Rightarrow> (string \<Rightarrow> 'dv) \<Rightarrow> ('dv, 'h, 'kr) Client \<Rightarrow> ('dv, 'h, 'kr) Client" where
  "InitObjectCache E runtimeDir newDisk c =
     (case dc_Shares c of
        None \<Rightarrow> c
      | Some shares \<Rightarrow>
          if \<not> list_ex (\<lambda>(_, sc). sc_DiskCache sc = DiskCacheObjectStore) shares then c
          else if runtimeDir = [] then c
          else hydrateFromCache E
                 (c\<lparr>dc_store := \<lparr>bs_bufCache = Some (newBufferCache 64), bs_cache = Some (newDisk (runtimeDir @ ''/proton/drive'')),
                                bs_net = bs_net (dc_store c)\<rparr>\<rparr>))"

section \<open>Eviction\<close>

fun erase_entries :: "'dv diskv \<Rightarrow> string list \<Rightarrow> 'dv option \<Rightarrow> nat \<times> 'dv option" where
  "erase_entries D [] d = (0, d)"
| "erase_entries D (key # ks) d =
     (case objectCache_Erase D d key of
        (ok, d1) \<Rightarrow> (case erase_entries D ks d1 of (n, d2) \<Rightarrow> (if ok then n + 1 else n, d2)))"

text \<open>The entries of the pass: every key that is not a block, with the modification time of its file.\<close>

definition eviction_entries :: "('dv, 'h, 'kr) driveEnv \<Rightarrow> ('dv, 'h, 'kr) Client \<Rightarrow> (string \<times> nat) list" where
  "eviction_entries E c =
     (case dc_objectCache c of
        None \<Rightarrow> []
      | Some dv \<Rightarrow>
          List.map_filter (\<lambda>key. if is_block_key key \<or> length key < 2 then None else map_option (Pair key) (de_mtime E dv key))
            (objectCache_Keys (de_disk E) (Some dv)))"

definition runEviction :: "('dv, 'h, 'kr) driveEnv \<Rightarrow> ('dv, 'h, 'kr) Client \<Rightarrow> ('dv, 'h, 'kr) Client" where
  "runEviction E c =
     (let entries = eviction_entries E c
      in if length entries \<le> evictionTarget
         then c\<lparr>dc_cacheCount := int (length entries), dc_evicting := False\<rparr>
         else
           let oldest = map fst (take (length entries - evictionTarget) (sort_key snd entries))
           in (case erase_entries (de_disk E) oldest (dc_objectCache c) of
                 (n, d) \<Rightarrow> (set_objectCache d c)\<lparr>dc_cacheCount := int (length entries - n), dc_evicting := False\<rparr>))"

section \<open>Invalidation\<close>

definition InvalidateChildren :: "lref \<Rightarrow> ('dv, 'h, 'kr) Client \<Rightarrow> ('dv, 'h, 'kr) Client" where
  "InvalidateChildren r = upd_link r (\<lambda>l. l\<lparr>l_cachedChildIDs := None\<rparr>)"

definition fireInvalidationHook :: "string \<Rightarrow> ('dv, 'h, 'kr) Client \<Rightarrow> ('dv, 'h, 'kr) Client" where
  "fireInvalidationHook parentLinkID c =
     (if parentLinkID = [] then c else c\<lparr>dc_fired := dc_fired c @ [parentLinkID]\<rparr>)"

definition clear_listing :: "string \<Rightarrow> ('dv, 'h, 'kr) Client \<Rightarrow> ('dv, 'h, 'kr) Client" where
  "clear_listing parentLinkID c =
     (case client_GetLink c parentLinkID of None \<Rightarrow> c | Some r \<Rightarrow> InvalidateChildren r c)"

definition InvalidateLink ::
    "('dv, 'h, 'kr) driveEnv \<Rightarrow> string \<Rightarrow> string \<Rightarrow> int \<Rightarrow> ('dv, 'h, 'kr) Client \<Rightarrow> ('dv, 'h, 'kr) Client" where
  "InvalidateLink E linkID parentLinkID blockCount c =
     (let c1 = deleteLink linkID c; c2 = eraseCacheEntry E linkID c1;
          c3 = (if blockCount > 0 then c2\<lparr>dc_store := blockStore_Invalidate (de_disk E) linkID blockCount (dc_store c2)\<rparr> else c2)
      in fireInvalidationHook parentLinkID (clear_listing parentLinkID c3))"

definition InvalidateParent :: "('dv, 'h, 'kr) driveEnv \<Rightarrow> string \<Rightarrow> ('dv, 'h, 'kr) Client \<Rightarrow> ('dv, 'h, 'kr) Client" where
  "InvalidateParent E parentLinkID c =
     (if parentLinkID = [] then c
      else fireInvalidationHook parentLinkID
             (eraseCacheEntry E parentLinkID (deleteLink parentLinkID (clear_listing parentLinkID c))))"

definition StatLink ::
    "('dv, 'h, 'kr) driveEnv \<Rightarrow> Share \<Rightarrow> lref option \<Rightarrow> string \<Rightarrow> ('dv, 'h, 'kr) Client \<Rightarrow> (string + lref) \<times> ('dv, 'h, 'kr) Client" where
  "StatLink E share parent linkID c =
     (case client_GetLink c linkID of
        Some r \<Rightarrow> (Inr r, c)
      | None \<Rightarrow>
          (case GetCachedLink E (sh_ShareID share) linkID c of
             (Inl err, c1) \<Rightarrow> (Inl err, c1)
           | (Inr p, c1) \<Rightarrow> (case alloc_link (NewLink p parent (Some share)) c1 of (r, c2) \<Rightarrow> (Inr r, putLink linkID r c2))))"


section \<open>What the cache holds\<close>

text \<open>
  \<open>Q key p\<close> says that \<open>p\<close> is a state of the link \<open>key\<close> that the service has reported, possibly completed with
  the metadata of its revision.  The laws: the disk keeps what is written, decoding inverts encoding, a link
  carries its own identifier, and \<open>Q\<close> holds of what the service returns.
\<close>

definition link_laws :: "('dv, 'h, 'kr) driveEnv \<Rightarrow> (string \<Rightarrow> protonLink \<Rightarrow> bool) \<Rightarrow> bool" where
  "link_laws E Q \<longleftrightarrow> diskv_laws (de_disk E) \<and>
     (\<forall>dv key. dvRead (de_disk E) (snd (dvEraseAll (de_disk E) dv)) key \<in> {None, dvRead (de_disk E) dv key}) \<and>
     (\<forall>p data. de_encode E p = Some data \<longrightarrow> de_decode E data = Some p) \<and>
     (\<forall>key p. Q key p \<longrightarrow> SanitizeLinkID (pl_LinkID p) = key) \<and>
     (\<forall>sid l h p h'. de_GetLink E sid l h = (Inr p, h') \<longrightarrow> Q (SanitizeLinkID l) p) \<and>
     (\<forall>sid l h x n h' p. de_GetRevision E sid l (revision_ID p) h = (Inr (x, n), h') \<longrightarrow> Q (SanitizeLinkID l) p \<longrightarrow>
        Q (SanitizeLinkID l) (set_revision x n p))"

lemma link_lawsD:
  assumes "link_laws E Q"
  shows "diskv_laws (de_disk E)"
    "dvRead (de_disk E) (snd (dvEraseAll (de_disk E) dv)) key \<in> {None, dvRead (de_disk E) dv key}"
    "de_encode E p = Some data \<Longrightarrow> de_decode E data = Some p"
    "Q key p \<Longrightarrow> SanitizeLinkID (pl_LinkID p) = key"
    "de_GetLink E sid l h = (Inr p, h') \<Longrightarrow> Q (SanitizeLinkID l) p"
    "de_GetRevision E sid l (revision_ID p) h = (Inr (x, n), h') \<Longrightarrow> Q (SanitizeLinkID l) p \<Longrightarrow> Q (SanitizeLinkID l) (set_revision x n p)"
  using assms unfolding link_laws_def by blast+

definition entry_ok :: "('dv, 'h, 'kr) driveEnv \<Rightarrow> (string \<Rightarrow> protonLink \<Rightarrow> bool) \<Rightarrow> string \<Rightarrow> bytes \<Rightarrow> bool" where
  "entry_ok E Q key data \<longleftrightarrow> \<not> is_block_key key \<longrightarrow> (\<forall>p. de_decode E data = Some p \<longrightarrow> Q key p)"

definition cache_ok :: "('dv, 'h, 'kr) driveEnv \<Rightarrow> (string \<Rightarrow> protonLink \<Rightarrow> bool) \<Rightarrow> ('dv, 'h, 'kr) Client \<Rightarrow> bool" where
  "cache_ok E Q c \<longleftrightarrow> disk_holds (de_disk E) (entry_ok E Q) (dc_objectCache c) \<and>
     (\<forall>l p. map_of (dc_hydratedLinks c) l = Some p \<longrightarrow> Q (SanitizeLinkID l) p)"

lemma cache_ok_frame [simp]:
  "cache_ok E Q (c\<lparr>dc_linkTable := t\<rparr>) = cache_ok E Q c" "cache_ok E Q (c\<lparr>dc_heap := hp\<rparr>) = cache_ok E Q c"
  "cache_ok E Q (c\<lparr>dc_xattrFailCount := x\<rparr>) = cache_ok E Q c" "cache_ok E Q (c\<lparr>dc_cacheCount := n\<rparr>) = cache_ok E Q c"
  "cache_ok E Q (c\<lparr>dc_evicting := b\<rparr>) = cache_ok E Q c" "cache_ok E Q (c\<lparr>dc_fired := f\<rparr>) = cache_ok E Q c"
  "cache_ok E Q (set_net h c) = cache_ok E Q c"
  by (simp_all add: cache_ok_def)

lemma cache_ok_disk: "cache_ok E Q c \<Longrightarrow> disk_holds (de_disk E) (entry_ok E Q) d \<Longrightarrow> cache_ok E Q (set_objectCache d c)"
  by (simp add: cache_ok_def)

lemma cache_ok_unstage: "cache_ok E Q c \<Longrightarrow> cache_ok E Q (c\<lparr>dc_hydratedLinks := AList.delete l (dc_hydratedLinks c)\<rparr>)"
  by (simp add: cache_ok_def)

lemma cache_ok_drop_count [simp]: "cache_ok E Q (drop_count c) = cache_ok E Q c"
  by (simp add: drop_count_def)

lemma cache_ok_trigger [simp]: "cache_ok E Q (triggerEviction c) = cache_ok E Q c"
  by (simp add: triggerEviction_def)

lemma cache_ok_write [preserves]:
  assumes l: "link_laws E Q" and c: "cache_ok E Q c" and q: "Q (SanitizeLinkID i) p"
  shows "cache_ok E Q (writeCacheEntry E i p c)"
proof (cases "de_encode E p")
  case (Some data)
  obtain ok d where w: "objectCache_Write (de_disk E) (dc_objectCache c) (SanitizeLinkID i) data = (ok, d)" by force
  have "entry_ok E Q (SanitizeLinkID i) data" using link_lawsD(3)[OF l Some] q by (simp add: entry_ok_def)
  then have "disk_holds (de_disk E) (entry_ok E Q) d"
    using disk_holds_Write[OF link_lawsD(1)[OF l], of "entry_ok E Q" "dc_objectCache c"] c w by (fastforce simp: cache_ok_def)
  then show ?thesis using cache_ok_disk[OF c] by (simp add: writeCacheEntry_def Some w Let_def)
qed (use c in \<open>simp add: writeCacheEntry_def\<close>)

lemma erase_ok:
  assumes "link_laws E Q" "cache_ok E Q c"
  shows "cache_ok E Q (set_objectCache (snd (objectCache_Erase (de_disk E) (dc_objectCache c) key)) c)"
  using assms(2) disk_holds_Erase[OF link_lawsD(1)[OF assms(1)]] by (simp add: cache_ok_def)

lemma cache_ok_erase [preserves]: "link_laws E Q \<Longrightarrow> cache_ok E Q c \<Longrightarrow> cache_ok E Q (eraseCacheEntry E i c)"
  using erase_ok[of E Q c "SanitizeLinkID i"] by (auto simp: eraseCacheEntry_def Let_def split: prod.splits)

lemma cache_ok_discard [preserves]: "link_laws E Q \<Longrightarrow> cache_ok E Q c \<Longrightarrow> cache_ok E Q (discard_entry E i c)"
  using erase_ok[of E Q c "SanitizeLinkID i"] by (simp add: discard_entry_def)

lemma cache_ok_NewChildLink [preserves]:
  assumes "link_laws E Q" "cache_ok E Q c" "Q (SanitizeLinkID (pl_LinkID p)) p"
  shows "cache_ok E Q (snd (NewChildLink E parent p c))"
proof -
  have "cache_ok E Q (c\<lparr>dc_heap := hp, dc_linkTable := t, dc_hydratedLinks := AList.delete l (dc_hydratedLinks c)\<rparr>)" for hp t l
    using assms(2) by (simp add: cache_ok_def)
  note c1 = this cache_ok_write[OF assms(1) this assms(3)]
  show ?thesis
    by (auto simp: NewChildLink_def alloc_link_def Let_def assms(2) intro: c1 split: option.splits)
qed

section \<open>The fetch path keeps the cache\<close>

lemma tryObjectCacheHit_ok:
  assumes l: "link_laws E Q" and c: "cache_ok E Q c" and run: "tryObjectCacheHit E i c = (r, c')"
    and nb: "\<not> is_block_key (SanitizeLinkID i)"
  shows "cache_ok E Q c' \<and> (\<forall>p. r = Some p \<longrightarrow> Q (SanitizeLinkID i) p \<and> complete_entry p)"
proof -
  have disk: "Q (SanitizeLinkID i) p" if "objectCache_Read (de_disk E) (dc_objectCache c) (SanitizeLinkID i) = Some data"
    "de_decode E data = Some p" for data p
    using c that nb by (simp add: cache_ok_def disk_holds_def entry_ok_def)
  have staged: "Q (SanitizeLinkID i) p" if "map_of (dc_hydratedLinks c) i = Some p" for p
    using c that by (simp add: cache_ok_def)
  show ?thesis using run c disk staged cache_ok_discard[OF l c] cache_ok_unstage[OF c]
    by (fastforce simp: tryObjectCacheHit_def Let_def split: option.splits if_splits)
qed

lemma takeStaged_ok:
  assumes "cache_ok E Q c" "takeStagedIncomplete i c = (r, c')"
  shows "cache_ok E Q c' \<and> (\<forall>p. r = Some p \<longrightarrow> Q (SanitizeLinkID i) p)"
  using assms cache_ok_unstage[OF assms(1)]
  by (fastforce simp: takeStagedIncomplete_def cache_ok_def split: option.splits if_splits)

lemma fetch_xattr_ok:
  assumes l: "link_laws E Q" and c: "cache_ok E Q c" and q: "Q (SanitizeLinkID i) p"
    and run: "fetch_xattr E sid i disk p c = (p', c')"
  shows "cache_ok E Q c' \<and> Q (SanitizeLinkID i) p'"
proof (cases "pl_Type p = LinkTypeFolder \<or> revision_ID p = [] \<or>
    (case map_of (dc_xattrFailCount c) i of None \<Rightarrow> 0 | Some n \<Rightarrow> n) \<ge> maxXAttrRetries")
  case True
  then show ?thesis using run q c cache_ok_write[OF l c q] by (auto simp: fetch_xattr_def Let_def split: if_splits)
next
  case False
  obtain r h where g: "de_GetRevision E sid i (revision_ID p) (bs_net (dc_store c)) = (r, h)" by force
  show ?thesis
  proof (cases r)
    case (Inl e)
    then show ?thesis using run q c False g by (auto simp: fetch_xattr_def Let_def)
  next
    case (Inr xn)
    obtain x n where xn: "xn = (x, n)" by force
    have q': "Q (SanitizeLinkID i) (set_revision x n p)" using link_lawsD(6)[OF l g[unfolded Inr xn] q] .
    have "cache_ok E Q (set_net h c\<lparr>dc_xattrFailCount := AList.delete i (dc_xattrFailCount c)\<rparr>)" using c by simp
    from cache_ok_write[OF l this q'] this q' show ?thesis
      using run False g by (auto simp: fetch_xattr_def Let_def Inr xn)
  qed
qed

lemma fetchLink_ok:
  assumes l: "link_laws E Q" and c: "cache_ok E Q c" and staged: "\<forall>p. s = Some p \<longrightarrow> Q (SanitizeLinkID i) p"
    and run: "fetchLinkWithXAttr E sid i disk s c = (r, c')"
  shows "cache_ok E Q c' \<and> (\<forall>p. r = Inr p \<longrightarrow> Q (SanitizeLinkID i) p)"
proof (cases s)
  case None
  obtain g h where g: "de_GetLink E sid i (bs_net (dc_store c)) = (g, h)" by force
  show ?thesis
  proof (cases g)
    case (Inl e)
    then show ?thesis using run None g c by (auto simp: fetchLinkWithXAttr_def)
  next
    case (Inr p)
    have "cache_ok E Q (set_net h c)" using c by simp
    from fetch_xattr_ok[OF l this link_lawsD(5)[OF l g[unfolded Inr]]] show ?thesis
      using run None g Inr by (cases "fetch_xattr E sid i disk p (set_net h c)") (auto simp: fetchLinkWithXAttr_def)
  qed
next
  case (Some p)
  then show ?thesis using fetch_xattr_ok[OF l c, of i p sid disk] staged run
    by (cases "fetch_xattr E sid i disk p c") (auto simp: fetchLinkWithXAttr_def)
qed

lemma GetCachedLink_ok:
  assumes l: "link_laws E Q" and c: "cache_ok E Q c" and nb: "\<not> is_block_key (SanitizeLinkID i)"
    and run: "GetCachedLink E sid i c = (r, c')"
  shows "cache_ok E Q c' \<and> (\<forall>p. r = Inr p \<longrightarrow> Q (SanitizeLinkID i) p)"
proof (cases "sharePermitsDiskCache c sid")
  case True
  obtain hit c1 where h: "tryObjectCacheHit E i c = (hit, c1)" by force
  note ok1 = tryObjectCacheHit_ok[OF l c h nb]
  obtain s c2 where t: "takeStagedIncomplete i c1 = (s, c2)" by force
  note ok2 = takeStaged_ok[OF conjunct1[OF ok1] t]
  show ?thesis
  proof (cases hit)
    case None
    then have "fetchLinkWithXAttr E sid i True s c2 = (r, c')" using run True h t by (simp add: GetCachedLink_def)
    from fetchLink_ok[OF l _ _ this] ok2 show ?thesis by blast
  next
    case (Some p)
    then show ?thesis using run True h ok1 by (auto simp: GetCachedLink_def)
  qed
next
  case False
  then have "fetchLinkWithXAttr E sid i False None c = (r, c')" using run by (simp add: GetCachedLink_def)
  from fetchLink_ok[OF l c _ this] show ?thesis by simp
qed


section \<open>Every operation keeps the cache\<close>

lemma hydrate_key_ok:
  assumes l: "link_laws E Q" and d: "disk_holds (de_disk E) (entry_ok E Q) d" and run: "hydrate_key E key d = (s, complete, d')"
  shows "disk_holds (de_disk E) (entry_ok E Q) d' \<and> (\<forall>p. s = Some p \<longrightarrow> Q (SanitizeLinkID (pl_LinkID p)) p)"
proof -
  have e: "disk_holds (de_disk E) (entry_ok E Q) (snd (objectCache_Erase (de_disk E) d key))"
    by (rule disk_holds_Erase[OF link_lawsD(1)[OF l] d])
  have "Q (SanitizeLinkID (pl_LinkID p)) p"
    if "objectCache_Read (de_disk E) d key = Some data" "de_decode E data = Some p" "\<not> is_block_key key" for data p
  proof -
    have "Q key p" using d that by (simp add: disk_holds_def entry_ok_def)
    then show ?thesis using link_lawsD(4)[OF l] by simp
  qed
  then show ?thesis using run d e
    by (auto simp: hydrate_key_def Let_def split: option.splits if_splits)
qed

lemma hydrate_keys_ok:
  assumes l: "link_laws E Q"
  shows "disk_holds (de_disk E) (entry_ok E Q) d \<Longrightarrow> hydrate_keys E ks d = (staged, n, d') \<Longrightarrow>
    disk_holds (de_disk E) (entry_ok E Q) d' \<and> (\<forall>(i, p)\<in>set staged. Q (SanitizeLinkID i) p)"
proof (induction ks arbitrary: d staged n d')
  case (Cons key ks)
  obtain s complete d1 where k: "hydrate_key E key d = (s, complete, d1)" by (metis prod_cases3)
  obtain staged1 n1 d2 where r: "hydrate_keys E ks d1 = (staged1, n1, d2)" by (metis prod_cases3)
  note ok = hydrate_key_ok[OF l Cons.prems(1) k]
  from Cons.IH[OF conjunct1[OF ok] r] ok Cons.prems(2) k r show ?case
    by (auto split: option.splits if_splits)
qed simp

lemma fold_update_ok:
  assumes "\<forall>(i, p)\<in>set ps. P i p"
  shows "\<forall>i p. map_of m i = Some p \<longrightarrow> P i p \<Longrightarrow> map_of (fold (\<lambda>(i, p) m. AList.update i p m) ps m) i = Some p \<Longrightarrow> P i p"
  using assms
proof (induction ps arbitrary: m)
  case (Cons x ps)
  obtain a b where x: "x = (a, b)" by force
  have "\<forall>i p. map_of (AList.update a b m) i = Some p \<longrightarrow> P i p" using Cons.prems(1,3) by (simp add: x)
  from Cons.IH[OF this] Cons.prems(2,3) show ?case by (simp add: x)
qed simp

lemma cache_ok_hydrate [preserves]:
  assumes l: "link_laws E Q" and c: "cache_ok E Q c"
  shows "cache_ok E Q (hydrateFromCache E c)"
proof (cases "dc_objectCache c")
  case (Some dv)
  obtain staged n d where h: "hydrate_keys E (objectCache_Keys (de_disk E) (Some dv)) (Some dv) = (staged, n, d)" by (metis prod_cases3)
  have "disk_holds (de_disk E) (entry_ok E Q) (Some dv)" using c Some by (simp add: cache_ok_def)
  note ok = hydrate_keys_ok[OF l this h]
  have "\<forall>i p. map_of (dc_hydratedLinks c) i = Some p \<longrightarrow> Q (SanitizeLinkID i) p" using c by (simp add: cache_ok_def)
  note st = fold_update_ok[OF conjunct2[OF ok] this]
  show ?thesis using ok st by (simp add: hydrateFromCache_def Some h cache_ok_def)
qed (use c in \<open>simp add: hydrateFromCache_def\<close>)

lemma cache_ok_init [preserves]:
  assumes l: "link_laws E Q" and c: "cache_ok E Q c" and new: "\<forall>dir. disk_holds (de_disk E) (entry_ok E Q) (Some (newDisk dir))"
  shows "cache_ok E Q (InitObjectCache E runtimeDir newDisk c)"
proof -
  have "cache_ok E Q (c\<lparr>dc_store := \<lparr>bs_bufCache = b, bs_cache = Some (newDisk dir), bs_net = h\<rparr>\<rparr>)" for b dir h
    using c new by (simp add: cache_ok_def)
  then show ?thesis using c cache_ok_hydrate[OF l] by (auto simp: InitObjectCache_def split: option.splits)
qed

lemma erase_entries_ok:
  assumes "diskv_laws D"
  shows "disk_holds D P d \<Longrightarrow> erase_entries D ks d = (n, d') \<Longrightarrow> disk_holds D P d'"
proof (induction ks arbitrary: d n d')
  case (Cons key ks)
  obtain ok d1 where e: "objectCache_Erase D d key = (ok, d1)" by force
  have "disk_holds D P d1" using disk_holds_Erase[OF assms Cons.prems(1), of key] e by simp
  with Cons e show ?case by (auto split: prod.splits)
qed simp

lemma cache_ok_evict [preserves]:
  assumes l: "link_laws E Q" and c: "cache_ok E Q c"
  shows "cache_ok E Q (runEviction E c)"
proof -
  obtain n d where e: "erase_entries (de_disk E)
      (map fst (take (length (eviction_entries E c) - evictionTarget) (sort_key snd (eviction_entries E c)))) (dc_objectCache c) = (n, d)" by force
  have "disk_holds (de_disk E) (entry_ok E Q) (dc_objectCache c)" using c by (simp add: cache_ok_def)
  from erase_entries_ok[OF link_lawsD(1)[OF l] this e] show ?thesis
    using c cache_ok_disk[OF c] by (simp add: runEviction_def Let_def e)
qed

lemma cache_ok_clear [preserves]:
  assumes l: "link_laws E Q" and c: "cache_ok E Q c"
  shows "cache_ok E Q (clearLinks E c)"
proof -
  have "disk_holds (de_disk E) (entry_ok E Q) (snd (objectCache_EraseAll (de_disk E) (dc_objectCache c)))"
  proof (cases "dc_objectCache c")
    case (Some dv)
    have "dvRead (de_disk E) (snd (dvEraseAll (de_disk E) dv)) key = Some x \<Longrightarrow> dvRead (de_disk E) dv key = Some x" for key x
      using link_lawsD(2)[OF l, of dv key] by auto
    then show ?thesis using c Some by (simp add: cache_ok_def disk_holds_def objectCache_EraseAll_def)
  qed (simp add: objectCache_EraseAll_def)
  then show ?thesis by (simp add: clearLinks_def Let_def cache_ok_def)
qed

lemma erase_blocks_ok:
  assumes "diskv_laws D"
  shows "disk_holds D P d \<Longrightarrow> disk_holds D P (erase_blocks D i ks d)"
  by (induction ks arbitrary: d) (auto simp: erase_blocks_def intro: disk_holds_Erase[OF assms])

lemma cache_ok_clear_listing [simp]: "cache_ok E Q (clear_listing i c) = cache_ok E Q c"
  by (simp add: clear_listing_def InvalidateChildren_def upd_link_def split: option.split)

lemma cache_ok_fire [simp]: "cache_ok E Q (fireInvalidationHook i c) = cache_ok E Q c"
  by (simp add: fireInvalidationHook_def)

lemma cache_ok_deleteLink [simp]: "cache_ok E Q (deleteLink i c) = cache_ok E Q c" "cache_ok E Q (putLink i r c) = cache_ok E Q c"
  by (simp_all add: deleteLink_def putLink_def)

lemma cache_ok_invalidate [preserves]:
  assumes l: "link_laws E Q" and c: "cache_ok E Q c"
  shows "cache_ok E Q (InvalidateLink E i parent n c)" "cache_ok E Q (InvalidateParent E parent c)"
proof -
  have blocks: "cache_ok E Q (c'\<lparr>dc_store := blockStore_Invalidate (de_disk E) i n (dc_store c')\<rparr>)" if "cache_ok E Q c'" for c'
    using that erase_blocks_ok[OF link_lawsD(1)[OF l]] by (simp add: cache_ok_def blockStore_Invalidate_def Let_def)
  have "cache_ok E Q (eraseCacheEntry E i (deleteLink i c))" using cache_ok_erase[OF l] c by simp
  then show "cache_ok E Q (InvalidateLink E i parent n c)" using blocks by (simp add: InvalidateLink_def Let_def)
  show "cache_ok E Q (InvalidateParent E parent c)" using cache_ok_erase[OF l] c by (simp add: InvalidateParent_def)
qed


lemma cache_ok_StatLink [preserves]:
  assumes l: "link_laws E Q" and c: "cache_ok E Q c" and nb: "\<not> is_block_key (SanitizeLinkID i)"
  shows "cache_ok E Q (snd (StatLink E share parent i c))"
proof -
  obtain r c1 where g: "GetCachedLink E (sh_ShareID share) i c = (r, c1)" by force
  show ?thesis using c GetCachedLink_ok[OF l c nb g]
    by (auto simp: StatLink_def g alloc_link_def split: option.splits sum.splits)
qed

section \<open>Runs of the client\<close>

text \<open>
  The states a client goes through: the operations of this theory, the other operations on the link table and the
  link objects, and block transfers, which touch only the disk's block entries.
\<close>

inductive drive_run ::
    "('dv, 'h, 'kr) driveEnv \<Rightarrow> (string \<Rightarrow> protonLink \<Rightarrow> bool) \<Rightarrow> ('dv, 'h, 'kr) Client \<Rightarrow> bool"
  for E Q where
  start: "drive_run E Q (NewClient addrs keyrings h)"
| configure: "drive_run E Q c \<Longrightarrow> drive_run E Q (c\<lparr>dc_Shares := shares\<rparr>)"
| init: "drive_run E Q c \<Longrightarrow> \<forall>dir. disk_holds (de_disk E) (entry_ok E Q) (Some (newDisk dir)) \<Longrightarrow>
    drive_run E Q (InitObjectCache E runtimeDir newDisk c)"
| fetch: "drive_run E Q c \<Longrightarrow> \<not> is_block_key (SanitizeLinkID i) \<Longrightarrow> drive_run E Q (snd (GetCachedLink E sid i c))"
| stat: "drive_run E Q c \<Longrightarrow> \<not> is_block_key (SanitizeLinkID i) \<Longrightarrow> drive_run E Q (snd (StatLink E share parent i c))"
| child: "drive_run E Q c \<Longrightarrow> Q (SanitizeLinkID (pl_LinkID p)) p \<Longrightarrow> drive_run E Q (snd (NewChildLink E r p c))"
| invalidate: "drive_run E Q c \<Longrightarrow> drive_run E Q (InvalidateLink E i parent n c)"
| invalidate_parent: "drive_run E Q c \<Longrightarrow> drive_run E Q (InvalidateParent E parent c)"
| evict: "drive_run E Q c \<Longrightarrow> drive_run E Q (runEviction E c)"
| clear: "drive_run E Q c \<Longrightarrow> drive_run E Q (clearLinks E c)"
| links: "drive_run E Q c \<Longrightarrow> drive_run E Q (c\<lparr>dc_linkTable := t, dc_heap := hp\<rparr>)"
| blocks: "drive_run E Q c \<Longrightarrow>
    \<forall>key. \<not> is_block_key key \<longrightarrow> objectCache_Read (de_disk E) (bs_cache s) key = objectCache_Read (de_disk E) (dc_objectCache c) key \<Longrightarrow>
    drive_run E Q (c\<lparr>dc_store := s\<rparr>)"

lemma drive_run_ok: "drive_run E Q c \<Longrightarrow> link_laws E Q \<Longrightarrow> cache_ok E Q c"
proof (induction rule: drive_run.induct)
  case (fetch c i sid)
  then show ?case using GetCachedLink_ok[of E Q c i sid "fst (GetCachedLink E sid i c)" "snd (GetCachedLink E sid i c)"] by simp
next
  case (blocks c s)
  then have "cache_ok E Q c" by simp
  then have "objectCache_Read (de_disk E) (bs_cache s) key = Some x \<Longrightarrow> entry_ok E Q key x" for key x
    using blocks.hyps(2) by (auto simp: cache_ok_def disk_holds_def entry_ok_def)
  with \<open>cache_ok E Q c\<close> show ?case by (simp add: cache_ok_def disk_holds_def)
next
  case (configure c shares)
  then show ?case by (simp add: cache_ok_def)
qed (simp_all add: preserves, simp_all add: cache_ok_def NewClient_def)

text \<open>
  C21: the cache never makes a link up.  In every state a client reaches, through any sequence of fetches, listings,
  invalidations, evictions, restarts from a disk cache and block transfers, a link that GetCachedLink returns is a
  state of that very link that the service reported, possibly completed with its revision's metadata; a link served
  from the cache needs no further fetch (it is a folder or has its extended attributes), and fetching keeps the state
  reachable.
\<close>

theorem cached_link_sound:
  assumes "link_laws E Q" "drive_run E Q c" "\<not> is_block_key (SanitizeLinkID i)" "GetCachedLink E sid i c = (Inr p, c')"
  shows "Q (SanitizeLinkID i) p \<and> drive_run E Q c' \<and>
    (\<forall>c1. sharePermitsDiskCache c sid \<longrightarrow> tryObjectCacheHit E i c = (Some p, c1) \<longrightarrow> c' = c1 \<and> complete_entry p)"
proof -
  have ok: "cache_ok E Q c" by (rule drive_run_ok[OF assms(2,1)])
  have "drive_run E Q c'" using drive_run.fetch[OF assms(2,3), of sid] assms(4) by simp
  moreover have "c' = c1 \<and> complete_entry p" if "sharePermitsDiskCache c sid" "tryObjectCacheHit E i c = (Some p, c1)" for c1
    using tryObjectCacheHit_ok[OF assms(1) ok that(2) assms(3)] assms(4) that by (simp add: GetCachedLink_def)
  ultimately show ?thesis using GetCachedLink_ok[OF assms(1) ok assms(3,4)] by blast
qed


section \<open>Invalidation\<close>

lemma read_none_holds: "disk_holds D (\<lambda>key x. key \<noteq> k) d \<longleftrightarrow> objectCache_Read D d k = None"
  by (cases "objectCache_Read D d k") (auto simp: disk_holds_def)

lemma erase_blocks_none:
  assumes "diskv_laws D" "objectCache_Read D d k = None"
  shows "objectCache_Read D (erase_blocks D i ks d) k = None"
  using erase_blocks_ok[OF assms(1), of "\<lambda>key x. key \<noteq> k" d i ks] assms(2) by (simp add: read_none_holds)

lemma erase_none:
  assumes "diskv_laws D" "fst (objectCache_Erase D d k)"
  shows "objectCache_Read D (snd (objectCache_Erase D d k)) k = None"
  using assms by (cases d) (auto simp: objectCache_Erase_def diskv_laws_def)

lemma clear_listing_frame [simp]:
  "dc_store (clear_listing i c) = dc_store c" "dc_hydratedLinks (clear_listing i c) = dc_hydratedLinks c"
  "dc_linkTable (clear_listing i c) = dc_linkTable c"
  by (simp_all add: clear_listing_def InvalidateChildren_def upd_link_def split: option.split)

lemma fire_frame [simp]:
  "dc_store (fireInvalidationHook i c) = dc_store c" "dc_hydratedLinks (fireInvalidationHook i c) = dc_hydratedLinks c"
  "dc_linkTable (fireInvalidationHook i c) = dc_linkTable c"
  by (simp_all add: fireInvalidationHook_def)

lemma drop_count_frame [simp]:
  "dc_store (drop_count c) = dc_store c" "dc_hydratedLinks (drop_count c) = dc_hydratedLinks c"
  "dc_linkTable (drop_count c) = dc_linkTable c" "dc_xattrFailCount (drop_count c) = dc_xattrFailCount c"
  by (simp_all add: drop_count_def)

lemma eraseCacheEntry_frame [simp]:
  "dc_hydratedLinks (eraseCacheEntry E i c) = dc_hydratedLinks c" "dc_linkTable (eraseCacheEntry E i c) = dc_linkTable c"
  "dc_objectCache (eraseCacheEntry E i c) = snd (objectCache_Erase (de_disk E) (dc_objectCache c) (SanitizeLinkID i))"
  by (auto simp: eraseCacheEntry_def Let_def split: prod.splits)

lemma invalidate_frame:
  "dc_hydratedLinks (InvalidateLink E i parent n c) = dc_hydratedLinks c"
  "dc_linkTable (InvalidateLink E i parent n c) = AList.delete i (dc_linkTable c)"
  by (simp_all add: InvalidateLink_def Let_def deleteLink_def)

lemma invalidate_disk:
  assumes "diskv_laws (de_disk E)" "fst (objectCache_Erase (de_disk E) (dc_objectCache c) (SanitizeLinkID i))"
  shows "objectCache_Read (de_disk E) (dc_objectCache (InvalidateLink E i parent n c)) (SanitizeLinkID i) = None"
proof -
  have "objectCache_Read (de_disk E) (snd (objectCache_Erase (de_disk E) (dc_objectCache c) (SanitizeLinkID i))) (SanitizeLinkID i) = None"
    by (rule erase_none[OF assms])
  with erase_blocks_none[OF assms(1) this] show ?thesis
    by (simp add: InvalidateLink_def Let_def deleteLink_def blockStore_Invalidate_def)
qed


section \<open>Eviction\<close>

definition link_keys :: "'dv diskv \<Rightarrow> 'dv option \<Rightarrow> string list" where
  "link_keys D d = filter (\<lambda>key. \<not> is_block_key key) (objectCache_Keys D d)"

text \<open>A disk whose keys are the readable ones, and where a present entry can be removed.\<close>

definition disk_keys_laws :: "'dv diskv \<Rightarrow> bool" where
  "disk_keys_laws D \<longleftrightarrow> diskv_laws D \<and> (\<forall>dv. distinct (dvKeys D dv) \<and> (\<forall>k. k \<in> set (dvKeys D dv) \<longleftrightarrow> dvRead D dv k \<noteq> None)) \<and>
     (\<forall>dv k. dvRead D dv k \<noteq> None \<longrightarrow> fst (dvErase D dv k))"

lemma disk_keys_lawsD:
  assumes "disk_keys_laws D"
  shows "diskv_laws D" "distinct (objectCache_Keys D d)" "k \<in> set (objectCache_Keys D d) \<longleftrightarrow> objectCache_Read D d k \<noteq> None"
    "objectCache_Read D d k \<noteq> None \<Longrightarrow> fst (objectCache_Erase D d k)"
  using assms by (cases d; simp add: disk_keys_laws_def objectCache_Keys_def objectCache_Erase_def)+

lemma erase_other:
  assumes "diskv_laws D" "k' \<noteq> k"
  shows "objectCache_Read D (snd (objectCache_Erase D d k)) k' = objectCache_Read D d k'"
  using assms by (cases d) (auto simp: objectCache_Erase_def diskv_laws_def)

lemma erase_entries_exact:
  assumes l: "disk_keys_laws D"
  shows "distinct ks \<Longrightarrow> \<forall>k\<in>set ks. objectCache_Read D d k \<noteq> None \<Longrightarrow> erase_entries D ks d = (n, d') \<Longrightarrow>
    n = length ks \<and> (\<forall>k. objectCache_Read D d' k = (if k \<in> set ks then None else objectCache_Read D d k))"
proof (induction ks arbitrary: d n d')
  case (Cons key ks)
  obtain ok d1 where e: "objectCache_Erase D d key = (ok, d1)" by force
  have ok: ok using disk_keys_lawsD(4)[OF l, of d key] Cons.prems(2) e by simp
  have gone: "objectCache_Read D d1 key = None" using erase_none[OF disk_keys_lawsD(1)[OF l], of d key] e ok by simp
  have other: "objectCache_Read D d1 k = objectCache_Read D d k" if "k \<noteq> key" for k
    using erase_other[OF disk_keys_lawsD(1)[OF l] that, of d] e by simp
  obtain n1 d2 where r: "erase_entries D ks d1 = (n1, d2)" by force
  have "objectCache_Read D d1 k \<noteq> None" if "k \<in> set ks" for k
    using Cons.prems(1,2) other[of k] that by (cases "k = key") auto
  then have "\<forall>k\<in>set ks. objectCache_Read D d1 k \<noteq> None" by blast
  from Cons.IH[OF _ this r] Cons.prems(1,3) e r ok gone other show ?case by auto
qed simp

lemma eviction_entries_map:
  assumes "dc_objectCache c = Some dv"
    and "\<forall>k\<in>set (link_keys (de_disk E) (Some dv)). 2 \<le> length k \<and> de_mtime E dv k \<noteq> None"
  shows "eviction_entries E c = map (\<lambda>k. (k, the (de_mtime E dv k))) (link_keys (de_disk E) (Some dv))"
proof -
  have "List.map_filter (\<lambda>key. if is_block_key key \<or> length key < 2 then None else map_option (Pair key) (de_mtime E dv key)) ks =
      map (\<lambda>k. (k, the (de_mtime E dv k))) (filter (\<lambda>key. \<not> is_block_key key) ks)"
    if "\<forall>k\<in>set (filter (\<lambda>key. \<not> is_block_key key) ks). 2 \<le> length k \<and> de_mtime E dv k \<noteq> None" for ks
    using that by (induction ks) (auto simp: List.map_filter_simps split: if_splits)
  with assms show ?thesis by (simp add: eviction_entries_def link_keys_def)
qed


lemma sort_key_split:
  fixes f :: "'a \<Rightarrow> 'b::linorder"
  assumes "x \<in> set (take n (sort_key f xs))" "y \<in> set (drop n (sort_key f xs))"
  shows "f x \<le> f y"
proof -
  have "sorted (map f (take n (sort_key f xs) @ drop n (sort_key f xs)))" by simp
  with assms show ?thesis unfolding map_append sorted_append by auto
qed

lemma eviction_step:
  assumes l: "disk_keys_laws (de_disk E)" and d: "dc_objectCache c = Some dv"
    and m: "\<forall>k\<in>set (link_keys (de_disk E) (Some dv)). 2 \<le> length k \<and> de_mtime E dv k \<noteq> None"
    and c': "c' = runEviction E c"
  obtains gone where "set gone \<subseteq> set (link_keys (de_disk E) (Some dv))" "distinct gone"
    "length gone = length (link_keys (de_disk E) (Some dv)) - evictionTarget"
    "\<forall>k. objectCache_Read (de_disk E) (dc_objectCache c') k = (if k \<in> set gone then None else dvRead (de_disk E) dv k)"
    "dc_cacheCount c' = int (length (link_keys (de_disk E) (Some dv)) - length gone)" "\<not> dc_evicting c'"
    "\<forall>k\<in>set gone. \<forall>k'\<in>set (link_keys (de_disk E) (Some dv)) - set gone. the (de_mtime E dv k) \<le> the (de_mtime E dv k')"
proof -
  let ?K = "link_keys (de_disk E) (Some dv)" and ?t = "\<lambda>k. the (de_mtime E dv k)"
  let ?S = "sort_key snd (map (\<lambda>k. (k, ?t k)) ?K)"
  note ent = eviction_entries_map[OF d m]
  have dist: "distinct ?K" using disk_keys_lawsD(2)[OF l, of "Some dv"] by (simp add: link_keys_def)
  have pairs: "snd x = ?t (fst x)" "fst x \<in> set ?K" if "x \<in> set ?S" for x using that by auto
  have fsts: "mset (map fst ?S) = mset ?K" by (simp add: mset_map multiset.map_comp comp_def)
  then have dS: "distinct (map fst ?S)" using dist mset_eq_imp_distinct_iff by blast
  have setS: "set (map fst ?S) = set ?K" using fsts by (rule mset_eq_setD)
  define n where "n = length ?K - evictionTarget"
  define gone where "gone = map fst (take n ?S)"
  have g: "set gone \<subseteq> set ?K" "distinct gone" "length gone = n"
    using setS dS unfolding gone_def by (auto simp: take_map[symmetric] n_def dest: in_set_takeD)
  have le: "?t k \<le> ?t k'" if kg: "k \<in> set gone" "k' \<in> set ?K - set gone" for k k'
  proof -
    obtain x where x: "x \<in> set (take n ?S)" "k = fst x" using kg(1) unfolding gone_def set_map by blast
    have "set (map fst ?S) = set gone \<union> fst ` set (drop n ?S)"
      unfolding gone_def by (metis append_take_drop_id map_append set_append set_map)
    then obtain y where y: "y \<in> set (drop n ?S)" "k' = fst y" using kg(2) setS by blast
    have "snd x \<le> snd y" by (rule sort_key_split[OF x(1) y(1)])
    then show ?thesis using pairs(1)[OF in_set_takeD[OF x(1)]] pairs(1)[OF in_set_dropD[OF y(1)]] x(2) y(2) by simp
  qed
  have read: "\<forall>k\<in>set gone. objectCache_Read (de_disk E) (Some dv) k \<noteq> None"
    using g(1) disk_keys_lawsD(3)[OF l, of _ "Some dv"] by (auto simp: link_keys_def)
  obtain e d' where e: "erase_entries (de_disk E) gone (Some dv) = (e, d')" by force
  note ex = erase_entries_exact[OF l g(2) read e]
  have len: "length (eviction_entries E c) = length ?K" by (simp add: ent)
  have old: "map fst (take (length (eviction_entries E c) - evictionTarget) (sort_key snd (eviction_entries E c))) = gone"
    unfolding gone_def n_def len by (simp only: ent)
  have c'': "dc_cacheCount c' = int (length ?K - n) \<and> \<not> dc_evicting c' \<and>
    (\<forall>k. objectCache_Read (de_disk E) (dc_objectCache c') k = (if k \<in> set gone then None else dvRead (de_disk E) dv k))"
  proof (cases "length ?K \<le> evictionTarget")
    case True
    then have "gone = []" using g(3) n_def by simp
    with True show ?thesis by (simp add: c' runEviction_def len d n_def)
  next
    case False
    then have "c' = (set_objectCache d' c)\<lparr>dc_cacheCount := int (length ?K - e), dc_evicting := False\<rparr>"
      by (simp add: c' runEviction_def Let_def old[unfolded len] len d e[unfolded d])
    with ex g(3) show ?thesis by simp
  qed
  show thesis
    by (rule that[of gone]) (use g le c'' in \<open>simp_all add: n_def\<close>)
qed

text \<open>
  C23: eviction keeps the newest entries.  A pass leaves at most the target number of link entries on disk, exactly
  that many when there were more; the entries it keeps and all block entries are unchanged, no entry it removes is
  newer than one it keeps, and afterwards the counter is the number of link entries again, whatever it had drifted to.
\<close>

theorem eviction_keeps_newest:
  assumes "disk_keys_laws (de_disk E)" "dc_objectCache c = Some dv"
    and "\<forall>k\<in>set (link_keys (de_disk E) (Some dv)). 2 \<le> length k \<and> de_mtime E dv k \<noteq> None"
    and "c' = runEviction E c"
  shows "length (link_keys (de_disk E) (dc_objectCache c')) = min (length (link_keys (de_disk E) (Some dv))) evictionTarget \<and>
    dc_cacheCount c' = int (length (link_keys (de_disk E) (dc_objectCache c'))) \<and> \<not> dc_evicting c' \<and>
    (\<forall>k. is_block_key k \<or> k \<in> set (link_keys (de_disk E) (dc_objectCache c')) \<longrightarrow>
       objectCache_Read (de_disk E) (dc_objectCache c') k = dvRead (de_disk E) dv k) \<and>
    (\<forall>k\<in>set (link_keys (de_disk E) (Some dv)) - set (link_keys (de_disk E) (dc_objectCache c')).
       \<forall>k'\<in>set (link_keys (de_disk E) (dc_objectCache c')). the (de_mtime E dv k) \<le> the (de_mtime E dv k'))"
proof -
  let ?K = "link_keys (de_disk E) (Some dv)" and ?K' = "link_keys (de_disk E) (dc_objectCache c')"
  from eviction_step[OF assms] obtain gone where g: "set gone \<subseteq> set ?K" "distinct gone" "length gone = length ?K - evictionTarget"
    "\<forall>k. objectCache_Read (de_disk E) (dc_objectCache c') k = (if k \<in> set gone then None else dvRead (de_disk E) dv k)"
    "dc_cacheCount c' = int (length ?K - length gone)" "\<not> dc_evicting c'"
    "\<forall>k\<in>set gone. \<forall>k'\<in>set ?K - set gone. the (de_mtime E dv k) \<le> the (de_mtime E dv k')" by blast
  have mem: "k \<in> set (link_keys (de_disk E) d) \<longleftrightarrow> \<not> is_block_key k \<and> objectCache_Read (de_disk E) d k \<noteq> None" for k d
    using disk_keys_lawsD(3)[OF assms(1), of k d] by (auto simp: link_keys_def)
  have sub: "\<not> is_block_key k" if "k \<in> set gone" for k using g(1) that mem by blast
  have "k \<in> set ?K' \<longleftrightarrow> k \<in> set ?K \<and> k \<notin> set gone" for k
    using g(4)[rule_format, of k] by (cases "k \<in> set gone") (simp_all add: mem)
  then have K': "set ?K' = set ?K - set gone" by blast
  have dist: "distinct ?K" "distinct ?K'" using disk_keys_lawsD(2)[OF assms(1)] by (simp_all add: link_keys_def)
  have len: "length ?K' = length ?K - length gone"
    using K' dist g(1,2) by (metis card_Diff_subset distinct_card finite_set)
  have gone: "set ?K - set ?K' = set gone" using K' g(1) by auto
  show ?thesis using g len gone sub by (auto simp: K' evictionTarget_def)
qed


section \<open>A concrete environment\<close>

text \<open>A service with one file and one folder; entries are written to disk as their identifier.\<close>

definition demo_revision :: revisionMeta where
  "demo_revision = \<lparr>rv_ID = ''r'', rv_State = RevisionStateActive, rv_CreateTime = 5, rv_Size = 0, rv_XAttr = [], rv_SignatureEmail = ''a''\<rparr>"

definition demo_link :: "string \<Rightarrow> protonLink" where
  "demo_link i = \<lparr>pl_LinkID = i, pl_ParentLinkID = ''root'', pl_Type = (if i = ''file='' then LinkTypeFile else LinkTypeFolder),
     pl_State = LinkStateActive, pl_Name = i, pl_NameSignatureEmail = ''a'', pl_NodeKey = ''k'', pl_SignatureEmail = ''a'',
     pl_CreateTime = 1, pl_ModifyTime = 2, pl_MIMEType = [], pl_XAttr = [],
     pl_ActiveRevision = (if i = ''file='' then Some demo_revision else None)\<rparr>"

definition demo_enc :: "protonLink \<Rightarrow> bytes option" where
  "demo_enc p = (if p = set_revision ''x'' 3 (demo_link ''file='') then Some [1]
     else if p = demo_link ''dir'' then Some [2] else None)"

definition demo_dec :: "bytes \<Rightarrow> protonLink option" where
  "demo_dec b = (if b = [1] then Some (set_revision ''x'' 3 (demo_link ''file='')) else if b = [2] then Some (demo_link ''dir'') else None)"

definition demo_env :: "((string, bytes) gomap, nat, nat) driveEnv" where
  "demo_env = \<lparr>de_disk = mem_diskv, de_encode = demo_enc, de_decode = demo_dec, de_mtime = (\<lambda>dv key. Some (length key)),
     de_GetLink = (\<lambda>sid i h. (if i \<in> {''file='', ''dir''} then Inr (demo_link i) else Inl ''404'', h + 1)),
     de_GetRevision = (\<lambda>sid i r h. (if i = ''file='' then Inr (''x'', 3) else Inl ''404'', h + 1)),
     de_ListChildren = (\<lambda>sid i all h. (Inr [demo_link ''file='', demo_link ''dir''], h + 1)),
     de_GetName = (\<lambda>n k a. Inr n), de_GetKeyRing = (\<lambda>n k a. Inr (k + 1)), de_ShareKeyRing = (\<lambda>n k. Inr k),
     de_DecXAttr = (\<lambda>x a n. Inr (Some \<lparr>rx_Common = \<lparr>xc_ModificationTime = [], xc_Size = 7, xc_BlockSizes = [7]\<rparr>, rx_Extra = []\<rparr>)),
     de_UnmarshalPosix = (\<lambda>s. None), de_ParseTime = (\<lambda>s. None), de_throttleWait = (\<lambda>h. None)\<rparr>"

definition demo_states :: "string \<Rightarrow> protonLink \<Rightarrow> bool" where
  "demo_states key p \<longleftrightarrow> (key = ''dir'' \<and> p = demo_link ''dir'') \<or>
     (key = ''file'' \<and> (p = demo_link ''file='' \<or> p = set_revision ''x'' 3 (demo_link ''file='')))"

lemma sanitize_demo [simp]: "SanitizeLinkID ''file='' = ''file''" "SanitizeLinkID ''dir'' = ''dir''"
  by (simp_all add: SanitizeLinkID_def)

lemma demo_states_cases:
  "demo_states key p \<Longrightarrow> SanitizeLinkID i = key \<Longrightarrow> demo_states key (set_revision ''x'' 3 p) \<or> key = ''dir''"
  by (auto simp: demo_states_def set_revision_def demo_link_def demo_revision_def)

lemma demo_laws: "link_laws demo_env demo_states"
  unfolding link_laws_def
proof (intro conjI allI impI)
  show "diskv_laws (de_disk demo_env)" by (simp add: demo_env_def mem_diskv_laws)
  show "dvRead (de_disk demo_env) (snd (dvEraseAll (de_disk demo_env) dv)) key \<in> {None, dvRead (de_disk demo_env) dv key}" for dv key
    by (simp add: demo_env_def mem_diskv_def)
  show "de_decode demo_env data = Some p" if "de_encode demo_env p = Some data" for p data
    using that by (auto simp: demo_env_def demo_enc_def demo_dec_def split: if_splits)
  show "SanitizeLinkID (pl_LinkID p) = key" if "demo_states key p" for key p
    using that by (auto simp: demo_states_def set_revision_def demo_link_def)
  show "demo_states (SanitizeLinkID l) p" if "de_GetLink demo_env sid l h = (Inr p, h')" for sid l h p h'
    using that by (auto simp: demo_env_def demo_states_def split: if_splits)
  show "demo_states (SanitizeLinkID l) (set_revision x n p)"
    if "de_GetRevision demo_env sid l (revision_ID p) h = (Inr (x, n), h')" "demo_states (SanitizeLinkID l) p" for sid l h x n h' p
    using that by (auto simp: demo_env_def demo_states_def set_revision_def demo_link_def demo_revision_def split: if_splits)
qed

definition demo_client :: "((string, bytes) gomap, nat, nat) Client" where
  "demo_client = (NewClient [] [] 0)\<lparr>dc_Shares := Some [(''s'', \<lparr>sc_MemoryCache = CacheMetadata, sc_DiskCache = DiskCacheObjectStore\<rparr>)]\<rparr>"

definition demo_started :: "((string, bytes) gomap, nat, nat) Client" where
  "demo_started = InitObjectCache demo_env ''/run'' (\<lambda>dir. [(''dir'', [2]), (''dir.block.1'', [9])]) demo_client"

lemma demo_started_run: "drive_run demo_env demo_states demo_started"
  unfolding demo_started_def demo_client_def
  by (intro drive_run.init drive_run.configure drive_run.start)
    (auto simp: disk_holds_def entry_ok_def demo_env_def mem_diskv_def demo_dec_def demo_states_def is_block_key_def split: if_splits)

theorem cached_link_sound_witness:
  "demo_states ''file'' (set_revision ''x'' 3 (demo_link ''file=''))"
proof -
  have "GetCachedLink demo_env ''s'' ''file='' demo_started =
    (Inr (set_revision ''x'' 3 (demo_link ''file='')), snd (GetCachedLink demo_env ''s'' ''file='' demo_started))" by code_simp
  moreover have "\<not> is_block_key (SanitizeLinkID ''file='')" by code_simp
  ultimately show ?thesis using cached_link_sound[OF demo_laws demo_started_run, of "''file=''" "''s''"] by (metis sanitize_demo(1))
qed



definition evict_env :: "((string, bytes) gomap, nat, nat) driveEnv" where
  "evict_env = demo_env\<lparr>de_disk := mem_diskv\<lparr>dvKeys := (\<lambda>m. remdups (map fst m))\<rparr>\<rparr>"

lemma evict_env_laws: "disk_keys_laws (de_disk evict_env)"
  by (auto simp: disk_keys_laws_def diskv_laws_def evict_env_def mem_diskv_def map_of_eq_None_iff)

definition evict_client :: "((string, bytes) gomap, nat, nat) Client" where
  "evict_client = (set_objectCache (Some [(''dir'', [2]), (''dir.block.1'', [9]), (''file'', [1])]) (NewClient [] [] 0))\<lparr>dc_cacheCount := 10001\<rparr>"

theorem eviction_keeps_newest_witness:
  "dc_cacheCount (runEviction evict_env evict_client) = 2 \<and> \<not> dc_evicting (runEviction evict_env evict_client)"
proof -
  have d: "dc_objectCache evict_client = Some [(''dir'', [2]), (''dir.block.1'', [9]), (''file'', [1])]"
    by (simp add: evict_client_def NewClient_def)
  have m: "\<forall>k\<in>set (link_keys (de_disk evict_env) (Some [(''dir'', [2]), (''dir.block.1'', [9]), (''file'', [1])])).
    2 \<le> length k \<and> de_mtime evict_env [(''dir'', [2]), (''dir.block.1'', [9]), (''file'', [1])] k \<noteq> None" by code_simp
  have k: "length (link_keys (de_disk evict_env) (Some [(''dir'', [2]), (''dir.block.1'', [9]), (''file'', [1])])) = 2" by code_simp
  show ?thesis using eviction_keeps_newest[OF evict_env_laws d m refl] k by (simp add: evictionTarget_def)
qed

end
