(* ===== verification/DriveLink.thy ===== *)
theory DriveLink
  imports DriveClient
begin

text \<open>
  The accessors of a link, \<^verbatim>\<open>api/drive/link.go\<close> and \<^verbatim>\<open>api/drive/fetch_xattr.go\<close>: keyrings derived along the
  chain of parents, decrypted names, and the metadata that is fetched on first use.  Every accessor caches
  what it computes; the results are compared with derivations that use no cache.
\<close>

section \<open>Errors and small accessors\<close>

datatype linkErr =
    ApiErr string | CryptoErr string
  | ErrKeyNotFound                     \<comment> \<open>the share's address has no keyring\<close>
  | DeriveKeyErr string                \<comment> \<open>\<^verbatim>\<open>deriveKeyRing: signature email %q\<close>\<close>
  | DecryptNameErr string              \<comment> \<open>\<^verbatim>\<open>decryptName: name signature email %q\<close>\<close>
  | NoParentNoShare string
  | NameParentErr string linkErr | KeyRingParentErr string linkErr
  | XAttrAddrErr string | XAttrKeyErr string | XAttrErr string string
  | AbsPathErr linkErr | AbsPathRootErr linkErr
  | OutOfFuel

abbreviation lnk :: "('dv, 'h, 'kr) Client \<Rightarrow> lref \<Rightarrow> 'kr Link" where
  "lnk c r \<equiv> dc_heap c ! r"

definition link_IsTrashed :: "protonLink \<Rightarrow> bool" where "link_IsTrashed p \<longleftrightarrow> pl_State p = LinkStateTrashed"
definition link_IsDraft :: "protonLink \<Rightarrow> bool" where "link_IsDraft p \<longleftrightarrow> pl_State p = LinkStateDraft"
definition link_IsActive :: "protonLink \<Rightarrow> bool" where "link_IsActive p \<longleftrightarrow> pl_State p = LinkStateActive"
definition link_IsDir :: "protonLink \<Rightarrow> bool" where "link_IsDir p \<longleftrightarrow> pl_Type p = LinkTypeFolder"
definition link_IsFile :: "protonLink \<Rightarrow> bool" where "link_IsFile p \<longleftrightarrow> pl_Type p = LinkTypeFile"

definition HasActiveRevision :: "protonLink \<Rightarrow> bool" where
  "HasActiveRevision p \<longleftrightarrow> pl_Type p = LinkTypeFile \<and>
     (case pl_ActiveRevision p of None \<Rightarrow> False | Some rv \<Rightarrow> rv_ID rv \<noteq> [] \<and> rv_State rv = RevisionStateActive)"

definition link_RevisionID :: "protonLink \<Rightarrow> string" where
  "link_RevisionID p = (case pl_ActiveRevision p of Some rv \<Rightarrow> rv_ID rv | None \<Rightarrow> [])"

definition link_Parent :: "('dv, 'h, 'kr) Client \<Rightarrow> lref \<Rightarrow> lref" where
  "link_Parent c r = (case l_parentLink (lnk c r) of None \<Rightarrow> r | Some p \<Rightarrow> p)"

definition link_VolumeID :: "'kr Link \<Rightarrow> string" where
  "link_VolumeID l = (case l_share l of None \<Rightarrow> [] | Some s \<Rightarrow> sh_VolumeID s)"

definition SameDevice :: "'kr Link \<Rightarrow> 'kr Link \<Rightarrow> bool" where
  "SameDevice a b \<longleftrightarrow> link_VolumeID a = link_VolumeID b"

text \<open>The cache level of a link's share; without a share nothing is cached.\<close>

definition caches_names :: "'kr Link \<Rightarrow> bool" where
  "caches_names l = (case l_share l of None \<Rightarrow> False | Some s \<Rightarrow> sh_MemoryCacheLevel s \<noteq> CacheDisabled)"

definition caches_metadata :: "'kr Link \<Rightarrow> bool" where
  "caches_metadata l = (case l_share l of None \<Rightarrow> False | Some s \<Rightarrow> sh_MemoryCacheLevel s = CacheMetadata)"

section \<open>Keyrings and names\<close>

definition address_keyring :: "('dv, 'h, 'kr) Client \<Rightarrow> string \<Rightarrow> 'kr option" where
  "address_keyring c email = (case map_of (dc_addresses c) email of None \<Rightarrow> None | Some addr \<Rightarrow> map_of (dc_addressKeyRings c) addr)"

definition share_getKeyRing :: "('dv, 'h, 'kr) driveEnv \<Rightarrow> ('dv, 'h, 'kr) Client \<Rightarrow> Share \<Rightarrow> linkErr + 'kr" where
  "share_getKeyRing E c s =
     (case map_of (dc_addressKeyRings c) (sh_AddressID s) of
        None \<Rightarrow> Inl ErrKeyNotFound
      | Some kr \<Rightarrow> map_sum CryptoErr id (de_ShareKeyRing E (sh_Key s) kr))"

definition deriveKeyRing :: "('dv, 'h, 'kr) driveEnv \<Rightarrow> ('dv, 'h, 'kr) Client \<Rightarrow> protonLink \<Rightarrow> 'kr \<Rightarrow> linkErr + 'kr" where
  "deriveKeyRing E c p parentKR =
     (case address_keyring c (pl_SignatureEmail p) of
        None \<Rightarrow> Inl (DeriveKeyErr (pl_SignatureEmail p))
      | Some linkKR \<Rightarrow> map_sum CryptoErr id (de_GetKeyRing E (pl_NodeKey p) parentKR linkKR))"

definition decryptName :: "('dv, 'h, 'kr) driveEnv \<Rightarrow> ('dv, 'h, 'kr) Client \<Rightarrow> protonLink \<Rightarrow> 'kr \<Rightarrow> linkErr + string" where
  "decryptName E c p parentKR =
     (case address_keyring c (pl_NameSignatureEmail p) of
        None \<Rightarrow> Inl (DecryptNameErr (pl_NameSignatureEmail p))
      | Some addrKR \<Rightarrow> map_sum CryptoErr id (de_GetName E (pl_Name p) parentKR addrKR))"

text \<open>
  A keyring needs the keyring of the parent, up to the share.  The fuel bounds the length of the chain; parents are
  older than their children on the heap, so the heap's length is always enough.
\<close>

fun getKeyRing ::
    "('dv, 'h, 'kr) driveEnv \<Rightarrow> nat \<Rightarrow> lref \<Rightarrow> ('dv, 'h, 'kr) Client \<Rightarrow> (linkErr + 'kr) \<times> ('dv, 'h, 'kr) Client" where
  "getKeyRing E 0 r c = (Inl OutOfFuel, c)"
| "getKeyRing E (Suc n) r c =
     (case l_cachedKeyRing (lnk c r) of
        Some kr \<Rightarrow> (Inr kr, c)
      | None \<Rightarrow>
          (case (case l_parentLink (lnk c r) of
                   Some p \<Rightarrow> getKeyRing E n p c
                 | None \<Rightarrow> (case l_share (lnk c r) of
                              None \<Rightarrow> (Inl (NoParentNoShare (pl_LinkID (l_protonLink (lnk c r)))), c)
                            | Some s \<Rightarrow> (share_getKeyRing E c s, c))) of
             (Inl e, c1) \<Rightarrow> (Inl (KeyRingParentErr (pl_LinkID (l_protonLink (lnk c r))) e), c1)
           | (Inr parentKR, c1) \<Rightarrow>
               (case deriveKeyRing E c1 (l_protonLink (lnk c r)) parentKR of
                  Inl e \<Rightarrow> (Inl e, c1)
                | Inr kr \<Rightarrow> (Inr kr, if caches_metadata (lnk c r) then upd_link r (\<lambda>l. l\<lparr>l_cachedKeyRing := Some kr\<rparr>) c1 else c1))))"

definition link_KeyRing :: "('dv, 'h, 'kr) driveEnv \<Rightarrow> lref \<Rightarrow> ('dv, 'h, 'kr) Client \<Rightarrow> (linkErr + 'kr) \<times> ('dv, 'h, 'kr) Client" where
  "link_KeyRing E r c = getKeyRing E (length (dc_heap c)) r c"

definition getParentKeyRing ::
    "('dv, 'h, 'kr) driveEnv \<Rightarrow> lref \<Rightarrow> ('dv, 'h, 'kr) Client \<Rightarrow> (linkErr + 'kr) \<times> ('dv, 'h, 'kr) Client" where
  "getParentKeyRing E r c =
     (case l_parentLink (lnk c r) of
        Some p \<Rightarrow> link_KeyRing E p c
      | None \<Rightarrow> (case l_share (lnk c r) of
                   None \<Rightarrow> (Inl (NoParentNoShare (pl_LinkID (l_protonLink (lnk c r)))), c)
                 | Some s \<Rightarrow> (share_getKeyRing E c s, c)))"

definition link_Name :: "('dv, 'h, 'kr) driveEnv \<Rightarrow> lref \<Rightarrow> ('dv, 'h, 'kr) Client \<Rightarrow> (linkErr + string) \<times> ('dv, 'h, 'kr) Client" where
  "link_Name E r c =
     (if l_cachedName (lnk c r) \<noteq> [] then (Inr (l_cachedName (lnk c r)), c)
      else (case getParentKeyRing E r c of
              (Inl e, c1) \<Rightarrow> (Inl (NameParentErr (pl_LinkID (l_protonLink (lnk c r))) e), c1)
            | (Inr parentKR, c1) \<Rightarrow>
                (case decryptName E c1 (l_protonLink (lnk c r)) parentKR of
                   Inl e \<Rightarrow> (Inl e, c1)
                 | Inr name \<Rightarrow> (Inr name, if caches_names (lnk c r) then upd_link r (\<lambda>l. l\<lparr>l_cachedName := name\<rparr>) c1 else c1))))"

text \<open>The names along the chain of parents, from the link to the share's root; \<open>n\<close> bounds the chain.\<close>

fun abs_parts ::
    "('dv, 'h, 'kr) driveEnv \<Rightarrow> nat \<Rightarrow> lref \<Rightarrow> ('dv, 'h, 'kr) Client \<Rightarrow> (linkErr + string list \<times> string) \<times> ('dv, 'h, 'kr) Client" where
  "abs_parts E 0 r c = (Inl OutOfFuel, c)"
| "abs_parts E (Suc n) r c =
     (case l_parentLink (lnk c r) of
        None \<Rightarrow> (case link_Name E r c of
                   (Inl e, c1) \<Rightarrow> (Inl (AbsPathRootErr e), c1) | (Inr root, c1) \<Rightarrow> (Inr ([], root), c1))
      | Some p \<Rightarrow>
          (case link_Name E r c of
             (Inl e, c1) \<Rightarrow> (Inl (AbsPathErr e), c1)
           | (Inr name, c1) \<Rightarrow>
               (case abs_parts E n p c1 of
                  (Inl e, c2) \<Rightarrow> (Inl e, c2)
                | (Inr (parts, root), c2) \<Rightarrow> (Inr (parts @ [name], root), c2))))"

fun join_path :: "string list \<Rightarrow> string" where
  "join_path [] = []"
| "join_path [p] = p"
| "join_path (p # ps) = p @ ''/'' @ join_path ps"

definition link_AbsPath :: "('dv, 'h, 'kr) driveEnv \<Rightarrow> lref \<Rightarrow> ('dv, 'h, 'kr) Client \<Rightarrow> (linkErr + string) \<times> ('dv, 'h, 'kr) Client" where
  "link_AbsPath E r c =
     (case abs_parts E (length (dc_heap c)) r c of
        (Inl e, c1) \<Rightarrow> (Inl e, c1)
      | (Inr (parts, root), c1) \<Rightarrow> (Inr (if parts = [] then root else root @ ''/'' @ join_path parts), c1))"

section \<open>Metadata\<close>

text \<open>The revision whose extended attributes can be fetched.\<close>

definition fetchable :: "protonLink \<Rightarrow> revisionMeta option" where
  "fetchable p =
     (if pl_Type p \<noteq> LinkTypeFile then None
      else if pl_State p = LinkStateDraft then None
      else (case pl_ActiveRevision p of
              None \<Rightarrow> None
            | Some rv \<Rightarrow> if rv_ID rv = [] \<or> rv_State rv \<noteq> RevisionStateActive then None else Some rv))"

text \<open>A link without a share makes the fetch panic; every link of the client has one.\<close>

definition FetchRevisionXAttr :: "('dv, 'h, 'kr) driveEnv \<Rightarrow> lref \<Rightarrow> ('dv, 'h, 'kr) Client \<Rightarrow> ('dv, 'h, 'kr) Client" where
  "FetchRevisionXAttr E r c =
     (let p = l_protonLink (lnk c r) in
      case fetchable p of
        None \<Rightarrow> c
      | Some rv \<Rightarrow>
          if rv_XAttr rv \<noteq> [] then c
          else (case l_share (lnk c r) of
                  None \<Rightarrow> c
                | Some s \<Rightarrow>
                    (case de_GetRevision E (sh_ShareID s) (pl_LinkID p) (rv_ID rv) (bs_net (dc_store c)) of
                       (Inl err, h) \<Rightarrow> set_net h c
                     | (Inr (xattr, sz), h) \<Rightarrow> upd_link r (\<lambda>l. l\<lparr>l_protonLink := set_revision xattr sz p\<rparr>) (set_net h c))))"

definition ensureXAttr :: "('dv, 'h, 'kr) driveEnv \<Rightarrow> lref \<Rightarrow> ('dv, 'h, 'kr) Client \<Rightarrow> ('dv, 'h, 'kr) Client" where
  "ensureXAttr E r c =
     (case fetchable (l_protonLink (lnk c r)) of
        None \<Rightarrow> c
      | Some rv \<Rightarrow>
          if l_fetchDone (lnk c r) \<or> rv_XAttr rv \<noteq> [] then c
          else
            let c1 = FetchRevisionXAttr E r c
            in if revision_XAttr (l_protonLink (lnk c1 r)) = []
               then upd_link r (\<lambda>l. l\<lparr>l_fetchFailCount := l_fetchFailCount l + 1,
                                      l_fetchDone := l_fetchFailCount l + 1 \<ge> 3\<rparr>) c1
               else upd_link r (\<lambda>l. l\<lparr>l_fetchDone := True\<rparr>) c1)"

definition decryptRevisionXAttr ::
    "('dv, 'h, 'kr) driveEnv \<Rightarrow> ('dv, 'h, 'kr) Client \<Rightarrow> protonLink \<Rightarrow> 'kr \<Rightarrow> linkErr + revisionXAttr option" where
  "decryptRevisionXAttr E c p nodeKR =
     (let (xattrStr, sigEmail) =
        (case (pl_Type p, pl_ActiveRevision p) of
           (LinkTypeFile, Some rv) \<Rightarrow> (rv_XAttr rv, rv_SignatureEmail rv)
         | _ \<Rightarrow> (pl_XAttr p, pl_SignatureEmail p))
      in if xattrStr = [] then Inr None
         else (case map_of (dc_addresses c) sigEmail of
                 None \<Rightarrow> Inl (XAttrAddrErr (pl_LinkID p))
               | Some addr \<Rightarrow>
                   (case map_of (dc_addressKeyRings c) addr of
                      None \<Rightarrow> Inl (XAttrKeyErr (pl_LinkID p))
                    | Some addrKR \<Rightarrow>
                        map_sum (XAttrErr (pl_LinkID p)) id (de_DecXAttr E xattrStr addrKR nodeKR))))"

definition decryptXAttr ::
    "('dv, 'h, 'kr) driveEnv \<Rightarrow> ('dv, 'h, 'kr) Client \<Rightarrow> protonLink \<Rightarrow> 'kr \<Rightarrow> (xattrCommon \<times> PosixXAttr option) option" where
  "decryptXAttr E c p nodeKR =
     (case decryptRevisionXAttr E c p nodeKR of
        Inl _ \<Rightarrow> None
      | Inr None \<Rightarrow> None
      | Inr (Some x) \<Rightarrow> Some (rx_Common x, posixFromXAttr (de_UnmarshalPosix E) (Some x)))"

definition buildResolvedMeta ::
    "('dv, 'h, 'kr) driveEnv \<Rightarrow> protonLink \<Rightarrow> (xattrCommon \<times> PosixXAttr option) option \<Rightarrow> resolvedMeta" where
  "buildResolvedMeta E p x =
     (let rev' = (if pl_Type p = LinkTypeFile then pl_ActiveRevision p else None);
          fallback = (case rev' of Some rv \<Rightarrow> rv_CreateTime rv | None \<Rightarrow> pl_ModifyTime p)
      in \<lparr>rm_size = (case x of Some (common, _) \<Rightarrow> xc_Size common
                     | None \<Rightarrow> (case rev' of Some rv \<Rightarrow> rv_Size rv | None \<Rightarrow> 0)),
          rm_mtime = (case x of
                        Some (common, _) \<Rightarrow>
                          if xc_ModificationTime common \<noteq> []
                          then (case de_ParseTime E (xc_ModificationTime common) of Some t \<Rightarrow> t | None \<Rightarrow> fallback)
                          else fallback
                      | None \<Rightarrow> fallback),
          rm_ctime = (case rev' of Some rv \<Rightarrow> rv_CreateTime rv | None \<Rightarrow> pl_CreateTime p),
          rm_mode = (case x of Some (_, Some pfs) \<Rightarrow> px_Mode pfs | _ \<Rightarrow> 0)\<rparr>)"

text \<open>Storing the metadata: not over an earlier value, not without a cache, and not as long as a file's fetch may
  still be retried.\<close>

definition store_meta ::
    "lref \<Rightarrow> bool \<Rightarrow> resolvedMeta \<Rightarrow> ('dv, 'h, 'kr) Client \<Rightarrow> ('dv, 'h, 'kr) Client" where
  "store_meta r have_common m c =
     (let l = lnk c r
      in if l_meta l = None \<and> caches_metadata l \<and> (have_common \<or> pl_Type (l_protonLink l) \<noteq> LinkTypeFile \<or> l_fetchDone l)
         then upd_link r (\<lambda>l. l\<lparr>l_meta := Some m\<rparr>) c else c)"

text \<open>The slow path that \<^verbatim>\<open>Size\<close> and \<^verbatim>\<open>ModifyTime\<close> share.\<close>

definition resolve_meta :: "('dv, 'h, 'kr) driveEnv \<Rightarrow> lref \<Rightarrow> ('dv, 'h, 'kr) Client \<Rightarrow> resolvedMeta \<times> ('dv, 'h, 'kr) Client" where
  "resolve_meta E r c =
     (let c1 = (if pl_Type (l_protonLink (lnk c r)) = LinkTypeFile then ensureXAttr E r c else c)
      in case link_KeyRing E r c1 of
           (kr, c2) \<Rightarrow>
             let p = l_protonLink (lnk c2 r);
                 x = (case kr of Inl _ \<Rightarrow> None | Inr nodeKR \<Rightarrow> decryptXAttr E c2 p nodeKR);
                 m = buildResolvedMeta E p x
             in (m, store_meta r (x \<noteq> None) m c2))"

definition link_Size :: "('dv, 'h, 'kr) driveEnv \<Rightarrow> lref \<Rightarrow> ('dv, 'h, 'kr) Client \<Rightarrow> int \<times> ('dv, 'h, 'kr) Client" where
  "link_Size E r c = (case l_meta (lnk c r) of Some m \<Rightarrow> (rm_size m, c) | None \<Rightarrow> apfst rm_size (resolve_meta E r c))"

definition link_ModifyTime :: "('dv, 'h, 'kr) driveEnv \<Rightarrow> lref \<Rightarrow> ('dv, 'h, 'kr) Client \<Rightarrow> int \<times> ('dv, 'h, 'kr) Client" where
  "link_ModifyTime E r c = (case l_meta (lnk c r) of Some m \<Rightarrow> (rm_mtime m, c) | None \<Rightarrow> apfst rm_mtime (resolve_meta E r c))"

definition link_CreateTime :: "('dv, 'h, 'kr) Client \<Rightarrow> lref \<Rightarrow> int" where
  "link_CreateTime c r =
     (case l_meta (lnk c r) of
        Some m \<Rightarrow> rm_ctime m
      | None \<Rightarrow> let p = l_protonLink (lnk c r)
                in if HasActiveRevision p then rv_CreateTime (the (pl_ActiveRevision p)) else pl_CreateTime p)"

text \<open>\<^verbatim>\<open>Mode\<close> gives up, without storing anything, when the keyring cannot be derived.\<close>

definition link_Mode :: "('dv, 'h, 'kr) driveEnv \<Rightarrow> lref \<Rightarrow> ('dv, 'h, 'kr) Client \<Rightarrow> 32 word \<times> ('dv, 'h, 'kr) Client" where
  "link_Mode E r c =
     (case l_meta (lnk c r) of
        Some m \<Rightarrow> (rm_mode m, c)
      | None \<Rightarrow>
          let c1 = (if pl_Type (l_protonLink (lnk c r)) = LinkTypeFile then ensureXAttr E r c else c)
          in (case link_KeyRing E r c1 of
                (Inl _, c2) \<Rightarrow> (0, c2)
              | (Inr nodeKR, c2) \<Rightarrow>
                  let p = l_protonLink (lnk c2 r); x = decryptXAttr E c2 p nodeKR; m = buildResolvedMeta E p x
                  in (rm_mode m, store_meta r (x \<noteq> None) m c2)))"

definition link_IsSymlink :: "('dv, 'h, 'kr) driveEnv \<Rightarrow> lref \<Rightarrow> ('dv, 'h, 'kr) Client \<Rightarrow> bool \<times> ('dv, 'h, 'kr) Client" where
  "link_IsSymlink E r c =
     (if pl_Type (l_protonLink (lnk c r)) \<noteq> LinkTypeFile then (False, c)
      else (case link_KeyRing E r (ensureXAttr E r c) of
              (Inl _, c2) \<Rightarrow> (False, c2)
            | (Inr nodeKR, c2) \<Rightarrow>
                ((case decryptXAttr E c2 (l_protonLink (lnk c2 r)) nodeKR of
                    Some (_, Some pfs) \<Rightarrow> px_Symlink pfs | _ \<Rightarrow> False), c2)))"

definition file_info :: "protonLink \<Rightarrow> int \<Rightarrow> int \<Rightarrow> int \<Rightarrow> FileInfo" where
  "file_info p sz mtime ctime =
     \<lparr>fi_LinkID = pl_LinkID p, fi_Size = sz, fi_ModifyTime = mtime, fi_CreateTime = ctime, fi_MIMEType = pl_MIMEType p,
      fi_IsDir = (pl_Type p = LinkTypeFolder)\<rparr>"

definition store_stat :: "lref \<Rightarrow> FileInfo \<Rightarrow> ('dv, 'h, 'kr) Client \<Rightarrow> ('dv, 'h, 'kr) Client" where
  "store_stat r fi c =
     (if l_cachedStat (lnk c r) = None \<and> caches_metadata (lnk c r) then upd_link r (\<lambda>l. l\<lparr>l_cachedStat := Some fi\<rparr>) c else c)"

definition link_Stat :: "('dv, 'h, 'kr) driveEnv \<Rightarrow> lref \<Rightarrow> ('dv, 'h, 'kr) Client \<Rightarrow> FileInfo \<times> ('dv, 'h, 'kr) Client" where
  "link_Stat E r c =
     (case l_cachedStat (lnk c r) of
        Some fi \<Rightarrow> (fi, c)
      | None \<Rightarrow>
          (case l_meta (lnk c r) of
             Some m \<Rightarrow>
               let fi = file_info (l_protonLink (lnk c r)) (rm_size m) (rm_mtime m) (rm_ctime m) in (fi, store_stat r fi c)
           | None \<Rightarrow>
               (case link_Size E r c of (sz, c1) \<Rightarrow>
               (case link_ModifyTime E r c1 of (mtime, c2) \<Rightarrow>
                let ctime = link_CreateTime c2 r; c3 = snd (link_Mode E r c2);
                    fi = file_info (l_protonLink (lnk c3 r)) sz mtime ctime
                in (fi, store_stat r fi c3)))))"

definition InvalidateMeta :: "lref \<Rightarrow> ('dv, 'h, 'kr) Client \<Rightarrow> ('dv, 'h, 'kr) Client" where
  "InvalidateMeta r = upd_link r (\<lambda>l. l\<lparr>l_meta := None, l_cachedStat := None\<rparr>)"


section \<open>Derivations without caches\<close>

text \<open>What a keyring and a name are, from the raw links alone.\<close>

fun pure_keyring :: "('dv, 'h, 'kr) driveEnv \<Rightarrow> ('dv, 'h, 'kr) Client \<Rightarrow> nat \<Rightarrow> lref \<Rightarrow> linkErr + 'kr" where
  "pure_keyring E c 0 r = Inl OutOfFuel"
| "pure_keyring E c (Suc n) r =
     (case (case l_parentLink (lnk c r) of
              Some p \<Rightarrow> pure_keyring E c n p
            | None \<Rightarrow> (case l_share (lnk c r) of
                         None \<Rightarrow> Inl (NoParentNoShare (pl_LinkID (l_protonLink (lnk c r))))
                       | Some s \<Rightarrow> share_getKeyRing E c s)) of
        Inl e \<Rightarrow> Inl (KeyRingParentErr (pl_LinkID (l_protonLink (lnk c r))) e)
      | Inr kr \<Rightarrow> deriveKeyRing E c (l_protonLink (lnk c r)) kr)"

definition pure_name :: "('dv, 'h, 'kr) driveEnv \<Rightarrow> ('dv, 'h, 'kr) Client \<Rightarrow> lref \<Rightarrow> linkErr + string" where
  "pure_name E c r =
     (case (case l_parentLink (lnk c r) of
              Some p \<Rightarrow> pure_keyring E c (Suc p) p
            | None \<Rightarrow> (case l_share (lnk c r) of
                         None \<Rightarrow> Inl (NoParentNoShare (pl_LinkID (l_protonLink (lnk c r))))
                       | Some s \<Rightarrow> share_getKeyRing E c s)) of
        Inl e \<Rightarrow> Inl (NameParentErr (pl_LinkID (l_protonLink (lnk c r))) e)
      | Inr kr \<Rightarrow> decryptName E c (l_protonLink (lnk c r)) kr)"

text \<open>Parents are older than their children.\<close>

definition parents_ok :: "('dv, 'h, 'kr) Client \<Rightarrow> bool" where
  "parents_ok c \<longleftrightarrow> (\<forall>r < length (dc_heap c). \<forall>p. l_parentLink (lnk c r) = Some p \<longrightarrow> p < r)"

text \<open>What is cached is what would be derived.\<close>

definition caches_ok :: "('dv, 'h, 'kr) driveEnv \<Rightarrow> ('dv, 'h, 'kr) Client \<Rightarrow> bool" where
  "caches_ok E c \<longleftrightarrow> (\<forall>r < length (dc_heap c).
     (\<forall>kr. l_cachedKeyRing (lnk c r) = Some kr \<longrightarrow> pure_keyring E c (Suc r) r = Inr kr) \<and>
     (l_cachedName (lnk c r) \<noteq> [] \<longrightarrow> pure_name E c r = Inr (l_cachedName (lnk c r))))"

text \<open>The part of a link that no accessor changes.\<close>

definition same_static :: "'kr Link \<Rightarrow> 'kr Link \<Rightarrow> bool" where
  "same_static l l' \<longleftrightarrow> l_parentLink l' = l_parentLink l \<and> l_share l' = l_share l \<and>
     pl_LinkID (l_protonLink l') = pl_LinkID (l_protonLink l) \<and> pl_Type (l_protonLink l') = pl_Type (l_protonLink l) \<and>
     pl_State (l_protonLink l') = pl_State (l_protonLink l) \<and> pl_Name (l_protonLink l') = pl_Name (l_protonLink l) \<and>
     pl_NameSignatureEmail (l_protonLink l') = pl_NameSignatureEmail (l_protonLink l) \<and>
     pl_NodeKey (l_protonLink l') = pl_NodeKey (l_protonLink l) \<and>
     pl_SignatureEmail (l_protonLink l') = pl_SignatureEmail (l_protonLink l)"

definition static_le :: "('dv, 'h, 'kr) Client \<Rightarrow> ('dv, 'h, 'kr) Client \<Rightarrow> bool" where
  "static_le c c' \<longleftrightarrow> dc_addresses c' = dc_addresses c \<and> dc_addressKeyRings c' = dc_addressKeyRings c \<and>
     length (dc_heap c) \<le> length (dc_heap c') \<and> (\<forall>r < length (dc_heap c). same_static (lnk c r) (lnk c' r))"

definition static_eq :: "('dv, 'h, 'kr) Client \<Rightarrow> ('dv, 'h, 'kr) Client \<Rightarrow> bool" where
  "static_eq c c' \<longleftrightarrow> dc_addresses c' = dc_addresses c \<and> dc_addressKeyRings c' = dc_addressKeyRings c \<and>
     length (dc_heap c') = length (dc_heap c) \<and> (\<forall>r < length (dc_heap c). same_static (lnk c r) (lnk c' r))"

lemma static_eq_le: "static_eq c c' \<Longrightarrow> static_le c c'" by (simp add: static_eq_def static_le_def)

definition good :: "('dv, 'h, 'kr) driveEnv \<Rightarrow> ('dv, 'h, 'kr) Client \<Rightarrow> bool" where
  "good E c \<longleftrightarrow> parents_ok c \<and> caches_ok E c"

text \<open>A step of an accessor: raw links stay, resolved metadata stays, and caches stay correct.\<close>

definition acc_step :: "('dv, 'h, 'kr) driveEnv \<Rightarrow> ('dv, 'h, 'kr) Client \<Rightarrow> ('dv, 'h, 'kr) Client \<Rightarrow> bool" where
  "acc_step E c c' \<longleftrightarrow> static_eq c c' \<and> good E c' \<and>
     (\<forall>r < length (dc_heap c). (\<forall>m. l_meta (lnk c r) = Some m \<longrightarrow> l_meta (lnk c' r) = Some m) \<and>
        (\<forall>s. l_cachedStat (lnk c r) = Some s \<longrightarrow> l_cachedStat (lnk c' r) = Some s))"

lemma static_eq_refl [simp]: "static_eq c c" by (simp add: static_eq_def same_static_def)
lemma acc_step_refl [simp]: "acc_step E c c = good E c" by (simp add: acc_step_def)

lemma static_eq_trans [trans]: "static_eq c c' \<Longrightarrow> static_eq c' c'' \<Longrightarrow> static_eq c c''"
  by (simp add: static_eq_def same_static_def)

lemma parents_ok_static: "static_eq c c' \<Longrightarrow> parents_ok c' = parents_ok c"
  by (simp add: static_eq_def same_static_def parents_ok_def)

lemma acc_step_trans [trans]:
  assumes "acc_step E c c'" "acc_step E c' c''"
  shows "acc_step E c c''"
  using assms static_eq_trans[of c c' c''] by (simp add: acc_step_def) (simp add: static_eq_def)

lemma acc_stepD:
  assumes "acc_step E c c'"
  shows "good E c'" "static_eq c c'" "length (dc_heap c') = length (dc_heap c)"
    "r < length (dc_heap c) \<Longrightarrow> l_meta (lnk c r) = Some m \<Longrightarrow> l_meta (lnk c' r) = Some m"
    "r < length (dc_heap c) \<Longrightarrow> l_cachedStat (lnk c r) = Some s \<Longrightarrow> l_cachedStat (lnk c' r) = Some s"
  using assms by (simp_all add: acc_step_def static_eq_def)

lemma share_keyring_static: "static_le c c' \<Longrightarrow> share_getKeyRing E c' s = share_getKeyRing E c s"
  by (simp add: static_le_def share_getKeyRing_def split: option.split)

lemma derive_static: "static_le c c' \<Longrightarrow> r < length (dc_heap c) \<Longrightarrow>
    deriveKeyRing E c' (l_protonLink (lnk c' r)) kr = deriveKeyRing E c (l_protonLink (lnk c r)) kr"
  by (simp add: static_le_def same_static_def deriveKeyRing_def address_keyring_def split: option.split)

lemma decryptName_static: "static_le c c' \<Longrightarrow> r < length (dc_heap c) \<Longrightarrow>
    decryptName E c' (l_protonLink (lnk c' r)) kr = decryptName E c (l_protonLink (lnk c r)) kr"
  by (simp add: static_le_def same_static_def decryptName_def address_keyring_def split: option.split)

lemma static_link: "static_le c c' \<Longrightarrow> r < length (dc_heap c) \<Longrightarrow>
    l_parentLink (lnk c' r) = l_parentLink (lnk c r) \<and> l_share (lnk c' r) = l_share (lnk c r) \<and>
    pl_LinkID (l_protonLink (lnk c' r)) = pl_LinkID (l_protonLink (lnk c r)) \<and>
    pl_Type (l_protonLink (lnk c' r)) = pl_Type (l_protonLink (lnk c r)) \<and>
    pl_State (l_protonLink (lnk c' r)) = pl_State (l_protonLink (lnk c r))"
  by (simp add: static_le_def same_static_def)

lemma pure_keyring_le:
  assumes "static_le c c'" "parents_ok c"
  shows "r < length (dc_heap c) \<Longrightarrow> pure_keyring E c' n r = pure_keyring E c n r"
proof (induction n arbitrary: r)
  case (Suc n)
  note l = static_link[OF assms(1) Suc.prems] derive_static[OF assms(1) Suc.prems] share_keyring_static[OF assms(1)]
  have "pure_keyring E c' n p = pure_keyring E c n p" if "l_parentLink (lnk c r) = Some p" for p
  proof (rule Suc.IH)
    have "p < r" using assms(2) Suc.prems that by (simp add: parents_ok_def)
    then show "p < length (dc_heap c)" using Suc.prems by simp
  qed
  then show ?case using l by (simp cong: option.case_cong sum.case_cong)
qed simp

lemma pure_keyring_fuel:
  assumes "parents_ok c"
  shows "r < length (dc_heap c) \<Longrightarrow> r < n \<Longrightarrow> pure_keyring E c n r = pure_keyring E c (Suc r) r"
proof (induction r arbitrary: n rule: less_induct)
  case (less r)
  obtain m where n: "n = Suc m" using less.prems(2) by (cases n) auto
  have "pure_keyring E c m p = pure_keyring E c r p" if "l_parentLink (lnk c r) = Some p" for p
  proof -
    have p: "p < r" using assms less.prems(1) that by (simp add: parents_ok_def)
    show ?thesis using less.IH[OF p, of m] less.IH[OF p, of r] p less.prems n by simp
  qed
  then show ?case unfolding n by (simp cong: option.case_cong)
qed

lemma pure_name_le:
  assumes "static_le c c'" "parents_ok c" "r < length (dc_heap c)"
  shows "pure_name E c' r = pure_name E c r"
proof -
  have "pure_keyring E c' (Suc p) p = pure_keyring E c (Suc p) p" if "l_parentLink (lnk c r) = Some p" for p
    by (rule pure_keyring_le[OF assms(1,2)]) (use assms that in \<open>auto simp: parents_ok_def intro: less_trans\<close>)
  then show ?thesis unfolding pure_name_def
    using static_link[OF assms(1,3)] decryptName_static[OF assms(1,3)] share_keyring_static[OF assms(1)]
    by (simp cong: option.case_cong sum.case_cong)
qed

lemmas pure_keyring_static = pure_keyring_le[OF static_eq_le] and pure_name_static = pure_name_le[OF static_eq_le]

lemma caches_ok_transfer:
  assumes "static_eq c c'" "parents_ok c"
    and "\<And>r kr. r < length (dc_heap c) \<Longrightarrow> l_cachedKeyRing (lnk c' r) = Some kr \<Longrightarrow> pure_keyring E c (Suc r) r = Inr kr"
    and "\<And>r. r < length (dc_heap c) \<Longrightarrow> l_cachedName (lnk c' r) \<noteq> [] \<Longrightarrow> pure_name E c r = Inr (l_cachedName (lnk c' r))"
  shows "caches_ok E c'"
proof -
  have len: "length (dc_heap c') = length (dc_heap c)" using assms(1) by (simp add: static_eq_def)
  show ?thesis unfolding caches_ok_def
    using assms(3,4) len pure_keyring_static[OF assms(1,2)] pure_name_static[OF assms(1,2)] by (simp del: pure_keyring.simps)
qed


section \<open>The accessors keep the caches\<close>

lemma lnk_upd [simp]: "lnk (upd_link r f c) t = (if t = r \<and> r < length (dc_heap c) then f (lnk c r) else lnk c t)"
  by (cases "r < length (dc_heap c)") (auto simp: upd_link_def nth_list_update list_update_beyond)

lemma upd_link_frame [simp]:
  "length (dc_heap (upd_link r f c)) = length (dc_heap c)" "dc_addresses (upd_link r f c) = dc_addresses c"
  "dc_addressKeyRings (upd_link r f c) = dc_addressKeyRings c" "dc_store (upd_link r f c) = dc_store c"
  "dc_linkTable (upd_link r f c) = dc_linkTable c"
  by (simp_all add: upd_link_def)

lemma acc_step_upd:
  assumes "good E c" "r < length (dc_heap c)" "same_static (lnk c r) (f (lnk c r))"
    and "\<And>m. l_meta (lnk c r) = Some m \<Longrightarrow> l_meta (f (lnk c r)) = Some m"
    and "\<And>s. l_cachedStat (lnk c r) = Some s \<Longrightarrow> l_cachedStat (f (lnk c r)) = Some s"
    and "\<And>kr. l_cachedKeyRing (f (lnk c r)) = Some kr \<Longrightarrow> pure_keyring E c (Suc r) r = Inr kr"
    and "l_cachedName (f (lnk c r)) \<noteq> [] \<Longrightarrow> pure_name E c r = Inr (l_cachedName (f (lnk c r)))"
  shows "acc_step E c (upd_link r f c)"
proof -
  have s: "static_eq c (upd_link r f c)" using assms(2,3) by (simp add: static_eq_def) (simp add: same_static_def)
  have p: "parents_ok c" and k: "caches_ok E c" using assms(1) by (simp_all add: good_def)
  have "caches_ok E (upd_link r f c)"
  proof (rule caches_ok_transfer[OF s p])
    show "pure_keyring E c (Suc t) t = Inr kr" if "t < length (dc_heap c)" "l_cachedKeyRing (lnk (upd_link r f c) t) = Some kr" for t kr
      using that assms(6) k by (cases "t = r") (simp_all add: caches_ok_def assms(2) del: pure_keyring.simps)
    show "pure_name E c t = Inr (l_cachedName (lnk (upd_link r f c) t))"
      if "t < length (dc_heap c)" "l_cachedName (lnk (upd_link r f c) t) \<noteq> []" for t
      using that assms(7) k by (cases "t = r") (simp_all add: caches_ok_def assms(2) del: pure_keyring.simps)
  qed
  then show ?thesis using s p assms(2,4,5) parents_ok_static[OF s] by (simp add: acc_step_def good_def)
qed

lemma acc_step_net [simp]: "acc_step E c (set_net h c) = good E c"
proof -
  have s: "static_eq c (set_net h c)" by (simp add: static_eq_def same_static_def)
  have "good E c \<Longrightarrow> good E (set_net h c)"
    using caches_ok_transfer[OF s] parents_ok_static[OF s] by (simp add: good_def caches_ok_def del: pure_keyring.simps)
  moreover have "good E (set_net h c) \<Longrightarrow> good E c"
  proof -
    assume g: "good E (set_net h c)"
    have s': "static_eq (set_net h c) c" by (simp add: static_eq_def same_static_def)
    show "good E c" using g caches_ok_transfer[OF s'] parents_ok_static[OF s'] by (simp add: good_def caches_ok_def del: pure_keyring.simps)
  qed
  ultimately show ?thesis using s by (auto simp: acc_step_def)
qed

lemma good_cachedD:
  assumes "good E c" "r < length (dc_heap c)"
  shows "l_cachedKeyRing (lnk c r) = Some kr \<Longrightarrow> pure_keyring E c (Suc r) r = Inr kr"
    "l_cachedName (lnk c r) \<noteq> [] \<Longrightarrow> pure_name E c r = Inr (l_cachedName (lnk c r))"
    "l_parentLink (lnk c r) = Some p \<Longrightarrow> p < r"
  using assms by (auto simp: good_def caches_ok_def parents_ok_def simp del: pure_keyring.simps)

text \<open>A keyring accessor touches no other field, and not the network.\<close>

definition keys_only :: "('dv, 'h, 'kr) Client \<Rightarrow> ('dv, 'h, 'kr) Client \<Rightarrow> bool" where
  "keys_only c c' \<longleftrightarrow> dc_store c' = dc_store c \<and> dc_linkTable c' = dc_linkTable c \<and> length (dc_heap c') = length (dc_heap c) \<and>
     (\<forall>t < length (dc_heap c). lnk c' t = (lnk c t)\<lparr>l_cachedKeyRing := l_cachedKeyRing (lnk c' t)\<rparr>)"

lemma keys_only_refl [simp]: "keys_only c c" by (simp add: keys_only_def)

lemma keys_only_upd: "keys_only c c' \<Longrightarrow> keys_only c (upd_link r (\<lambda>l. l\<lparr>l_cachedKeyRing := k\<rparr>) c')"
  by (simp add: keys_only_def) (metis Link.surjective Link.update_convs(6))

lemma getKeyRing_spec:
  "good E c \<Longrightarrow> r < length (dc_heap c) \<Longrightarrow> r < n \<Longrightarrow> getKeyRing E n r c = (res, c') \<Longrightarrow>
    res = pure_keyring E c (Suc r) r \<and> acc_step E c c' \<and> keys_only c c'"
proof (induction n arbitrary: r c res c')
  case (Suc n)
  note g = Suc.prems(1) and r = Suc.prems(2)
  show ?case
  proof (cases "l_cachedKeyRing (lnk c r)")
    case (Some kr)
    with Suc.prems good_cachedD(1)[OF g r] show ?thesis by simp
  next
    case None
    let ?par = "case l_parentLink (lnk c r) of
                   Some p \<Rightarrow> getKeyRing E n p c
                 | None \<Rightarrow> (case l_share (lnk c r) of
                              None \<Rightarrow> (Inl (NoParentNoShare (pl_LinkID (l_protonLink (lnk c r)))), c)
                            | Some s \<Rightarrow> (share_getKeyRing E c s, c))"
    let ?pure = "case l_parentLink (lnk c r) of
                   Some p \<Rightarrow> pure_keyring E c r p
                 | None \<Rightarrow> (case l_share (lnk c r) of
                              None \<Rightarrow> Inl (NoParentNoShare (pl_LinkID (l_protonLink (lnk c r))))
                            | Some s \<Rightarrow> share_getKeyRing E c s)"
    obtain q c1 where q: "?par = (q, c1)" by force
    have par: "q = ?pure \<and> acc_step E c c1 \<and> keys_only c c1"
    proof (cases "l_parentLink (lnk c r)")
      case None
      then show ?thesis using q g by (auto split: option.splits)
    next
      case (Some p)
      have p: "p < r" by (rule good_cachedD(3)[OF g r Some])
      have "getKeyRing E n p c = (q, c1)" using q Some by simp
      from Suc.IH[OF g _ _ this] p r Suc.prems(3)
      have "q = pure_keyring E c (Suc p) p \<and> acc_step E c c1 \<and> keys_only c c1" by simp
      moreover have "pure_keyring E c r p = pure_keyring E c (Suc p) p"
        by (rule pure_keyring_fuel) (use g p r in \<open>simp_all add: good_def\<close>)
      ultimately show ?thesis using Some by simp
    qed
    then have g1: "good E c1" and st: "static_eq c c1" and q': "q = ?pure" and pc: "acc_step E c c1" and k1: "keys_only c c1" by (simp_all add: acc_step_def)
    have run: "getKeyRing E (Suc n) r c = (case (q, c1) of
        (Inl e, c1) \<Rightarrow> (Inl (KeyRingParentErr (pl_LinkID (l_protonLink (lnk c r))) e), c1)
      | (Inr parentKR, c1) \<Rightarrow>
               (case deriveKeyRing E c1 (l_protonLink (lnk c r)) parentKR of
                  Inl e \<Rightarrow> (Inl e, c1)
                | Inr kr \<Rightarrow> (Inr kr, if caches_metadata (lnk c r) then upd_link r (\<lambda>l. l\<lparr>l_cachedKeyRing := Some kr\<rparr>) c1 else c1)))"
      using None q by simp
    have pk: "pure_keyring E c (Suc r) r = (case q of Inl e \<Rightarrow> Inl (KeyRingParentErr (pl_LinkID (l_protonLink (lnk c r))) e)
      | Inr kr \<Rightarrow> deriveKeyRing E c (l_protonLink (lnk c r)) kr)" by (simp only: pure_keyring.simps q')
    show ?thesis
    proof (cases q)
      case (Inl e)
      with run pk Suc.prems(4) pc k1 show ?thesis by (simp del: getKeyRing.simps pure_keyring.simps)
    next
      case (Inr kr)
      have d: "deriveKeyRing E c1 (l_protonLink (lnk c r)) kr = deriveKeyRing E c (l_protonLink (lnk c r)) kr"
        using st by (simp add: static_eq_def deriveKeyRing_def address_keyring_def split: option.split)
      show ?thesis
      proof (cases "deriveKeyRing E c (l_protonLink (lnk c r)) kr")
        case (Inl e)
        with run pk Suc.prems(4) pc k1 Inr d show ?thesis by (simp del: getKeyRing.simps pure_keyring.simps)
      next
        case k: (Inr k)
        have pk1: "pure_keyring E c1 (Suc r) r = Inr k"
          using pure_keyring_static[OF st _ r] g pk Inr k by (simp add: good_def del: pure_keyring.simps)
        have r1: "r < length (dc_heap c1)" using st r by (simp add: static_eq_def)
        have "acc_step E c1 (upd_link r (\<lambda>l. l\<lparr>l_cachedKeyRing := Some k\<rparr>) c1)"
          by (rule acc_step_upd[OF g1 r1]) (use pk1 good_cachedD(2)[OF g1 r1] in \<open>simp_all add: same_static_def del: pure_keyring.simps\<close>)
        with pc have "acc_step E c (upd_link r (\<lambda>l. l\<lparr>l_cachedKeyRing := Some k\<rparr>) c1)" using acc_step_trans by blast
        then show ?thesis using run pk Suc.prems(4) Inr k d pc k1 keys_only_upd[OF k1] by (auto simp del: getKeyRing.simps pure_keyring.simps split: if_splits)
      qed
    qed
  qed
qed simp


lemma KeyRing_spec:
  assumes "good E c" "r < length (dc_heap c)" "link_KeyRing E r c = (res, c')"
  shows "res = pure_keyring E c (Suc r) r" "acc_step E c c'" "keys_only c c'"
  using getKeyRing_spec[OF assms(1,2,2) assms(3)[unfolded link_KeyRing_def]] by simp_all

lemma Name_spec:
  assumes g: "good E c" and r: "r < length (dc_heap c)" and run: "link_Name E r c = (res, c')"
  shows "res = pure_name E c r \<and> acc_step E c c' \<and> dc_store c' = dc_store c"
proof (cases "l_cachedName (lnk c r) = []")
  case False
  with run good_cachedD(2)[OF g r] g show ?thesis by (auto simp: link_Name_def)
next
  case True
  obtain q c1 where q: "getParentKeyRing E r c = (q, c1)" by force
  have par: "q = (case l_parentLink (lnk c r) of
              Some p \<Rightarrow> pure_keyring E c (Suc p) p
            | None \<Rightarrow> (case l_share (lnk c r) of
                         None \<Rightarrow> Inl (NoParentNoShare (pl_LinkID (l_protonLink (lnk c r))))
                       | Some s \<Rightarrow> share_getKeyRing E c s)) \<and> acc_step E c c1 \<and> keys_only c c1"
  proof (cases "l_parentLink (lnk c r)")
    case None
    then show ?thesis using q g by (auto simp: getParentKeyRing_def split: option.splits)
  next
    case (Some p)
    have p: "p < length (dc_heap c)" using good_cachedD(3)[OF g r Some] r by simp
    have "link_KeyRing E p c = (q, c1)" using q Some by (simp add: getParentKeyRing_def)
    from KeyRing_spec[OF g p this] Some show ?thesis by (simp del: pure_keyring.simps)
  qed
  then have st: "static_eq c c1" and g1: "good E c1" and pc: "acc_step E c c1" and k: "dc_store c1 = dc_store c"
    by (simp_all add: acc_step_def keys_only_def)
  have pn: "pure_name E c r = (case q of Inl e \<Rightarrow> Inl (NameParentErr (pl_LinkID (l_protonLink (lnk c r))) e)
    | Inr kr \<Rightarrow> decryptName E c (l_protonLink (lnk c r)) kr)" using par unfolding pure_name_def by (elim conjE) (simp only:)
  have run': "(case q of (Inl e) \<Rightarrow> (Inl (NameParentErr (pl_LinkID (l_protonLink (lnk c r))) e), c1)
     | Inr parentKR \<Rightarrow>
                (case decryptName E c1 (l_protonLink (lnk c r)) parentKR of
                   Inl e \<Rightarrow> (Inl e, c1)
                 | Inr name \<Rightarrow> (Inr name, if caches_names (lnk c r) then upd_link r (\<lambda>l. l\<lparr>l_cachedName := name\<rparr>) c1 else c1)))
     = (res, c')" using run True q by (cases q) (simp_all add: link_Name_def)
  show ?thesis
  proof (cases q)
    case (Inl e)
    with run' pn pc k show ?thesis by simp
  next
    case (Inr kr)
    have d: "decryptName E c1 (l_protonLink (lnk c r)) kr = decryptName E c (l_protonLink (lnk c r)) kr"
      using st by (simp add: static_eq_def decryptName_def address_keyring_def split: option.split)
    show ?thesis
    proof (cases "decryptName E c (l_protonLink (lnk c r)) kr")
      case (Inl e)
      with run' pn pc k Inr d show ?thesis by simp
    next
      case n: (Inr name)
      have r1: "r < length (dc_heap c1)" using st r by (simp add: static_eq_def)
      have "pure_name E c1 r = Inr name" using pure_name_static[OF st _ r] g pn Inr n by (simp add: good_def)
      then have "acc_step E c1 (upd_link r (\<lambda>l. l\<lparr>l_cachedName := name\<rparr>) c1)"
        by (intro acc_step_upd[OF g1 r1]) (use good_cachedD(1)[OF g1 r1] in \<open>simp_all add: same_static_def del: pure_keyring.simps\<close>)
      with pc have "acc_step E c (upd_link r (\<lambda>l. l\<lparr>l_cachedName := name\<rparr>) c1)" using acc_step_trans by blast
      with run' pn Inr n d pc k show ?thesis by (auto split: if_splits)
    qed
  qed
qed

lemma acc_step_fields:
  assumes "good E c" "r < length (dc_heap c)"
    and "same_static (lnk c r) (f (lnk c r))" "l_cachedKeyRing (f (lnk c r)) = l_cachedKeyRing (lnk c r)"
    and "l_cachedName (f (lnk c r)) = l_cachedName (lnk c r)"
    and "\<And>m. l_meta (lnk c r) = Some m \<Longrightarrow> l_meta (f (lnk c r)) = Some m"
    and "\<And>s. l_cachedStat (lnk c r) = Some s \<Longrightarrow> l_cachedStat (f (lnk c r)) = Some s"
  shows "acc_step E c (upd_link r f c)"
  by (rule acc_step_upd[where f = f]) (use good_cachedD(1,2)[OF assms(1,2)] assms in \<open>simp_all del: pure_keyring.simps\<close>)

lemma same_static_revision: "same_static l (l\<lparr>l_protonLink := set_revision x n (l_protonLink l)\<rparr>)"
  by (simp add: same_static_def set_revision_def)

lemma Fetch_step:
  assumes g: "good E c" and r: "r < length (dc_heap c)"
  shows "acc_step E c (FetchRevisionXAttr E r c)"
proof -
  have net: "acc_step E c (set_net h c)" "good E (set_net h c)" for h using g acc_stepD(1)[of E c "set_net h c"] by simp_all
  have upd: "acc_step E c (upd_link r (\<lambda>l. l\<lparr>l_protonLink := set_revision x n (l_protonLink (lnk c r))\<rparr>) (set_net h c))" for x n h
  proof (rule acc_step_trans[OF net(1)])
    show "acc_step E (set_net h c) (upd_link r (\<lambda>l. l\<lparr>l_protonLink := set_revision x n (l_protonLink (lnk c r))\<rparr>) (set_net h c))"
      by (rule acc_step_fields[OF net(2)]) (use r same_static_revision[of "lnk c r" x n] in \<open>simp_all\<close>)
  qed
  show ?thesis using g net(1) upd
    by (simp add: FetchRevisionXAttr_def Let_def split: option.split sum.split prod.split)
qed

lemma ensure_step:
  assumes g: "good E c" and r: "r < length (dc_heap c)"
  shows "acc_step E c (ensureXAttr E r c)"
proof -
  note f = Fetch_step[OF g r]
  have r1: "r < length (dc_heap (FetchRevisionXAttr E r c))" using acc_stepD(3)[OF f] r by simp
  have "acc_step E (FetchRevisionXAttr E r c) (upd_link r u (FetchRevisionXAttr E r c))"
    if "u \<in> {\<lambda>l. l\<lparr>l_fetchDone := True\<rparr>, \<lambda>l. l\<lparr>l_fetchFailCount := l_fetchFailCount l + 1, l_fetchDone := l_fetchFailCount l + 1 \<ge> 3\<rparr>}" for u
    by (rule acc_step_fields[OF acc_stepD(1)[OF f] r1]) (use that in \<open>auto simp: same_static_def\<close>)
  note u = acc_step_trans[OF f this]
  show ?thesis unfolding ensureXAttr_def Let_def
    using g u by (simp split: option.split)
qed

lemma store_meta_step:
  assumes g: "good E c" and r: "r < length (dc_heap c)"
  shows "acc_step E c (store_meta r b m c)"
proof -
  have "l_meta (lnk c r) = None \<Longrightarrow> acc_step E c (upd_link r (\<lambda>l. l\<lparr>l_meta := Some m\<rparr>) c)"
    by (rule acc_step_fields[OF g r]) (simp_all add: same_static_def)
  then show ?thesis using g by (simp add: store_meta_def Let_def)
qed

lemma store_stat_step:
  assumes g: "good E c" and r: "r < length (dc_heap c)"
  shows "acc_step E c (store_stat r fi c)"
proof -
  have "l_cachedStat (lnk c r) = None \<Longrightarrow> acc_step E c (upd_link r (\<lambda>l. l\<lparr>l_cachedStat := Some fi\<rparr>) c)"
    by (rule acc_step_fields[OF g r]) (simp_all add: same_static_def)
  then show ?thesis using g by (simp add: store_stat_def)
qed


lemma step_len: "acc_step E c c' \<Longrightarrow> r < length (dc_heap c) \<Longrightarrow> r < length (dc_heap c')"
  by (simp add: acc_stepD(3))

lemma maybe_ensure_step:
  "good E c \<Longrightarrow> r < length (dc_heap c) \<Longrightarrow> acc_step E c (if b then ensureXAttr E r c else c)"
  by (simp add: ensure_step)

lemma resolve_meta_step:
  assumes g: "good E c" and r: "r < length (dc_heap c)"
  shows "acc_step E c (snd (resolve_meta E r c))"
proof -
  define c1 where "c1 = (if pl_Type (l_protonLink (lnk c r)) = LinkTypeFile then ensureXAttr E r c else c)"
  obtain kr c2 where k: "link_KeyRing E r c1 = (kr, c2)" by force
  have s1: "acc_step E c c1" unfolding c1_def by (rule maybe_ensure_step[OF g r])
  note s2 = KeyRing_spec(2)[OF acc_stepD(1)[OF s1] step_len[OF s1 r] k]
  note s = acc_step_trans[OF s1 s2]
  have "acc_step E c2 (store_meta r b m c2)" for b m by (rule store_meta_step[OF acc_stepD(1)[OF s] step_len[OF s r]])
  from acc_step_trans[OF s this] show ?thesis by (simp add: resolve_meta_def Let_def c1_def[symmetric] k)
qed

lemma Size_step: "good E c \<Longrightarrow> r < length (dc_heap c) \<Longrightarrow> acc_step E c (snd (link_Size E r c))"
  by (simp add: link_Size_def resolve_meta_step split: option.split)

lemma ModifyTime_step: "good E c \<Longrightarrow> r < length (dc_heap c) \<Longrightarrow> acc_step E c (snd (link_ModifyTime E r c))"
  by (simp add: link_ModifyTime_def resolve_meta_step split: option.split)

lemma Mode_step:
  assumes g: "good E c" and r: "r < length (dc_heap c)"
  shows "acc_step E c (snd (link_Mode E r c))"
proof -
  define c1 where "c1 = (if pl_Type (l_protonLink (lnk c r)) = LinkTypeFile then ensureXAttr E r c else c)"
  obtain kr c2 where k: "link_KeyRing E r c1 = (kr, c2)" by force
  have s1: "acc_step E c c1" unfolding c1_def by (rule maybe_ensure_step[OF g r])
  note s2 = KeyRing_spec(2)[OF acc_stepD(1)[OF s1] step_len[OF s1 r] k]
  note s = acc_step_trans[OF s1 s2]
  have "acc_step E c2 (store_meta r b m c2)" for b m by (rule store_meta_step[OF acc_stepD(1)[OF s] step_len[OF s r]])
  note t = acc_step_trans[OF s this]
  show ?thesis unfolding link_Mode_def c1_def[symmetric] Let_def k
    using g s t by (simp split: option.split sum.split)
qed

lemma IsSymlink_step:
  assumes g: "good E c" and r: "r < length (dc_heap c)"
  shows "acc_step E c (snd (link_IsSymlink E r c))"
proof -
  obtain kr c2 where k: "link_KeyRing E r (ensureXAttr E r c) = (kr, c2)" by force
  note s1 = ensure_step[OF g r]
  note s = acc_step_trans[OF s1 KeyRing_spec(2)[OF acc_stepD(1)[OF s1] step_len[OF s1 r] k]]
  then show ?thesis using g by (simp add: link_IsSymlink_def k split: sum.split)
qed

lemma Stat_step:
  assumes g: "good E c" and r: "r < length (dc_heap c)"
  shows "acc_step E c (snd (link_Stat E r c))"
proof -
  obtain sz c1 where z: "link_Size E r c = (sz, c1)" by force
  obtain mt c2 where m: "link_ModifyTime E r c1 = (mt, c2)" by force
  have s1: "acc_step E c c1" using Size_step[OF g r] z by simp
  have s2: "acc_step E c1 c2" using ModifyTime_step[OF acc_stepD(1)[OF s1] step_len[OF s1 r]] m by simp
  note s12 = acc_step_trans[OF s1 s2]
  have s3: "acc_step E c2 (snd (link_Mode E r c2))" by (rule Mode_step[OF acc_stepD(1)[OF s2] step_len[OF s12 r]])
  note s = acc_step_trans[OF s12 s3]
  have st: "acc_step E (snd (link_Mode E r c2)) (store_stat r fi (snd (link_Mode E r c2)))" for fi
    by (rule store_stat_step[OF acc_stepD(1)[OF s] step_len[OF s r]])
  show ?thesis using g store_stat_step[OF g r] acc_step_trans[OF s st]
    by (simp add: link_Stat_def Let_def z m split: option.split)
qed

lemma abs_parts_step:
  "good E c \<Longrightarrow> r < length (dc_heap c) \<Longrightarrow> abs_parts E n r c = (res, c') \<Longrightarrow> acc_step E c c' \<and> dc_store c' = dc_store c"
proof (induction n arbitrary: r c res c')
  case (Suc n)
  obtain q c1 where q: "link_Name E r c = (q, c1)" by force
  note s = Name_spec[OF Suc.prems(1,2) q]
  show ?case
  proof (cases "l_parentLink (lnk c r)")
    case None
    then show ?thesis using Suc.prems(3) q s by (auto split: sum.splits)
  next
    case (Some p)
    have p: "p < length (dc_heap c)" using good_cachedD(3)[OF Suc.prems(1,2) Some] Suc.prems(2) by simp
    show ?thesis
    proof (cases q)
      case (Inl e)
      then show ?thesis using Suc.prems(3) q s Some by auto
    next
      case (Inr nm)
      obtain q2 c2 where q2: "abs_parts E n p c1 = (q2, c2)" by force
      have "acc_step E c1 c2 \<and> dc_store c2 = dc_store c1"
        using Suc.IH[OF _ _ q2] s step_len[of E c c1 p] p acc_stepD(1) by blast
      then have "acc_step E c c2 \<and> dc_store c2 = dc_store c" using s acc_step_trans by metis
      then show ?thesis using Suc.prems(3) q q2 Some Inr by (auto split: sum.splits)
    qed
  qed
qed simp

section \<open>Runs of accessors\<close>

datatype accessor = AName | AKeyRing | ASize | AModifyTime | AMode | AStat | AIsSymlink | APrefetch | AAbsPath

fun access :: "('dv, 'h, 'kr) driveEnv \<Rightarrow> accessor \<times> lref \<Rightarrow> ('dv, 'h, 'kr) Client \<Rightarrow> ('dv, 'h, 'kr) Client" where
  "access E (AName, r) c = snd (link_Name E r c)"
| "access E (AKeyRing, r) c = snd (link_KeyRing E r c)"
| "access E (ASize, r) c = snd (link_Size E r c)"
| "access E (AModifyTime, r) c = snd (link_ModifyTime E r c)"
| "access E (AMode, r) c = snd (link_Mode E r c)"
| "access E (AStat, r) c = snd (link_Stat E r c)"
| "access E (AIsSymlink, r) c = snd (link_IsSymlink E r c)"
| "access E (APrefetch, r) c = ensureXAttr E r c"
| "access E (AAbsPath, r) c = snd (link_AbsPath E r c)"

lemma access_step:
  assumes "good E c" "r < length (dc_heap c)"
  shows "acc_step E c (access E (a, r) c)"
proof (cases a)
  case AName
  then show ?thesis using Name_spec[OF assms] by (metis access.simps(1) prod.collapse)
next
  case AKeyRing
  then show ?thesis using KeyRing_spec(2)[OF assms] by (metis access.simps(2) prod.collapse)
next
  case AAbsPath
  then show ?thesis using abs_parts_step[OF assms, of "length (dc_heap c)"]
    by (auto simp: link_AbsPath_def split: prod.splits sum.splits)
qed (simp_all add: assms Size_step ModifyTime_step Mode_step Stat_step IsSymlink_step ensure_step)

fun run_accesses :: "('dv, 'h, 'kr) driveEnv \<Rightarrow> (accessor \<times> lref) list \<Rightarrow> ('dv, 'h, 'kr) Client \<Rightarrow> ('dv, 'h, 'kr) Client" where
  "run_accesses E [] c = c"
| "run_accesses E (x # xs) c = run_accesses E xs (access E x c)"

lemma run_accesses_step:
  "good E c \<Longrightarrow> \<forall>x\<in>set xs. snd x < length (dc_heap c) \<Longrightarrow> acc_step E c (run_accesses E xs c)"
proof (induction xs arbitrary: c)
  case (Cons x xs)
  obtain a r where x: "x = (a, r)" by force
  have s: "acc_step E c (access E x c)" using access_step[OF Cons.prems(1), of r a] Cons.prems(2) x by simp
  with Cons show ?case using acc_step_trans[OF s] acc_stepD(1,3)[OF s] by simp
qed simp


section \<open>How often metadata is fetched\<close>

text \<open>No further request for the attributes of this link.\<close>

definition settled :: "'kr Link \<Rightarrow> bool" where
  "settled l \<longleftrightarrow> l_fetchDone l \<or> fetchable (l_protonLink l) = None \<or> revision_XAttr (l_protonLink l) \<noteq> []"

definition fetch_budget :: "'kr Link \<Rightarrow> nat" where
  "fetch_budget l = (if settled l then 0 else 3 - l_fetchFailCount l)"

text \<open>\<open>r\<close> is the only link object with the identifier \<open>i\<close>, and it has not given up yet without saying so.\<close>

definition fetch_inv :: "string \<Rightarrow> lref \<Rightarrow> ('dv, 'h, 'kr) Client \<Rightarrow> bool" where
  "fetch_inv i r c \<longleftrightarrow> r < length (dc_heap c) \<and>
     (\<forall>t < length (dc_heap c). pl_LinkID (l_protonLink (lnk c t)) = i \<longleftrightarrow> t = r) \<and>
     (settled (lnk c r) \<or> l_fetchFailCount (lnk c r) < 3)"

text \<open>\<open>cnt\<close> counts the requests for the revision of \<open>i\<close>.\<close>

definition counts_requests :: "('dv, 'h, 'kr) driveEnv \<Rightarrow> string \<Rightarrow> ('h \<Rightarrow> nat) \<Rightarrow> bool" where
  "counts_requests E i cnt \<longleftrightarrow>
     (\<forall>sid j rid h. cnt (snd (de_GetRevision E sid j rid h)) = cnt h + (if j = i then 1 else 0))"

definition fetch_step :: "('h \<Rightarrow> nat) \<Rightarrow> string \<Rightarrow> lref \<Rightarrow> ('dv, 'h, 'kr) Client \<Rightarrow> ('dv, 'h, 'kr) Client \<Rightarrow> bool" where
  "fetch_step cnt i r c c' \<longleftrightarrow> fetch_inv i r c \<longrightarrow>
     fetch_inv i r c' \<and> cnt (bs_net (dc_store c')) + fetch_budget (lnk c' r) \<le> cnt (bs_net (dc_store c)) + fetch_budget (lnk c r)"

lemma fetch_step_refl [simp]: "fetch_step cnt i r c c" by (simp add: fetch_step_def)

lemma fetch_step_trans: "fetch_step cnt i r c c' \<Longrightarrow> fetch_step cnt i r c' c'' \<Longrightarrow> fetch_step cnt i r c c''"
  by (auto simp: fetch_step_def)

text \<open>A step that leaves the raw links, the fetch state and the network alone.\<close>

lemma fetch_step_same:
  assumes "dc_store c' = dc_store c" "length (dc_heap c') = length (dc_heap c)"
    and "\<And>t. t < length (dc_heap c) \<Longrightarrow> l_protonLink (lnk c' t) = l_protonLink (lnk c t) \<and>
      l_fetchDone (lnk c' t) = l_fetchDone (lnk c t) \<and> l_fetchFailCount (lnk c' t) = l_fetchFailCount (lnk c t)"
  shows "fetch_step cnt i r c c'"
  unfolding fetch_step_def
proof
  assume inv: "fetch_inv i r c"
  then have r: "r < length (dc_heap c)" by (simp add: fetch_inv_def)
  have "settled (lnk c' r) = settled (lnk c r)" "fetch_budget (lnk c' r) = fetch_budget (lnk c r)"
    using assms(3)[OF r] by (simp_all add: settled_def fetch_budget_def)
  then show "fetch_inv i r c' \<and> cnt (bs_net (dc_store c')) + fetch_budget (lnk c' r) \<le> cnt (bs_net (dc_store c)) + fetch_budget (lnk c r)"
    using inv assms by (simp add: fetch_inv_def)
qed

lemma fetch_step_keys: "keys_only c c' \<Longrightarrow> fetch_step cnt i r c c'"
proof (rule fetch_step_same)
  assume k: "keys_only c c'"
  show "dc_store c' = dc_store c" "length (dc_heap c') = length (dc_heap c)" using k by (simp_all add: keys_only_def)
  show "l_protonLink (lnk c' t) = l_protonLink (lnk c t) \<and> l_fetchDone (lnk c' t) = l_fetchDone (lnk c t) \<and>
      l_fetchFailCount (lnk c' t) = l_fetchFailCount (lnk c t)" if "t < length (dc_heap c)" for t
  proof -
    have "lnk c' t = (lnk c t)\<lparr>l_cachedKeyRing := l_cachedKeyRing (lnk c' t)\<rparr>" using k that by (simp add: keys_only_def)
    then show ?thesis by (metis Link.select_convs(1,9,10) Link.surjective Link.update_convs(6))
  qed
qed

lemma fetch_step_store: "fetch_step cnt i r c (store_meta t b m c)" "fetch_step cnt i r c (store_stat t fi c)"
  by (rule fetch_step_same; simp add: store_meta_def store_stat_def Let_def)+

lemma fetchable_revision: "fetchable p = Some rv \<Longrightarrow> revision_XAttr p = rv_XAttr rv"
  by (auto simp: fetchable_def revision_XAttr_def split: if_splits option.splits)

lemma set_revision_fields [simp]:
  "pl_LinkID (set_revision x n p) = pl_LinkID p" "pl_Type (set_revision x n p) = pl_Type p" "pl_State (set_revision x n p) = pl_State p"
  by (simp_all add: set_revision_def)

lemma fetchable_set [simp]: "fetchable (set_revision x n p) = None \<longleftrightarrow> fetchable p = None"
  by (auto simp: fetchable_def set_revision_def split: option.splits)

text \<open>What one fetch does: at most one request, for the link's own identifier.\<close>

lemma Fetch_effect:
  assumes "t < length (dc_heap c)"
  obtains "FetchRevisionXAttr E t c = c"
  | sid rid h where "h = snd (de_GetRevision E sid (pl_LinkID (l_protonLink (lnk c t))) rid (bs_net (dc_store c)))"
      "FetchRevisionXAttr E t c = set_net h c"
  | sid rid h x n where "h = snd (de_GetRevision E sid (pl_LinkID (l_protonLink (lnk c t))) rid (bs_net (dc_store c)))"
      "FetchRevisionXAttr E t c = upd_link t (\<lambda>l. l\<lparr>l_protonLink := set_revision x n (l_protonLink (lnk c t))\<rparr>) (set_net h c)"
proof (cases "fetchable (l_protonLink (lnk c t))")
  case None
  then show thesis using that(1) by (simp add: FetchRevisionXAttr_def)
next
  case rv: (Some rv)
  show thesis
  proof (cases "rv_XAttr rv \<noteq> [] \<or> l_share (lnk c t) = None")
    case True
    then show thesis using that(1) rv by (auto simp: FetchRevisionXAttr_def Let_def split: if_splits)
  next
    case False
    then obtain s where s: "l_share (lnk c t) = Some s" "rv_XAttr rv = []" by auto
    obtain q h where q: "de_GetRevision E (sh_ShareID s) (pl_LinkID (l_protonLink (lnk c t))) (rv_ID rv) (bs_net (dc_store c)) = (q, h)" by force
    then have h: "h = snd (de_GetRevision E (sh_ShareID s) (pl_LinkID (l_protonLink (lnk c t))) (rv_ID rv) (bs_net (dc_store c)))" by simp
    show thesis
    proof (cases q)
      case (Inl e)
      then show thesis using that(2)[OF h] rv s q by (simp add: FetchRevisionXAttr_def)
    next
      case (Inr xn)
      then show thesis using that(3)[OF h, of "fst xn" "snd xn"] rv s q by (cases xn) (simp add: FetchRevisionXAttr_def)
    qed
  qed
qed

lemma ensure_fetch_step:
  assumes cnt: "counts_requests E i cnt" and t: "t < length (dc_heap c)"
  shows "fetch_step cnt i r c (ensureXAttr E t c)"
proof (cases "settled (lnk c t)")
  case True
  then have "ensureXAttr E t c = c"
    by (auto simp: settled_def ensureXAttr_def fetchable_revision split: option.split)
  then show ?thesis by simp
next
  case False
  then obtain rv where rv: "fetchable (l_protonLink (lnk c t)) = Some rv" "rv_XAttr rv = []" "\<not> l_fetchDone (lnk c t)"
    by (auto simp: settled_def fetchable_revision)
  let ?c1 = "FetchRevisionXAttr E t c"
  let ?f = "if revision_XAttr (l_protonLink (lnk ?c1 t)) = []
    then (\<lambda>l. l\<lparr>l_fetchFailCount := l_fetchFailCount l + 1, l_fetchDone := l_fetchFailCount l + 1 \<ge> 3\<rparr>) else (\<lambda>l. l\<lparr>l_fetchDone := True\<rparr>)"
  have run: "ensureXAttr E t c = upd_link t ?f ?c1" using rv by (simp add: ensureXAttr_def Let_def)
  have f: "length (dc_heap ?c1) = length (dc_heap c)" "\<And>s. s < length (dc_heap c) \<Longrightarrow> s \<noteq> t \<Longrightarrow> lnk ?c1 s = lnk c s"
    "pl_LinkID (l_protonLink (lnk ?c1 t)) = pl_LinkID (l_protonLink (lnk c t))"
    "l_fetchFailCount (lnk ?c1 t) = l_fetchFailCount (lnk c t)"
    "cnt (bs_net (dc_store ?c1)) \<le> cnt (bs_net (dc_store c)) + (if pl_LinkID (l_protonLink (lnk c t)) = i then 1 else 0)"
    using cnt t by (rule_tac Fetch_effect[OF t, of E]; simp add: counts_requests_def)+
  have lnk: "lnk (ensureXAttr E t c) s = (if s = t then ?f (lnk ?c1 t) else lnk c s)" if "s < length (dc_heap c)" for s
    unfolding run using f(1,2) t that by simp
  have keep: "pl_LinkID (l_protonLink (?f l)) = pl_LinkID (l_protonLink l)" for l by simp
  show ?thesis unfolding fetch_step_def
  proof
    assume inv: "fetch_inv i r c"
    then have r: "r < length (dc_heap c)" by (simp add: fetch_inv_def)
    have ids: "\<forall>s < length (dc_heap c). pl_LinkID (l_protonLink (lnk (ensureXAttr E t c) s)) = pl_LinkID (l_protonLink (lnk c s))"
      using lnk keep f(3) by simp
    have len: "length (dc_heap (ensureXAttr E t c)) = length (dc_heap c)" unfolding run using f(1) by simp
    have store: "dc_store (ensureXAttr E t c) = dc_store ?c1" unfolding run by simp
    have "settled (lnk (ensureXAttr E t c) r) \<or> l_fetchFailCount (lnk (ensureXAttr E t c) r) < 3"
    proof (cases "t = r")
      case True
      then show ?thesis using lnk[OF t] by (auto simp: settled_def)
    next
      case False
      then show ?thesis using lnk[OF r] inv by (simp add: fetch_inv_def)
    qed
    moreover have "cnt (bs_net (dc_store ?c1)) + fetch_budget (lnk (ensureXAttr E t c) r) \<le> cnt (bs_net (dc_store c)) + fetch_budget (lnk c r)"
    proof (cases "t = r")
      case True
      then have "l_fetchFailCount (lnk c r) < 3" using inv False by (simp add: fetch_inv_def)
      moreover have "fetch_budget (lnk c r) = 3 - l_fetchFailCount (lnk c r)" using False True by (simp add: fetch_budget_def)
      moreover have "fetch_budget (lnk (ensureXAttr E t c) r) \<le> 2 - l_fetchFailCount (lnk c r)"
        using lnk[OF t] f(4) True by (auto simp: fetch_budget_def settled_def)
      ultimately show ?thesis using f(5) by (auto split: if_splits)
    next
      case False
      then have "pl_LinkID (l_protonLink (lnk c t)) \<noteq> i" using inv t by (auto simp: fetch_inv_def)
      then show ?thesis using f(5) lnk[OF r] False by simp
    qed
    ultimately show "fetch_inv i r (ensureXAttr E t c) \<and>
      cnt (bs_net (dc_store (ensureXAttr E t c))) + fetch_budget (lnk (ensureXAttr E t c) r) \<le> cnt (bs_net (dc_store c)) + fetch_budget (lnk c r)"
      using inv ids len store by (simp add: fetch_inv_def)
  qed
qed

lemma Name_fetch_step:
  assumes "good E c" "t < length (dc_heap c)"
  shows "fetch_step cnt i r c (snd (link_Name E t c))"
proof -
  obtain q c1 where q: "getParentKeyRing E t c = (q, c1)" by force
  have k: "keys_only c c1"
  proof (cases "l_parentLink (lnk c t)")
    case (Some p)
    have "p < length (dc_heap c)" using good_cachedD(3)[OF assms Some] assms(2) by simp
    then show ?thesis using KeyRing_spec(3)[OF assms(1), of p q c1] q Some by (simp add: getParentKeyRing_def)
  qed (use q in \<open>auto simp: getParentKeyRing_def split: option.splits\<close>)
  have "fetch_step cnt i r c1 (upd_link t (\<lambda>l. l\<lparr>l_cachedName := nm\<rparr>) c1)" for nm
    by (rule fetch_step_same) simp_all
  note u = fetch_step_trans[OF fetch_step_keys[OF k] this]
  show ?thesis using u fetch_step_keys[OF k]
    by (simp add: link_Name_def q split: sum.split)
qed


lemma KeyRing_fetch_step: "good E c \<Longrightarrow> t < length (dc_heap c) \<Longrightarrow> fetch_step cnt i r c (snd (link_KeyRing E t c))"
  using KeyRing_spec(3)[of E c t] fetch_step_keys by (metis prod.collapse)

text \<open>An accessor that first ensures the attributes, then derives the keyring, then may store something.\<close>

lemma ensure_key_fetch:
  assumes cnt: "counts_requests E i cnt" and g: "good E c" and t: "t < length (dc_heap c)"
  defines "c1 \<equiv> (if pl_Type (l_protonLink (lnk c t)) = LinkTypeFile then ensureXAttr E t c else c)"
  assumes k: "link_KeyRing E t c1 = (kr, c2)"
  shows "fetch_step cnt i r c c2" "good E c2" "t < length (dc_heap c2)"
proof -
  have s1: "acc_step E c c1" unfolding c1_def by (rule maybe_ensure_step[OF g t])
  have f1: "fetch_step cnt i r c c1" unfolding c1_def using ensure_fetch_step[OF cnt t] by simp
  note s2 = KeyRing_spec[OF acc_stepD(1)[OF s1] step_len[OF s1 t] k]
  show "fetch_step cnt i r c c2" using fetch_step_trans[OF f1 fetch_step_keys[OF s2(3)]] .
  show "good E c2" "t < length (dc_heap c2)" using acc_stepD(1)[OF s2(2)] step_len[OF s2(2) step_len[OF s1 t]] by simp_all
qed

lemma resolve_meta_fetch:
  assumes cnt: "counts_requests E i cnt" and g: "good E c" and t: "t < length (dc_heap c)"
  shows "fetch_step cnt i r c (snd (resolve_meta E t c))"
proof -
  define c1 where "c1 = (if pl_Type (l_protonLink (lnk c t)) = LinkTypeFile then ensureXAttr E t c else c)"
  obtain kr c2 where k: "link_KeyRing E t c1 = (kr, c2)" by force
  note f = ensure_key_fetch(1)[OF cnt g t k[unfolded c1_def]]
  show ?thesis unfolding resolve_meta_def c1_def[symmetric] Let_def k
    using fetch_step_trans[OF f fetch_step_store(1)] by simp
qed

lemma Size_fetch:
  assumes "counts_requests E i cnt" "good E c" "t < length (dc_heap c)"
  shows "fetch_step cnt i r c (snd (link_Size E t c))" "fetch_step cnt i r c (snd (link_ModifyTime E t c))"
  by (simp_all add: link_Size_def link_ModifyTime_def resolve_meta_fetch[OF assms] split: option.split)

lemma Mode_fetch:
  assumes cnt: "counts_requests E i cnt" and g: "good E c" and t: "t < length (dc_heap c)"
  shows "fetch_step cnt i r c (snd (link_Mode E t c))"
proof -
  define c1 where "c1 = (if pl_Type (l_protonLink (lnk c t)) = LinkTypeFile then ensureXAttr E t c else c)"
  obtain kr c2 where k: "link_KeyRing E t c1 = (kr, c2)" by force
  note f = ensure_key_fetch(1)[OF cnt g t k[unfolded c1_def]]
  show ?thesis unfolding link_Mode_def c1_def[symmetric] Let_def k
    using f fetch_step_trans[OF f fetch_step_store(1)] by (simp split: option.split sum.split)
qed

lemma IsSymlink_fetch:
  assumes cnt: "counts_requests E i cnt" and g: "good E c" and t: "t < length (dc_heap c)"
  shows "fetch_step cnt i r c (snd (link_IsSymlink E t c))"
proof (cases "pl_Type (l_protonLink (lnk c t)) = LinkTypeFile")
  case True
  obtain kr c2 where k: "link_KeyRing E t (ensureXAttr E t c) = (kr, c2)" by force
  have "fetch_step cnt i r c c2" by (rule ensure_key_fetch(1)[OF cnt g t]) (use k True in simp)
  then show ?thesis using True k by (simp add: link_IsSymlink_def split: sum.split)
qed (simp add: link_IsSymlink_def)

lemma Stat_fetch:
  assumes cnt: "counts_requests E i cnt" and g: "good E c" and t: "t < length (dc_heap c)"
  shows "fetch_step cnt i r c (snd (link_Stat E t c))"
proof -
  obtain sz c1 where z: "link_Size E t c = (sz, c1)" by force
  obtain mt c2 where m: "link_ModifyTime E t c1 = (mt, c2)" by force
  have s1: "acc_step E c c1" "fetch_step cnt i r c c1" using Size_step[OF g t] Size_fetch(1)[OF cnt g t] z by (metis snd_conv)+
  note g1 = acc_stepD(1)[OF s1(1)] step_len[OF s1(1) t]
  have s2: "acc_step E c1 c2" "fetch_step cnt i r c1 c2" using ModifyTime_step[OF g1] Size_fetch(2)[OF cnt g1] m by (metis snd_conv)+
  note g2 = acc_stepD(1)[OF s2(1)] step_len[OF s2(1) g1(2)]
  note f = fetch_step_trans[OF s1(2) fetch_step_trans[OF s2(2) Mode_fetch[OF cnt g2]]]
  show ?thesis using fetch_step_trans[OF f fetch_step_store(2)]
    by (simp add: link_Stat_def Let_def z m fetch_step_store(2) split: option.split)
qed

lemma abs_parts_fetch:
  "good E c \<Longrightarrow> t < length (dc_heap c) \<Longrightarrow> abs_parts E n t c = (res, c') \<Longrightarrow> fetch_step cnt i r c c'"
proof (induction n arbitrary: t c res c')
  case (Suc n)
  obtain q c1 where q: "link_Name E t c = (q, c1)" by force
  have s: "acc_step E c c1" "fetch_step cnt i r c c1"
    using Name_spec[OF Suc.prems(1,2) q] Name_fetch_step[OF Suc.prems(1,2), of cnt i r] q by simp_all
  show ?case
  proof (cases "l_parentLink (lnk c t)")
    case None
    then show ?thesis using Suc.prems(3) q s by (auto split: sum.splits)
  next
    case (Some p)
    have p: "p < length (dc_heap c)" using good_cachedD(3)[OF Suc.prems(1,2) Some] Suc.prems(2) by simp
    obtain q2 c2 where q2: "abs_parts E n p c1 = (q2, c2)" by force
    note f2 = Suc.IH[OF acc_stepD(1)[OF s(1)] step_len[OF s(1) p] q2]
    show ?thesis using Suc.prems(3) q q2 Some s(2) fetch_step_trans[OF s(2) f2] by (auto split: sum.splits)
  qed
qed simp

lemma access_fetch:
  assumes "counts_requests E i cnt" "good E c" "t < length (dc_heap c)"
  shows "fetch_step cnt i r c (access E (a, t) c)"
proof (cases a)
  case AAbsPath
  then show ?thesis using abs_parts_fetch[OF assms(2,3), of "length (dc_heap c)"]
    by (auto simp: link_AbsPath_def split: prod.splits sum.splits)
qed (simp_all add: assms Size_fetch Mode_fetch IsSymlink_fetch Stat_fetch Name_fetch_step KeyRing_fetch_step ensure_fetch_step)

lemma run_fetch:
  "counts_requests E i cnt \<Longrightarrow> good E c \<Longrightarrow> \<forall>x\<in>set xs. snd x < length (dc_heap c) \<Longrightarrow> fetch_step cnt i r c (run_accesses E xs c)"
proof (induction xs arbitrary: c)
  case (Cons x xs)
  obtain a t where x: "x = (a, t)" by force
  have s: "acc_step E c (access E x c)" using access_step[OF Cons.prems(2), of t a] Cons.prems(3) x by simp
  have f: "fetch_step cnt i r c (access E x c)" using access_fetch[OF Cons.prems(1,2), of t r a] Cons.prems(3) x by simp
  have "fetch_step cnt i r (access E x c) (run_accesses E xs (access E x c))"
    using Cons.IH[OF Cons.prems(1) acc_stepD(1)[OF s]] Cons.prems(3) acc_stepD(3)[OF s] by simp
  from fetch_step_trans[OF f this] show ?case by simp
qed simp

section \<open>Properties\<close>

text \<open>
  C24: names and keyrings do not depend on what is cached.  After any accesses to any links, in any order and at any
  cache level, a link's name and keyring are the ones that are derived from the raw links and the share alone, errors
  included, and the chain of parents is shorter than the fuel, so that fuel changes nothing.
\<close>

theorem names_ignore_caches:
  assumes "good E c" "r < length (dc_heap c)" "\<forall>x\<in>set xs. snd x < length (dc_heap c)"
  shows "fst (link_Name E r (run_accesses E xs c)) = pure_name E c r \<and>
    fst (link_KeyRing E r (run_accesses E xs c)) = pure_keyring E c (Suc r) r \<and>
    (\<forall>n > r. pure_keyring E c n r = pure_keyring E c (Suc r) r)"
proof -
  let ?c = "run_accesses E xs c"
  have s: "acc_step E c ?c" by (rule run_accesses_step[OF assms(1,3)])
  note g = acc_stepD(1)[OF s] step_len[OF s assms(2)]
  have p: "parents_ok c" using assms(1) by (simp add: good_def)
  have "fst (link_Name E r ?c) = pure_name E ?c r"
    using Name_spec[OF g, of "fst (link_Name E r ?c)" "snd (link_Name E r ?c)"] by simp
  moreover have "fst (link_KeyRing E r ?c) = pure_keyring E ?c (Suc r) r"
    using KeyRing_spec(1)[OF g, of "fst (link_KeyRing E r ?c)" "snd (link_KeyRing E r ?c)"] by (simp del: pure_keyring.simps)
  moreover note pure_name_static[OF acc_stepD(2)[OF s] p assms(2), of E]
    pure_keyring_static[OF acc_stepD(2)[OF s] p assms(2), of E "Suc r"]
  ultimately show ?thesis using pure_keyring_fuel[OF p assms(2)] by (metis (no_types))
qed

text \<open>
  C25: resolved metadata is settled.  Once a link's metadata is resolved, no access to any link changes it: size,
  modification time, creation time and mode keep reporting the resolved values, together, without a request to the
  service and without touching the client's state.
\<close>

theorem metadata_settled:
  assumes "good E c" "r < length (dc_heap c)" "\<forall>x\<in>set xs. snd x < length (dc_heap c)" "l_meta (lnk c r) = Some m"
    and "c' = run_accesses E xs c"
  shows "link_Size E r c' = (rm_size m, c') \<and> link_ModifyTime E r c' = (rm_mtime m, c') \<and>
    link_CreateTime c' r = rm_ctime m \<and> link_Mode E r c' = (rm_mode m, c') \<and>
    (l_cachedStat (lnk c' r) = None \<longrightarrow>
       fst (link_Stat E r c') = file_info (l_protonLink (lnk c' r)) (rm_size m) (rm_mtime m) (rm_ctime m))"
proof -
  have "l_meta (lnk c' r) = Some m" using acc_stepD(4)[OF run_accesses_step[OF assms(1,3)] assms(2,4)] assms(5) by simp
  then show ?thesis by (simp add: link_Size_def link_ModifyTime_def link_CreateTime_def link_Mode_def link_Stat_def Let_def)
qed

text \<open>
  C26: metadata is asked for at most three times.  However often and in whatever order the accessors are used, the
  service is asked for a link's extended attributes at most three times (less by the failures so far), and never again
  once they have been fetched or given up.
\<close>

theorem at_most_three_fetches:
  assumes "counts_requests E i cnt" "good E c" "fetch_inv i r c" "\<forall>x\<in>set xs. snd x < length (dc_heap c)"
    and "c' = run_accesses E xs c"
  shows "cnt (bs_net (dc_store c')) \<le> cnt (bs_net (dc_store c)) + (3 - l_fetchFailCount (lnk c r)) \<and>
    (settled (lnk c r) \<longrightarrow> cnt (bs_net (dc_store c')) \<le> cnt (bs_net (dc_store c)))"
  using run_fetch[OF assms(1,2,4), of r] assms(3,5)
  by (auto simp: fetch_step_def fetch_budget_def split: if_splits)


section \<open>A concrete drive\<close>

definition demo_share :: Share where
  "demo_share = \<lparr>sh_ShareID = ''s'', sh_AddressID = ''A'', sh_Key = ''sk'', sh_VolumeID = ''v'', sh_MemoryCacheLevel = CacheMetadata,
     sh_DiskCacheLevel = DiskCacheDisabled\<rparr>"

text \<open>The root of a share and a file in it.\<close>

definition demo_drive :: "((string, bytes) gomap, nat, nat) Client" where
  "demo_drive = (NewClient [(''a'', ''A'')] [(''A'', 5)] 0)\<lparr>dc_heap :=
     [NewLink (demo_link ''root'') None (Some demo_share), NewLink (demo_link ''file='') (Some 0) (Some demo_share)]\<rparr>"

lemma demo_drive_good: "good E demo_drive"
  by (auto simp: good_def parents_ok_def caches_ok_def demo_drive_def NewClient_def NewLink_def less_Suc_eq)

lemma demo_counts: "counts_requests (demo_env\<lparr>de_GetRevision := (\<lambda>sid i r h. (Inl ''503'', if i = ''file='' then h + 1 else h))\<rparr>) ''file='' id"
  by (simp add: counts_requests_def)

theorem names_ignore_caches_witness:
  "fst (link_Name demo_env 1 (run_accesses demo_env [(AStat, 1), (AName, 0), (ASize, 1)] demo_drive)) = Inr ''file=''"
proof -
  have "pure_name demo_env demo_drive 1 = Inr ''file=''" by code_simp
  then show ?thesis
    using names_ignore_caches[of demo_env demo_drive 1 "[(AStat, 1), (AName, 0), (ASize, 1)]"]
    by (simp add: demo_drive_good) (simp add: demo_drive_def)
qed

theorem metadata_settled_witness:
  "let c = run_accesses demo_env [(AStat, 1)] demo_drive in
   link_Mode demo_env 1 (run_accesses demo_env [(AName, 0), (ASize, 1)] c) = (0, run_accesses demo_env [(AName, 0), (ASize, 1)] c)"
proof -
  let ?c = "run_accesses demo_env [(AStat, 1)] demo_drive"
  have m: "l_meta (lnk ?c 1) = Some \<lparr>rm_size = 7, rm_mtime = 5, rm_ctime = 5, rm_mode = 0\<rparr>" by code_simp
  have s: "acc_step demo_env demo_drive ?c"
    by (rule run_accesses_step[OF demo_drive_good]) (simp add: demo_drive_def)
  have "length (dc_heap ?c) = 2" using acc_stepD(3)[OF s] by (simp add: demo_drive_def)
  then show ?thesis
    using metadata_settled[OF acc_stepD(1)[OF s] _ _ m, of "[(AName, 0), (ASize, 1)]"] by (simp add: Let_def)
qed

theorem at_most_three_fetches_witness:
  "let E = demo_env\<lparr>de_GetRevision := (\<lambda>sid i r h. (Inl ''503'', if i = ''file='' then h + 1 else h))\<rparr> in
   bs_net (dc_store (run_accesses E (replicate 20 (ASize, 1)) demo_drive)) \<le> (3 :: nat)"
proof -
  let ?E = "demo_env\<lparr>de_GetRevision := (\<lambda>sid i r h. (Inl ''503'', if i = ''file='' then h + 1 else h))\<rparr>"
  have "fetch_inv ''file='' 1 demo_drive"
    by (auto simp: fetch_inv_def demo_drive_def NewClient_def NewLink_def demo_link_def less_Suc_eq)
  from at_most_three_fetches[OF demo_counts demo_drive_good this, of "replicate 20 (ASize, 1)"] show ?thesis
    by (simp add: Let_def) (simp add: demo_drive_def NewClient_def NewLink_def)
qed

section \<open>Where the caches disagree\<close>

text \<open>
  The first request fails, the second succeeds: Stat combines the fallback size with the fetched time and stores the
  mixture for good, although Size then reports the fetched size.
\<close>

lemma stat_keeps_fallback:
  "(let E = demo_env\<lparr>de_GetRevision := (\<lambda>sid i r h. (if h = 0 then Inl ''503'' else Inr (''x'', 3), h + 1))\<rparr>;
        c = run_accesses E [(AStat, 1)] demo_drive
    in (fi_Size (fst (link_Stat E 1 c)), fst (link_Size E 1 c))) = (0, 7)"
  by code_simp

text \<open>A file whose revision is not active: the creation time changes when another accessor resolves the metadata.\<close>

lemma create_time_changes:
  "(let c = upd_link 1 (\<lambda>l. l\<lparr>l_protonLink := (demo_link ''file='')\<lparr>pl_ActiveRevision := Some (demo_revision\<lparr>rv_State := RevisionStateOther 0, rv_XAttr := ''x''\<rparr>)\<rparr>\<rparr>) demo_drive
    in (link_CreateTime c 1, link_CreateTime (run_accesses demo_env [(ASize, 1)] c) 1)) = (1, 5)"
  by code_simp

end
