(* ===== verification/DriveReaddir.thy ===== *)
theory DriveReaddir
  imports DriveLink
begin

text \<open>
  Listing a folder and finding a child by name, \<^verbatim>\<open>api/drive/readdir.go\<close>, and the path resolution of
  \<^verbatim>\<open>api/drive/link.go\<close> built on it.  A listing runs in a goroutine that fans the construction of the child links
  out over workers; the order in which they deliver is a parameter, as is how many children they have
  built beyond the one at which a consumer stops reading.
\<close>

section \<open>Entries\<close>

datatype readErr = RdList string | RdThrottle string | RdName linkErr | RdNilShare
  | ErrNotAFolder | ErrFileNotFound

record DirEntry =
  ent_Link :: "lref option"
  ent_Err :: "readErr option"
  ent_name :: string

definition child_entry :: "lref \<Rightarrow> DirEntry" where
  "child_entry r = \<lparr>ent_Link = Some r, ent_Err = None, ent_name = []\<rparr>"

definition error_entry :: "readErr \<Rightarrow> DirEntry" where
  "error_entry e = \<lparr>ent_Link = None, ent_Err = Some e, ent_name = []\<rparr>"

text \<open>The name of an entry; the second component is the entry with the name it keeps.\<close>

definition EntryName ::
    "('dv, 'h, 'kr) driveEnv \<Rightarrow> DirEntry \<Rightarrow> ('dv, 'h, 'kr) Client \<Rightarrow> (linkErr + string) \<times> DirEntry \<times> ('dv, 'h, 'kr) Client" where
  "EntryName E e c =
     (if ent_name e \<noteq> [] then (Inr (ent_name e), e, c)
      else let r = the (ent_Link e)
           in (case link_Name E r c of
                 (Inl err, c1) \<Rightarrow> (Inl err, e, c1)
               | (Inr name, c1) \<Rightarrow> (Inr name, if caches_names (lnk c1 r) then e\<lparr>ent_name := name\<rparr> else e, c1)))"

section \<open>Listing\<close>

datatype listing = Cached "lref list" | Listed "protonLink list"

definition cached_children :: "('dv, 'h, 'kr) Client \<Rightarrow> string list \<Rightarrow> lref list option" where
  "cached_children c ids = those (map (client_GetLink c) ids)"

definition list_children ::
    "('dv, 'h, 'kr) driveEnv \<Rightarrow> lref \<Rightarrow> ('dv, 'h, 'kr) Client \<Rightarrow> (readErr + protonLink list) \<times> ('dv, 'h, 'kr) Client" where
  "list_children E r c =
     (case de_throttleWait E (bs_net (dc_store c)) of
        Some e \<Rightarrow> (Inl (RdThrottle e), c)
      | None \<Rightarrow>
          (case l_share (lnk c r) of
             None \<Rightarrow> (Inl RdNilShare, c)
           | Some s \<Rightarrow>
               (case de_ListChildren E (sh_ShareID s) (pl_LinkID (l_protonLink (lnk c r))) True (bs_net (dc_store c)) of
                  (Inl err, h) \<Rightarrow> (Inl (RdList err), set_net h c)
                | (Inr ps, h) \<Rightarrow>
                    (Inr ps, if ps \<noteq> [] \<and> caches_metadata (lnk c r)
                             then upd_link r (\<lambda>l. l\<lparr>l_cachedChildIDs := Some (map pl_LinkID ps)\<rparr>) (set_net h c)
                             else set_net h c))))"

text \<open>Where the children come from: the listing kept from an earlier call, unless one of them has left the link
  table, or the service.\<close>

definition readdir_start ::
    "('dv, 'h, 'kr) driveEnv \<Rightarrow> lref \<Rightarrow> ('dv, 'h, 'kr) Client \<Rightarrow> (readErr + listing) \<times> ('dv, 'h, 'kr) Client" where
  "readdir_start E r c =
     (let api = (\<lambda>c. case list_children E r c of (Inl e, c1) \<Rightarrow> (Inl e, c1) | (Inr ps, c1) \<Rightarrow> (Inr (Listed ps), c1))
      in case l_cachedChildIDs (lnk c r) of
           None \<Rightarrow> api c
         | Some ids \<Rightarrow>
             (case cached_children c ids of
                Some rs \<Rightarrow> (Inr (Cached rs), c)
              | None \<Rightarrow> api (InvalidateChildren r c)))"

fun build_children ::
    "('dv, 'h, 'kr) driveEnv \<Rightarrow> lref \<Rightarrow> protonLink list \<Rightarrow> ('dv, 'h, 'kr) Client \<Rightarrow> lref list \<times> ('dv, 'h, 'kr) Client" where
  "build_children E r [] c = ([], c)"
| "build_children E r (p # ps) c =
     (case NewChildLink E r p c of (t, c1) \<Rightarrow> (case build_children E r ps c1 of (ts, c2) \<Rightarrow> (t # ts, c2)))"

text \<open>\<open>ord n\<close> is the order in which the workers deliver \<open>n\<close> children, by index.\<close>

definition in_order :: "(nat \<Rightarrow> nat list) \<Rightarrow> 'a list \<Rightarrow> 'a list" where
  "in_order ord xs = map (\<lambda>i. xs ! i) (ord (length xs))"

definition Readdir ::
    "('dv, 'h, 'kr) driveEnv \<Rightarrow> (nat \<Rightarrow> nat list) \<Rightarrow> lref \<Rightarrow> ('dv, 'h, 'kr) Client \<Rightarrow> DirEntry list \<times> ('dv, 'h, 'kr) Client" where
  "Readdir E ord r c =
     (let dots = [\<lparr>ent_Link = Some r, ent_Err = None, ent_name = ''.''\<rparr>,
                  \<lparr>ent_Link = Some (link_Parent c r), ent_Err = None, ent_name = ''..''\<rparr>]
      in case readdir_start E r c of
           (Inl e, c1) \<Rightarrow> (dots @ [error_entry e], c1)
         | (Inr (Cached rs), c1) \<Rightarrow> (dots @ map child_entry rs, c1)
         | (Inr (Listed ps), c1) \<Rightarrow>
             (case build_children E r (in_order ord ps) c1 of (rs, c2) \<Rightarrow> (dots @ map child_entry rs, c2)))"

section \<open>Finding a child\<close>

text \<open>Over the identifiers of an earlier listing: a child that is not in the link table is passed over.\<close>

fun lookup_cached ::
    "('dv, 'h, 'kr) driveEnv \<Rightarrow> string \<Rightarrow> string list \<Rightarrow> ('dv, 'h, 'kr) Client \<Rightarrow> lref option \<times> ('dv, 'h, 'kr) Client" where
  "lookup_cached E name [] c = (None, c)"
| "lookup_cached E name (i # ids) c =
     (case client_GetLink c i of
        None \<Rightarrow> lookup_cached E name ids c
      | Some t \<Rightarrow>
          if link_IsTrashed (l_protonLink (lnk c t)) then lookup_cached E name ids c
          else (case link_Name E t c of
                  (Inl _, c1) \<Rightarrow> lookup_cached E name ids c1
                | (Inr n, c1) \<Rightarrow> if n = name then (Some t, c1) else lookup_cached E name ids c1))"

text \<open>Over a fresh listing, reading until the child is found; \<open>extra\<close> more children are built by workers that had
  already taken one.\<close>

fun lookup_stream ::
    "('dv, 'h, 'kr) driveEnv \<Rightarrow> lref \<Rightarrow> string \<Rightarrow> nat \<Rightarrow> protonLink list \<Rightarrow> ('dv, 'h, 'kr) Client
      \<Rightarrow> lref option \<times> ('dv, 'h, 'kr) Client" where
  "lookup_stream E r name extra [] c = (None, c)"
| "lookup_stream E r name extra (p # ps) c =
     (case NewChildLink E r p c of
        (t, c1) \<Rightarrow>
          if link_IsTrashed (l_protonLink (lnk c1 t)) then lookup_stream E r name extra ps c1
          else (case link_Name E t c1 of
                  (Inl _, c2) \<Rightarrow> lookup_stream E r name extra ps c2
                | (Inr n, c2) \<Rightarrow>
                    if n = ''.'' \<or> n = ''..'' then lookup_stream E r name extra ps c2
                    else if n = name then (Some t, snd (build_children E r (take extra ps) c2))
                    else lookup_stream E r name extra ps c2))"

definition link_Lookup ::
    "('dv, 'h, 'kr) driveEnv \<Rightarrow> (nat \<Rightarrow> nat list) \<Rightarrow> nat \<Rightarrow> lref \<Rightarrow> string \<Rightarrow> ('dv, 'h, 'kr) Client
      \<Rightarrow> (readErr + lref option) \<times> ('dv, 'h, 'kr) Client" where
  "link_Lookup E ord extra r name c =
     (if name = ''.'' then (Inr (Some r), c)
      else if name = ''..'' then (Inr (Some (link_Parent c r)), c)
      else (case l_cachedChildIDs (lnk c r) of
              Some ids \<Rightarrow> apfst Inr (lookup_cached E name ids c)
            | None \<Rightarrow>
                (case list_children E r c of
                   (Inl e, c1) \<Rightarrow> (Inl e, c1)
                 | (Inr ps, c1) \<Rightarrow> apfst Inr (lookup_stream E r name extra (in_order ord ps) c1))))"

text \<open>All children, or the first error.\<close>

fun collect_children ::
    "('dv, 'h, 'kr) driveEnv \<Rightarrow> DirEntry list \<Rightarrow> ('dv, 'h, 'kr) Client \<Rightarrow> (readErr + lref list) \<times> ('dv, 'h, 'kr) Client" where
  "collect_children E [] c = (Inr [], c)"
| "collect_children E (e # es) c =
     (case ent_Err e of
        Some err \<Rightarrow> (Inl err, c)
      | None \<Rightarrow>
          (case EntryName E e c of
             (Inl err, _, c1) \<Rightarrow> (Inl (RdName err), c1)
           | (Inr n, _, c1) \<Rightarrow>
               if n = ''.'' \<or> n = ''..'' then collect_children E es c1
               else (case collect_children E es c1 of
                       (Inl err, c2) \<Rightarrow> (Inl err, c2) | (Inr ts, c2) \<Rightarrow> (Inr (the (ent_Link e) # ts), c2))))"

definition ListChildren ::
    "('dv, 'h, 'kr) driveEnv \<Rightarrow> (nat \<Rightarrow> nat list) \<Rightarrow> lref \<Rightarrow> ('dv, 'h, 'kr) Client \<Rightarrow> (readErr + lref list) \<times> ('dv, 'h, 'kr) Client" where
  "ListChildren E ord r c = (case Readdir E ord r c of (es, c1) \<Rightarrow> collect_children E es c1)"

section \<open>Paths\<close>

definition trim_slashes :: "string \<Rightarrow> string" where
  "trim_slashes s = rev (dropWhile (\<lambda>c. c = CHR ''/'') (rev (dropWhile (\<lambda>c. c = CHR ''/'') s)))"

fun split_slash :: "string \<Rightarrow> string list" where
  "split_slash [] = [[]]"
| "split_slash (c # cs) =
     (if c = CHR ''/'' then [] # split_slash cs
      else (case split_slash cs of [] \<Rightarrow> [[c]] | w # ws \<Rightarrow> (c # w) # ws))"

fun resolveParts ::
    "('dv, 'h, 'kr) driveEnv \<Rightarrow> (nat \<Rightarrow> nat list) \<Rightarrow> nat \<Rightarrow> string list \<Rightarrow> lref \<Rightarrow> ('dv, 'h, 'kr) Client
      \<Rightarrow> (readErr + lref) \<times> ('dv, 'h, 'kr) Client" where
  "resolveParts E ord extra [] cur c = (Inr cur, c)"
| "resolveParts E ord extra (part # parts) cur c =
     (if part = [] \<or> part = ''.'' then resolveParts E ord extra parts cur c
      else if part = ''..'' then resolveParts E ord extra parts (link_Parent c cur) c
      else if pl_Type (l_protonLink (lnk c cur)) \<noteq> LinkTypeFolder then (Inl ErrNotAFolder, c)
      else (case link_Lookup E ord extra cur part c of
              (Inl e, c1) \<Rightarrow> (Inl e, c1)
            | (Inr None, c1) \<Rightarrow> (Inl ErrFileNotFound, c1)
            | (Inr (Some child), c1) \<Rightarrow> resolveParts E ord extra parts child c1))"

definition ResolvePath ::
    "('dv, 'h, 'kr) driveEnv \<Rightarrow> (nat \<Rightarrow> nat list) \<Rightarrow> nat \<Rightarrow> lref \<Rightarrow> string \<Rightarrow> ('dv, 'h, 'kr) Client
      \<Rightarrow> (readErr + lref) \<times> ('dv, 'h, 'kr) Client" where
  "ResolvePath E ord extra r path c =
     (let path = trim_slashes path in if path = [] then (Inr r, c) else resolveParts E ord extra (split_slash path) r c)"

section \<open>Growing the link table\<close>

text \<open>Every entry of the link table is an object with the entry's identifier.\<close>

definition table_ok :: "('dv, 'h, 'kr) Client \<Rightarrow> bool" where
  "table_ok c \<longleftrightarrow> (\<forall>i t. map_of (dc_linkTable c) i = Some t \<longrightarrow> t < length (dc_heap c) \<and> pl_LinkID (l_protonLink (lnk c t)) = i)"

text \<open>Building children and reading names only adds objects and entries, and touches no listing.\<close>

definition grows :: "('dv, 'h, 'kr) driveEnv \<Rightarrow> ('dv, 'h, 'kr) Client \<Rightarrow> ('dv, 'h, 'kr) Client \<Rightarrow> bool" where
  "grows E c c' \<longleftrightarrow> good E c' \<and> table_ok c' \<and> static_le c c' \<and>
     (\<forall>i t. map_of (dc_linkTable c) i = Some t \<longrightarrow> map_of (dc_linkTable c') i = Some t) \<and>
     (\<forall>t < length (dc_heap c'). l_cachedChildIDs (lnk c' t) = (if t < length (dc_heap c) then l_cachedChildIDs (lnk c t) else None))"

lemma static_le_trans: "static_le c c' \<Longrightarrow> static_le c' c'' \<Longrightarrow> static_le c c''"
  by (simp add: static_le_def same_static_def)

lemma grows_refl [simp]: "grows E c c \<longleftrightarrow> good E c \<and> table_ok c"
  by (auto simp: grows_def static_le_def same_static_def)

lemma grows_trans: "grows E c c' \<Longrightarrow> grows E c' c'' \<Longrightarrow> grows E c c''"
  unfolding grows_def using static_le_trans[of c c' c''] by (simp add: static_le_def)

lemma growsD:
  assumes "grows E c c'"
  shows "good E c'" "table_ok c'" "static_le c c'" "length (dc_heap c) \<le> length (dc_heap c')"
    "map_of (dc_linkTable c) i = Some t \<Longrightarrow> map_of (dc_linkTable c') i = Some t"
    "t < length (dc_heap c) \<Longrightarrow> l_cachedChildIDs (lnk c' t) = l_cachedChildIDs (lnk c t)"
    "t < length (dc_heap c') \<Longrightarrow> \<not> t < length (dc_heap c) \<Longrightarrow> l_cachedChildIDs (lnk c' t) = None"
  using assms by (auto simp: grows_def static_le_def)

lemma grows_name:
  assumes "grows E c c'" "good E c" "t < length (dc_heap c)"
  shows "pure_name E c' t = pure_name E c t"
  using pure_name_le growsD(3)[OF assms(1)] assms(2,3) by (auto simp: good_def)

lemma grows_link:
  assumes "grows E c c'" "t < length (dc_heap c)"
  shows "l_parentLink (lnk c' t) = l_parentLink (lnk c t)" "l_share (lnk c' t) = l_share (lnk c t)"
    "pl_LinkID (l_protonLink (lnk c' t)) = pl_LinkID (l_protonLink (lnk c t))"
    "link_IsTrashed (l_protonLink (lnk c' t)) = link_IsTrashed (l_protonLink (lnk c t))"
  using static_link[OF growsD(3)[OF assms(1)] assms(2)] by (simp_all add: link_IsTrashed_def)

lemma Name_frame:
  assumes "good E c" "r < length (dc_heap c)" "link_Name E r c = (res, c')"
  shows "dc_linkTable c' = dc_linkTable c" "t < length (dc_heap c) \<Longrightarrow> l_cachedChildIDs (lnk c' t) = l_cachedChildIDs (lnk c t)"
proof -
  obtain q c1 where q: "getParentKeyRing E r c = (q, c1)" by force
  have k: "keys_only c c1"
  proof (cases "l_parentLink (lnk c r)")
    case None
    then show ?thesis using q by (auto simp: getParentKeyRing_def split: option.splits)
  next
    case (Some p)
    with q KeyRing_spec(3)[OF assms(1), of p q c1] good_cachedD(3)[OF assms(1,2) Some] assms(2) show ?thesis
      by (simp add: getParentKeyRing_def)
  qed
  have t: "l_cachedChildIDs (lnk c1 t) = l_cachedChildIDs (lnk c t)" if "t < length (dc_heap c)" for t
    using k that unfolding keys_only_def by (metis Link.ext_inject Link.surjective Link.update_convs(6))
  show "dc_linkTable c' = dc_linkTable c"
    using assms(3) q k by (auto simp: link_Name_def keys_only_def split: if_splits sum.splits)
  show "t < length (dc_heap c) \<Longrightarrow> l_cachedChildIDs (lnk c' t) = l_cachedChildIDs (lnk c t)"
    using assms(3) q k t by (auto simp: link_Name_def split: if_splits sum.splits)
qed

lemma Name_grows:
  assumes "good E c" "table_ok c" "r < length (dc_heap c)" "link_Name E r c = (res, c')"
  shows "res = pure_name E c r" "grows E c c'" "length (dc_heap c') = length (dc_heap c)" "dc_linkTable c' = dc_linkTable c"
proof -
  note spec = Name_spec[OF assms(1,3,4)] and fr = Name_frame[OF assms(1,3,4)]
  from spec have st: "static_eq c c'" and g: "good E c'" by (simp_all add: acc_step_def)
  have len: "length (dc_heap c') = length (dc_heap c)" using st by (simp add: static_eq_def)
  have tb: "table_ok c'" using assms(2) fr(1) len static_link[OF static_eq_le[OF st]] by (simp add: table_ok_def)
  show "res = pure_name E c r" using spec by simp
  show "length (dc_heap c') = length (dc_heap c)" by (fact len)
  show "dc_linkTable c' = dc_linkTable c" by (fact fr(1))
  show "grows E c c'" using g tb len fr static_eq_le[OF st] by (simp add: grows_def)
qed

lemma writeCacheEntry_drive [simp]:
  "dc_heap (writeCacheEntry E i p c) = dc_heap c" "dc_linkTable (writeCacheEntry E i p c) = dc_linkTable c"
  "dc_addresses (writeCacheEntry E i p c) = dc_addresses c" "dc_addressKeyRings (writeCacheEntry E i p c) = dc_addressKeyRings c"
  by (auto simp: writeCacheEntry_def triggerEviction_def Let_def split: option.split prod.split)

lemma NewChildLink_new:
  assumes "map_of (dc_linkTable c) (pl_LinkID p) = None" "NewChildLink E r p c = (t, c')"
  shows "t = length (dc_heap c)" "dc_heap c' = dc_heap c @ [NewLink p (Some r) (l_share (lnk c r))]"
    "dc_linkTable c' = AList.update (pl_LinkID p) t (dc_linkTable c)"
    "dc_addresses c' = dc_addresses c" "dc_addressKeyRings c' = dc_addressKeyRings c"
  using assms by (auto simp: NewChildLink_def alloc_link_def Let_def split: if_splits)

lemma alloc_grows:
  assumes g: "good E c" and tb: "table_ok c" and r: "r < length (dc_heap c)"
    and heap: "dc_heap c' = dc_heap c @ [NewLink p (Some r) s]"
    and table: "dc_linkTable c' = AList.update (pl_LinkID p) (length (dc_heap c)) (dc_linkTable c)"
    and new: "map_of (dc_linkTable c) (pl_LinkID p) = None"
    and addr: "dc_addresses c' = dc_addresses c" "dc_addressKeyRings c' = dc_addressKeyRings c"
  shows "grows E c c'"
proof -
  have le: "static_le c c'" by (simp add: static_le_def heap addr nth_append same_static_def)
  have p: "parents_ok c" and k: "caches_ok E c" using g by (simp_all add: good_def)
  have old: "pure_keyring E c' (Suc t) t = pure_keyring E c (Suc t) t" "pure_name E c' t = pure_name E c t" if "t < length (dc_heap c)" for t
    using pure_keyring_le[OF le p that] pure_name_le[OF le p that] by (simp_all del: pure_keyring.simps)
  have "parents_ok c'" using p r by (auto simp: parents_ok_def heap nth_append NewLink_def less_Suc_eq)
  moreover have "caches_ok E c'"
    using k old by (auto simp: caches_ok_def heap nth_append NewLink_def less_Suc_eq simp del: pure_keyring.simps)
  moreover have "table_ok c'"
    using tb by (auto simp: table_ok_def heap nth_append NewLink_def table update_conv less_Suc_eq split: if_splits)
  ultimately show ?thesis
    using le new by (auto simp: grows_def good_def table update_conv heap nth_append NewLink_def)
qed

lemma NewChildLink_grows:
  assumes "good E c" "table_ok c" "r < length (dc_heap c)" "NewChildLink E r p c = (t, c')"
  shows "grows E c c'" "map_of (dc_linkTable c') (pl_LinkID p) = Some t" "t < length (dc_heap c')"
    "pl_LinkID (l_protonLink (lnk c' t)) = pl_LinkID p"
proof -
  show A: "grows E c c'" and B: "map_of (dc_linkTable c') (pl_LinkID p) = Some t"
  proof -
    have "grows E c c' \<and> map_of (dc_linkTable c') (pl_LinkID p) = Some t"
    proof (cases "map_of (dc_linkTable c) (pl_LinkID p)")
      case None
      note n = NewChildLink_new[OF None assms(4)]
      show ?thesis using alloc_grows[OF assms(1-3) n(2) n(3)[unfolded n(1)] None n(4,5)] n(1,3) by (simp add: update_conv)
    next
      case (Some e)
      then show ?thesis using assms by (simp add: NewChildLink_def)
    qed
    then show "grows E c c'" "map_of (dc_linkTable c') (pl_LinkID p) = Some t" by simp_all
  qed
  show "t < length (dc_heap c')" "pl_LinkID (l_protonLink (lnk c' t)) = pl_LinkID p"
    using B growsD(2)[OF A] by (simp_all add: table_ok_def)
qed

lemma build_children_grows:
  "good E c \<Longrightarrow> table_ok c \<Longrightarrow> r < length (dc_heap c) \<Longrightarrow> build_children E r ps c = (ts, c') \<Longrightarrow>
     grows E c c' \<and> map (map_of (dc_linkTable c')) (map pl_LinkID ps) = map Some ts"
proof (induction ps arbitrary: c ts c')
  case (Cons p ps)
  obtain t c1 where t: "NewChildLink E r p c = (t, c1)" by force
  obtain ts' where ts: "build_children E r ps c1 = (ts', c')" "ts = t # ts'" using Cons.prems(4) t by (auto split: prod.splits)
  note n = NewChildLink_grows[OF Cons.prems(1-3) t]
  have "r < length (dc_heap c1)" using growsD(4)[OF n(1)] Cons.prems(3) by simp
  from Cons.IH[OF growsD(1,2)[OF n(1)] this ts(1)]
  have ih: "grows E c1 c'" "map (map_of (dc_linkTable c')) (map pl_LinkID ps) = map Some ts'" by simp_all
  show ?case using grows_trans[OF n(1) ih(1)] ih(2) growsD(5)[OF ih(1) n(2)] ts(2) by simp
qed simp

section \<open>What a listing yields\<close>

text \<open>
  The service lists the children \<open>K i\<close> of the folder \<open>i\<close>, when it answers; every kept listing is one it gave.
\<close>

definition serves :: "('dv, 'h, 'kr) driveEnv \<Rightarrow> (string \<Rightarrow> protonLink list) \<Rightarrow> bool" where
  "serves E K \<longleftrightarrow> (\<forall>s i b h ps h'. de_ListChildren E s i b h = (Inr ps, h') \<longrightarrow> ps = K i)"

lemma servesD: "serves E K \<Longrightarrow> de_ListChildren E s i b h = (Inr ps, h') \<Longrightarrow> ps = K i"
  unfolding serves_def by blast

definition tree_ok :: "('dv, 'h, 'kr) driveEnv \<Rightarrow> (string \<Rightarrow> protonLink list) \<Rightarrow> ('dv, 'h, 'kr) Client \<Rightarrow> bool" where
  "tree_ok E K c \<longleftrightarrow> good E c \<and> table_ok c \<and>
     (\<forall>t < length (dc_heap c). \<forall>ids. l_cachedChildIDs (lnk c t) = Some ids \<longrightarrow> ids = map pl_LinkID (K (pl_LinkID (l_protonLink (lnk c t)))))"

definition is_order :: "(nat \<Rightarrow> nat list) \<Rightarrow> bool" where
  "is_order ord \<longleftrightarrow> (\<forall>n. mset (ord n) = mset [0..<n])"

lemma tree_okD: "tree_ok E K c \<Longrightarrow> good E c" "tree_ok E K c \<Longrightarrow> table_ok c"
  by (simp_all add: tree_ok_def)

lemma tree_ok_ids: "tree_ok E K c \<Longrightarrow> t < length (dc_heap c) \<Longrightarrow> l_cachedChildIDs (lnk c t) = Some ids
    \<Longrightarrow> ids = map pl_LinkID (K (pl_LinkID (l_protonLink (lnk c t))))"
  by (simp add: tree_ok_def)

lemma tree_ok_grows:
  assumes "tree_ok E K c" "grows E c c'" shows "tree_ok E K c'"
  unfolding tree_ok_def
proof (intro conjI allI impI)
  fix t ids assume t: "t < length (dc_heap c')" "l_cachedChildIDs (lnk c' t) = Some ids"
  show "ids = map pl_LinkID (K (pl_LinkID (l_protonLink (lnk c' t))))"
    using tree_ok_ids[OF assms(1)] growsD(6,7)[OF assms(2)] grows_link(3)[OF assms(2)] t by (cases "t < length (dc_heap c)") auto
qed (use growsD(1,2)[OF assms(2)] in simp_all)

lemma mset_in_order:
  assumes "is_order ord" shows "mset (in_order ord xs) = mset xs"
proof -
  have "mset (in_order ord xs) = image_mset (\<lambda>i. xs ! i) (mset [0..<length xs])"
    unfolding in_order_def mset_map using assms by (simp add: is_order_def)
  also have "\<dots> = mset xs" by (metis map_nth mset_map)
  finally show ?thesis .
qed

text \<open>Changing what is kept of one listing.\<close>

lemma upd_listing_good:
  assumes "good E c"
  shows "good E (upd_link r (\<lambda>l. l\<lparr>l_cachedChildIDs := x\<rparr>) c)" "static_eq c (upd_link r (\<lambda>l. l\<lparr>l_cachedChildIDs := x\<rparr>) c)"
proof -
  have st: "static_eq c (upd_link r (\<lambda>l. l\<lparr>l_cachedChildIDs := x\<rparr>) c)"
    by (simp add: static_eq_def same_static_def)
  show "static_eq c (upd_link r (\<lambda>l. l\<lparr>l_cachedChildIDs := x\<rparr>) c)" by (fact st)
  show "good E (upd_link r (\<lambda>l. l\<lparr>l_cachedChildIDs := x\<rparr>) c)"
  proof (cases "r < length (dc_heap c)")
    case True
    have "acc_step E c (upd_link r (\<lambda>l. l\<lparr>l_cachedChildIDs := x\<rparr>) c)"
      by (rule acc_step_upd[OF assms True])
        (use good_cachedD[OF assms True] in \<open>simp_all add: same_static_def del: pure_keyring.simps\<close>)
    then show ?thesis by (simp add: acc_step_def)
  next
    case False
    then have "upd_link r (\<lambda>l. l\<lparr>l_cachedChildIDs := x\<rparr>) c = c" by (simp add: upd_link_def list_update_beyond)
    then show ?thesis using assms by simp
  qed
qed

lemma tree_ok_listing:
  assumes "tree_ok E K c" "x = None \<or> x = Some (map pl_LinkID (K (pl_LinkID (l_protonLink (lnk c r)))))"
  shows "tree_ok E K (upd_link r (\<lambda>l. l\<lparr>l_cachedChildIDs := x\<rparr>) c)"
  using upd_listing_good(1)[OF tree_okD(1)[OF assms(1)], of r x] tree_okD(2)[OF assms(1)] tree_ok_ids[OF assms(1)] assms(2)
  by (auto simp: tree_ok_def table_ok_def)

lemma tree_ok_net [simp]: "tree_ok E K (set_net h c) = tree_ok E K c"
proof -
  have "good E (set_net h c) = good E c"
    using acc_step_net[of E c h] acc_stepD(1)[of E c "set_net h c"] acc_step_net[of E "set_net h c" "bs_net (dc_store c)"]
      acc_stepD(1)[of E "set_net h c" "set_net (bs_net (dc_store c)) (set_net h c)"] by auto
  then show ?thesis by (simp add: tree_ok_def table_ok_def)
qed

lemma tree_ok_InvalidateChildren [simp]: "tree_ok E K c \<Longrightarrow> tree_ok E K (InvalidateChildren r c)"
  using tree_ok_listing[of E K c None r] by (simp add: InvalidateChildren_def)

lemma list_children_ok:
  assumes "tree_ok E K c" "serves E K" "r < length (dc_heap c)" "list_children E r c = (res, c')"
  shows "tree_ok E K c'" "length (dc_heap c') = length (dc_heap c)" "dc_linkTable c' = dc_linkTable c" "static_eq c c'"
    "res = Inr ps \<Longrightarrow> ps = K (pl_LinkID (l_protonLink (lnk c r)))"
    "t < length (dc_heap c) \<Longrightarrow> t \<noteq> r \<Longrightarrow> l_cachedChildIDs (lnk c' t) = l_cachedChildIDs (lnk c t)"
proof -
  have net: "static_eq c (set_net h c)" for h by (simp add: static_eq_def same_static_def)
  have st: "static_eq c (upd_link r (\<lambda>l. l\<lparr>l_cachedChildIDs := x\<rparr>) (set_net h c))" for h x
    by (simp add: static_eq_def same_static_def)
  have k: "tree_ok E K (upd_link r (\<lambda>l. l\<lparr>l_cachedChildIDs := Some (map pl_LinkID (K (pl_LinkID (l_protonLink (lnk c r)))))\<rparr>) (set_net h c))" for h
    by (rule tree_ok_listing) (use assms(1) in simp_all)
  show "tree_ok E K c'" "length (dc_heap c') = length (dc_heap c)" "dc_linkTable c' = dc_linkTable c" "static_eq c c'"
    "res = Inr ps \<Longrightarrow> ps = K (pl_LinkID (l_protonLink (lnk c r)))"
    "t < length (dc_heap c) \<Longrightarrow> t \<noteq> r \<Longrightarrow> l_cachedChildIDs (lnk c' t) = l_cachedChildIDs (lnk c t)"
    using assms(1,3,4) k by (auto simp: list_children_def net st dest: servesD[OF assms(2)] dest!: servesD[OF assms(2)]
      split: option.splits sum.splits prod.splits if_splits)
qed

lemma GetLink_table: "client_GetLink c = map_of (dc_linkTable c)"
  by (rule ext) (simp add: client_GetLink_def)

lemma those_map: "those xs = Some ys \<longleftrightarrow> xs = map Some ys"
  by (induction xs arbitrary: ys) (auto split: option.splits)

lemma readdir_start_ok:
  assumes "tree_ok E K c" "serves E K" "r < length (dc_heap c)" "readdir_start E r c = (res, c')"
  shows "tree_ok E K c'" "length (dc_heap c') = length (dc_heap c)" "dc_linkTable c' = dc_linkTable c" "static_eq c c'"
    "res = Inr (Listed ps) \<Longrightarrow> ps = K (pl_LinkID (l_protonLink (lnk c r)))"
    "res = Inr (Cached ts) \<Longrightarrow> map (map_of (dc_linkTable c')) (map pl_LinkID (K (pl_LinkID (l_protonLink (lnk c r))))) = map Some ts"
proof -
  let ?i = "InvalidateChildren r c"
  have inv: "length (dc_heap ?i) = length (dc_heap c)" "dc_linkTable ?i = dc_linkTable c" "static_eq c ?i"
    "pl_LinkID (l_protonLink (lnk ?i r)) = pl_LinkID (l_protonLink (lnk c r))"
    using upd_listing_good(2)[OF tree_okD(1)[OF assms(1)], of r None] assms(3) by (simp_all add: InvalidateChildren_def)
  have r: "r < length (dc_heap ?i)" using inv(1) assms(3) by simp
  note A = list_children_ok[OF assms(1-3)] and B = list_children_ok[OF tree_ok_InvalidateChildren[OF assms(1)] assms(2) r]
  show "tree_ok E K c'" using assms(4,1) A(1) B(1) by (auto simp: readdir_start_def Let_def split: option.splits sum.splits prod.splits)
  show "length (dc_heap c') = length (dc_heap c)"
    using assms(4) A(2) B(2) inv by (auto simp: readdir_start_def Let_def split: option.splits sum.splits prod.splits)
  show "dc_linkTable c' = dc_linkTable c"
    using assms(4) A(3) B(3) inv by (auto simp: readdir_start_def Let_def split: option.splits sum.splits prod.splits)
  show "static_eq c c'"
    using assms(4) A(4) B(4) static_eq_trans[OF inv(3)] by (auto simp: readdir_start_def Let_def split: option.splits sum.splits prod.splits)
  show "res = Inr (Listed ps) \<Longrightarrow> ps = K (pl_LinkID (l_protonLink (lnk c r)))"
    using assms(4) A(5) B(5) inv by (auto simp: readdir_start_def Let_def split: option.splits sum.splits prod.splits)
  show "res = Inr (Cached ts) \<Longrightarrow> map (map_of (dc_linkTable c')) (map pl_LinkID (K (pl_LinkID (l_protonLink (lnk c r))))) = map Some ts"
    using assms(4) tree_ok_ids[OF assms(1,3)]
    by (auto simp: readdir_start_def Let_def cached_children_def those_map GetLink_table split: option.splits sum.splits prod.splits)
qed

lemma table_refs:
  assumes "table_ok c" "map (map_of (dc_linkTable c)) is = map Some ts"
  shows "map (\<lambda>t. pl_LinkID (l_protonLink (lnk c t))) ts = is" "t \<in> set ts \<Longrightarrow> t < length (dc_heap c) \<and> map_of (dc_linkTable c) (pl_LinkID (l_protonLink (lnk c t))) = Some t"
proof -
  have "list_all2 (\<lambda>i t. map_of (dc_linkTable c) i = Some t) is ts"
    using assms(2) by (simp add: list_all2_conv_all_nth) (metis length_map nth_map)
  then have "list_all2 (\<lambda>i t. t < length (dc_heap c) \<and> pl_LinkID (l_protonLink (lnk c t)) = i \<and> map_of (dc_linkTable c) i = Some t) is ts"
    by (rule list_all2_mono) (use assms(1) in \<open>simp add: table_ok_def\<close>)
  then show "map (\<lambda>t. pl_LinkID (l_protonLink (lnk c t))) ts = is"
    "t \<in> set ts \<Longrightarrow> t < length (dc_heap c) \<and> map_of (dc_linkTable c) (pl_LinkID (l_protonLink (lnk c t))) = Some t"
    by (induction rule: list_all2_induct) auto
qed

text \<open>The references of a complete listing of the folder \<open>r\<close>.\<close>

definition lists_folder :: "(string \<Rightarrow> protonLink list) \<Rightarrow> ('dv, 'h, 'kr) Client \<Rightarrow> lref \<Rightarrow> lref list \<Rightarrow> bool" where
  "lists_folder K c r ts \<longleftrightarrow>
     mset (map (\<lambda>t. pl_LinkID (l_protonLink (lnk c t))) ts) = mset (map pl_LinkID (K (pl_LinkID (l_protonLink (lnk c r))))) \<and>
     (\<forall>t \<in> set ts. t < length (dc_heap c) \<and> client_GetLink c (pl_LinkID (l_protonLink (lnk c t))) = Some t)"

definition dot_entries :: "('dv, 'h, 'kr) Client \<Rightarrow> lref \<Rightarrow> DirEntry list" where
  "dot_entries c r = [\<lparr>ent_Link = Some r, ent_Err = None, ent_name = ''.''\<rparr>,
                      \<lparr>ent_Link = Some (link_Parent c r), ent_Err = None, ent_name = ''..''\<rparr>]"

lemma Readdir_run:
  assumes "tree_ok E K c" "serves E K" "is_order ord" "r < length (dc_heap c)" "Readdir E ord r c = (es, c')"
  shows "tree_ok E K c' \<and>
    ((\<exists>e. es = dot_entries c r @ [error_entry e]) \<or> (\<exists>ts. es = dot_entries c r @ map child_entry ts \<and> lists_folder K c' r ts))"
proof -
  obtain res c1 where s: "readdir_start E r c = (res, c1)" by force
  note st = readdir_start_ok[OF assms(1,2,4) s]
  have r1: "r < length (dc_heap c1)" using assms(4) st(2) by simp
  have rid: "pl_LinkID (l_protonLink (lnk c1 r)) = pl_LinkID (l_protonLink (lnk c r))"
    using static_link[OF static_eq_le[OF st(4)] assms(4)] by simp
  show ?thesis
  proof (cases res)
    case (Inl e)
    then show ?thesis using assms(5) s st(1) by (auto simp: Readdir_def dot_entries_def)
  next
    case (Inr l)
    show ?thesis
    proof (cases l)
      case (Cached ts)
      have "map (map_of (dc_linkTable c1)) (map pl_LinkID (K (pl_LinkID (l_protonLink (lnk c1 r))))) = map Some ts"
        using st(6)[of ts] Inr Cached rid by simp
      note refs = table_refs[OF tree_okD(2)[OF st(1)] this]
      have "lists_folder K c1 r ts" using refs by (simp add: lists_folder_def client_GetLink_def flip: mset_map)
      then show ?thesis using assms(5) s st(1) Inr Cached by (auto simp: Readdir_def dot_entries_def)
    next
      case (Listed ps)
      have ps: "ps = K (pl_LinkID (l_protonLink (lnk c r)))" using st(5)[of ps] Inr Listed by simp
      obtain ts where b: "build_children E r (in_order ord ps) c1 = (ts, c')" and es: "es = dot_entries c r @ map child_entry ts"
        using assms(5) s Inr Listed by (auto simp: Readdir_def dot_entries_def split: prod.splits)
      from build_children_grows[OF tree_okD[OF st(1)] r1 b]
      have g: "grows E c1 c'" and m: "map (map_of (dc_linkTable c')) (map pl_LinkID (in_order ord ps)) = map Some ts" by simp_all
      note refs = table_refs[OF growsD(2)[OF g] m]
      have "mset (map (\<lambda>t. pl_LinkID (l_protonLink (lnk c' t))) ts) = mset (map pl_LinkID ps)"
        unfolding refs(1) by (simp add: mset_in_order[OF assms(3)])
      then have "lists_folder K c' r ts"
        using refs(2) ps rid grows_link(3)[OF g r1] by (simp add: lists_folder_def client_GetLink_def)
      then show ?thesis using assms(5) s Inr Listed es tree_ok_grows[OF st(1) g] b by (auto simp: Readdir_def dot_entries_def)
    qed
  qed
qed



section \<open>What a lookup finds\<close>

text \<open>\<open>t\<close> is a child that a lookup of \<open>name\<close> must return.\<close>

definition answers :: "('dv, 'h, 'kr) driveEnv \<Rightarrow> ('dv, 'h, 'kr) Client \<Rightarrow> string \<Rightarrow> lref \<Rightarrow> bool" where
  "answers E c name t \<longleftrightarrow> \<not> link_IsTrashed (l_protonLink (lnk c t)) \<and> pure_name E c t = Inr name"

lemma answers_grows: "grows E c c' \<Longrightarrow> good E c \<Longrightarrow> t < length (dc_heap c) \<Longrightarrow> answers E c' name t = answers E c name t"
  by (simp add: answers_def grows_name grows_link)

lemma lookup_cached_ok:
  "good E c \<Longrightarrow> table_ok c \<Longrightarrow> lookup_cached E name ids c = (res, c') \<Longrightarrow>
    grows E c c' \<and> dc_linkTable c' = dc_linkTable c \<and>
    (case res of Some t \<Rightarrow> \<exists>i \<in> set ids. client_GetLink c i = Some t \<and> answers E c name t
     | None \<Rightarrow> \<forall>i \<in> set ids. \<forall>t. client_GetLink c i = Some t \<longrightarrow> \<not> answers E c name t)"
proof (induction ids arbitrary: c)
  case (Cons i ids)
  show ?case
  proof (cases "client_GetLink c i")
    case None
    with Cons.IH[OF Cons.prems(1,2)] Cons.prems(3) show ?thesis by (auto split: option.splits)
  next
    case (Some t)
    have t: "t < length (dc_heap c)" using Cons.prems(2) Some by (simp add: table_ok_def client_GetLink_def)
    show ?thesis
    proof (cases "link_IsTrashed (l_protonLink (lnk c t))")
      case True
      with Cons.IH[OF Cons.prems(1,2)] Cons.prems(3) Some show ?thesis by (auto simp: answers_def split: option.splits)
    next
      case False
      obtain n c1 where n: "link_Name E t c = (n, c1)" by force
      note nm = Name_grows[OF Cons.prems(1,2) t n]
      have tb: "client_GetLink c1 = client_GetLink c" using nm(4) by (simp add: GetLink_table)
      have an: "answers E c1 name u = answers E c name u" if "client_GetLink c j = Some u" for u j
        using answers_grows[OF nm(2) Cons.prems(1)] that Cons.prems(2) by (auto simp: table_ok_def client_GetLink_def)
      show ?thesis
      proof (cases "n = Inr name")
        case True
        with Cons.prems(3) Some False n have "res = Some t" "c' = c1" by simp_all
        then show ?thesis using nm False True Some by (auto simp: answers_def)
      next
        case ne: False
        have run: "lookup_cached E name ids c1 = (res, c')"
          using Cons.prems(3) Some False n ne by (auto split: sum.splits)
        have na: "\<not> answers E c name t" using ne nm(1) by (simp add: answers_def)
        from Cons.IH[OF growsD(1,2)[OF nm(2)] run] tb an na Some
        have "grows E c1 c' \<and> dc_linkTable c' = dc_linkTable c1 \<and>
          (case res of Some t \<Rightarrow> \<exists>i \<in> set (i # ids). client_GetLink c i = Some t \<and> answers E c name t
           | None \<Rightarrow> \<forall>i \<in> set (i # ids). \<forall>t. client_GetLink c i = Some t \<longrightarrow> \<not> answers E c name t)"
          by (auto split: option.splits)
        then show ?thesis using grows_trans[OF nm(2)] nm(4) by auto
      qed
    qed
  qed
qed simp


lemma lookup_stream_ok:
  "good E c \<Longrightarrow> table_ok c \<Longrightarrow> r < length (dc_heap c) \<Longrightarrow> name \<noteq> ''.'' \<Longrightarrow> name \<noteq> ''..'' \<Longrightarrow>
    lookup_stream E r name extra ps c = (res, c') \<Longrightarrow>
    grows E c c' \<and>
    (case res of Some t \<Rightarrow> \<exists>p \<in> set ps. client_GetLink c' (pl_LinkID p) = Some t \<and> answers E c' name t
     | None \<Rightarrow> \<forall>p \<in> set ps. \<exists>t. client_GetLink c' (pl_LinkID p) = Some t \<and> \<not> answers E c' name t)"
proof (induction ps arbitrary: c)
  case (Cons p ps)
  obtain t c1 where t: "NewChildLink E r p c = (t, c1)" by force
  note b = NewChildLink_grows[OF Cons.prems(1-3) t]
  note g1 = growsD(1,2)[OF b(1)]
  have r1: "r < length (dc_heap c1)" using growsD(4)[OF b(1)] Cons.prems(3) by simp
  have skip: ?case if run: "lookup_stream E r name extra ps c2 = (res, c')" and g: "grows E c1 c2" and na: "\<not> answers E c1 name t" for c2
  proof -
    have r2: "r < length (dc_heap c2)" using growsD(4)[OF g] r1 by simp
    note ih = Cons.IH[OF growsD(1,2)[OF g] r2 Cons.prems(4,5) run]
    have gc: "grows E c1 c'" using ih grows_trans[OF g] by blast
    have "client_GetLink c' (pl_LinkID p) = Some t" "\<not> answers E c' name t"
      using growsD(5)[OF gc b(2)] answers_grows[OF gc g1(1) b(3)] na by (simp_all add: client_GetLink_def)
    then show ?thesis using ih grows_trans[OF b(1) gc] by (auto split: option.splits)
  qed
  show ?case
  proof (cases "link_IsTrashed (l_protonLink (lnk c1 t))")
    case True
    show ?thesis by (rule skip[of c1]) (use True Cons.prems(6) t g1 in \<open>simp_all add: answers_def\<close>)
  next
    case False
    obtain n c2 where n: "link_Name E t c1 = (n, c2)" by force
    note nm = Name_grows[OF g1 b(3) n]
    show ?thesis
    proof (cases "n = Inr name")
      case True
      obtain ts d where d: "build_children E r (take extra ps) c2 = (ts, d)" by force
      have res: "res = Some t" and "d = c'" using Cons.prems(4-6) t False n True d by auto
      with d have c': "build_children E r (take extra ps) c2 = (ts, c')" by simp
      have r2: "r < length (dc_heap c2)" using nm(3) r1 by simp
      have g: "grows E c2 c'" using build_children_grows[OF growsD(1,2)[OF nm(2)] r2 c'] by simp
      have gc: "grows E c1 c'" by (rule grows_trans[OF nm(2) g])
      have "answers E c1 name t" using False True nm(1) by (simp add: answers_def)
      then show ?thesis
        using res growsD(5)[OF gc b(2)] answers_grows[OF gc g1(1) b(3)] grows_trans[OF b(1) gc] by (auto simp: client_GetLink_def)
    next
      case ne: False
      show ?thesis
        by (rule skip[OF _ nm(2)]) (use ne nm(1) Cons.prems(6) t n False in \<open>auto simp: answers_def split: sum.splits if_splits\<close>)
    qed
  qed
qed simp



section \<open>A concrete folder\<close>

definition demo_root :: "((string, bytes) gomap, nat, nat) Client" where
  "demo_root = (NewClient [(''a'', ''A'')] [(''A'', 5)] 0)\<lparr>dc_heap := [NewLink (demo_link ''root'') None (Some demo_share)]\<rparr>"

definition demo_children :: "string \<Rightarrow> protonLink list" where
  "demo_children i = [demo_link ''file='', demo_link ''dir'']"

lemma demo_tree: "tree_ok E K demo_root" "serves demo_env demo_children" "is_order (\<lambda>n. [0..<n])" "is_order (\<lambda>n. rev [0..<n])"
  by (auto simp: tree_ok_def good_def parents_ok_def caches_ok_def table_ok_def demo_root_def NewClient_def NewLink_def
      serves_def demo_env_def demo_children_def is_order_def)



text \<open>
  A lookup stops at the child it finds; the siblings it did not build are in the kept listing but not in the link
  table, and the next lookup of one of them, which only consults these two, does not find it.
\<close>

lemma lookup_misses_sibling:
  "(let c = snd (link_Lookup demo_env (\<lambda>n. [0..<n]) 0 0 ''file='' demo_root)
    in (fst (link_Lookup demo_env (\<lambda>n. [0..<n]) 0 0 ''dir'' demo_root),
        fst (link_Lookup demo_env (\<lambda>n. [0..<n]) 0 0 ''dir'' c))) = (Inr (Some 2), Inr None)"
  by code_simp

end
