(* ===== verification/DriveWalk.thy ===== *)
theory DriveWalk
  imports DriveReaddir
begin

text \<open>
  Walking a folder tree, \<^verbatim>\<open>api/drive/client_walk.go\<close> and \<^verbatim>\<open>walk.go\<close>.  The entries go to a channel whose
  consumer reads all of them; cancellation is left out.  A listing is taken whole before its entries are
  consumed, one of the schedules of the goroutine that produces it.  The recursion has no bound in the code, so the
  model runs on fuel: the number of levels for both orders.
\<close>

section \<open>The two orders\<close>

datatype WalkOrder = BreadthFirst | DepthFirst

record WalkEntry =
  we_Path :: string
  we_Link :: "lref option"
  we_Depth :: nat
  we_EntryName :: string
  we_Err :: "readErr option"

record queueItem =
  qi_link :: lref
  qi_path :: string
  qi_depth :: nat

definition walk_error :: "readErr \<Rightarrow> lref option \<Rightarrow> nat \<Rightarrow> WalkEntry" where
  "walk_error e r d = \<lparr>we_Path = [], we_Link = r, we_Depth = d, we_EntryName = [], we_Err = Some e\<rparr>"

definition walk_entry :: "string \<Rightarrow> lref \<Rightarrow> nat \<Rightarrow> string \<Rightarrow> WalkEntry" where
  "walk_entry path r d name = \<lparr>we_Path = path, we_Link = Some r, we_Depth = d, we_EntryName = name, we_Err = None\<rparr>"

abbreviation is_folder :: "('dv, 'h, 'kr) Client \<Rightarrow> lref \<Rightarrow> bool" where
  "is_folder c r \<equiv> pl_Type (l_protonLink (lnk c r)) = LinkTypeFolder"

definition child_path :: "string \<Rightarrow> string \<Rightarrow> bool \<Rightarrow> string" where
  "child_path path name folder = path @ name @ (if folder then ''/'' else [])"

text \<open>Whether the children of a link at this depth are visited.\<close>

definition within :: "int \<Rightarrow> nat \<Rightarrow> bool" where
  "within maxDepth depth \<longleftrightarrow> maxDepth < 0 \<or> int depth < maxDepth"

text \<open>What both orders do with one entry of a listing: an error to report, nothing, or a child with its name.\<close>

datatype walked = WalkError WalkEntry | WalkSkip | WalkChild lref string

definition walk_step ::
    "('dv, 'h, 'kr) driveEnv \<Rightarrow> nat \<Rightarrow> DirEntry \<Rightarrow> ('dv, 'h, 'kr) Client \<Rightarrow> walked \<times> ('dv, 'h, 'kr) Client" where
  "walk_step E depth e c =
     (case ent_Err e of
        Some err \<Rightarrow> (WalkError (walk_error err None (depth + 1)), c)
      | None \<Rightarrow>
          (case EntryName E e c of
             (Inl err, _, c1) \<Rightarrow> (WalkError (walk_error (RdName err) (ent_Link e) (depth + 1)), c1)
           | (Inr name, _, c1) \<Rightarrow>
               if name = ''.'' \<or> name = ''..'' then (WalkSkip, c1) else (WalkChild (the (ent_Link e)) name, c1)))"

fun bfs_entries ::
    "('dv, 'h, 'kr) driveEnv \<Rightarrow> int \<Rightarrow> queueItem \<Rightarrow> DirEntry list \<Rightarrow> ('dv, 'h, 'kr) Client
      \<Rightarrow> WalkEntry list \<times> queueItem list \<times> ('dv, 'h, 'kr) Client" where
  "bfs_entries E maxDepth item [] c = ([], [], c)"
| "bfs_entries E maxDepth item (e # es) c =
     (case walk_step E (qi_depth item) e c of
        (w, c1) \<Rightarrow>
          (case bfs_entries E maxDepth item es c1 of
             (ws, next, c2) \<Rightarrow>
               (case w of
                  WalkError we \<Rightarrow> (we # ws, next, c2)
                | WalkSkip \<Rightarrow> (ws, next, c2)
                | WalkChild t name \<Rightarrow>
                    let path = child_path (qi_path item) name (is_folder c1 t); d = qi_depth item + 1
                    in (walk_entry path t d name # ws,
                        if is_folder c1 t \<and> within maxDepth d
                        then \<lparr>qi_link = t, qi_path = path, qi_depth = d\<rparr> # next else next, c2))))"

fun bfs_level ::
    "('dv, 'h, 'kr) driveEnv \<Rightarrow> (nat \<Rightarrow> nat list) \<Rightarrow> int \<Rightarrow> queueItem list \<Rightarrow> ('dv, 'h, 'kr) Client
      \<Rightarrow> WalkEntry list \<times> queueItem list \<times> ('dv, 'h, 'kr) Client" where
  "bfs_level E ord maxDepth [] c = ([], [], c)"
| "bfs_level E ord maxDepth (item # queue) c =
     (if \<not> is_folder c (qi_link item) then bfs_level E ord maxDepth queue c
      else (case Readdir E ord (qi_link item) c of
              (es, c1) \<Rightarrow>
                (case bfs_entries E maxDepth item es c1 of
                   (ws, next, c2) \<Rightarrow>
                     (case bfs_level E ord maxDepth queue c2 of (ws', next', c3) \<Rightarrow> (ws @ ws', next @ next', c3)))))"

fun bfs_levels ::
    "('dv, 'h, 'kr) driveEnv \<Rightarrow> (nat \<Rightarrow> nat list) \<Rightarrow> int \<Rightarrow> nat \<Rightarrow> queueItem list \<Rightarrow> ('dv, 'h, 'kr) Client
      \<Rightarrow> (WalkEntry list \<times> ('dv, 'h, 'kr) Client) option" where
  "bfs_levels E ord maxDepth n [] c = Some ([], c)"
| "bfs_levels E ord maxDepth 0 (item # queue) c = None"
| "bfs_levels E ord maxDepth (Suc n) (item # queue) c =
     (case bfs_level E ord maxDepth (item # queue) c of
        (ws, next, c1) \<Rightarrow>
          (case bfs_levels E ord maxDepth n next c1 of None \<Rightarrow> None | Some (ws', c2) \<Rightarrow> Some (ws @ ws', c2)))"

definition walkBreadthFirst ::
    "('dv, 'h, 'kr) driveEnv \<Rightarrow> (nat \<Rightarrow> nat list) \<Rightarrow> nat \<Rightarrow> lref \<Rightarrow> string \<Rightarrow> int \<Rightarrow> ('dv, 'h, 'kr) Client
      \<Rightarrow> (WalkEntry list \<times> ('dv, 'h, 'kr) Client) option" where
  "walkBreadthFirst E ord fuel root rootPath maxDepth c =
     map_option (apfst (\<lambda>ws. walk_entry rootPath root 0 [] # ws))
       (bfs_levels E ord maxDepth fuel [\<lparr>qi_link = root, qi_path = rootPath, qi_depth = 0\<rparr>] c)"

text \<open>The depth-first walk of a link, and of the rest of a listing at the link's level.\<close>

fun walkDepthFirst ::
    "('dv, 'h, 'kr) driveEnv \<Rightarrow> (nat \<Rightarrow> nat list) \<Rightarrow> nat \<Rightarrow> lref \<Rightarrow> string \<Rightarrow> nat \<Rightarrow> int \<Rightarrow> string \<Rightarrow> ('dv, 'h, 'kr) Client
      \<Rightarrow> (WalkEntry list \<times> ('dv, 'h, 'kr) Client) option"
  and dfs_entries ::
    "('dv, 'h, 'kr) driveEnv \<Rightarrow> (nat \<Rightarrow> nat list) \<Rightarrow> nat \<Rightarrow> string \<Rightarrow> nat \<Rightarrow> int \<Rightarrow> DirEntry list \<Rightarrow> ('dv, 'h, 'kr) Client
      \<Rightarrow> (WalkEntry list \<times> ('dv, 'h, 'kr) Client) option" where
  "walkDepthFirst E ord 0 link path depth maxDepth name c = None"
| "walkDepthFirst E ord (Suc n) link path depth maxDepth name c =
     (if is_folder c link \<and> within maxDepth depth
      then (case Readdir E ord link c of
              (es, c1) \<Rightarrow>
                (case dfs_entries E ord n path depth maxDepth es c1 of
                   None \<Rightarrow> None
                 | Some (ws, c2) \<Rightarrow> Some (ws @ [walk_entry path link depth name], c2)))
      else Some ([walk_entry path link depth name], c))"
| "dfs_entries E ord n path depth maxDepth [] c = Some ([], c)"
| "dfs_entries E ord n path depth maxDepth (e # es) c =
     (case walk_step E depth e c of
        (WalkError we, c1) \<Rightarrow> map_option (apfst (\<lambda>ws. we # ws)) (dfs_entries E ord n path depth maxDepth es c1)
      | (WalkSkip, c1) \<Rightarrow> dfs_entries E ord n path depth maxDepth es c1
      | (WalkChild t name, c1) \<Rightarrow>
          (case walkDepthFirst E ord n t (child_path path name (is_folder c1 t)) (depth + 1) maxDepth name c1 of
             None \<Rightarrow> None
           | Some (ws, c2) \<Rightarrow> map_option (apfst (\<lambda>ws'. ws @ ws')) (dfs_entries E ord n path depth maxDepth es c2)))"

definition TreeWalk ::
    "('dv, 'h, 'kr) driveEnv \<Rightarrow> (nat \<Rightarrow> nat list) \<Rightarrow> nat \<Rightarrow> lref \<Rightarrow> string \<Rightarrow> WalkOrder \<Rightarrow> int \<Rightarrow> ('dv, 'h, 'kr) Client
      \<Rightarrow> (WalkEntry list \<times> ('dv, 'h, 'kr) Client) option" where
  "TreeWalk E ord fuel root rootPath order maxDepth c =
     (case order of
        DepthFirst \<Rightarrow> walkDepthFirst E ord fuel root rootPath 0 maxDepth [] c
      | BreadthFirst \<Rightarrow> walkBreadthFirst E ord fuel root rootPath maxDepth c)"

section \<open>A tree on the service\<close>

text \<open>
  The service as one tree: the children of a folder, and the keyring, the name and the type that belong to an identifier.
\<close>

record 'kr driveTree =
  dt_K :: "string \<Rightarrow> protonLink list"
  dt_KR :: "string \<Rightarrow> 'kr"
  dt_NM :: "string \<Rightarrow> string"
  dt_TY :: "string \<Rightarrow> LinkType"
  dt_addresses :: "(string, string) gomap"
  dt_keyrings :: "(string, 'kr) gomap"

definition holds_keys :: "'kr driveTree \<Rightarrow> ('dv, 'h, 'kr) Client \<Rightarrow> bool" where
  "holds_keys T c \<longleftrightarrow> dc_addresses c = dt_addresses T \<and> dc_addressKeyRings c = dt_keyrings T"

text \<open>The service answers every listing, and the raw links it lists decrypt to the tree's keyrings and names.\<close>

definition serves_tree :: "('dv, 'h, 'kr) driveEnv \<Rightarrow> 'kr driveTree \<Rightarrow> bool" where
  "serves_tree E T \<longleftrightarrow>
     (\<forall>s i b h. \<exists>h'. de_ListChildren E s i b h = (Inr (dt_K T i), h')) \<and> (\<forall>h. de_throttleWait E h = None) \<and>
     (\<forall>i. \<forall>p \<in> set (dt_K T i). dt_TY T (pl_LinkID p) = pl_Type p \<and>
        (\<forall>c :: ('dv, 'h, 'kr) Client. holds_keys T c \<longrightarrow>
           deriveKeyRing E c p (dt_KR T i) = Inr (dt_KR T (pl_LinkID p)) \<and> decryptName E c p (dt_KR T i) = Inr (dt_NM T (pl_LinkID p))))"

abbreviation lid :: "('dv, 'h, 'kr) Client \<Rightarrow> lref \<Rightarrow> string" where
  "lid c r \<equiv> pl_LinkID (l_protonLink (lnk c r))"

text \<open>Every link of the client is one of the tree.\<close>

definition link_sees :: "('dv, 'h, 'kr) driveEnv \<Rightarrow> 'kr driveTree \<Rightarrow> ('dv, 'h, 'kr) Client \<Rightarrow> lref \<Rightarrow> bool" where
  "link_sees E T c r \<longleftrightarrow> l_share (lnk c r) \<noteq> None \<and> pure_keyring E c (Suc r) r = Inr (dt_KR T (lid c r)) \<and>
     pure_name E c r = Inr (dt_NM T (lid c r)) \<and> pl_Type (l_protonLink (lnk c r)) = dt_TY T (lid c r)"

definition sees :: "('dv, 'h, 'kr) driveEnv \<Rightarrow> 'kr driveTree \<Rightarrow> ('dv, 'h, 'kr) Client \<Rightarrow> bool" where
  "sees E T c \<longleftrightarrow> tree_ok E (dt_K T) c \<and> holds_keys T c \<and> (\<forall>r < length (dc_heap c). link_sees E T c r)"

lemma seesD: "sees E T c \<Longrightarrow> tree_ok E (dt_K T) c" "sees E T c \<Longrightarrow> holds_keys T c" "sees E T c \<Longrightarrow> r < length (dc_heap c) \<Longrightarrow> link_sees E T c r"
  by (simp_all add: sees_def)

lemma link_sees_type: "link_sees E T c r \<Longrightarrow> is_folder c r \<longleftrightarrow> dt_TY T (lid c r) = LinkTypeFolder"
  by (simp add: link_sees_def del: pure_keyring.simps)

lemma link_sees_le:
  assumes "static_le c c'" "parents_ok c" "r < length (dc_heap c)"
  shows "link_sees E T c' r = link_sees E T c r"
  using pure_keyring_le[OF assms, of E "Suc r"] pure_name_le[OF assms, of E] static_link[OF assms(1,3)]
  by (simp add: link_sees_def del: pure_keyring.simps)

lemma sees_static:
  assumes "sees E T c" "static_eq c c'" "tree_ok E (dt_K T) c'"
  shows "sees E T c'"
proof -
  have p: "parents_ok c" using seesD(1)[OF assms(1)] by (simp add: tree_ok_def good_def)
  show ?thesis
    using assms link_sees_le[OF static_eq_le[OF assms(2)] p] by (simp add: sees_def holds_keys_def static_eq_def)
qed

lemma sees_same_heap:
  assumes "sees E T c" "grows E c c'" "length (dc_heap c') = length (dc_heap c)"
  shows "sees E T c'"
proof -
  have p: "parents_ok c" using seesD(1)[OF assms(1)] by (simp add: tree_ok_def good_def)
  show ?thesis
    using assms(1,3) tree_ok_grows[OF seesD(1)[OF assms(1)] assms(2)] link_sees_le[OF growsD(3)[OF assms(2)] p] growsD(3)[OF assms(2)]
    by (simp add: sees_def holds_keys_def static_le_def)
qed

lemma link_sees_new:
  assumes t: "good E c" "table_ok c" and keys: "holds_keys T c" and ls: "\<forall>u < length (dc_heap c). link_sees E T c u"
    and E: "serves_tree E T" and r: "r < length (dc_heap c)" and p: "p \<in> set (dt_K T (lid c r))"
    and run: "NewChildLink E r p c = (t, c')" and u: "u < length (dc_heap c')"
  shows "link_sees E T c' u"
proof (cases "map_of (dc_linkTable c) (pl_LinkID p)")
  case (Some e)
  then show ?thesis using run ls u by (simp add: NewChildLink_def)
next
  case None
  have par: "parents_ok c" using t by (simp add: good_def)
  note g = NewChildLink_grows[OF t r run]
  have le: "static_le c c'" using growsD(3)[OF g(1)] .
  have keys': "holds_keys T c'" using keys le by (simp add: holds_keys_def static_le_def)
  note n = NewChildLink_new[OF None run]
  have lr: "link_sees E T c' r" using link_sees_le[OF le par r] ls r by simp
  have id: "lid c' r = lid c r" using static_link[OF le r] by simp
  have par': "parents_ok c'" using growsD(1)[OF g(1)] by (simp add: good_def)
  have fuel: "pure_keyring E c' (length (dc_heap c)) r = pure_keyring E c' (Suc r) r"
    by (rule pure_keyring_fuel[OF par']) (use r growsD(4)[OF g(1)] in simp_all)
  have new: "lnk c' t = NewLink p (Some r) (l_share (lnk c r))" using n(1,2) by simp
  have d: "deriveKeyRing E c' p (dt_KR T (lid c r)) = Inr (dt_KR T (pl_LinkID p))"
    "decryptName E c' p (dt_KR T (lid c r)) = Inr (dt_NM T (pl_LinkID p))" "dt_TY T (pl_LinkID p) = pl_Type p"
    using E p keys' unfolding serves_tree_def by blast+
  have k: "pure_keyring E c' (Suc r) r = Inr (dt_KR T (lid c r))" using lr id by (simp add: link_sees_def del: pure_keyring.simps)
  have sh: "l_share (lnk c r) \<noteq> None" using ls r by (simp add: link_sees_def)
  have "pure_keyring E c' (Suc t) t = Inr (dt_KR T (pl_LinkID p))"
    unfolding pure_keyring.simps(2)[of E c' t] new using fuel k d(1) n(1) by (simp add: NewLink_def del: pure_keyring.simps)
  moreover have "pure_name E c' t = Inr (dt_NM T (pl_LinkID p))"
    unfolding pure_name_def new using k d(2) by (simp add: NewLink_def del: pure_keyring.simps)
  ultimately have "link_sees E T c' t" unfolding link_sees_def new using sh d(3) by (simp add: NewLink_def del: pure_keyring.simps)
  then show ?thesis using u n(1,2) link_sees_le[OF le par] ls by (cases "u = t") auto
qed

lemma sees_NewChildLink:
  assumes s: "sees E T c" and E: "serves_tree E T" and r: "r < length (dc_heap c)" and p: "p \<in> set (dt_K T (lid c r))"
    and run: "NewChildLink E r p c = (t, c')"
  shows "sees E T c'"
proof -
  note t = seesD(1)[OF s]
  note g = NewChildLink_grows[OF tree_okD[OF t] r run]
  have "holds_keys T c'" using seesD(2)[OF s] growsD(3)[OF g(1)] by (simp add: holds_keys_def static_le_def)
  moreover have "\<forall>u < length (dc_heap c). link_sees E T c u" using s by (simp add: sees_def)
  ultimately show ?thesis
    using tree_ok_grows[OF t g(1)] link_sees_new[OF tree_okD[OF t] seesD(2)[OF s] _ E r p run] by (simp add: sees_def)
qed

lemma sees_build:
  assumes E: "serves_tree E T"
  shows "sees E T c \<Longrightarrow> r < length (dc_heap c) \<Longrightarrow> set ps \<subseteq> set (dt_K T (lid c r)) \<Longrightarrow> build_children E r ps c = (ts, c') \<Longrightarrow> sees E T c' \<and> static_le c c'"
proof (induction ps arbitrary: c ts)
  case (Cons p ps)
  obtain t c1 where t: "NewChildLink E r p c = (t, c1)" by force
  obtain ts' where ts: "build_children E r ps c1 = (ts', c')" using Cons.prems(4) t by (auto split: prod.splits)
  note g = NewChildLink_grows(1)[OF tree_okD[OF seesD(1)[OF Cons.prems(1)]] Cons.prems(2) t]
  have "sees E T c1" by (rule sees_NewChildLink[OF Cons.prems(1) E Cons.prems(2) _ t]) (use Cons.prems(3) in simp)
  moreover have "r < length (dc_heap c1)" "lid c1 r = lid c r"
    using growsD(4)[OF g] Cons.prems(2) grows_link(3)[OF g Cons.prems(2)] by simp_all
  ultimately have "sees E T c' \<and> static_le c1 c'" using Cons.IH[OF _ _ _ ts] Cons.prems(3) by simp
  then show ?case using static_le_trans[OF growsD(3)[OF g]] by blast
qed (simp add: static_le_def same_static_def)

lemma serves_tree_serves: "serves_tree E T \<Longrightarrow> serves E (dt_K T)"
  unfolding serves_tree_def serves_def by (metis Inr_inject Pair_inject)

lemma list_children_answers:
  assumes "serves_tree E T" "l_share (lnk c r) \<noteq> None"
  shows "\<exists>ps c'. list_children E r c = (Inr ps, c')"
proof -
  obtain s where s: "l_share (lnk c r) = Some s" using assms(2) by auto
  obtain h' where "de_ListChildren E (sh_ShareID s) (lid c r) True (bs_net (dc_store c)) = (Inr (dt_K T (lid c r)), h')"
    using assms(1) unfolding serves_tree_def by blast
  moreover have "de_throttleWait E (bs_net (dc_store c)) = None" using assms(1) by (simp add: serves_tree_def)
  ultimately show ?thesis by (simp add: list_children_def s)
qed

lemma readdir_start_answers:
  assumes "serves_tree E T" "l_share (lnk c r) \<noteq> None" "r < length (dc_heap c)"
  shows "\<exists>l c'. readdir_start E r c = (Inr l, c')"
proof -
  have "l_share (lnk (InvalidateChildren r c) r) \<noteq> None" using assms(2,3) by (simp add: InvalidateChildren_def)
  then show ?thesis using list_children_answers[OF assms(1,2)] list_children_answers[OF assms(1), of "InvalidateChildren r c" r]
    by (auto simp: readdir_start_def Let_def split: option.split)
qed

lemma sees_Readdir:
  assumes s: "sees E T c" and E: "serves_tree E T" and ord: "is_order ord" and r: "r < length (dc_heap c)"
    and run: "Readdir E ord r c = (es, c')"
  shows "sees E T c' \<and> static_le c c' \<and> (\<exists>ts. es = dot_entries c r @ map child_entry ts \<and> lists_folder (dt_K T) c' r ts)"
proof -
  note t = seesD(1)[OF s] and srv = serves_tree_serves[OF E]
  have sh: "l_share (lnk c r) \<noteq> None" using seesD(3)[OF s r] by (simp add: link_sees_def)
  obtain l c1 where st: "readdir_start E r c = (Inr l, c1)" using readdir_start_answers[OF E sh r] by blast
  note ok = readdir_start_ok[OF t srv r st]
  have s1: "sees E T c1" by (rule sees_static[OF s ok(4,1)])
  have r1: "r < length (dc_heap c1)" using ok(2) r by simp
  have id: "lid c1 r = lid c r" using static_link[OF static_eq_le[OF ok(4)] r] by simp
  have "\<exists>ts. es = dot_entries c r @ map child_entry ts"
    using run st by (cases l) (auto simp: Readdir_def dot_entries_def split: prod.splits)
  then have no_err: "es \<noteq> dot_entries c r @ [error_entry e]" for e
    by (auto simp: error_entry_def child_entry_def map_eq_Cons_conv)
  have "sees E T c' \<and> static_le c c'"
  proof (cases l)
    case (Cached ts)
    then show ?thesis using run st s1 static_eq_le[OF ok(4)] by (auto simp: Readdir_def)
  next
    case (Listed ps)
    have ps: "set (in_order ord ps) = set (dt_K T (lid c1 r))"
      using mset_in_order[OF ord, of ps] ok(5)[of ps] Listed id by (metis set_mset_mset)
    obtain ts where b: "build_children E r (in_order ord ps) c1 = (ts, c')" using run st Listed by (auto simp: Readdir_def split: prod.splits)
    show ?thesis using sees_build[OF E s1 r1 _ b] ps static_le_trans[OF static_eq_le[OF ok(4)]] by auto
  qed
  then show ?thesis using Readdir_run[OF t srv ord r run] no_err by blast
qed

section \<open>The entries of the tree\<close>

abbreviation dot_name :: "string \<Rightarrow> bool" where "dot_name n \<equiv> n = ''.'' \<or> n = ''..''"

definition kids :: "'kr driveTree \<Rightarrow> string \<Rightarrow> string list" where
  "kids T i = (if dt_TY T i = LinkTypeFolder then filter (\<lambda>j. \<not> dot_name (dt_NM T j)) (map pl_LinkID (dt_K T i)) else [])"

definition kid_path :: "'kr driveTree \<Rightarrow> string \<Rightarrow> string \<Rightarrow> string" where
  "kid_path T path j = child_path path (dt_NM T j) (dt_TY T j = LinkTypeFolder)"

text \<open>Path, identifier, depth and name of everything down to the given depth, parents first; \<open>n\<close> bounds the levels.\<close>

type_synonym seen_entry = "string \<times> string \<times> nat \<times> string"

fun tree_walk :: "'kr driveTree \<Rightarrow> int \<Rightarrow> nat \<Rightarrow> string \<Rightarrow> string \<Rightarrow> nat \<Rightarrow> string \<Rightarrow> seen_entry list" where
  "tree_walk T m 0 i path d name = []"
| "tree_walk T m (Suc n) i path d name =
     (path, i, d, name) #
     (if within m d then concat (map (\<lambda>j. tree_walk T m n j (kid_path T path j) (d + 1) (dt_NM T j)) (kids T i)) else [])"

text \<open>The tree has fewer than \<open>n\<close> levels below the depth limit.\<close>

fun fits :: "'kr driveTree \<Rightarrow> int \<Rightarrow> nat \<Rightarrow> string \<Rightarrow> nat \<Rightarrow> bool" where
  "fits T m 0 i d = False"
| "fits T m (Suc n) i d \<longleftrightarrow> (within m d \<longrightarrow> (\<forall>j \<in> set (kids T i). fits T m n j (d + 1)))"

definition seen :: "('dv, 'h, 'kr) Client \<Rightarrow> WalkEntry \<Rightarrow> seen_entry" where
  "seen c w = (we_Path w, lid c (the (we_Link w)), we_Depth w, we_EntryName w)"

text \<open>The entries of a walk: no error, and links of the client.\<close>

definition clean_entry :: "('dv, 'h, 'kr) Client \<Rightarrow> WalkEntry \<Rightarrow> bool" where
  "clean_entry c w \<longleftrightarrow> we_Err w = None \<and> (\<exists>r < length (dc_heap c). we_Link w = Some r)"

definition clean :: "('dv, 'h, 'kr) Client \<Rightarrow> WalkEntry list \<Rightarrow> bool" where
  "clean c ws \<longleftrightarrow> (\<forall>w \<in> set ws. clean_entry c w)"

lemma clean_simps [simp]: "clean c []" "clean c (w # ws) \<longleftrightarrow> clean_entry c w \<and> clean c ws" "clean c (ws @ ws') \<longleftrightarrow> clean c ws \<and> clean c ws'"
  "clean_entry c (walk_entry path r d name) \<longleftrightarrow> r < length (dc_heap c)"
  by (auto simp: clean_def clean_entry_def walk_entry_def)

lemma seen_entry [simp]: "seen c (walk_entry path r d name) = (path, lid c r, d, name)"
  by (simp add: seen_def walk_entry_def)

lemma static_le_len: "static_le c c' \<Longrightarrow> r < length (dc_heap c) \<Longrightarrow> r < length (dc_heap c')"
  by (simp add: static_le_def)

lemma clean_le:
  assumes "clean c ws" "static_le c c'"
  shows "clean c' ws" "map (seen c') ws = map (seen c) ws"
proof -
  show "clean c' ws" using assms static_le_len[OF assms(2)] unfolding clean_def clean_entry_def by blast
  show "map (seen c') ws = map (seen c) ws"
    using assms static_link[OF assms(2)] by (force simp: clean_def clean_entry_def seen_def)
qed

lemma walk_step_dots:
  assumes "e \<in> set (dot_entries c0 r)" shows "walk_step E d e c = (WalkSkip, c)"
  using assms by (auto simp: dot_entries_def walk_step_def EntryName_def)

lemma walk_step_child:
  assumes s: "sees E T c" and t: "t < length (dc_heap c)" and run: "walk_step E d (child_entry t) c = (w, c')"
  shows "sees E T c'" "static_le c c'"
    "w = (if dot_name (dt_NM T (lid c t)) then WalkSkip else WalkChild t (dt_NM T (lid c t)))"
    "is_folder c' t \<longleftrightarrow> dt_TY T (lid c t) = LinkTypeFolder" "lid c' t = lid c t"
proof -
  obtain n c1 where n: "link_Name E t c = (n, c1)" by force
  note nm = Name_grows[OF tree_okD[OF seesD(1)[OF s]] t n]
  have ls: "link_sees E T c t" by (rule seesD(3)[OF s t])
  then have "link_Name E t c = (Inr (dt_NM T (lid c t)), c1)" using nm(1) n by (simp add: link_sees_def)
  with run have w: "w = (if dot_name (dt_NM T (lid c t)) then WalkSkip else WalkChild t (dt_NM T (lid c t)))" "c' = c1"
    by (simp_all add: walk_step_def EntryName_def child_entry_def split: if_splits)
  show "sees E T c'" unfolding w(2) by (rule sees_same_heap[OF s nm(2,3)])
  show le: "static_le c c'" unfolding w(2) by (rule growsD(3)[OF nm(2)])
  show "w = (if dot_name (dt_NM T (lid c t)) then WalkSkip else WalkChild t (dt_NM T (lid c t)))" by (fact w(1))
  show "is_folder c' t \<longleftrightarrow> dt_TY T (lid c t) = LinkTypeFolder" "lid c' t = lid c t"
    using static_link[OF le t] ls by (simp_all add: link_sees_def)
qed

section \<open>Both orders visit the tree\<close>

definition visits ::
    "('dv, 'h, 'kr) driveEnv \<Rightarrow> 'kr driveTree \<Rightarrow> ('dv, 'h, 'kr) Client \<Rightarrow> (WalkEntry list \<times> ('dv, 'h, 'kr) Client) option
      \<Rightarrow> seen_entry list \<Rightarrow> bool" where
  "visits E T c res xs \<longleftrightarrow> (\<exists>ws c'. res = Some (ws, c') \<and> sees E T c' \<and> static_le c c' \<and> clean c' ws \<and>
     mset (map (seen c') ws) = mset xs)"

definition walk_of :: "'kr driveTree \<Rightarrow> int \<Rightarrow> nat \<Rightarrow> string \<Rightarrow> nat \<Rightarrow> string \<Rightarrow> seen_entry list" where
  "walk_of T m n path d j = tree_walk T m n j (kid_path T path j) (d + 1) (dt_NM T j)"

abbreviation named :: "'kr driveTree \<Rightarrow> ('dv, 'h, 'kr) Client \<Rightarrow> lref list \<Rightarrow> string list" where
  "named T c ts \<equiv> filter (\<lambda>j. \<not> dot_name (dt_NM T j)) (map (lid c) ts)"

lemma static_le_refl [simp]: "static_le c c" by (simp add: static_le_def same_static_def)

lemma dfs_dots: "dfs_entries E ord n path d m (dot_entries c0 r @ es) c = dfs_entries E ord n path d m es c"
  by (simp add: dot_entries_def walk_step_def EntryName_def)

lemma lids_le:
  assumes "static_le c c'" "\<forall>t \<in> set ts. t < length (dc_heap c)"
  shows "map (lid c') ts = map (lid c) ts" "\<forall>t \<in> set ts. t < length (dc_heap c')"
  using assms static_link[OF assms(1)] static_le_len[OF assms(1)] by simp_all

lemma dfs_children:
  assumes IH: "\<And>t path d name c. sees E T c \<Longrightarrow> t < length (dc_heap c) \<Longrightarrow> fits T m n (lid c t) d \<Longrightarrow>
      visits E T c (walkDepthFirst E ord n t path d m name c) (tree_walk T m n (lid c t) path d name)"
  shows "sees E T c \<Longrightarrow> \<forall>t \<in> set ts. t < length (dc_heap c) \<Longrightarrow> \<forall>j \<in> set (named T c ts). fits T m n j (d + 1) \<Longrightarrow>
      visits E T c (dfs_entries E ord n path d m (map child_entry ts) c) (concat (map (walk_of T m n path d) (named T c ts)))"
proof (induction ts arbitrary: c)
  case Nil
  then show ?case by (simp add: visits_def static_le_def same_static_def)
next
  case (Cons t ts)
  obtain w c1 where w: "walk_step E d (child_entry t) c = (w, c1)" by force
  have t: "t < length (dc_heap c)" using Cons.prems(2) by simp
  note st = walk_step_child[OF Cons.prems(1) t w]
  have ts: "\<forall>t \<in> set ts. t < length (dc_heap c)" using Cons.prems(2) by simp
  note l1 = lids_le[OF st(2) ts]
  show ?case
  proof (cases "dot_name (dt_NM T (lid c t))")
    case True
    have "visits E T c1 (dfs_entries E ord n path d m (map child_entry ts) c1) (concat (map (walk_of T m n path d) (named T c ts)))"
      unfolding l1(1)[symmetric] by (rule Cons.IH[OF st(1) l1(2)]) (use Cons.prems(3) l1(1) in simp)
    then show ?thesis using True st(3) w static_le_trans[OF st(2)] by (auto simp: visits_def)
  next
    case False
    have "fits T m n (lid c1 t) (d + 1)" using Cons.prems(3) False st(5) by simp
    from IH[OF st(1) static_le_len[OF st(2) t] this, of "child_path path (dt_NM T (lid c t)) (is_folder c1 t)" "dt_NM T (lid c t)"]
    obtain ws c2 where v: "walkDepthFirst E ord n t (child_path path (dt_NM T (lid c t)) (is_folder c1 t)) (d + 1) m (dt_NM T (lid c t)) c1 = Some (ws, c2)"
      "sees E T c2" "static_le c1 c2" "clean c2 ws" "mset (map (seen c2) ws) = mset (walk_of T m n path d (lid c t))"
      by (auto simp: visits_def walk_of_def kid_path_def st(4,5))
    note le2 = static_le_trans[OF st(2) v(3)]
    note l2 = lids_le[OF le2 ts]
    have "visits E T c2 (dfs_entries E ord n path d m (map child_entry ts) c2) (concat (map (walk_of T m n path d) (named T c ts)))"
      unfolding l2(1)[symmetric] by (rule Cons.IH[OF v(2) l2(2)]) (use Cons.prems(3) l2(1) in simp)
    then obtain ws' c3 where v': "dfs_entries E ord n path d m (map child_entry ts) c2 = Some (ws', c3)" "sees E T c3" "static_le c2 c3"
      "clean c3 ws'" "mset (map (seen c3) ws') = mset (concat (map (walk_of T m n path d) (named T c ts)))"
      by (auto simp: visits_def)
    have "mset (map (seen c3) ws) = mset (walk_of T m n path d (lid c t))"
      unfolding clean_le(2)[OF v(4) v'(3)] by (fact v(5))
    then show ?thesis
      using w st(3) False v(1) v' clean_le(1)[OF v(4) v'(3)] static_le_trans[OF le2 v'(3)] by (simp add: visits_def)
  qed
qed

lemma kids_listed:
  assumes "lists_folder (dt_K T) c r ts" "dt_TY T (lid c r) = LinkTypeFolder"
  shows "mset (named T c ts) = mset (kids T (lid c r))" "\<forall>t \<in> set ts. t < length (dc_heap c)"
  using assms by (simp_all add: lists_folder_def kids_def del: filter_map)

lemma concat_mset: "mset xs = mset ys \<Longrightarrow> mset (concat (map f xs)) = mset (concat (map f ys))"
  by (simp add: mset_concat flip: sum_mset_sum_list)

lemma dfs_visits:
  assumes E: "serves_tree E T" and ord: "is_order ord"
  shows "sees E T c \<Longrightarrow> r < length (dc_heap c) \<Longrightarrow> fits T m n (lid c r) d \<Longrightarrow>
    visits E T c (walkDepthFirst E ord n r path d m name c) (tree_walk T m n (lid c r) path d name)"
proof (induction n arbitrary: r path d name c)
  case (Suc n)
  have ty: "is_folder c r \<longleftrightarrow> dt_TY T (lid c r) = LinkTypeFolder" by (rule link_sees_type[OF seesD(3)[OF Suc.prems(1,2)]])
  show ?case
  proof (cases "is_folder c r \<and> within m d")
    case False
    have tw: "tree_walk T m (Suc n) (lid c r) path d name = [(path, lid c r, d, name)]"
      using False ty by (cases "within m d") (simp_all add: kids_def)
    have run: "walkDepthFirst E ord (Suc n) r path d m name c = Some ([walk_entry path r d name], c)"
      using False by (simp only: walkDepthFirst.simps if_False)
    show ?thesis unfolding tw run visits_def using Suc.prems(1,2) static_le_refl by simp
  next
    case True
    obtain es c1 where rd: "Readdir E ord r c = (es, c1)" by force
    from sees_Readdir[OF Suc.prems(1) E ord Suc.prems(2) rd] obtain ts where
      s1: "sees E T c1" and le: "static_le c c1" and es: "es = dot_entries c r @ map child_entry ts" and lf: "lists_folder (dt_K T) c1 r ts"
      by blast
    have id: "lid c1 r = lid c r" using static_link[OF le Suc.prems(2)] by simp
    have fl: "dt_TY T (lid c1 r) = LinkTypeFolder" using True ty id by simp
    note k = kids_listed[OF lf fl]
    have "\<forall>j \<in> set (named T c1 ts). fits T m n j (d + 1)"
      using Suc.prems(3) True id mset_eq_setD[OF k(1)] by (simp only: fits.simps simp_thms)
    from dfs_children[OF Suc.IH s1 k(2) this, of path]
    obtain ws c2 where v: "dfs_entries E ord n path d m (map child_entry ts) c1 = Some (ws, c2)" "sees E T c2" "static_le c1 c2" "clean c2 ws"
      "mset (map (seen c2) ws) = mset (concat (map (walk_of T m n path d) (named T c1 ts)))" unfolding visits_def by blast
    note le2 = static_le_trans[OF le v(3)]
    have run: "walkDepthFirst E ord (Suc n) r path d m name c = Some (ws @ [walk_entry path r d name], c2)"
      using True by (simp add: rd es dfs_dots v(1) del: dfs_entries.simps)
    have tw: "tree_walk T m (Suc n) (lid c r) path d name = (path, lid c r, d, name) # concat (map (walk_of T m n path d) (kids T (lid c r)))"
      using True by (simp add: walk_of_def[abs_def])
    have "mset (map (seen c2) ws) = mset (concat (map (walk_of T m n path d) (kids T (lid c r))))"
      unfolding v(5) concat_mset[OF k(1)] id ..
    then show ?thesis
      unfolding visits_def run tw using v(2,4) le2 static_le_len[OF le2 Suc.prems(2)] static_link[OF le2 Suc.prems(2)] by simp
  qed
qed simp

definition qkey :: "('dv, 'h, 'kr) Client \<Rightarrow> queueItem \<Rightarrow> string \<times> string \<times> nat" where
  "qkey c q = (lid c (qi_link q), qi_path q, qi_depth q)"

definition kid_entry :: "'kr driveTree \<Rightarrow> string \<Rightarrow> nat \<Rightarrow> string \<Rightarrow> seen_entry" where
  "kid_entry T path d j = (kid_path T path j, j, d + 1, dt_NM T j)"

definition kid_item :: "'kr driveTree \<Rightarrow> string \<Rightarrow> nat \<Rightarrow> string \<Rightarrow> string \<times> string \<times> nat" where
  "kid_item T path d j = (j, kid_path T path j, d + 1)"

abbreviation descends :: "'kr driveTree \<Rightarrow> int \<Rightarrow> nat \<Rightarrow> string \<Rightarrow> bool" where
  "descends T m d j \<equiv> dt_TY T j = LinkTypeFolder \<and> within m (d + 1)"

definition queued :: "('dv, 'h, 'kr) Client \<Rightarrow> queueItem list \<Rightarrow> bool" where
  "queued c qs \<longleftrightarrow> (\<forall>q \<in> set qs. qi_link q < length (dc_heap c))"

lemma queued_le:
  assumes "queued c qs" "static_le c c'" shows "queued c' qs" "map (qkey c') qs = map (qkey c) qs"
  using assms static_le_len[OF assms(2)] static_link[OF assms(2)] by (auto simp: queued_def qkey_def)

lemma bfs_dots: "bfs_entries E m item (dot_entries c0 r @ es) c = bfs_entries E m item es c"
  by (simp add: dot_entries_def walk_step_def EntryName_def split: prod.split)

lemma bfs_children:
  "sees E T c \<Longrightarrow> \<forall>t \<in> set ts. t < length (dc_heap c) \<Longrightarrow> bfs_entries E m item (map child_entry ts) c = (ws, next, c') \<Longrightarrow>
    sees E T c' \<and> static_le c c' \<and> clean c' ws \<and> queued c' next \<and>
    map (seen c') ws = map (kid_entry T (qi_path item) (qi_depth item)) (named T c ts) \<and>
    map (qkey c') next = map (kid_item T (qi_path item) (qi_depth item)) (filter (descends T m (qi_depth item)) (named T c ts))"
proof (induction ts arbitrary: c ws "next" c')
  case Nil
  then show ?case by (simp add: queued_def)
next
  case (Cons t ts)
  obtain w c1 where w: "walk_step E (qi_depth item) (child_entry t) c = (w, c1)" by force
  obtain ws1 next1 c2 where r: "bfs_entries E m item (map child_entry ts) c1 = (ws1, next1, c2)" by (metis prod_cases3)
  have t: "t < length (dc_heap c)" and ts: "\<forall>t \<in> set ts. t < length (dc_heap c)" using Cons.prems(2) by simp_all
  note st = walk_step_child[OF Cons.prems(1) t w]
  note l1 = lids_le[OF st(2) ts]
  note ih = Cons.IH[OF st(1) l1(2) r]
  have le: "static_le c c2" using ih static_le_trans[OF st(2)] by blast
  have id: "lid c2 t = lid c t" using static_link[OF le t] by simp
  have c': "c' = c2" using Cons.prems(3) w r st(3) by (auto simp: Let_def split: if_splits)
  show ?case
  proof (cases "dot_name (dt_NM T (lid c t))")
    case True
    then have "ws = ws1" "next = next1" using Cons.prems(3) w r st(3) by auto
    then show ?thesis using ih le l1(1) True unfolding c' by auto
  next
    case False
    let ?p = "child_path (qi_path item) (dt_NM T (lid c t)) (is_folder c1 t)"
    have ws: "ws = walk_entry ?p t (qi_depth item + 1) (dt_NM T (lid c t)) # ws1"
      "next = (if is_folder c1 t \<and> within m (qi_depth item + 1) then \<lparr>qi_link = t, qi_path = ?p, qi_depth = qi_depth item + 1\<rparr> # next1 else next1)"
      using Cons.prems(3) w r st(3) False by (auto simp: Let_def)
    have p: "?p = kid_path T (qi_path item) (lid c t)" using st(4) by (simp add: kid_path_def)
    show ?thesis
      using ih le l1(1) False id static_le_len[OF le t] ws st(4) unfolding c' p
      by (auto simp: kid_entry_def kid_item_def qkey_def queued_def)
  qed
qed

abbreviation kid_entries :: "'kr driveTree \<Rightarrow> string \<times> string \<times> nat \<Rightarrow> seen_entry list" where
  "kid_entries T \<equiv> (\<lambda>(i, path, d). map (kid_entry T path d) (kids T i))"

abbreviation kid_items :: "'kr driveTree \<Rightarrow> int \<Rightarrow> string \<times> string \<times> nat \<Rightarrow> (string \<times> string \<times> nat) list" where
  "kid_items T m \<equiv> (\<lambda>(i, path, d). map (kid_item T path d) (filter (descends T m d) (kids T i)))"


lemma bfs_level_visits:
  assumes E: "serves_tree E T" and ord: "is_order ord"
  shows "sees E T c \<Longrightarrow> queued c queue \<Longrightarrow> bfs_level E ord m queue c = (ws, next, c') \<Longrightarrow>
    sees E T c' \<and> static_le c c' \<and> clean c' ws \<and> queued c' next \<and>
    mset (map (seen c') ws) = mset (concat (map (kid_entries T) (map (qkey c) queue))) \<and>
    mset (map (qkey c') next) = mset (concat (map (kid_items T m) (map (qkey c) queue)))"
proof (induction queue arbitrary: c ws "next" c')
  case Nil
  then show ?case by (simp add: queued_def)
next
  case (Cons item queue)
  have r: "qi_link item < length (dc_heap c)" and q: "queued c queue" using Cons.prems(2) by (simp_all add: queued_def)
  note ty = link_sees_type[OF seesD(3)[OF Cons.prems(1) r]]
  show ?case
  proof (cases "is_folder c (qi_link item)")
    case False
    then show ?thesis using Cons.IH[OF Cons.prems(1) q] Cons.prems(3) ty by (simp add: qkey_def kids_def)
  next
    case True
    obtain es c1 where rd: "Readdir E ord (qi_link item) c = (es, c1)" by force
    from sees_Readdir[OF Cons.prems(1) E ord r rd] obtain ts where
      s1: "sees E T c1" and le1: "static_le c c1" and es: "es = dot_entries c (qi_link item) @ map child_entry ts"
      and lf: "lists_folder (dt_K T) c1 (qi_link item) ts" by blast
    have id: "lid c1 (qi_link item) = lid c (qi_link item)" using static_link[OF le1 r] by simp
    have fl: "dt_TY T (lid c1 (qi_link item)) = LinkTypeFolder" using True ty id by simp
    note k = kids_listed[OF lf fl]
    obtain ws1 next1 c2 where be: "bfs_entries E m item es c1 = (ws1, next1, c2)" by (metis prod_cases3)
    note b = bfs_children[OF s1 k(2) be[unfolded es bfs_dots]]
    have s2: "sees E T c2" and le2: "static_le c1 c2" and le: "static_le c c2" using b static_le_trans[OF le1] by blast+
    note q2 = queued_le[OF q le]
    obtain ws2 next2 c3 where bl: "bfs_level E ord m queue c2 = (ws2, next2, c3)" by (metis prod_cases3)
    note ih = Cons.IH[OF s2 q2(1) bl, unfolded q2(2)]
    have le3: "static_le c2 c3" and le': "static_le c c3" using ih static_le_trans[OF le] by blast+
    have out: "ws = ws1 @ ws2" "next = next1 @ next2" "c' = c3" using Cons.prems(3) True rd be bl by simp_all
    have n1: "clean c2 ws1" "queued c2 next1" using b by blast+
    have "mset (map (seen c3) ws1) = mset (kid_entries T (qkey c item))"
      using b k(1) id unfolding clean_le(2)[OF n1(1) le3] by (simp add: qkey_def del: filter_map)
    moreover have "mset (map (qkey c3) next1) = mset (kid_items T m (qkey c item))"
    proof -
      have "mset (map (qkey c2) next1) = mset (map (kid_item T (qi_path item) (qi_depth item))
          (filter (descends T m (qi_depth item)) (named T c1 ts)))" using b by (simp only: simp_thms)
      also have "\<dots> = mset (map (kid_item T (qi_path item) (qi_depth item)) (filter (descends T m (qi_depth item)) (kids T (lid c (qi_link item)))))"
        using k(1) id by (simp only: mset_map mset_filter)
      finally show ?thesis unfolding queued_le(2)[OF n1(2) le3] by (simp add: qkey_def)
    qed
    ultimately show ?thesis
      using ih le' clean_le(1)[OF n1(1) le3] queued_le(1)[OF n1(2) le3] unfolding out by (auto simp: queued_def)
  qed
qed

text \<open>What the walk emits below a queued item.\<close>

definition below :: "'kr driveTree \<Rightarrow> int \<Rightarrow> nat \<Rightarrow> string \<times> string \<times> nat \<Rightarrow> seen_entry list" where
  "below T m n = (\<lambda>(i, path, d). concat (map (walk_of T m n path d) (kids T i)))"

definition fits_below :: "'kr driveTree \<Rightarrow> int \<Rightarrow> nat \<Rightarrow> string \<times> string \<times> nat \<Rightarrow> bool" where
  "fits_below T m n = (\<lambda>(i, path, d). \<forall>j \<in> set (kids T i). fits T m n j (d + 1))"

lemma kids_folder: "j \<in> set (kids T i) \<Longrightarrow> dt_TY T i = LinkTypeFolder" "dt_TY T i \<noteq> LinkTypeFolder \<Longrightarrow> kids T i = []"
  by (auto simp: kids_def split: if_splits)

lemma walk_of_Suc:
  "walk_of T m (Suc n) path d = (\<lambda>j. kid_entry T path d j # (if descends T m d j then below T m n (kid_item T path d j) else []))"
proof
  fix j show "walk_of T m (Suc n) path d j = kid_entry T path d j # (if descends T m d j then below T m n (kid_item T path d j) else [])"
    using kids_folder(2)[of T j] by (simp add: walk_of_def kid_entry_def below_def kid_item_def walk_of_def[abs_def])
qed

lemma concat_cons_mset: "mset (concat (map (\<lambda>j. f j # g j) xs)) = mset (map f xs) + mset (concat (map g xs))"
  by (induction xs) simp_all

lemma concat_if: "concat (map (\<lambda>j. if P j then g j else []) xs) = concat (map g (filter P xs))"
  by (induction xs) simp_all

lemma below_Suc:
  "mset (below T m (Suc n) k) = mset (kid_entries T k) + mset (concat (map (below T m n) (kid_items T m k)))"
  by (cases k) (simp add: below_def[of T m "Suc n"] walk_of_Suc concat_cons_mset concat_if comp_def)

lemma concat_below:
  "mset (concat (map (below T m (Suc n)) ks)) =
    mset (concat (map (kid_entries T) ks)) + mset (concat (map (below T m n) (concat (map (kid_items T m) ks))))"
proof (induction ks)
  case (Cons k ks)
  then show ?case by (simp only: concat.simps list.map mset_append below_Suc map_append concat_append ac_simps)
qed simp

lemma fits_items:
  assumes "fits_below T m (Suc n) k" "q \<in> set (kid_items T m k)" shows "fits_below T m n q"
  using assms by (cases k) (auto simp: fits_below_def kid_item_def)


lemma bfs_levels_visits:
  assumes E: "serves_tree E T" and ord: "is_order ord"
  shows "sees E T c \<Longrightarrow> queued c queue \<Longrightarrow> \<forall>k \<in> set (map (qkey c) queue). fits_below T m n k \<Longrightarrow>
    visits E T c (bfs_levels E ord m (Suc n) queue c) (concat (map (below T m n) (map (qkey c) queue)))"
proof (induction n arbitrary: queue c)
  case 0
  have none: "kids T (lid c (qi_link q)) = []" if "q \<in> set queue" for q
    using "0.prems"(3) that by (auto simp: fits_below_def qkey_def)
  show ?case
  proof (cases queue)
    case Nil
    then show ?thesis using 0 by (simp add: visits_def)
  next
    case (Cons q qs)
    obtain ws nxt c' where b: "bfs_level E ord m queue c = (ws, nxt, c')" by (metis prod_cases3)
    note v = bfs_level_visits[OF E ord "0.prems"(1,2) b]
    have z: "concat (map (kid_entries T) (map (qkey c) queue)) = []" "concat (map (kid_items T m) (map (qkey c) queue)) = []"
      "concat (map (below T m 0) (map (qkey c) queue)) = []"
      using none by (auto simp: below_def qkey_def)
    have "ws = []" "nxt = []" using v unfolding z by simp_all
    then have "bfs_levels E ord m (Suc 0) queue c = Some ([], c')" using b Cons by simp
    then show ?thesis unfolding visits_def z using v by simp
  qed
next
  case (Suc n)
  obtain ws nxt c1 where b: "bfs_level E ord m queue c = (ws, nxt, c1)" by (metis prod_cases3)
  note v = bfs_level_visits[OF E ord Suc.prems(1,2) b]
  then have s1: "sees E T c1" and q1: "queued c1 nxt" and le1: "static_le c c1" and cl1: "clean c1 ws"
    and items: "mset (map (qkey c1) nxt) = mset (concat (map (kid_items T m) (map (qkey c) queue)))" by (simp_all only: simp_thms)
  have st: "set (map (qkey c1) nxt) = (\<Union>k \<in> set (map (qkey c) queue). set (kid_items T m k))"
    using mset_eq_setD[OF items] unfolding set_concat set_map image_image .
  have "\<forall>k \<in> set (map (qkey c1) nxt). fits_below T m n k"
  proof
    fix k assume "k \<in> set (map (qkey c1) nxt)"
    then obtain k0 where "k0 \<in> set (map (qkey c) queue)" "k \<in> set (kid_items T m k0)" unfolding st by (elim UN_E)
    then show "fits_below T m n k" using fits_items Suc.prems(3) by blast
  qed
  from Suc.IH[OF s1 q1 this] obtain ws' c2 where l: "bfs_levels E ord m (Suc n) nxt c1 = Some (ws', c2)"
    and v2: "sees E T c2" "static_le c1 c2" "clean c2 ws'" "mset (map (seen c2) ws') = mset (concat (map (below T m n) (map (qkey c1) nxt)))"
    unfolding visits_def by blast
  have run: "bfs_levels E ord m (Suc (Suc n)) queue c = Some (ws @ ws', c2)"
  proof (cases queue)
    case Nil
    then show ?thesis using b l by simp
  next
    case (Cons q qs)
    then show ?thesis using b l by (simp del: bfs_level.simps)
  qed
  have "mset (map (seen c2) (ws @ ws')) = mset (concat (map (below T m (Suc n)) (map (qkey c) queue)))"
    unfolding concat_below map_append mset_append clean_le(2)[OF cl1 v2(2)] v2(4) concat_mset[OF items] using v by simp
  then show ?case unfolding visits_def run using v2 static_le_trans[OF le1 v2(2)] clean_le(1)[OF cl1 v2(2)] by simp
qed

text \<open>Whatever the service answers, an order by levels.\<close>

lemma bfs_entries_depth:
  "bfs_entries E m item es c = (ws, next, c') \<Longrightarrow>
    (\<forall>w \<in> set ws. we_Depth w = qi_depth item + 1) \<and> (\<forall>q \<in> set next. qi_depth q = qi_depth item + 1)"
proof (induction es arbitrary: c ws "next" c')
  case (Cons e es)
  obtain w c1 where w: "walk_step E (qi_depth item) e c = (w, c1)" by force
  obtain ws1 next1 c2 where r: "bfs_entries E m item es c1 = (ws1, next1, c2)" by (metis prod_cases3)
  have "we_Depth we = qi_depth item + 1" if "w = WalkError we" for we
    using w that by (auto simp: walk_step_def walk_error_def split: option.splits sum.splits prod.splits if_splits)
  then show ?case using Cons.IH[OF r] Cons.prems w r
    by (auto simp: Let_def walk_entry_def split: walked.splits if_splits)
qed simp

lemma bfs_level_depth:
  "\<forall>q \<in> set queue. qi_depth q = d \<Longrightarrow> bfs_level E ord m queue c = (ws, next, c') \<Longrightarrow>
    (\<forall>w \<in> set ws. we_Depth w = d + 1) \<and> (\<forall>q \<in> set next. qi_depth q = d + 1)"
proof (induction queue arbitrary: c ws "next" c')
  case (Cons item queue)
  obtain es c1 where rd: "Readdir E ord (qi_link item) c = (es, c1)" by force
  obtain ws1 next1 c2 where be: "bfs_entries E m item es c1 = (ws1, next1, c2)" by (metis prod_cases3)
  obtain ws2 next2 c3 where bl: "bfs_level E ord m queue c2 = (ws2, next2, c3)" by (metis prod_cases3)
  have q: "\<forall>q \<in> set queue. qi_depth q = d" and i: "qi_depth item = d" using Cons.prems(1) by simp_all
  show ?case
    using Cons.IH[OF q bl] Cons.IH[OF q] Cons.prems(2) bfs_entries_depth[OF be] rd be bl i by (auto split: if_splits)
qed simp

lemma bfs_levels_sorted:
  "\<forall>q \<in> set queue. qi_depth q = d \<Longrightarrow> bfs_levels E ord m n queue c = Some (ws, c') \<Longrightarrow>
    sorted (map we_Depth ws) \<and> (\<forall>w \<in> set ws. d < we_Depth w)"
proof (induction n arbitrary: queue c d ws)
  case 0
  then show ?case by (cases queue) simp_all
next
  case (Suc n)
  show ?case
  proof (cases queue)
    case Nil
    then show ?thesis using Suc.prems by simp
  next
    case (Cons q qs)
    obtain ws1 nxt c1 where b: "bfs_level E ord m queue c = (ws1, nxt, c1)" by (metis prod_cases3)
    note v = bfs_level_depth[OF Suc.prems(1) b]
    obtain ws2 where l: "bfs_levels E ord m n nxt c1 = Some (ws2, c')" "ws = ws1 @ ws2"
      using Suc.prems(2) b Cons by (auto simp del: bfs_level.simps split: option.splits)
    have "sorted (map we_Depth ws1)" using v by (auto simp: sorted_iff_nth_mono)
    then show ?thesis using Suc.IH[of nxt "d + 1", OF _ l(1)] v l(2) by (fastforce simp: sorted_append)
  qed
qed


section \<open>The walk\<close>

text \<open>A depth limit makes the levels finite, so fuel beyond it is always enough.\<close>

lemma fits_limit: "0 \<le> m \<Longrightarrow> m < int d + int n \<Longrightarrow> 0 < n \<Longrightarrow> fits T m n i d"
proof (induction n arbitrary: i d)
  case (Suc n)
  have "fits T m n j (d + 1)" if "within m d" for j
    by (rule Suc.IH) (use Suc.prems that in \<open>auto simp: within_def\<close>)
  then show ?case by simp
qed simp

text \<open>
  C29: Against a service that answers, and on links that decrypt, both orders of TreeWalk end and visit the tree: with
  fuel for the tree's levels below the depth limit, each emits exactly the entries of the reference traversal, with
  the same paths, depths and names, and without an error entry, so the two orders differ in nothing but the
  sequence.  The limit is any number but 0.  The breadth-first sequence is by depth; the depth-first one ends with
  the root.
\<close>

theorem walk_orders_agree:
  assumes "sees E T c" "serves_tree E T" "is_order ord" "r < length (dc_heap c)" "m \<noteq> 0" "fits T m (Suc n) (lid c r) 0"
  shows "visits E T c (TreeWalk E ord (Suc n) r path order m c) (tree_walk T m (Suc n) (lid c r) path 0 []) \<and>
    (\<exists>ws c'. TreeWalk E ord (Suc n) r path order m c = Some (ws, c') \<and>
       (case order of BreadthFirst \<Rightarrow> sorted (map we_Depth ws) | DepthFirst \<Rightarrow> last ws = walk_entry path r 0 []))"
proof (cases order)
  case DepthFirst
  have v: "visits E T c (walkDepthFirst E ord (Suc n) r path 0 m [] c) (tree_walk T m (Suc n) (lid c r) path 0 [])"
    by (rule dfs_visits[OF assms(2,3,1,4,6)])
  moreover have "last ws = walk_entry path r 0 []" if "walkDepthFirst E ord (Suc n) r path 0 m [] c = Some (ws, c')" for ws c'
    using that by (auto split: if_splits prod.splits option.splits)
  ultimately show ?thesis using DepthFirst by (auto simp: TreeWalk_def visits_def simp del: walkDepthFirst.simps)
next
  case BreadthFirst
  let ?q = "[\<lparr>qi_link = r, qi_path = path, qi_depth = 0\<rparr>]"
  have w: "within m 0" using assms(5) by (auto simp: within_def)
  have "visits E T c (bfs_levels E ord m (Suc n) ?q c) (concat (map (below T m n) (map (qkey c) ?q)))"
    by (rule bfs_levels_visits[OF assms(2,3,1)]) (use assms(4,6) w in \<open>simp_all add: queued_def fits_below_def qkey_def\<close>)
  then obtain ws c' where b: "bfs_levels E ord m (Suc n) ?q c = Some (ws, c')" and v: "sees E T c'" "static_le c c'" "clean c' ws"
    "mset (map (seen c') ws) = mset (below T m n (lid c r, path, 0))" unfolding visits_def by (auto simp: qkey_def)
  have run: "TreeWalk E ord (Suc n) r path order m c = Some (walk_entry path r 0 [] # ws, c')"
    using BreadthFirst b by (simp add: TreeWalk_def walkBreadthFirst_def)
  have tw: "tree_walk T m (Suc n) (lid c r) path 0 [] = (path, lid c r, 0, []) # below T m n (lid c r, path, 0)"
    using w by (simp add: below_def walk_of_def[abs_def])
  have "sorted (map we_Depth ws)" using bfs_levels_sorted[OF _ b, of 0] by simp
  moreover have "mset (map (seen c') (walk_entry path r 0 [] # ws)) = mset ((path, lid c r, 0, []) # below T m n (lid c r, path, 0))"
    using v(4) static_link[OF v(2) assms(4)] by simp
  ultimately show ?thesis unfolding run tw visits_def using v(1-3) static_le_len[OF v(2) assms(4)] BreadthFirst
    by (simp add: walk_entry_def clean_entry_def)
qed

section \<open>A concrete tree\<close>

definition walk_kids :: "string \<Rightarrow> protonLink list" where
  "walk_kids i = (if i = ''root'' then [demo_link ''file='', demo_link ''dir''] else if i = ''dir'' then [demo_link ''sub''] else [])"

definition walk_env :: "((string, bytes) gomap, nat, nat) driveEnv" where
  "walk_env = demo_env\<lparr>de_ListChildren := (\<lambda>sid i b h. (Inr (walk_kids i), h + 1)), de_GetKeyRing := (\<lambda>n k a. Inr 9)\<rparr>"

definition walk_demo :: "nat driveTree" where
  "walk_demo = \<lparr>dt_K = walk_kids, dt_KR = (\<lambda>i. 9), dt_NM = (\<lambda>i. i), dt_TY = (\<lambda>i. pl_Type (demo_link i)),
     dt_addresses = [(''a'', ''A'')], dt_keyrings = [(''A'', 5)]\<rparr>"

lemma walk_serves: "serves_tree walk_env walk_demo"
  by (auto simp: serves_tree_def walk_env_def walk_demo_def demo_env_def holds_keys_def walk_kids_def demo_link_def
      deriveKeyRing_def decryptName_def address_keyring_def)

lemma walk_sees: "sees walk_env walk_demo demo_root"
proof -
  have "pure_keyring walk_env demo_root (Suc 0) 0 = Inr 9" "pure_name walk_env demo_root 0 = Inr ''root''" by code_simp+
  then show ?thesis
    using demo_tree(1) by (simp add: sees_def link_sees_def del: pure_keyring.simps)
      (simp add: walk_demo_def holds_keys_def demo_root_def NewClient_def NewLink_def demo_link_def demo_share_def)
qed

theorem walk_orders_agree_witness:
  "visits walk_env walk_demo demo_root (TreeWalk walk_env (\<lambda>n. [0..<n]) 3 0 ''/'' BreadthFirst (- 1) demo_root)
     [(''/'', ''root'', 0, []), (''/file='', ''file='', 1, ''file=''), (''/dir/'', ''dir'', 1, ''dir''), (''/dir/sub/'', ''sub'', 2, ''sub'')]"
proof -
  have f: "fits walk_demo (- 1) (Suc 2) ''root'' 0" by code_simp
  have t: "tree_walk walk_demo (- 1) (Suc 2) ''root'' ''/'' 0 [] =
    [(''/'', ''root'', 0, []), (''/file='', ''file='', 1, ''file=''), (''/dir/'', ''dir'', 1, ''dir''), (''/dir/sub/'', ''sub'', 2, ''sub'')]" by code_simp
  have r: "lid demo_root 0 = ''root''" "0 < length (dc_heap demo_root)" by (simp_all add: demo_root_def NewLink_def demo_link_def)
  show ?thesis
    using walk_orders_agree[OF walk_sees walk_serves demo_tree(3) r(2), of "- 1" 2 "''/''" BreadthFirst, unfolded r(1), OF _ f, unfolded t]
    by (simp add: numeral_3_eq_3)
qed

text \<open>With the limit 0 the depth-first walk emits the root only, the breadth-first one its children as well.\<close>

lemma breadth_first_ignores_zero:
  "(let f = (\<lambda>order. map_option (map we_Path \<circ> fst) (TreeWalk walk_env (\<lambda>n. [0..<n]) 3 0 ''/'' order 0 demo_root))
    in (f DepthFirst, f BreadthFirst)) = (Some [''/''], Some [''/'', ''/file='', ''/dir/''])"
  by code_simp

end
