(* ===== verification/SymlinkResolve.thy ===== *)
theory SymlinkResolve
  imports DriveWalk
begin

text \<open>
  Symlinks, \<^verbatim>\<open>api/drive/symlink.go\<close> and \<^verbatim>\<open>resolve_symlink.go\<close>: reading a target, and resolving a path while following
  the links on it.  The resolution is compared with one on an abstract tree of identifiers.
\<close>

section \<open>Reading a target\<close>

definition maxSymlinkTarget :: nat where "maxSymlinkTarget = 4096"
definition maxSymlinkDepth :: nat where "maxSymlinkDepth = 40"

datatype symlinkErr = ErrNotSymlink | SymOpenErr string driveErr | SymReadErr string driveErr | SymMalformed string

definition go_string :: "bytes \<Rightarrow> string" where "go_string = map (\<lambda>b. char_of (unat b))"

text \<open>\<open>readAt n\<close> reads at most \<open>n\<close> bytes from the start.\<close>

definition readSymlinkTarget :: "(nat \<Rightarrow> 'c \<Rightarrow> (bytes \<times> driveErr option) \<times> 'c) \<Rightarrow> string \<Rightarrow> 'c \<Rightarrow> (symlinkErr + string) \<times> 'c" where
  "readSymlinkTarget readAt linkID c =
     (case readAt (maxSymlinkTarget + 1) c of
        ((buf, err), c1) \<Rightarrow>
          (if err \<noteq> None \<and> err \<noteq> Some EOF then Inl (SymReadErr linkID (the err))
           else if length buf > maxSymlinkTarget then Inl (SymMalformed linkID)
           else Inr (go_string buf), c1))"

definition ReadSymlinkTarget ::
    "('dv, 'h, 'kr) driveEnv \<Rightarrow> (lref \<Rightarrow> ('dv, 'h, 'kr) Client \<Rightarrow> (driveErr + 'fd) \<times> ('dv, 'h, 'kr) Client)
      \<Rightarrow> ('fd \<Rightarrow> nat \<Rightarrow> ('dv, 'h, 'kr) Client \<Rightarrow> (bytes \<times> driveErr option) \<times> ('dv, 'h, 'kr) Client)
      \<Rightarrow> lref \<Rightarrow> ('dv, 'h, 'kr) Client \<Rightarrow> (symlinkErr + string) \<times> ('dv, 'h, 'kr) Client" where
  "ReadSymlinkTarget E openFD readAt r c =
     (case link_IsSymlink E r c of
        (False, c1) \<Rightarrow> (Inl ErrNotSymlink, c1)
      | (True, c1) \<Rightarrow>
          (case openFD r c1 of
             (Inl e, c2) \<Rightarrow> (Inl (SymOpenErr (lid c r) e), c2)
           | (Inr fd, c2) \<Rightarrow> readSymlinkTarget (readAt fd) (lid c r) c2))"

section \<open>Resolving a path\<close>

datatype resolveErr = ResErr readErr | ResTargetErr string symlinkErr | ErrSymlinkLoop

definition pathComponents :: "string \<Rightarrow> string list" where
  "pathComponents path = (let path = trim_slashes path in if path = [] then [] else split_slash path)"

text \<open>
  The environment of a resolution: the order and extent of listings, the reader of targets, and the share's root if
  there is one.
\<close>

record ('dv, 'h, 'kr) resolveEnv =
  re_env :: "('dv, 'h, 'kr) driveEnv"
  re_order :: "nat \<Rightarrow> nat list"
  re_extra :: nat
  re_target :: "lref \<Rightarrow> ('dv, 'h, 'kr) Client \<Rightarrow> (symlinkErr + string) \<times> ('dv, 'h, 'kr) Client"
  re_root :: "lref option"

function (sequential) walkParts ::
    "('dv, 'h, 'kr) resolveEnv \<Rightarrow> lref \<Rightarrow> string list \<Rightarrow> bool \<Rightarrow> nat \<Rightarrow> ('dv, 'h, 'kr) Client
      \<Rightarrow> (resolveErr + lref) \<times> ('dv, 'h, 'kr) Client"
  and followSymlink ::
    "('dv, 'h, 'kr) resolveEnv \<Rightarrow> lref \<Rightarrow> lref \<Rightarrow> nat \<Rightarrow> ('dv, 'h, 'kr) Client \<Rightarrow> (resolveErr + lref) \<times> ('dv, 'h, 'kr) Client" where
  "walkParts R current [] followFinal depth c = (Inr current, c)"
| "walkParts R current (part # parts) followFinal depth c =
     (if part = [] \<or> part = ''.'' then walkParts R current parts followFinal depth c
      else if part = ''..'' then walkParts R (link_Parent c current) parts followFinal depth c
      else if \<not> is_folder c current then (Inl (ResErr ErrNotAFolder), c)
      else (case link_Lookup (re_env R) (re_order R) (re_extra R) current part c of
              (Inl e, c1) \<Rightarrow> (Inl (ResErr e), c1)
            | (Inr None, c1) \<Rightarrow> (Inl (ResErr ErrFileNotFound), c1)
            | (Inr (Some child), c1) \<Rightarrow>
                (case link_IsSymlink (re_env R) child c1 of
                   (symlink, c2) \<Rightarrow>
                     if symlink \<and> (parts \<noteq> [] \<or> followFinal)
                     then (case followSymlink R current child depth c2 of
                             (Inl e, c3) \<Rightarrow> (Inl e, c3)
                           | (Inr resolved, c3) \<Rightarrow> walkParts R resolved parts followFinal depth c3)
                     else walkParts R child parts followFinal depth c2)))"
| "followSymlink R parent symlink depth c =
     (if depth + 1 > maxSymlinkDepth then (Inl ErrSymlinkLoop, c)
      else (case re_target R symlink c of
              (Inl e, c1) \<Rightarrow> (Inl (ResTargetErr (lid c symlink) e), c1)
            | (Inr target, c1) \<Rightarrow>
                if target \<noteq> [] \<and> hd target = CHR ''/''
                then (case re_root R of
                        None \<Rightarrow> (Inl (ResErr ErrFileNotFound), c1)
                      | Some root \<Rightarrow> walkParts R root (pathComponents target) True (depth + 1) c1)
                else walkParts R parent (pathComponents target) True (depth + 1) c1))"
  by pat_completeness auto

termination
  by (relation "measures [\<lambda>x. case x of Inl (_, _, _, _, d, _) \<Rightarrow> Suc maxSymlinkDepth - d | Inr (_, _, _, d, _) \<Rightarrow> Suc maxSymlinkDepth - d,
      \<lambda>x. case x of Inl (_, _, ps, _) \<Rightarrow> length ps | Inr _ \<Rightarrow> 0]") auto

definition ResolveFollow ::
    "('dv, 'h, 'kr) resolveEnv \<Rightarrow> lref \<Rightarrow> string \<Rightarrow> bool \<Rightarrow> ('dv, 'h, 'kr) Client \<Rightarrow> (resolveErr + lref) \<times> ('dv, 'h, 'kr) Client" where
  "ResolveFollow R root path noFollow c = walkParts R root (pathComponents path) (\<not> noFollow) 0 c"

declare walkParts.simps(2) [simp del] followSymlink.simps [simp del]

section \<open>Resolution on identifiers\<close>

text \<open>What a tree has beyond its listings: parents, trash, and the symlinks with their metadata and targets.\<close>

record pathTree =
  pt_parent :: "string \<Rightarrow> string"
  pt_trashed :: "string \<Rightarrow> bool"
  pt_symlink :: "string \<Rightarrow> bool"
  pt_target :: "string \<Rightarrow> string"
  pt_xattr :: "string \<Rightarrow> string"
  pt_signer :: string
  pt_root :: "string option"

definition ref_lookup :: "'kr driveTree \<Rightarrow> pathTree \<Rightarrow> string \<Rightarrow> string \<Rightarrow> string option" where
  "ref_lookup T P i name = find (\<lambda>j. \<not> pt_trashed P j \<and> dt_NM T j = name) (map pl_LinkID (dt_K T i))"

function (sequential) ref_walk :: "'kr driveTree \<Rightarrow> pathTree \<Rightarrow> string \<Rightarrow> string list \<Rightarrow> bool \<Rightarrow> nat \<Rightarrow> resolveErr + string"
  and ref_follow :: "'kr driveTree \<Rightarrow> pathTree \<Rightarrow> string \<Rightarrow> string \<Rightarrow> nat \<Rightarrow> resolveErr + string" where
  "ref_walk T P i [] final depth = Inr i"
| "ref_walk T P i (part # parts) final depth =
     (if part = [] \<or> part = ''.'' then ref_walk T P i parts final depth
      else if part = ''..'' then ref_walk T P (pt_parent P i) parts final depth
      else if dt_TY T i \<noteq> LinkTypeFolder then Inl (ResErr ErrNotAFolder)
      else (case ref_lookup T P i part of
              None \<Rightarrow> Inl (ResErr ErrFileNotFound)
            | Some j \<Rightarrow>
                if pt_symlink P j \<and> (parts \<noteq> [] \<or> final)
                then (case ref_follow T P i j depth of Inl e \<Rightarrow> Inl e | Inr k \<Rightarrow> ref_walk T P k parts final depth)
                else ref_walk T P j parts final depth))"
| "ref_follow T P i j depth =
     (if depth + 1 > maxSymlinkDepth then Inl ErrSymlinkLoop
      else let target = pt_target P j
           in if target \<noteq> [] \<and> hd target = CHR ''/''
              then (case pt_root P of None \<Rightarrow> Inl (ResErr ErrFileNotFound)
                                    | Some root \<Rightarrow> ref_walk T P root (pathComponents target) True (depth + 1))
              else ref_walk T P i (pathComponents target) True (depth + 1))"
  by pat_completeness auto

termination
  by (relation "measures [\<lambda>x. case x of Inl (_, _, _, _, _, d) \<Rightarrow> Suc maxSymlinkDepth - d | Inr (_, _, _, _, d) \<Rightarrow> Suc maxSymlinkDepth - d,
      \<lambda>x. case x of Inl (_, _, _, ps, _) \<Rightarrow> length ps | Inr _ \<Rightarrow> 0]") auto

declare ref_walk.simps(2) [simp del] ref_follow.simps [simp del]

section \<open>A client that sees the tree\<close>

text \<open>A file's metadata is the tree's, or still to be fetched.\<close>

definition xattr_known :: "pathTree \<Rightarrow> protonLink \<Rightarrow> bool \<Rightarrow> bool" where
  "xattr_known P p fetched \<longleftrightarrow> (pl_Type p = LinkTypeFile \<longrightarrow>
     (\<exists>rv. fetchable p = Some rv \<and> rv_SignatureEmail rv = pt_signer P \<and>
        (rv_XAttr rv = pt_xattr P (pl_LinkID p) \<or> rv_XAttr rv = [] \<and> \<not> fetched)))"

definition raw_fits :: "pathTree \<Rightarrow> protonLink \<Rightarrow> bool \<Rightarrow> bool" where
  "raw_fits P p fetched \<longleftrightarrow> link_IsTrashed p = pt_trashed P (pl_LinkID p) \<and> xattr_known P p fetched"

text \<open>The share keeps no metadata, so every lookup asks the service.\<close>

definition path_link :: "('dv, 'h, 'kr) driveEnv \<Rightarrow> 'kr driveTree \<Rightarrow> pathTree \<Rightarrow> ('dv, 'h, 'kr) Client \<Rightarrow> lref \<Rightarrow> bool" where
  "path_link E T P c r \<longleftrightarrow> link_sees E T c r \<and> raw_fits P (l_protonLink (lnk c r)) (l_fetchDone (lnk c r)) \<and>
     \<not> caches_metadata (lnk c r) \<and> l_cachedChildIDs (lnk c r) = None \<and>
     (case l_parentLink (lnk c r) of None \<Rightarrow> pt_parent P (lid c r) = lid c r | Some p \<Rightarrow> lid c p = pt_parent P (lid c r))"

definition paths_ok :: "('dv, 'h, 'kr) driveEnv \<Rightarrow> 'kr driveTree \<Rightarrow> pathTree \<Rightarrow> ('dv, 'h, 'kr) Client \<Rightarrow> bool" where
  "paths_ok E T P c \<longleftrightarrow> good E c \<and> table_ok c \<and> holds_keys T c \<and> (\<forall>r < length (dc_heap c). path_link E T P c r)"

text \<open>The service answers for the metadata too, and no two children that are not in the trash share a name.\<close>

definition says_symlink :: "('dv, 'h, 'kr) driveEnv \<Rightarrow> revisionXAttr \<Rightarrow> bool" where
  "says_symlink E x = (case posixFromXAttr (de_UnmarshalPosix E) (Some x) of Some pfs \<Rightarrow> px_Symlink pfs | None \<Rightarrow> False)"

definition unique_names :: "'kr driveTree \<Rightarrow> pathTree \<Rightarrow> bool" where
  "unique_names T P \<longleftrightarrow>
     (\<forall>i. \<forall>j \<in> pl_LinkID ` set (dt_K T i). \<forall>k \<in> pl_LinkID ` set (dt_K T i).
        \<not> pt_trashed P j \<and> \<not> pt_trashed P k \<and> dt_NM T j = dt_NM T k \<longrightarrow> j = k)"

definition serves_paths :: "('dv, 'h, 'kr) driveEnv \<Rightarrow> 'kr driveTree \<Rightarrow> pathTree \<Rightarrow> bool" where
  "serves_paths E T P \<longleftrightarrow> serves_tree E T \<and>
     (\<forall>i. \<forall>p \<in> set (dt_K T i). pt_parent P (pl_LinkID p) = i \<and> raw_fits P p False) \<and>
     (\<forall>s i v h. \<exists>n h'. de_GetRevision E s i v h = (Inr (pt_xattr P i, n), h')) \<and> (\<forall>i. pt_xattr P i \<noteq> []) \<and>
     (\<exists>akr. (\<forall>c :: ('dv, 'h, 'kr) Client. holds_keys T c \<longrightarrow> address_keyring c (pt_signer P) = Some akr) \<and>
        (\<forall>i. \<exists>x. de_DecXAttr E (pt_xattr P i) akr (dt_KR T i) = Inr (Some x) \<and> says_symlink E x = pt_symlink P i)) \<and>
     (\<forall>i. dt_TY T i \<noteq> LinkTypeFile \<longrightarrow> \<not> pt_symlink P i) \<and>
     unique_names T P"

lemma serves_pathsD:
  assumes "serves_paths E T P"
  shows "serves_tree E T" "p \<in> set (dt_K T i) \<Longrightarrow> pt_parent P (pl_LinkID p) = i \<and> raw_fits P p False"
    "\<exists>n h'. de_GetRevision E s i v h = (Inr (pt_xattr P i, n), h')" "pt_xattr P i \<noteq> []"
    "dt_TY T i \<noteq> LinkTypeFile \<Longrightarrow> \<not> pt_symlink P i" "unique_names T P"
  using assms unfolding serves_paths_def by simp_all

lemma serves_paths_names:
  assumes "serves_paths E T P" "j \<in> pl_LinkID ` set (dt_K T i)" "k \<in> pl_LinkID ` set (dt_K T i)"
    "\<not> pt_trashed P j" "\<not> pt_trashed P k" "dt_NM T j = dt_NM T k"
  shows "j = k"
  using serves_pathsD(6)[OF assms(1)] assms(2-) unfolding unique_names_def by blast

lemma paths_okD:
  assumes "paths_ok E T P c"
  shows "good E c" "table_ok c" "holds_keys T c" "r < length (dc_heap c) \<Longrightarrow> path_link E T P c r" "parents_ok c"
  using assms by (simp_all add: paths_ok_def good_def)

text \<open>Steps that change neither the raw links nor the listings.\<close>

definition raw_same :: "('dv, 'h, 'kr) Client \<Rightarrow> ('dv, 'h, 'kr) Client \<Rightarrow> bool" where
  "raw_same c c' \<longleftrightarrow> dc_linkTable c' = dc_linkTable c \<and> length (dc_heap c') = length (dc_heap c) \<and>
     (\<forall>t < length (dc_heap c). l_protonLink (lnk c' t) = l_protonLink (lnk c t) \<and> l_fetchDone (lnk c' t) = l_fetchDone (lnk c t) \<and>
        l_cachedChildIDs (lnk c' t) = l_cachedChildIDs (lnk c t))"

lemma static_levels:
  assumes "static_le c c'" "r < length (dc_heap c)"
  shows "caches_metadata (lnk c' r) = caches_metadata (lnk c r)"
  using static_link[OF assms] by (simp add: caches_metadata_def)

lemma path_link_le:
  assumes "static_le c c'" "parents_ok c" "r < length (dc_heap c)"
    and "raw_fits P (l_protonLink (lnk c' r)) (l_fetchDone (lnk c' r))" "l_cachedChildIDs (lnk c' r) = l_cachedChildIDs (lnk c r)"
    and "path_link E T P c r"
  shows "path_link E T P c' r"
proof -
  have "lid c' p = lid c p" if "l_parentLink (lnk c r) = Some p" for p
  proof -
    have "p < length (dc_heap c)" using assms(2,3) that by (auto simp: parents_ok_def intro: less_trans)
    then show ?thesis using static_link[OF assms(1)] by simp
  qed
  then show ?thesis
    using assms(4-6) static_link[OF assms(1,3)] static_levels[OF assms(1,3)] link_sees_le[OF assms(1-3)]
    by (auto simp: path_link_def split: option.splits)
qed

lemma paths_ok_raw:
  assumes "paths_ok E T P c" "static_eq c c'" "good E c'" "raw_same c c'"
  shows "paths_ok E T P c'"
proof -
  note le = static_eq_le[OF assms(2)]
  have "path_link E T P c' r" if "r < length (dc_heap c)" for r
    by (rule path_link_le[OF le paths_okD(5)[OF assms(1)] that])
      (use paths_okD(4)[OF assms(1) that] assms(4) that in \<open>simp_all add: path_link_def raw_same_def\<close>)
  moreover have "table_ok c'" using paths_okD(2)[OF assms(1)] assms(4) by (simp add: table_ok_def raw_same_def)
  moreover have "holds_keys T c'" using paths_okD(3)[OF assms(1)] assms(2) by (simp add: holds_keys_def static_eq_def)
  ultimately show ?thesis using assms(3,4) by (simp add: paths_ok_def raw_same_def)
qed

lemma keys_only_raw: "keys_only c c' \<Longrightarrow> raw_same c c'"
proof -
  assume k: "keys_only c c'"
  have "l_protonLink (lnk c' t) = l_protonLink (lnk c t) \<and> l_fetchDone (lnk c' t) = l_fetchDone (lnk c t) \<and>
      l_cachedChildIDs (lnk c' t) = l_cachedChildIDs (lnk c t)" if "t < length (dc_heap c)" for t
  proof -
    have "lnk c' t = (lnk c t)\<lparr>l_cachedKeyRing := l_cachedKeyRing (lnk c' t)\<rparr>" using k that by (simp add: keys_only_def)
    from arg_cong[OF this, of l_protonLink] arg_cong[OF this, of l_fetchDone] arg_cong[OF this, of l_cachedChildIDs]
    show ?thesis by simp
  qed
  then show "raw_same c c'" using k by (simp add: keys_only_def raw_same_def)
qed

lemma raw_same_trans: "raw_same c c' \<Longrightarrow> raw_same c' c'' \<Longrightarrow> raw_same c c''"
  by (simp add: raw_same_def)

lemma raw_same_refl [simp]: "raw_same c c" by (simp add: raw_same_def)

lemma Name_raw:
  assumes "good E c" "r < length (dc_heap c)" "link_Name E r c = (res, c')"
  shows "raw_same c c'"
proof -
  obtain q c1 where q: "getParentKeyRing E r c = (q, c1)" by force
  have k: "raw_same c c1"
  proof (cases "l_parentLink (lnk c r)")
    case None
    then show ?thesis using q by (auto simp: getParentKeyRing_def split: option.splits)
  next
    case (Some p)
    with q KeyRing_spec(3)[OF assms(1), of p q c1] good_cachedD(3)[OF assms(1,2) Some] assms(2) show ?thesis
      by (simp add: getParentKeyRing_def keys_only_raw)
  qed
  have "raw_same c1 (upd_link r (\<lambda>l. l\<lparr>l_cachedName := n\<rparr>) c1)" for n by (simp add: raw_same_def)
  from k raw_same_trans[OF k this] show ?thesis
    using assms(3) q by (auto simp: link_Name_def split: if_splits sum.splits)
qed

lemma Name_paths:
  assumes "paths_ok E T P c" "r < length (dc_heap c)" "link_Name E r c = (res, c')"
  shows "paths_ok E T P c'" "grows E c c'" "res = Inr (dt_NM T (lid c r))"
proof -
  note g = paths_okD(1,2)[OF assms(1)]
  note nm = Name_grows[OF g assms(2,3)]
  have st: "static_eq c c'" using Name_spec[OF g(1) assms(2,3)] by (simp add: acc_step_def)
  show "paths_ok E T P c'" by (rule paths_ok_raw[OF assms(1) st growsD(1)[OF nm(2)] Name_raw[OF g(1) assms(2,3)]])
  show "grows E c c'" by (rule nm(2))
  show "res = Inr (dt_NM T (lid c r))"
    using nm(1) paths_okD(4)[OF assms(1,2)] by (simp add: path_link_def link_sees_def del: pure_keyring.simps)
qed

lemma NewChildLink_paths:
  assumes s: "paths_ok E T P c" and E: "serves_paths E T P" and r: "r < length (dc_heap c)" and p: "p \<in> set (dt_K T (lid c r))"
    and run: "NewChildLink E r p c = (t, c')"
  shows "paths_ok E T P c'"
proof (cases "map_of (dc_linkTable c) (pl_LinkID p)")
  case (Some e)
  then show ?thesis using run s by (simp add: NewChildLink_def)
next
  case None
  note n = NewChildLink_new[OF None run]
  note g = NewChildLink_grows[OF paths_okD(1,2)[OF s] r run]
  note le = growsD(3)[OF g(1)]
  have "link_sees E T c u" if "u < length (dc_heap c)" for u using paths_okD(4)[OF s that] by (simp add: path_link_def)
  then have ls: "link_sees E T c' u" if "u < length (dc_heap c')" for u
    using link_sees_new[OF paths_okD(1,2,3)[OF s] _ serves_pathsD(1)[OF E] r p run] that by blast
  have old: "path_link E T P c' u" if "u < length (dc_heap c)" for u
    by (rule path_link_le[OF le paths_okD(5)[OF s] that])
      (use paths_okD(4)[OF s that] that n(2) in \<open>simp_all add: path_link_def nth_append\<close>)
  have "lid c' r = pt_parent P (pl_LinkID p)" using serves_pathsD(2)[OF E p] grows_link(3)[OF g(1) r] by simp
  then have "path_link E T P c' t"
    using ls[OF g(3)] serves_pathsD(2)[OF E p] n(1,2) paths_okD(4)[OF s r]
    by (simp add: path_link_def NewLink_def caches_metadata_def)
  then have "path_link E T P c' u" if "u < length (dc_heap c')" for u
    using that old n(1,2) by (cases "u = t") auto
  moreover have "holds_keys T c'" using paths_okD(3)[OF s] le by (simp add: holds_keys_def static_le_def)
  ultimately show ?thesis using growsD(1,2)[OF g(1)] by (simp add: paths_ok_def)
qed

lemma build_paths:
  assumes E: "serves_paths E T P"
  shows "paths_ok E T P c \<Longrightarrow> r < length (dc_heap c) \<Longrightarrow> set ps \<subseteq> set (dt_K T (lid c r)) \<Longrightarrow> build_children E r ps c = (ts, c') \<Longrightarrow> paths_ok E T P c'"
proof (induction ps arbitrary: c ts)
  case (Cons p ps)
  obtain t c1 where t: "NewChildLink E r p c = (t, c1)" by force
  obtain ts' where ts: "build_children E r ps c1 = (ts', c')" using Cons.prems(4) t by (auto split: prod.splits)
  note g = NewChildLink_grows(1)[OF paths_okD(1,2)[OF Cons.prems(1)] Cons.prems(2) t]
  have s1: "paths_ok E T P c1" by (rule NewChildLink_paths[OF Cons.prems(1) E Cons.prems(2) _ t]) (use Cons.prems(3) in simp)
  have "r < length (dc_heap c1)" "lid c1 r = lid c r" using growsD(4)[OF g] Cons.prems(2) grows_link(3)[OF g Cons.prems(2)] by simp_all
  then show ?case using Cons.IH[OF s1 _ _ ts] Cons.prems(3) by simp
qed simp

lemma lookup_stream_paths:
  assumes E: "serves_paths E T P"
  shows "paths_ok E T P c \<Longrightarrow> r < length (dc_heap c) \<Longrightarrow> set ps \<subseteq> set (dt_K T (lid c r)) \<Longrightarrow>
    lookup_stream E r name extra ps c = (res, c') \<Longrightarrow> paths_ok E T P c'"
proof (induction ps arbitrary: c)
  case (Cons p ps)
  obtain t c1 where t: "NewChildLink E r p c = (t, c1)" by force
  note b = NewChildLink_grows[OF paths_okD(1,2)[OF Cons.prems(1)] Cons.prems(2) t]
  have s1: "paths_ok E T P c1" by (rule NewChildLink_paths[OF Cons.prems(1) E Cons.prems(2) _ t]) (use Cons.prems(3) in simp)
  obtain n c2 where n: "link_Name E t c1 = (n, c2)" by force
  note nm = Name_paths[OF s1 b(3) n]
  have g: "grows E c c2" by (rule grows_trans[OF b(1) nm(2)])
  have r1: "r < length (dc_heap c1)" "lid c1 r = lid c r" using growsD(4)[OF b(1)] Cons.prems(2) grows_link(3)[OF b(1) Cons.prems(2)] by simp_all
  have r2: "r < length (dc_heap c2)" "lid c2 r = lid c r" using growsD(4)[OF g] Cons.prems(2) grows_link(3)[OF g Cons.prems(2)] by simp_all
  have ps: "set ps \<subseteq> set (dt_K T (lid c1 r))" "set ps \<subseteq> set (dt_K T (lid c2 r))" using Cons.prems(3) r1(2) r2(2) by simp_all
  have tk: "set (take extra ps) \<subseteq> set (dt_K T (lid c2 r))" using ps(2) set_take_subset by fast
  obtain ts d where d: "build_children E r (take extra ps) c2 = (ts, d)" by force
  note fin = build_paths[OF E nm(1) r2(1) tk d] and i1 = Cons.IH[OF s1 r1(1) ps(1)] and i2 = Cons.IH[OF nm(1) r2(1) ps(2)]
  show ?case using Cons.prems(4) t n d fin i1 i2 by (auto split: if_splits sum.splits)
qed simp

lemma find_unique:
  assumes "j \<in> set js" "Q j" "\<And>k. k \<in> set js \<Longrightarrow> Q k \<Longrightarrow> k = j"
  shows "find Q js = Some j"
  using assms
proof (induction js)
  case (Cons k ks)
  show ?case
  proof (cases "Q k")
    case True
    then show ?thesis using Cons.prems(3)[of k] by simp
  next
    case False
    then have "j \<in> set ks" using Cons.prems(1,2) by auto
    then show ?thesis using False Cons.IH[OF _ Cons.prems(2)] Cons.prems(3) by simp
  qed
qed simp

text \<open>A lookup is the tree's lookup.\<close>

lemma Lookup_paths:
  assumes s: "paths_ok E T P c" and E: "serves_paths E T P" and ord: "is_order ord" and r: "r < length (dc_heap c)"
    and name: "name \<noteq> ''.''" "name \<noteq> ''..''" and run: "link_Lookup E ord extra r name c = (res, c')"
  shows "paths_ok E T P c'" "static_le c c'"
    "\<exists>t. res = Inr t \<and> map_option (lid c') t = ref_lookup T P (lid c r) name \<and> (\<forall>u. t = Some u \<longrightarrow> u < length (dc_heap c'))"
proof -
  let ?K = "dt_K T (lid c r)"
  note pl = paths_okD(4)[OF s r]
  have uc: "l_cachedChildIDs (lnk c r) = None" "\<not> caches_metadata (lnk c r)" "l_share (lnk c r) \<noteq> None"
    using pl by (simp_all add: path_link_def link_sees_def)
  obtain ps c1 where lc: "list_children E r c = (Inr ps, c1)"
    using list_children_answers[OF serves_pathsD(1)[OF E] uc(3)] by blast
  have ps: "ps = ?K" and "\<exists>h. c1 = set_net h c"
    using lc uc servesD[OF serves_tree_serves[OF serves_pathsD(1)[OF E]]]
    by (auto simp: list_children_def split: option.splits sum.splits prod.splits)
  then obtain h where c1: "c1 = set_net h c" by blast
  have st: "static_eq c c1" unfolding c1 by (simp add: static_eq_def same_static_def)
  have "acc_step E c c1" using paths_okD(1)[OF s] unfolding c1 by simp
  then have s1: "paths_ok E T P c1" by (rule paths_ok_raw[OF s st acc_stepD(1)]) (simp add: c1 raw_same_def)
  have r1: "r < length (dc_heap c1)" "lid c1 r = lid c r" using r c1 by simp_all
  obtain o' where ls: "lookup_stream E r name extra (in_order ord ps) c1 = (o', c')" and res: "res = Inr o'"
    using run name uc(1) lc by (cases "lookup_stream E r name extra (in_order ord ps) c1") (auto simp: link_Lookup_def)
  have set: "set (in_order ord ps) = set ?K" using mset_in_order[OF ord, of ps] ps by (metis set_mset_mset)
  show s': "paths_ok E T P c'" by (rule lookup_stream_paths[OF E s1 r1(1) _ ls]) (simp add: set r1)
  note ok = lookup_stream_ok[OF paths_okD(1,2)[OF s1] r1(1) name ls]
  then have g: "grows E c1 c'" by blast
  show le: "static_le c c'" by (rule static_le_trans[OF static_eq_le[OF st] growsD(3)[OF g]])
  have an: "answers E c' name u \<longleftrightarrow> \<not> pt_trashed P (lid c' u) \<and> dt_NM T (lid c' u) = name" if "u < length (dc_heap c')" for u
    using paths_okD(4)[OF s' that] by (auto simp: path_link_def link_sees_def raw_fits_def answers_def simp del: pure_keyring.simps)
  have tb: "u < length (dc_heap c') \<and> lid c' u = j" if "client_GetLink c' j = Some u" for u j
    using paths_okD(2)[OF s'] that by (simp add: table_ok_def client_GetLink_def)
  have "map_option (lid c') o' = ref_lookup T P (lid c r) name \<and> (\<forall>u. o' = Some u \<longrightarrow> u < length (dc_heap c'))"
  proof (cases o')
    case None
    have "\<not> (\<not> pt_trashed P (pl_LinkID p) \<and> dt_NM T (pl_LinkID p) = name)" if p: "p \<in> set ?K" for p
    proof -
      obtain u where "client_GetLink c' (pl_LinkID p) = Some u" "\<not> answers E c' name u"
        using ok p unfolding set None by auto
      then show ?thesis using an tb by fastforce
    qed
    then have "ref_lookup T P (lid c r) name = None" by (auto simp: ref_lookup_def find_None_iff)
    then show ?thesis using None by simp
  next
    case (Some u)
    obtain p where p: "p \<in> set ?K" "client_GetLink c' (pl_LinkID p) = Some u" "answers E c' name u"
      using ok unfolding set Some by auto
    then have u: "u < length (dc_heap c')" "lid c' u = pl_LinkID p" using tb by auto
    with an p(3) have q: "\<not> pt_trashed P (pl_LinkID p)" "dt_NM T (pl_LinkID p) = name" by auto
    have "ref_lookup T P (lid c r) name = Some (pl_LinkID p)"
      unfolding ref_lookup_def by (rule find_unique) (use p(1) q serves_paths_names[OF E] in auto)
    then show ?thesis using Some u by simp
  qed
  then show "\<exists>t. res = Inr t \<and> map_option (lid c') t = ref_lookup T P (lid c r) name \<and> (\<forall>u. t = Some u \<longrightarrow> u < length (dc_heap c'))"
    using res by blast
qed

section \<open>Whether a link is a symlink\<close>

lemma fetchable_revised:
  "fetchable p = Some rv \<Longrightarrow> fetchable (set_revision x n p) = Some (rv\<lparr>rv_XAttr := x, rv_Size := n\<rparr>)"
  by (auto simp: fetchable_def set_revision_def split: if_splits option.splits)

lemma fetchable_active: "fetchable p = Some rv \<Longrightarrow> pl_ActiveRevision p = Some rv \<and> pl_Type p = LinkTypeFile"
  by (auto simp: fetchable_def split: if_splits option.splits)

text \<open>After the fetch gate the metadata of a file is the tree's.\<close>

lemma ensure_paths:
  assumes s: "paths_ok E T P c" and E: "serves_paths E T P" and t: "t < length (dc_heap c)"
    and ty: "pl_Type (l_protonLink (lnk c t)) = LinkTypeFile"
  shows "paths_ok E T P (ensureXAttr E t c)"
    "\<exists>rv. fetchable (l_protonLink (lnk (ensureXAttr E t c) t)) = Some rv \<and> rv_XAttr rv = pt_xattr P (lid c t) \<and> rv_SignatureEmail rv = pt_signer P"
proof -
  let ?p = "l_protonLink (lnk c t)"
  note pl = paths_okD(4)[OF s t]
  obtain rv where rv: "fetchable ?p = Some rv" "rv_SignatureEmail rv = pt_signer P"
    "rv_XAttr rv = pt_xattr P (lid c t) \<or> rv_XAttr rv = [] \<and> \<not> l_fetchDone (lnk c t)"
    using pl ty by (auto simp: path_link_def raw_fits_def xattr_known_def)
  obtain sh where sh: "l_share (lnk c t) = Some sh" using pl by (auto simp: path_link_def link_sees_def)
  have xa: "pt_xattr P (lid c t) \<noteq> []" by (rule serves_pathsD(4)[OF E])
  have goal: "paths_ok E T P (ensureXAttr E t c) \<and>
    (\<exists>rv. fetchable (l_protonLink (lnk (ensureXAttr E t c) t)) = Some rv \<and> rv_XAttr rv = pt_xattr P (lid c t) \<and> rv_SignatureEmail rv = pt_signer P)"
  proof (cases "l_fetchDone (lnk c t) \<or> rv_XAttr rv \<noteq> []")
    case True
    then have "ensureXAttr E t c = c" using rv(1) by (auto simp: ensureXAttr_def)
    then show ?thesis using s rv True by auto
  next
    case False
    obtain n h where gr: "de_GetRevision E (sh_ShareID sh) (lid c t) (rv_ID rv) (bs_net (dc_store c)) = (Inr (pt_xattr P (lid c t), n), h)"
      using serves_pathsD(3)[OF E] by blast
    let ?q = "set_revision (pt_xattr P (lid c t)) n ?p"
    let ?c1 = "upd_link t (\<lambda>l. l\<lparr>l_protonLink := ?q\<rparr>) (set_net h c)"
    have f: "FetchRevisionXAttr E t c = ?c1" using rv(1) False sh gr by (simp add: FetchRevisionXAttr_def Let_def)
    have q: "fetchable ?q = Some (rv\<lparr>rv_XAttr := pt_xattr P (lid c t), rv_Size := n\<rparr>)" by (rule fetchable_revised[OF rv(1)])
    then have "revision_XAttr ?q = pt_xattr P (lid c t)" using fetchable_active by (fastforce simp: revision_XAttr_def)
    then have ens: "ensureXAttr E t c = upd_link t (\<lambda>l. l\<lparr>l_fetchDone := True\<rparr>) ?c1"
      using rv(1) False f t xa by (simp add: ensureXAttr_def Let_def)
    have step: "acc_step E c (ensureXAttr E t c)" by (rule ensure_step[OF paths_okD(1)[OF s] t])
    note le = static_eq_le[OF acc_stepD(2)[OF step]]
    have at: "l_protonLink (lnk (ensureXAttr E t c) t) = ?q" "l_fetchDone (lnk (ensureXAttr E t c) t)"
      "l_cachedChildIDs (lnk (ensureXAttr E t c) t) = l_cachedChildIDs (lnk c t)" using ens t by simp_all
    have other: "lnk (ensureXAttr E t c) u = lnk c u" if "u \<noteq> t" for u using ens that by simp
    have "path_link E T P (ensureXAttr E t c) u" if u: "u < length (dc_heap c)" for u
    proof (rule path_link_le[OF le paths_okD(5)[OF s] u])
      have "raw_fits P ?q True" using pl q rv(2) fetchable_active[OF q]
        by (auto simp: path_link_def raw_fits_def xattr_known_def link_IsTrashed_def set_revision_def)
      then show "raw_fits P (l_protonLink (lnk (ensureXAttr E t c) u)) (l_fetchDone (lnk (ensureXAttr E t c) u))"
        using at other paths_okD(4)[OF s u] by (cases "u = t") (simp_all add: path_link_def)
      show "l_cachedChildIDs (lnk (ensureXAttr E t c) u) = l_cachedChildIDs (lnk c u)" using at(3) other by (cases "u = t") simp_all
    qed (rule paths_okD(4)[OF s u])
    moreover have "table_ok (ensureXAttr E t c)"
      using paths_okD(2)[OF s] acc_stepD(3)[OF step] static_link[OF le] ens by (simp add: table_ok_def)
    moreover have "holds_keys T (ensureXAttr E t c)" using paths_okD(3)[OF s] le by (simp add: holds_keys_def static_le_def)
    ultimately have "paths_ok E T P (ensureXAttr E t c)" using acc_stepD(1,3)[OF step] by (simp add: paths_ok_def)
    then show ?thesis using at(1) q rv(2) by simp
  qed
  then show "paths_ok E T P (ensureXAttr E t c)"
    "\<exists>rv. fetchable (l_protonLink (lnk (ensureXAttr E t c) t)) = Some rv \<and> rv_XAttr rv = pt_xattr P (lid c t) \<and> rv_SignatureEmail rv = pt_signer P"
    by simp_all
qed

lemma IsSymlink_paths:
  assumes s: "paths_ok E T P c" and E: "serves_paths E T P" and t: "t < length (dc_heap c)" and run: "link_IsSymlink E t c = (b, c')"
  shows "paths_ok E T P c' \<and> static_le c c' \<and> b = pt_symlink P (lid c t)"
proof (cases "pl_Type (l_protonLink (lnk c t)) = LinkTypeFile")
  case False
  have "dt_TY T (lid c t) \<noteq> LinkTypeFile" using False paths_okD(4)[OF s t] by (simp add: path_link_def link_sees_def)
  then show ?thesis using run False s serves_pathsD(5)[OF E] by (auto simp: link_IsSymlink_def)
next
  case True
  let ?c1 = "ensureXAttr E t c"
  note en = ensure_paths[OF s E t True]
  have step: "acc_step E c ?c1" by (rule ensure_step[OF paths_okD(1)[OF s] t])
  have t1: "t < length (dc_heap ?c1)" "lid ?c1 t = lid c t"
    using acc_stepD(3)[OF step] t static_link[OF static_eq_le[OF acc_stepD(2)[OF step]] t] by simp_all
  obtain kr c2 where k: "link_KeyRing E t ?c1 = (kr, c2)" by force
  note ks = KeyRing_spec[OF paths_okD(1)[OF en(1)] t1(1) k]
  have kr: "kr = Inr (dt_KR T (lid c t))" using ks(1) paths_okD(4)[OF en(1) t1(1)] t1(2)
    by (simp add: path_link_def link_sees_def del: pure_keyring.simps)
  note rs = keys_only_raw[OF ks(3)]
  have s2: "paths_ok E T P c2" by (rule paths_ok_raw[OF en(1) acc_stepD(2)[OF ks(2)] acc_stepD(1)[OF ks(2)] rs])
  obtain rv where rv: "fetchable (l_protonLink (lnk c2 t)) = Some rv" "rv_XAttr rv = pt_xattr P (lid c t)" "rv_SignatureEmail rv = pt_signer P"
    using en(2) rs t1(1) by (auto simp: raw_same_def)
  obtain akr x where akr: "address_keyring c2 (pt_signer P) = Some akr"
    and x: "de_DecXAttr E (pt_xattr P (lid c t)) akr (dt_KR T (lid c t)) = Inr (Some x)" "says_symlink E x = pt_symlink P (lid c t)"
    using E paths_okD(3)[OF s2] unfolding serves_paths_def by metis
  obtain addr where addr: "map_of (dc_addresses c2) (pt_signer P) = Some addr" "map_of (dc_addressKeyRings c2) addr = Some akr"
    using akr by (auto simp: address_keyring_def split: option.splits)
  have "decryptRevisionXAttr E c2 (l_protonLink (lnk c2 t)) (dt_KR T (lid c t)) = Inr (Some x)"
    using fetchable_active[OF rv(1)] rv(2,3) addr x(1) serves_pathsD(4)[OF E] by (simp add: decryptRevisionXAttr_def)
  then have "b = says_symlink E x \<and> c' = c2"
    using run True k kr by (auto simp: link_IsSymlink_def decryptXAttr_def says_symlink_def split: option.splits)
  then show ?thesis
    using s2 x(2) static_le_trans[OF static_eq_le[OF acc_stepD(2)[OF step]] static_eq_le[OF acc_stepD(2)[OF ks(2)]]] by simp
qed

section \<open>Resolution refines the tree's\<close>

text \<open>The reader of targets gives the tree's targets, and the share's root is the tree's.\<close>

definition reads_targets :: "('dv, 'h, 'kr) resolveEnv \<Rightarrow> 'kr driveTree \<Rightarrow> pathTree \<Rightarrow> bool" where
  "reads_targets R T P \<longleftrightarrow>
     (\<forall>c t. paths_ok (re_env R) T P c \<and> t < length (dc_heap c) \<and> pt_symlink P (lid c t) \<longrightarrow>
        (\<exists>c'. re_target R t c = (Inr (pt_target P (lid c t)), c') \<and> paths_ok (re_env R) T P c' \<and> static_le c c'))"

definition root_ok :: "('dv, 'h, 'kr) resolveEnv \<Rightarrow> pathTree \<Rightarrow> ('dv, 'h, 'kr) Client \<Rightarrow> bool" where
  "root_ok R P c \<longleftrightarrow> map_option (lid c) (re_root R) = pt_root P \<and> (\<forall>r. re_root R = Some r \<longrightarrow> r < length (dc_heap c))"

definition resolve_laws :: "('dv, 'h, 'kr) resolveEnv \<Rightarrow> 'kr driveTree \<Rightarrow> pathTree \<Rightarrow> bool" where
  "resolve_laws R T P \<longleftrightarrow> serves_paths (re_env R) T P \<and> is_order (re_order R) \<and> reads_targets R T P"

text \<open>An outcome of the client stands for an outcome on identifiers.\<close>

definition resolves ::
    "('dv, 'h, 'kr) driveEnv \<Rightarrow> 'kr driveTree \<Rightarrow> pathTree \<Rightarrow> ('dv, 'h, 'kr) Client \<Rightarrow> (resolveErr + lref) \<times> ('dv, 'h, 'kr) Client
      \<Rightarrow> resolveErr + string \<Rightarrow> bool" where
  "resolves E T P c out expected \<longleftrightarrow> paths_ok E T P (snd out) \<and> static_le c (snd out) \<and>
     map_sum id (lid (snd out)) (fst out) = expected \<and> (\<forall>r. fst out = Inr r \<longrightarrow> r < length (dc_heap (snd out)))"

lemma resolves_trans: "static_le c c1 \<Longrightarrow> resolves E T P c1 out e \<Longrightarrow> resolves E T P c out e"
  using static_le_trans by (auto simp: resolves_def)

lemma root_ok_le: "root_ok R P c \<Longrightarrow> static_le c c' \<Longrightarrow> root_ok R P c'"
  using static_link[of c c'] static_le_len[of c c'] by (cases "re_root R") (auto simp: root_ok_def)

lemma resolves_stop: "paths_ok E T P c \<Longrightarrow> resolves E T P c (Inl e, c) (Inl e)"
  by (simp add: resolves_def)

lemma parent_paths:
  assumes "paths_ok E T P c" "r < length (dc_heap c)"
  shows "lid c (link_Parent c r) = pt_parent P (lid c r)" "link_Parent c r < length (dc_heap c)"
proof -
  have "p < r" if "l_parentLink (lnk c r) = Some p" for p using paths_okD(5)[OF assms(1)] assms(2) that by (simp add: parents_ok_def)
  then show "lid c (link_Parent c r) = pt_parent P (lid c r)" "link_Parent c r < length (dc_heap c)"
    using paths_okD(4)[OF assms] assms(2) by (auto simp: link_Parent_def path_link_def split: option.splits)
qed

lemma walkParts_resolves:
  assumes laws: "resolve_laws R T P"
    and follow: "\<And>c par sl. paths_ok (re_env R) T P c \<Longrightarrow> root_ok R P c \<Longrightarrow> par < length (dc_heap c) \<Longrightarrow> sl < length (dc_heap c) \<Longrightarrow>
        pt_symlink P (lid c sl) \<Longrightarrow> resolves (re_env R) T P c (followSymlink R par sl d c) (ref_follow T P (lid c par) (lid c sl) d)"
  shows "paths_ok (re_env R) T P c \<Longrightarrow> root_ok R P c \<Longrightarrow> cur < length (dc_heap c) \<Longrightarrow>
    resolves (re_env R) T P c (walkParts R cur parts fin d c) (ref_walk T P (lid c cur) parts fin d)"
proof (induction parts arbitrary: cur c)
  case Nil
  then show ?case by (simp add: resolves_def)
next
  case (Cons part parts)
  note s = Cons.prems(1) and root = Cons.prems(2) and cur = Cons.prems(3)
  have E: "serves_paths (re_env R) T P" and ord: "is_order (re_order R)" using laws by (simp_all add: resolve_laws_def)
  have ty: "is_folder c cur \<longleftrightarrow> dt_TY T (lid c cur) = LinkTypeFolder"
    using paths_okD(4)[OF s cur] link_sees_type unfolding path_link_def by blast
  note ref = ref_walk.simps(2)[of T P "lid c cur" part parts fin d] and run = walkParts.simps(2)[of R cur part parts fin d c]
  consider "part = [] \<or> part = ''.''" | "part = ''..''" | "part \<notin> {[], ''.'', ''..''}" "\<not> is_folder c cur"
    | "part \<notin> {[], ''.'', ''..''}" "is_folder c cur" by auto
  then show ?case
  proof cases
    case 1
    then show ?thesis unfolding ref run using Cons.IH[OF s root cur] by simp
  next
    case 2
    then show ?thesis unfolding ref run using Cons.IH[OF s root parent_paths(2)[OF s cur]] parent_paths(1)[OF s cur] by simp
  next
    case 3
    then show ?thesis unfolding ref run using ty s by (simp add: resolves_def)
  next
    case 4
    obtain o' c1 where l: "link_Lookup (re_env R) (re_order R) (re_extra R) cur part c = (o', c1)" by force
    have nm: "part \<noteq> ''.''" "part \<noteq> ''..''" using 4 by simp_all
    note lk = Lookup_paths[OF s E ord cur nm l]
    obtain t where t: "o' = Inr t" "map_option (lid c1) t = ref_lookup T P (lid c cur) part" "\<forall>u. t = Some u \<longrightarrow> u < length (dc_heap c1)"
      using lk(3) by blast
    note root1 = root_ok_le[OF root lk(2)]
    show ?thesis
    proof (cases t)
      case None
      then show ?thesis unfolding ref run using 4 ty l t lk(1,2) by (auto simp: resolves_def)
    next
      case (Some child)
      have ch: "child < length (dc_heap c1)" using t(3) Some by simp
      obtain b c2 where b: "link_IsSymlink (re_env R) child c1 = (b, c2)" by force
      from IsSymlink_paths[OF lk(1) E ch b] have s2: "paths_ok (re_env R) T P c2" and le2: "static_le c1 c2" and bv: "b = pt_symlink P (lid c1 child)"
        by simp_all
      note le = static_le_trans[OF lk(2) le2] and root2 = root_ok_le[OF root1 le2]
      have ch2: "child < length (dc_heap c2)" "lid c2 child = lid c1 child" using static_le_len[OF le2 ch] static_link[OF le2 ch] by simp_all
      have cur2: "cur < length (dc_heap c2)" "lid c2 cur = lid c cur" using static_le_len[OF le cur] static_link[OF le cur] by simp_all
      have rl: "ref_lookup T P (lid c cur) part = Some (lid c1 child)" using t(2) Some by simp
      show ?thesis
      proof (cases "b \<and> (parts \<noteq> [] \<or> fin)")
        case False
        have "resolves (re_env R) T P c2 (walkParts R child parts fin d c2) (ref_walk T P (lid c2 child) parts fin d)"
          by (rule Cons.IH[OF s2 root2 ch2(1)])
        from resolves_trans[OF le this] show ?thesis
          unfolding ref run using 4 ty l t(1) Some b bv rl ch2(2) False by auto
      next
        case True
        have sl: "pt_symlink P (lid c2 child)" using True bv ch2(2) by simp
        obtain fr c3 where f: "followSymlink R cur child d c2 = (fr, c3)" by force
        note fo = follow[OF s2 root2 cur2(1) ch2(1) sl, unfolded f resolves_def fst_conv snd_conv]
        then have s3: "paths_ok (re_env R) T P c3" and le3: "static_le c2 c3" and fe: "map_sum id (lid c3) fr = ref_follow T P (lid c cur) (lid c1 child) d"
          using cur2(2) ch2(2) by simp_all
        note root3 = root_ok_le[OF root2 le3] and le' = static_le_trans[OF le le3]
        show ?thesis
        proof (cases fr)
          case (Inl e)
          then have "ref_follow T P (lid c cur) (lid c1 child) d = Inl e" using fe by simp
          then show ?thesis unfolding ref run using 4 ty l t(1) Some b bv rl True f Inl s3 le' by (simp add: resolves_def)
        next
          case (Inr r)
          have r: "r < length (dc_heap c3)" using fo Inr by simp
          have re: "ref_follow T P (lid c cur) (lid c1 child) d = Inr (lid c3 r)" using fe Inr by simp
          have "resolves (re_env R) T P c3 (walkParts R r parts fin d c3) (ref_walk T P (lid c3 r) parts fin d)"
            by (rule Cons.IH[OF s3 root3 r])
          from resolves_trans[OF le' this] show ?thesis
            unfolding ref run using 4 ty l t(1) Some b bv rl True f Inr re by simp
        qed
      qed
    qed
  qed
qed

lemma followSymlink_resolves:
  assumes laws: "resolve_laws R T P"
  shows "paths_ok (re_env R) T P c \<Longrightarrow> root_ok R P c \<Longrightarrow> par < length (dc_heap c) \<Longrightarrow> sl < length (dc_heap c) \<Longrightarrow>
    pt_symlink P (lid c sl) \<Longrightarrow> resolves (re_env R) T P c (followSymlink R par sl d c) (ref_follow T P (lid c par) (lid c sl) d)"
proof (induction "Suc maxSymlinkDepth - d" arbitrary: d par sl c rule: less_induct)
  case less
  note s = less.prems(1) and root = less.prems(2)
  note ref = ref_follow.simps[of T P "lid c par" "lid c sl" d] and run = followSymlink.simps[of R par sl d c]
  show ?case
  proof (cases "d + 1 > maxSymlinkDepth")
    case True
    then show ?thesis unfolding ref run using resolves_stop[OF s] by simp
  next
    case False
    obtain c1 where t: "re_target R sl c = (Inr (pt_target P (lid c sl)), c1)" and s1: "paths_ok (re_env R) T P c1" and le: "static_le c c1"
      using laws s less.prems(4,5) unfolding resolve_laws_def reads_targets_def by blast
    note root1 = root_ok_le[OF root le]
    have par: "par < length (dc_heap c1)" "lid c1 par = lid c par" using static_le_len[OF le less.prems(3)] static_link[OF le less.prems(3)] by simp_all
    have w: "resolves (re_env R) T P c1 (walkParts R x parts True (d + 1) c1) (ref_walk T P (lid c1 x) parts True (d + 1))"
      if "x < length (dc_heap c1)" for x parts
      by (rule walkParts_resolves[OF laws less.hyps s1 root1 that]) (use False in \<open>auto\<close>)
    show ?thesis
    proof (cases "pt_target P (lid c sl) \<noteq> [] \<and> hd (pt_target P (lid c sl)) = CHR ''/''")
      case False
      with resolves_trans[OF le w[OF par(1)]] t \<open>\<not> d + 1 > maxSymlinkDepth\<close> par(2) show ?thesis unfolding ref run by (auto simp: Let_def)
    next
      case True
      show ?thesis
      proof (cases "re_root R")
        case None
        then have "pt_root P = None" using root by (simp add: root_ok_def)
        with None True t \<open>\<not> d + 1 > maxSymlinkDepth\<close> resolves_trans[OF le resolves_stop[OF s1]] show ?thesis unfolding ref run by (simp add: Let_def)
      next
        case (Some r)
        then have r: "r < length (dc_heap c1)" "pt_root P = Some (lid c1 r)" using root1 by (auto simp: root_ok_def)
        with Some True t \<open>\<not> d + 1 > maxSymlinkDepth\<close> resolves_trans[OF le w[OF r(1)]] show ?thesis unfolding ref run by (simp add: Let_def)
      qed
    qed
  qed
qed

section \<open>Properties\<close>


text \<open>A set of names of one folder each of which is a symlink to a name of the set.\<close>

definition symlink_cycle :: "'kr driveTree \<Rightarrow> pathTree \<Rightarrow> string \<Rightarrow> string set \<Rightarrow> bool" where
  "symlink_cycle T P i N \<longleftrightarrow> dt_TY T i = LinkTypeFolder \<and>
     (\<forall>n \<in> N. n \<notin> {[], ''.'', ''..''} \<and> CHR ''/'' \<notin> set n \<and>
        (\<exists>j. ref_lookup T P i n = Some j \<and> pt_symlink P j \<and> pt_target P j \<in> N))"

lemma split_slash_plain: "CHR ''/'' \<notin> set s \<Longrightarrow> split_slash s = [s]"
  by (induction s) auto

lemma pathComponents_plain:
  assumes "CHR ''/'' \<notin> set s" "s \<noteq> []" shows "pathComponents s = [s]"
proof -
  have h: "hd s \<noteq> CHR ''/''" "last s \<noteq> CHR ''/''" using assms hd_in_set[of s] last_in_set[of s] by fastforce+
  obtain a s' where s: "s = a # s'" using assms(2) by (cases s) auto
  have d: "dropWhile (\<lambda>c. c = CHR ''/'') s = s" using h(1) s by simp
  obtain b t where t: "rev s = b # t" using assms(2) by (cases "rev s") auto
  have "b = last s" using t by (metis hd_rev list.sel(1))
  then have e: "dropWhile (\<lambda>c. c = CHR ''/'') (rev s) = rev s" unfolding t using h(2) by simp
  show ?thesis using assms by (simp add: pathComponents_def trim_slashes_def d e split_slash_plain)
qed

lemma ref_cycle:
  assumes "symlink_cycle T P i N"
  shows "n \<in> N \<Longrightarrow> ref_lookup T P i n = Some j \<Longrightarrow> ref_follow T P i j d = Inl ErrSymlinkLoop"
proof (induction "Suc maxSymlinkDepth - d" arbitrary: d n j rule: less_induct)
  case less
  show ?case
  proof (cases "d + 1 > maxSymlinkDepth")
    case True
    then show ?thesis by (simp add: ref_follow.simps)
  next
    case False
    let ?t = "pt_target P j"
    have "\<exists>j'. ref_lookup T P i n = Some j' \<and> pt_symlink P j' \<and> pt_target P j' \<in> N"
      using assms less.prems(1) unfolding symlink_cycle_def by blast
    then have t: "?t \<in> N" using less.prems(2) by simp
    then have tn: "?t \<notin> {[], ''.'', ''..''}" "CHR ''/'' \<notin> set ?t" using assms unfolding symlink_cycle_def by blast+
    obtain k where k: "ref_lookup T P i ?t = Some k" "pt_symlink P k" using assms t unfolding symlink_cycle_def by blast
    have "ref_follow T P i k (d + 1) = Inl ErrSymlinkLoop" by (rule less.hyps[OF _ t k(1)]) (use False in auto)
    moreover have "hd ?t \<noteq> CHR ''/''" using tn hd_in_set[of ?t] by fastforce
    ultimately show ?thesis
      using False tn k assms pathComponents_plain[OF tn(2)]
      by (simp add: ref_follow.simps[of T P i j] ref_walk.simps(2) symlink_cycle_def)
  qed
qed



section \<open>A concrete tree with a symlink\<close>

definition sym_env :: "((string, bytes) gomap, nat, nat) driveEnv" where
  "sym_env = walk_env\<lparr>de_GetRevision := (\<lambda>s i v h. (Inr (if i = ''file='' then ''x'' else ''y'', 3), h + 1)),
     de_DecXAttr := (\<lambda>x a n. Inr (Some \<lparr>rx_Common = \<lparr>xc_ModificationTime = [], xc_Size = 7, xc_BlockSizes = [7]\<rparr>,
        rx_Extra = (if x = ''x'' then [(posixXAttrKey, ''s'')] else [])\<rparr>)),
     de_UnmarshalPosix := (\<lambda>s. Some \<lparr>px_Mode = 0, px_Symlink = True\<rparr>)\<rparr>"

definition sym_paths :: "string \<Rightarrow> pathTree" where
  "sym_paths target = \<lparr>pt_parent = (\<lambda>i. if i = ''sub'' then ''dir'' else ''root''), pt_trashed = (\<lambda>i. False),
     pt_symlink = (\<lambda>i. i = ''file=''), pt_target = (\<lambda>i. target), pt_xattr = (\<lambda>i. if i = ''file='' then ''x'' else ''y''),
     pt_signer = ''a'', pt_root = Some ''root''\<rparr>"

definition sym_resolve :: "string \<Rightarrow> ((string, bytes) gomap, nat, nat) resolveEnv" where
  "sym_resolve target = \<lparr>re_env = sym_env, re_order = (\<lambda>n. [0..<n]), re_extra = 0, re_target = (\<lambda>t c. (Inr target, c)), re_root = Some 0\<rparr>"

definition sym_root :: "((string, bytes) gomap, nat, nat) Client" where
  "sym_root = (NewClient [(''a'', ''A'')] [(''A'', 5)] 0)\<lparr>dc_heap :=
     [NewLink (demo_link ''root'') None (Some (demo_share\<lparr>sh_MemoryCacheLevel := CacheDisabled\<rparr>))]\<rparr>"

lemma sym_serves: "serves_paths sym_env walk_demo (sym_paths target)"
proof -
  have "serves_tree sym_env walk_demo"
    by (auto simp: serves_tree_def sym_env_def walk_env_def walk_demo_def demo_env_def holds_keys_def walk_kids_def demo_link_def
        deriveKeyRing_def decryptName_def address_keyring_def)
  moreover have "unique_names walk_demo (sym_paths target)" by (simp add: unique_names_def walk_demo_def)
  moreover have "pt_parent (sym_paths target) (pl_LinkID p) = i \<and> raw_fits (sym_paths target) p False" if "p \<in> set (walk_kids i)" for i p
    using that by (auto simp: walk_kids_def sym_paths_def raw_fits_def link_IsTrashed_def xattr_known_def fetchable_def
        demo_link_def demo_revision_def split: if_splits)
  ultimately show ?thesis
    by (auto simp: serves_paths_def walk_demo_def sym_paths_def sym_env_def holds_keys_def address_keyring_def says_symlink_def
        posixFromXAttr_def demo_link_def)
qed

lemma sym_ok:
  "resolve_laws (sym_resolve target) walk_demo (sym_paths target)" "paths_ok (re_env (sym_resolve target)) walk_demo (sym_paths target) sym_root"
  "root_ok (sym_resolve target) (sym_paths target) sym_root" "0 < length (dc_heap sym_root)" "lid sym_root 0 = ''root''"
proof -
  have "static_le c c" for c :: "((string, bytes) gomap, nat, nat) Client" by simp
  then show "resolve_laws (sym_resolve target) walk_demo (sym_paths target)"
    using sym_serves demo_tree(3) by (auto simp: resolve_laws_def reads_targets_def sym_resolve_def sym_paths_def)
  have "pure_keyring sym_env sym_root (Suc 0) 0 = Inr 9" "pure_name sym_env sym_root 0 = Inr ''root''" by code_simp+
  then have "link_sees sym_env walk_demo sym_root 0"
    by (simp add: link_sees_def del: pure_keyring.simps) (simp add: walk_demo_def sym_root_def NewLink_def demo_link_def)
  then have "path_link sym_env walk_demo (sym_paths target) sym_root 0"
    by (simp add: path_link_def)
      (simp add: sym_root_def NewLink_def sym_paths_def demo_link_def raw_fits_def link_IsTrashed_def xattr_known_def caches_metadata_def)
  moreover have "good sym_env sym_root" "table_ok sym_root" "holds_keys walk_demo sym_root" "length (dc_heap sym_root) = 1"
    by (simp_all add: good_def parents_ok_def caches_ok_def table_ok_def sym_root_def NewClient_def NewLink_def holds_keys_def walk_demo_def)
  ultimately show "paths_ok (re_env (sym_resolve target)) walk_demo (sym_paths target) sym_root"
    by (simp add: paths_ok_def sym_resolve_def)
  show "root_ok (sym_resolve target) (sym_paths target) sym_root" "0 < length (dc_heap sym_root)" "lid sym_root 0 = ''root''"
    by (simp_all add: root_ok_def sym_resolve_def sym_root_def sym_paths_def NewLink_def demo_link_def)
qed



end
