(* ===== verification/FuseDispatch.thy ===== *)
theory FuseDispatch
  imports GoPrelude
begin

unbundle bit_operations_syntax

text \<open>
  The dispatch layer of the FUSE daemon, \<^verbatim>\<open>internal/fusemount/dispatch.go\<close>, \<^verbatim>\<open>namespace.go\<close>,
  \<^verbatim>\<open>readdir_handle.go\<close> and \<^verbatim>\<open>root.go\<close>: it stands between the kernel and the handlers of the namespaces, lets only
  the owner of the daemon in, and turns a handler's panic into an error.  The handlers are the parameter: what
  a Go type assertion on a handler or node yields is an operation or nothing.
\<close>

section \<open>Results\<close>

text \<open>\<open>OK\<close> is the errno 0.\<close>

datatype errno = OK | EPERM | ENOENT | EINTR | EIO | EBADF | EBUSY | EEXIST | EXDEV | ENOTDIR | EISDIR | EINVAL | ENOTEMPTY
  | Errno nat

text \<open>A call returns or panics; either way the state has moved on.\<close>

datatype 'a outcome = Returns 'a | Panics

type_synonym ('s, 'a) op = "'s \<Rightarrow> 'a outcome \<times> 's"

definition returning :: "'a \<Rightarrow> ('s, 'a) op" where "returning a s = (Returns a, s)"

definition andThen :: "('s, 'a) op \<Rightarrow> ('a \<Rightarrow> ('s, 'b) op) \<Rightarrow> ('s, 'b) op" where
  "andThen m k s = (case m s of (Panics, s1) \<Rightarrow> (Panics, s1) | (Returns a, s1) \<Rightarrow> k a s1)"

text \<open>The deferred \<^verbatim>\<open>recover\<close> of a method with results \<open>v\<close> and an errno.\<close>

definition recovering :: "'v \<Rightarrow> ('s, 'v \<times> errno) op \<Rightarrow> ('s, 'v \<times> errno) op" where
  "recovering v m s = (case m s of (Panics, s1) \<Rightarrow> (Returns (v, EIO), s1) | r \<Rightarrow> r)"

section \<open>Attributes and entries\<close>

record Attr =
  at_Mode :: "32 word"
  at_Size :: "64 word"
  at_Nlink :: "32 word"
  at_Mtime :: "64 word"
  at_Ctime :: "64 word"
  at_Atime :: "64 word"

definition S_IFMT :: "32 word" where "S_IFMT = 0xF000"
definition S_IFDIR :: "32 word" where "S_IFDIR = 0x4000"
definition S_IFREG :: "32 word" where "S_IFREG = 0x8000"
definition S_IFLNK :: "32 word" where "S_IFLNK = 0xA000"

record 'l fuseEntry =
  fe_Name :: string
  fe_Mode :: "32 word"
  fe_Link :: "'l option"

text \<open>What the kernel is told of a child: the attributes with the owner, if they were filled in.\<close>

record EntryOut =
  eo_attr :: Attr
  eo_uid :: "32 word"
  eo_gid :: "32 word"

text \<open>A setattr request of the kernel, read through its accessors; the translated request of the nodes.\<close>

record setAttrIn =
  si_mode :: "32 word option"
  si_chown :: bool                     \<comment> \<open>\<^verbatim>\<open>Valid & (FATTR_UID|FATTR_GID) != 0\<close>\<close>
  si_size :: "64 word option"
  si_mtime :: "int option"

definition SetattrMode :: "32 word" where "SetattrMode = 1"
definition SetattrSize :: "32 word" where "SetattrSize = 8"
definition SetattrMtime :: "32 word" where "SetattrMtime = 16"

record SetattrIn =
  sa_Valid :: "32 word"
  sa_Mode :: "32 word"
  sa_Size :: "64 word"
  sa_Mtime :: "64 word"

definition translate_setattr :: "setAttrIn \<Rightarrow> SetattrIn" where
  "translate_setattr i =
     (let s0 = \<lparr>sa_Valid = 0, sa_Mode = 0, sa_Size = 0, sa_Mtime = 0\<rparr>;
          s1 = (case si_mode i of None \<Rightarrow> s0 | Some m \<Rightarrow> s0\<lparr>sa_Valid := sa_Valid s0 OR SetattrMode, sa_Mode := m\<rparr>);
          s2 = (case si_size i of None \<Rightarrow> s1 | Some z \<Rightarrow> s1\<lparr>sa_Valid := sa_Valid s1 OR SetattrSize, sa_Size := z\<rparr>)
      in case si_mtime i of
           None \<Rightarrow> s2
         | Some t \<Rightarrow> s2\<lparr>sa_Valid := sa_Valid s2 OR SetattrMtime, sa_Mtime := word_of_int (max 0 t)\<rparr>)"

section \<open>Handlers and nodes\<close>

text \<open>The receiver of an operation on a directory: the namespace handler, a node, or a nil interface.\<close>

datatype ('h, 'n) target = Handler 'h | TheNode 'n | NoNode

text \<open>
  The interfaces of \<^verbatim>\<open>namespace.go\<close>.  The methods every handler has come first; the others are those a type
  assertion asks for.
\<close>

record ('s, 'h, 'n, 'f, 'l) interfaces =
  hd_Getattr :: "'h \<Rightarrow> ('s, Attr \<times> errno) op"
  hd_Readdir :: "'h \<Rightarrow> ('s, 'l fuseEntry list \<times> errno) op"
  hd_Lookup :: "'h \<Rightarrow> string \<Rightarrow> ('s, 'n option \<times> errno) op"
  nd_Getattr :: "'n \<Rightarrow> ('s, Attr \<times> errno) op"
  nd_dir :: "'n \<Rightarrow> bool"
  nd_Readdir :: "'n \<Rightarrow> ('s, 'l fuseEntry list \<times> errno) op"
  nd_Lookup :: "'n \<Rightarrow> string \<Rightarrow> ('s, 'n option \<times> errno) op"
  nd_Setattr :: "'n \<Rightarrow> ('f option \<Rightarrow> SetattrIn \<Rightarrow> ('s, errno) op) option"
  nd_Open :: "'n \<Rightarrow> (32 word \<Rightarrow> ('s, 'f option \<times> errno) op) option"
  nd_Read :: "'n \<Rightarrow> ('f option \<Rightarrow> nat \<Rightarrow> int \<Rightarrow> ('s, bytes \<times> errno) op) option"
  nd_Write :: "'n \<Rightarrow> ('f option \<Rightarrow> bytes \<Rightarrow> int \<Rightarrow> ('s, 32 word \<times> errno) op) option"
  nd_Release :: "'n \<Rightarrow> ('f option \<Rightarrow> ('s, errno) op) option"
  nd_Fsync :: "'n \<Rightarrow> ('f option \<Rightarrow> 32 word \<Rightarrow> ('s, errno) op) option"
  nd_Flush :: "'n \<Rightarrow> ('f option \<Rightarrow> ('s, errno) op) option"
  nd_Readlink :: "'n \<Rightarrow> ('s, bytes \<times> errno) op option"
  nd_Forget :: "'n \<Rightarrow> ('s, unit) op option"
  nd_InodeNumber :: "'n \<Rightarrow> 64 word option"
  tg_Create :: "('h, 'n) target \<Rightarrow> (string \<Rightarrow> 32 word \<Rightarrow> 32 word \<Rightarrow> ('s, ('n \<times> 'f option) option \<times> errno) op) option"
  tg_Mkdir :: "('h, 'n) target \<Rightarrow> (string \<Rightarrow> 32 word \<Rightarrow> ('s, 'n option \<times> errno) op) option"
  tg_Unlink :: "('h, 'n) target \<Rightarrow> (string \<Rightarrow> ('s, errno) op) option"
  tg_Rmdir :: "('h, 'n) target \<Rightarrow> (string \<Rightarrow> ('s, errno) op) option"
  tg_Rename :: "('h, 'n) target \<Rightarrow> (string \<Rightarrow> 'n option \<Rightarrow> string \<Rightarrow> ('s, errno) op) option"
  tg_Symlink :: "('h, 'n) target \<Rightarrow> (string \<Rightarrow> string \<Rightarrow> ('s, 'n option \<times> errno) op) option"
  ln_prefetch :: "'l \<Rightarrow> ('s, unit) op option"

record ('h, 'n) DispatchNode =
  dp_handler :: 'h
  dp_node :: "'n option"
  dp_isRoot :: bool
  dp_uid :: "32 word"
  dp_gid :: "32 word"

definition dir_target :: "('h, 'n) DispatchNode \<Rightarrow> ('h, 'n) target" where
  "dir_target d = (if dp_isRoot d then Handler (dp_handler d) else case dp_node d of None \<Rightarrow> NoNode | Some n \<Rightarrow> TheNode n)"

text \<open>The caller's uid, when the request carries one.\<close>

definition checkAccess :: "('h, 'n) DispatchNode \<Rightarrow> 32 word option \<Rightarrow> errno" where
  "checkAccess d caller = (case caller of None \<Rightarrow> OK | Some u \<Rightarrow> if u \<noteq> dp_uid d then EPERM else OK)"

definition gate :: "('h, 'n) DispatchNode \<Rightarrow> 32 word option \<Rightarrow> 'v \<Rightarrow> ('s, 'v \<times> errno) op \<Rightarrow> ('s, 'v \<times> errno) op" where
  "gate d caller v m = (if checkAccess d caller \<noteq> OK then returning (v, checkAccess d caller) else m)"

text \<open>A method whose only result is an errno.\<close>

definition plain :: "('s, errno) op \<Rightarrow> ('s, unit \<times> errno) op" where
  "plain m = andThen m (\<lambda>e. returning ((), e))"

section \<open>Attributes\<close>

definition node_Getattr :: "('s, 'h, 'n, 'f, 'l) interfaces \<Rightarrow> 'n option \<Rightarrow> ('s, Attr \<times> errno) op" where
  "node_Getattr I n = (case n of None \<Rightarrow> (\<lambda>s. (Panics, s)) | Some n \<Rightarrow> nd_Getattr I n)"

definition dispatch_Getattr ::
    "('s, 'h, 'n, 'f, 'l) interfaces \<Rightarrow> ('h, 'n) DispatchNode \<Rightarrow> 32 word option \<Rightarrow> ('s, EntryOut option \<times> errno) op" where
  "dispatch_Getattr I d caller =
     (let m = recovering None
                (andThen (if dp_isRoot d then hd_Getattr I (dp_handler d) else node_Getattr I (dp_node d))
                   (\<lambda>(attr, e). returning (if e \<noteq> OK then (None, e)
                      else (Some \<lparr>eo_attr = attr, eo_uid = dp_uid d, eo_gid = dp_gid d\<rparr>, OK))))
      in if dp_isRoot d then m else gate d caller None m)"

definition dispatch_Setattr ::
    "('s, 'h, 'n, 'f, 'l) interfaces \<Rightarrow> ('h, 'n) DispatchNode \<Rightarrow> 32 word option \<Rightarrow> 'f option \<Rightarrow> setAttrIn \<Rightarrow> ('s, unit \<times> errno) op" where
  "dispatch_Setattr I d caller f i =
     (if dp_isRoot d then returning ((), EPERM)
      else gate d caller ()
        (if si_chown i then returning ((), EPERM)
         else (case dp_node d of
                 None \<Rightarrow> returning ((), OK)
               | Some n \<Rightarrow>
                   (case nd_Setattr I n of
                      None \<Rightarrow> returning ((), OK)
                    | Some setter \<Rightarrow>
                        let sin = translate_setattr i
                        in if sa_Valid sin = 0 then returning ((), OK) else plain (setter f sin)))))"

section \<open>Directories\<close>

text \<open>The stable attributes of a child inode: file type and inode number, 0 when the node has none.\<close>

type_synonym stableAttr = "32 word \<times> 64 word"

definition childStableAttr :: "('s, 'h, 'n, 'f, 'l) interfaces \<Rightarrow> 'n \<Rightarrow> 32 word \<Rightarrow> stableAttr" where
  "childStableAttr I n mode = (mode, case nd_InodeNumber I n of None \<Rightarrow> 0 | Some i \<Rightarrow> i)"

definition child_dispatch :: "('h, 'n) DispatchNode \<Rightarrow> 'n \<Rightarrow> ('h, 'n) DispatchNode" where
  "child_dispatch d n = \<lparr>dp_handler = dp_handler d, dp_node = Some n, dp_isRoot = False, dp_uid = dp_uid d, dp_gid = dp_gid d\<rparr>"

text \<open>A child as the kernel gets it: its dispatch node, its stable attributes and the entry.\<close>

type_synonym ('h, 'n) child = "('h, 'n) DispatchNode \<times> stableAttr \<times> EntryOut option"

definition wrapChild ::
    "('s, 'h, 'n, 'f, 'l) interfaces \<Rightarrow> ('h, 'n) DispatchNode \<Rightarrow> 'n option \<Rightarrow> ('s, ('h, 'n) child option \<times> errno) op" where
  "wrapChild I d n =
     (case n of
        None \<Rightarrow> (\<lambda>s. (Panics, s))
      | Some n \<Rightarrow>
          andThen (nd_Getattr I n)
            (\<lambda>(attr, e). returning
               (Some (child_dispatch d n,
                      childStableAttr I n (if e = OK then at_Mode attr AND S_IFMT else S_IFREG),
                      if e = OK then Some \<lparr>eo_attr = attr, eo_uid = dp_uid d, eo_gid = dp_gid d\<rparr> else None), OK)))"

definition dispatch_listing ::
    "('s, 'h, 'n, 'f, 'l) interfaces \<Rightarrow> ('h, 'n) DispatchNode \<Rightarrow> ('s, 'l fuseEntry list \<times> errno) op" where
  "dispatch_listing I d =
     (if dp_isRoot d then hd_Readdir I (dp_handler d)
      else (case dp_node d of
              None \<Rightarrow> returning ([], ENOTDIR)
            | Some n \<Rightarrow> if nd_dir I n then nd_Readdir I n else returning ([], ENOTDIR)))"

definition dispatch_find ::
    "('s, 'h, 'n, 'f, 'l) interfaces \<Rightarrow> ('h, 'n) DispatchNode \<Rightarrow> string \<Rightarrow> ('s, 'n option \<times> errno) op" where
  "dispatch_find I d name =
     (if dp_isRoot d then hd_Lookup I (dp_handler d) name
      else (case dp_node d of
              None \<Rightarrow> returning (None, ENOTDIR)
            | Some n \<Rightarrow> if nd_dir I n then nd_Lookup I n name else returning (None, ENOTDIR)))"

definition dot_fuse_entries :: "(string \<times> 32 word) list" where
  "dot_fuse_entries = [(''.'', S_IFDIR), (''..'', S_IFDIR)]"

definition dispatch_Readdir ::
    "('s, 'h, 'n, 'f, 'l) interfaces \<Rightarrow> ('h, 'n) DispatchNode \<Rightarrow> 32 word option \<Rightarrow> ('s, (string \<times> 32 word) list option \<times> errno) op" where
  "dispatch_Readdir I d caller =
     gate d caller None (recovering None
       (andThen (dispatch_listing I d)
          (\<lambda>(entries, e). returning (if e \<noteq> OK then (None, e)
             else (Some (dot_fuse_entries @ map (\<lambda>x. (fe_Name x, fe_Mode x)) entries), OK)))))"

definition dispatch_Lookup ::
    "('s, 'h, 'n, 'f, 'l) interfaces \<Rightarrow> ('h, 'n) DispatchNode \<Rightarrow> 32 word option \<Rightarrow> string \<Rightarrow> ('s, ('h, 'n) child option \<times> errno) op" where
  "dispatch_Lookup I d caller name =
     gate d caller None (recovering None
       (andThen (dispatch_find I d name) (\<lambda>(n, e). if e \<noteq> OK then returning (None, e) else wrapChild I d n)))"


section \<open>Directory handles\<close>

record ('n, 'l) childEntry =
  ce_node :: "'n option"
  ce_link :: 'l
  ce_mode :: "32 word"

record ('h, 'n, 'l) readdirHandle =
  rh_dispatch :: "('h, 'n) DispatchNode"
  rh_entries :: "(string \<times> 32 word) list"
  rh_pos :: nat
  rh_children :: "(string, ('n, 'l) childEntry) gomap"

text \<open>Resolving one listed child; a failure leaves it without a node.\<close>

definition resolve_entry ::
    "('s, 'h, 'n, 'f, 'l) interfaces \<Rightarrow> ('h, 'n) DispatchNode \<Rightarrow> string \<Rightarrow> ('s, 'n option) op" where
  "resolve_entry I d name = andThen (dispatch_find I d name) (\<lambda>(n, e). returning (if e = OK then n else None))"

fun resolve_entries ::
    "('s, 'h, 'n, 'f, 'l) interfaces \<Rightarrow> ('h, 'n) DispatchNode \<Rightarrow> 'l fuseEntry list \<Rightarrow> (string, ('n, 'l) childEntry) gomap
      \<Rightarrow> ('s, (string, ('n, 'l) childEntry) gomap) op" where
  "resolve_entries I d [] m = returning m"
| "resolve_entries I d (e # es) m =
     (case fe_Link e of
        None \<Rightarrow> resolve_entries I d es m
      | Some l \<Rightarrow>
          andThen (resolve_entry I d (fe_Name e))
            (\<lambda>n. resolve_entries I d es (AList.update (fe_Name e) \<lparr>ce_node = n, ce_link = l, ce_mode = fe_Mode e\<rparr> m)))"

definition buildReaddirHandle ::
    "('s, 'h, 'n, 'f, 'l) interfaces \<Rightarrow> ('h, 'n) DispatchNode \<Rightarrow> 'l fuseEntry list \<Rightarrow> ('s, ('h, 'n, 'l) readdirHandle) op" where
  "buildReaddirHandle I d entries =
     andThen (resolve_entries I d entries [])
       (\<lambda>children. returning \<lparr>rh_dispatch = d, rh_entries = dot_fuse_entries @ map (\<lambda>x. (fe_Name x, fe_Mode x)) entries,
                             rh_pos = 0, rh_children = children\<rparr>)"

text \<open>
  Prefetching the attributes of the regular files.  The table is ranged over in any order, the workers take the
  targets as they come, and a cancelled request stops the distribution: \<open>sched\<close> picks the targets that are
  served, in the order they are.
\<close>

definition prefetch_targets :: "('s, 'h, 'n, 'f, 'l) interfaces \<Rightarrow> ('n, 'l) childEntry list \<Rightarrow> ('s, unit) op list" where
  "prefetch_targets I cs =
     List.map_filter (\<lambda>c. if ce_mode c AND S_IFMT \<noteq> S_IFREG then None else ln_prefetch I (ce_link c)) cs"

fun prefetch_all :: "('s, unit) op list \<Rightarrow> ('s, unit) op" where
  "prefetch_all [] = returning ()"
| "prefetch_all (p # ps) = andThen p (\<lambda>_. prefetch_all ps)"

type_synonym 's sched = "('s, unit) op list \<Rightarrow> ('s, unit) op list"

definition prefetchFileAttrs ::
    "('s, 'h, 'n, 'f, 'l) interfaces \<Rightarrow> 's sched \<Rightarrow> ('h, 'n, 'l) readdirHandle \<Rightarrow> ('s, unit) op" where
  "prefetchFileAttrs I sched h = prefetch_all (sched (prefetch_targets I (map snd (rh_children h))))"

text \<open>The prefetch runs in goroutines of its own, outside the reach of the method's \<^verbatim>\<open>recover\<close>.\<close>

definition dispatch_OpendirHandle ::
    "('s, 'h, 'n, 'f, 'l) interfaces \<Rightarrow> 's sched \<Rightarrow> ('h, 'n) DispatchNode \<Rightarrow> 32 word option
      \<Rightarrow> ('s, ('h, 'n, 'l) readdirHandle option \<times> errno) op" where
  "dispatch_OpendirHandle I sched d caller =
     gate d caller None
       (andThen (recovering None
          (andThen (dispatch_listing I d)
             (\<lambda>(entries, e). if e \<noteq> OK then returning (None, e)
                else andThen (buildReaddirHandle I d entries) (\<lambda>h. returning (Some h, OK)))))
          (\<lambda>(h, e). case h of
              None \<Rightarrow> returning (None, e)
            | Some h \<Rightarrow> andThen (prefetchFileAttrs I sched h) (\<lambda>_. returning (Some h, OK))))"

definition handle_Readdirent :: "('h, 'n, 'l) readdirHandle \<Rightarrow> (string \<times> 32 word) option \<times> ('h, 'n, 'l) readdirHandle" where
  "handle_Readdirent h =
     (if rh_pos h \<ge> length (rh_entries h) then (None, h)
      else (Some (rh_entries h ! rh_pos h), h\<lparr>rh_pos := rh_pos h + 1\<rparr>))"

definition zero_attr :: Attr where
  "zero_attr = \<lparr>at_Mode = 0, at_Size = 0, at_Nlink = 0, at_Mtime = 0, at_Ctime = 0, at_Atime = 0\<rparr>"

definition generic_dir :: Attr where
  "generic_dir = zero_attr\<lparr>at_Mode := S_IFDIR OR 0x1C0, at_Nlink := 2\<rparr>"

definition lookupDotEntry ::
    "('s, 'h, 'n, 'f, 'l) interfaces \<Rightarrow> ('h, 'n) DispatchNode \<Rightarrow> string \<Rightarrow> ('s, EntryOut) op" where
  "lookupDotEntry I d name =
     (let out = (\<lambda>a. \<lparr>eo_attr = a, eo_uid = dp_uid d, eo_gid = dp_gid d\<rparr>)
      in if name = ''.''
         then andThen (if dp_isRoot d then hd_Getattr I (dp_handler d)
                       else (case dp_node d of None \<Rightarrow> returning (zero_attr, OK) | Some n \<Rightarrow> nd_Getattr I n))
                (\<lambda>(attr, e). returning (out (if e = OK then attr else generic_dir)))
         else returning (out generic_dir))"

text \<open>A lookup on the handle; for the dot entries no inode is returned.\<close>

definition handle_Lookup ::
    "('s, 'h, 'n, 'f, 'l) interfaces \<Rightarrow> ('h, 'n, 'l) readdirHandle \<Rightarrow> string
      \<Rightarrow> ('s, (EntryOut + ('h, 'n) child) option \<times> errno) op" where
  "handle_Lookup I h name =
     (if name = ''.'' \<or> name = ''..''
      then andThen (lookupDotEntry I (rh_dispatch h) name) (\<lambda>o'. returning (Some (Inl o'), OK))
      else (case map_of (rh_children h) name of
              None \<Rightarrow> returning (None, ENOENT)
            | Some ch \<Rightarrow>
                (case ce_node ch of
                   None \<Rightarrow> returning (None, ENOENT)
                 | Some n \<Rightarrow> andThen (wrapChild I (rh_dispatch h) (Some n)) (\<lambda>(c, e). returning (map_option Inr c, e)))))"

definition handle_Releasedir :: "('h, 'n, 'l) readdirHandle \<Rightarrow> ('h, 'n, 'l) readdirHandle" where
  "handle_Releasedir h = h\<lparr>rh_children := [], rh_entries := []\<rparr>"

section \<open>Files and changes\<close>

definition dispatch_Create ::
    "('s, 'h, 'n, 'f, 'l) interfaces \<Rightarrow> ('h, 'n) DispatchNode \<Rightarrow> 32 word option \<Rightarrow> string \<Rightarrow> 32 word \<Rightarrow> 32 word
      \<Rightarrow> ('s, (('h, 'n) child \<times> 'f option) option \<times> errno) op" where
  "dispatch_Create I d caller name flags mode =
     gate d caller None (recovering None
       (case tg_Create I (dir_target d) of
          None \<Rightarrow> returning (None, EPERM)
        | Some create \<Rightarrow>
            andThen (create name flags mode)
              (\<lambda>(r, e). if e \<noteq> OK then returning (None, e)
                 else (case r of
                         None \<Rightarrow> (\<lambda>s. (Panics, s))
                       | Some (n, f) \<Rightarrow> returning (Some ((child_dispatch d n, childStableAttr I n S_IFREG, None), f), OK)))))"

definition dispatch_Mkdir ::
    "('s, 'h, 'n, 'f, 'l) interfaces \<Rightarrow> ('h, 'n) DispatchNode \<Rightarrow> 32 word option \<Rightarrow> string \<Rightarrow> 32 word
      \<Rightarrow> ('s, ('h, 'n) child option \<times> errno) op" where
  "dispatch_Mkdir I d caller name mode =
     gate d caller None (recovering None
       (case tg_Mkdir I (dir_target d) of
          None \<Rightarrow> returning (None, EPERM)
        | Some mkdir \<Rightarrow>
            andThen (mkdir name mode)
              (\<lambda>(n, e). if e \<noteq> OK then returning (None, e)
                 else (case n of
                         None \<Rightarrow> (\<lambda>s. (Panics, s))
                       | Some n \<Rightarrow> returning (Some (child_dispatch d n, childStableAttr I n S_IFDIR, None), OK)))))"

text \<open>An open file: the handle a node gave, or none.\<close>

definition dispatch_Open ::
    "('s, 'h, 'n, 'f, 'l) interfaces \<Rightarrow> ('h, 'n) DispatchNode \<Rightarrow> 32 word option \<Rightarrow> 32 word
      \<Rightarrow> ('s, 'f option option \<times> errno) op" where
  "dispatch_Open I d caller flags =
     gate d caller None (recovering None
       (if dp_isRoot d then returning (None, EPERM)
        else (case dp_node d of
                None \<Rightarrow> returning (None, EPERM)
              | Some n \<Rightarrow>
                  (case nd_Open I n of
                     Some opener \<Rightarrow> andThen (opener flags) (\<lambda>(f, e). returning (if e \<noteq> OK then (None, e) else (Some f, OK)))
                   | None \<Rightarrow>
                       if nd_Read I n \<noteq> None \<or> nd_Write I n \<noteq> None then returning (Some None, OK)
                       else returning (None, EPERM)))))"

text \<open>The calls on an open file.  \<open>on_node d v e k\<close> asks the node for an interface; \<open>e\<close> is the answer without a node.\<close>

definition on_node ::
    "('h, 'n) DispatchNode \<Rightarrow> 'v \<Rightarrow> errno \<Rightarrow> errno \<Rightarrow> ('n \<Rightarrow> 'm option) \<Rightarrow> ('m \<Rightarrow> ('s, 'v \<times> errno) op) \<Rightarrow> ('s, 'v \<times> errno) op" where
  "on_node d v no_node no_method meth k =
     (if dp_isRoot d then returning (v, no_node)
      else (case dp_node d of
              None \<Rightarrow> returning (v, no_node)
            | Some n \<Rightarrow> (case meth n of None \<Rightarrow> returning (v, no_method) | Some m \<Rightarrow> k m)))"

definition dispatch_Release ::
    "('s, 'h, 'n, 'f, 'l) interfaces \<Rightarrow> ('h, 'n) DispatchNode \<Rightarrow> 'f option \<Rightarrow> ('s, unit \<times> errno) op" where
  "dispatch_Release I d f = recovering () (on_node d () OK OK (nd_Release I) (\<lambda>release. plain (release f)))"

definition dispatch_Fsync ::
    "('s, 'h, 'n, 'f, 'l) interfaces \<Rightarrow> ('h, 'n) DispatchNode \<Rightarrow> 32 word option \<Rightarrow> 'f option \<Rightarrow> 32 word \<Rightarrow> ('s, unit \<times> errno) op" where
  "dispatch_Fsync I d caller f flags =
     gate d caller () (recovering () (on_node d () OK OK (nd_Fsync I) (\<lambda>fsync. plain (fsync f flags))))"

definition dispatch_Flush ::
    "('s, 'h, 'n, 'f, 'l) interfaces \<Rightarrow> ('h, 'n) DispatchNode \<Rightarrow> 32 word option \<Rightarrow> 'f option \<Rightarrow> ('s, unit \<times> errno) op" where
  "dispatch_Flush I d caller f =
     gate d caller () (recovering () (on_node d () OK OK (nd_Flush I) (\<lambda>flush. plain (flush f))))"

definition dispatch_Read ::
    "('s, 'h, 'n, 'f, 'l) interfaces \<Rightarrow> ('h, 'n) DispatchNode \<Rightarrow> 32 word option \<Rightarrow> 'f option \<Rightarrow> nat \<Rightarrow> int
      \<Rightarrow> ('s, bytes option \<times> errno) op" where
  "dispatch_Read I d caller f n off =
     gate d caller None (recovering None (on_node d None EPERM EBADF (nd_Read I)
       (\<lambda>read. andThen (read f n off) (\<lambda>(b, e). returning (if e \<noteq> OK then (None, e) else (Some b, OK))))))"

definition dispatch_Write ::
    "('s, 'h, 'n, 'f, 'l) interfaces \<Rightarrow> ('h, 'n) DispatchNode \<Rightarrow> 32 word option \<Rightarrow> 'f option \<Rightarrow> bytes \<Rightarrow> int
      \<Rightarrow> ('s, 32 word \<times> errno) op" where
  "dispatch_Write I d caller f data off =
     gate d caller 0 (recovering 0 (on_node d 0 EPERM EBADF (nd_Write I) (\<lambda>write'. write' f data off)))"

text \<open>Removing and renaming: the handler or node must support it.\<close>

definition on_target ::
    "('h, 'n) DispatchNode \<Rightarrow> 'v \<Rightarrow> (('h, 'n) target \<Rightarrow> 'm option) \<Rightarrow> ('m \<Rightarrow> ('s, 'v \<times> errno) op) \<Rightarrow> ('s, 'v \<times> errno) op" where
  "on_target d v meth k = (case meth (dir_target d) of None \<Rightarrow> returning (v, EPERM) | Some m \<Rightarrow> k m)"

definition dispatch_Unlink ::
    "('s, 'h, 'n, 'f, 'l) interfaces \<Rightarrow> ('h, 'n) DispatchNode \<Rightarrow> 32 word option \<Rightarrow> string \<Rightarrow> ('s, unit \<times> errno) op" where
  "dispatch_Unlink I d caller name = gate d caller () (recovering () (on_target d () (tg_Unlink I) (\<lambda>unlink. plain (unlink name))))"

definition dispatch_Rmdir ::
    "('s, 'h, 'n, 'f, 'l) interfaces \<Rightarrow> ('h, 'n) DispatchNode \<Rightarrow> 32 word option \<Rightarrow> string \<Rightarrow> ('s, unit \<times> errno) op" where
  "dispatch_Rmdir I d caller name = gate d caller () (recovering () (on_target d () (tg_Rmdir I) (\<lambda>rmdir. plain (rmdir name))))"

text \<open>\<open>newParent\<close> is the dispatch node of the destination, when it is one.\<close>

definition dispatch_Rename ::
    "('s, 'h, 'n, 'f, 'l) interfaces \<Rightarrow> ('h, 'n) DispatchNode \<Rightarrow> 32 word option \<Rightarrow> string \<Rightarrow> ('h, 'n) DispatchNode option \<Rightarrow> string
      \<Rightarrow> ('s, unit \<times> errno) op" where
  "dispatch_Rename I d caller name newParent newName =
     gate d caller () (recovering () (on_target d () (tg_Rename I)
       (\<lambda>rename. plain (rename name (Option.bind newParent dp_node) newName))))"

definition dispatch_Readlink ::
    "('s, 'h, 'n, 'f, 'l) interfaces \<Rightarrow> ('h, 'n) DispatchNode \<Rightarrow> 32 word option \<Rightarrow> ('s, bytes \<times> errno) op" where
  "dispatch_Readlink I d caller =
     gate d caller [] (recovering [] (on_node d [] EINVAL EINVAL (nd_Readlink I) (\<lambda>readlink. readlink)))"

definition dispatch_Symlink ::
    "('s, 'h, 'n, 'f, 'l) interfaces \<Rightarrow> ('h, 'n) DispatchNode \<Rightarrow> 32 word option \<Rightarrow> string \<Rightarrow> string
      \<Rightarrow> ('s, ('h, 'n) child option \<times> errno) op" where
  "dispatch_Symlink I d caller tgt name =
     gate d caller None (recovering None (on_target d None (tg_Symlink I)
       (\<lambda>symlink. andThen (symlink tgt name)
          (\<lambda>(n, e). if e \<noteq> OK then returning (None, e)
             else (case n of
                     None \<Rightarrow> (\<lambda>s. (Panics, s))
                   | Some n \<Rightarrow>
                       andThen (nd_Getattr I n)
                         (\<lambda>(attr, ae). returning
                            (Some (child_dispatch d n, childStableAttr I n S_IFLNK,
                                   if ae = OK then Some \<lparr>eo_attr = attr, eo_uid = dp_uid d, eo_gid = dp_gid d\<rparr> else None), OK)))))))"

definition dispatch_OnForget :: "('s, 'h, 'n, 'f, 'l) interfaces \<Rightarrow> ('h, 'n) DispatchNode \<Rightarrow> ('s, unit) op" where
  "dispatch_OnForget I d =
     (case dp_node d of None \<Rightarrow> returning ()
      | Some n \<Rightarrow> (case nd_Forget I n of None \<Rightarrow> returning () | Some forget \<Rightarrow> forget))"

section \<open>Requests\<close>

text \<open>A request of the kernel for one inode and how it is answered: only the errno is kept here.\<close>

datatype ('h, 'n, 'f) request =
    RGetattr
  | RSetattr "'f option" setAttrIn
  | RReaddir
  | ROpendir
  | RLookup string
  | RCreate string "32 word" "32 word"
  | RMkdir string "32 word"
  | ROpen "32 word"
  | RRelease "'f option"
  | RFsync "'f option" "32 word"
  | RFlush "'f option"
  | RRead "'f option" nat int
  | RWrite "'f option" bytes int
  | RUnlink string
  | RRmdir string
  | RRename string "('h, 'n) DispatchNode option" string
  | RReadlink
  | RSymlink string string

definition status :: "('s, 'v \<times> errno) op \<Rightarrow> ('s, errno) op" where
  "status m = andThen m (\<lambda>(v, e). returning e)"

fun serve ::
    "('s, 'h, 'n, 'f, 'l) interfaces \<Rightarrow> 's sched \<Rightarrow> ('h, 'n) DispatchNode \<Rightarrow> 32 word option \<Rightarrow> ('h, 'n, 'f) request
      \<Rightarrow> ('s, errno) op" where
  "serve I sched d caller RGetattr = status (dispatch_Getattr I d caller)"
| "serve I sched d caller (RSetattr f i) = status (dispatch_Setattr I d caller f i)"
| "serve I sched d caller RReaddir = status (dispatch_Readdir I d caller)"
| "serve I sched d caller ROpendir = status (dispatch_OpendirHandle I sched d caller)"
| "serve I sched d caller (RLookup name) = status (dispatch_Lookup I d caller name)"
| "serve I sched d caller (RCreate name flags mode) = status (dispatch_Create I d caller name flags mode)"
| "serve I sched d caller (RMkdir name mode) = status (dispatch_Mkdir I d caller name mode)"
| "serve I sched d caller (ROpen flags) = status (dispatch_Open I d caller flags)"
| "serve I sched d caller (RRelease f) = status (dispatch_Release I d f)"
| "serve I sched d caller (RFsync f flags) = status (dispatch_Fsync I d caller f flags)"
| "serve I sched d caller (RFlush f) = status (dispatch_Flush I d caller f)"
| "serve I sched d caller (RRead f n off) = status (dispatch_Read I d caller f n off)"
| "serve I sched d caller (RWrite f data off) = status (dispatch_Write I d caller f data off)"
| "serve I sched d caller (RUnlink name) = status (dispatch_Unlink I d caller name)"
| "serve I sched d caller (RRmdir name) = status (dispatch_Rmdir I d caller name)"
| "serve I sched d caller (RRename name newParent newName) = status (dispatch_Rename I d caller name newParent newName)"
| "serve I sched d caller RReadlink = status (dispatch_Readlink I d caller)"
| "serve I sched d caller (RSymlink tgt name) = status (dispatch_Symlink I d caller tgt name)"

section \<open>The root of the mount\<close>

text \<open>The registry of namespaces.\<close>

definition NewRegistry :: "(string, 'h) gomap" where "NewRegistry = []"

definition registry_Register :: "string \<Rightarrow> 'h \<Rightarrow> (string, 'h) gomap \<Rightarrow> (string, 'h) gomap" where
  "registry_Register pfx h r = AList.update pfx h r"

definition registry_Lookup :: "(string, 'h) gomap \<Rightarrow> string \<Rightarrow> 'h option" where
  "registry_Lookup r pfx = map_of r pfx"

definition registry_List :: "(string, 'h) gomap \<Rightarrow> string list" where
  "registry_List r = sort (keys r)"

definition statfsBlockSize :: int where "statfsBlockSize = 4096"
definition statfsNameLen :: "32 word" where "statfsNameLen = 255"
definition statfsFilesSentinel :: "64 word" where "statfsFilesSentinel = 0xFFFFFFFF"
definition quotaCacheTTL :: int where "quotaCacheTTL = 60000000000"

text \<open>The quota callback gives total and used bytes or fails; it is injected, and may be nil.\<close>

type_synonym 's quotaFunc = "('s, (int \<times> int) option) op"

record ('s, 'h) RootNode =
  rn_registry :: "(string, 'h) gomap"
  rn_sec :: "64 word"
  rn_nsec :: "32 word"
  rn_uid :: "32 word"
  rn_gid :: "32 word"
  rn_quota :: "'s quotaFunc option"
  rn_quotaTotal :: int
  rn_quotaUsed :: int
  rn_quotaAt :: int
  rn_quotaValid :: bool

definition NewRoot :: "(string, 'h) gomap \<Rightarrow> 64 word \<Rightarrow> 32 word \<Rightarrow> 32 word \<Rightarrow> 32 word \<Rightarrow> ('s, 'h) RootNode" where
  "NewRoot registry sec nsec uid gid =
     \<lparr>rn_registry = registry, rn_sec = sec, rn_nsec = nsec, rn_uid = uid, rn_gid = gid, rn_quota = None,
      rn_quotaTotal = 0, rn_quotaUsed = 0, rn_quotaAt = 0, rn_quotaValid = False\<rparr>"

record rootAttr =
  ra_entry :: EntryOut
  ra_Ino :: "64 word"
  ra_nsec :: "32 word"                 \<comment> \<open>\<^verbatim>\<open>Atimensec\<close>, \<^verbatim>\<open>Mtimensec\<close>, \<^verbatim>\<open>Ctimensec\<close>\<close>

definition root_Getattr :: "('s, 'h) RootNode \<Rightarrow> rootAttr" where
  "root_Getattr r =
     \<lparr>ra_entry = \<lparr>eo_attr = \<lparr>at_Mode = S_IFDIR OR 0x16D, at_Size = 0, at_Nlink = 2,
                             at_Mtime = rn_sec r, at_Ctime = rn_sec r, at_Atime = rn_sec r\<rparr>,
                  eo_uid = rn_uid r, eo_gid = rn_gid r\<rparr>,
      ra_Ino = 1, ra_nsec = rn_nsec r\<rparr>"

text \<open>Entries with their inode numbers.\<close>

definition root_Readdir :: "('s, 'h) RootNode \<Rightarrow> (string \<times> 32 word \<times> 64 word) list" where
  "root_Readdir r =
     (''.'', S_IFDIR, 1) # (''..'', S_IFDIR, 0) # map (\<lambda>p. (p, S_IFDIR, 0)) (registry_List (rn_registry r))"

definition root_Lookup ::
    "('s, 'h, 'n, 'f, 'l) interfaces \<Rightarrow> ('s, 'h) RootNode \<Rightarrow> string \<Rightarrow> ('s, ('h, 'n) child option \<times> errno) op" where
  "root_Lookup I r name =
     (case registry_Lookup (rn_registry r) name of
        None \<Rightarrow> returning (None, ENOENT)
      | Some h \<Rightarrow>
          andThen (hd_Getattr I h)
            (\<lambda>(attr, e). returning (if e \<noteq> OK then (None, e)
               else (Some (\<lparr>dp_handler = h, dp_node = None, dp_isRoot = True, dp_uid = rn_uid r, dp_gid = rn_gid r\<rparr>,
                           (S_IFDIR, 0), Some \<lparr>eo_attr = attr, eo_uid = rn_uid r, eo_gid = rn_gid r\<rparr>), OK))))"

text \<open>
  The quota with its cache: \<open>t0\<close> is the clock before the request, \<open>t1\<close> after it.  The mutex makes calls
  atomic.
\<close>

definition currentQuota :: "int \<Rightarrow> int \<Rightarrow> ('s, 'h) RootNode \<Rightarrow> ('s, (int \<times> int) \<times> ('s, 'h) RootNode) op" where
  "currentQuota t0 t1 r =
     (case rn_quota r of
        None \<Rightarrow> returning ((0, 0), r)
      | Some quota \<Rightarrow>
          if rn_quotaValid r \<and> t0 - rn_quotaAt r < quotaCacheTTL then returning ((rn_quotaTotal r, rn_quotaUsed r), r)
          else andThen quota
            (\<lambda>q. returning (case q of
                None \<Rightarrow> (if rn_quotaValid r then (rn_quotaTotal r, rn_quotaUsed r) else (0, 0), r)
              | Some (t, u) \<Rightarrow> ((t, u), r\<lparr>rn_quotaTotal := t, rn_quotaUsed := u, rn_quotaAt := t1, rn_quotaValid := True\<rparr>))))"

record StatfsOut =
  sf_Bsize :: int
  sf_Frsize :: int
  sf_NameLen :: "32 word"
  sf_Files :: "64 word"
  sf_Ffree :: "64 word"
  sf_Blocks :: int
  sf_Bfree :: int
  sf_Bavail :: int

definition statfs_blocks :: "int \<Rightarrow> int \<Rightarrow> StatfsOut" where
  "statfs_blocks t u =
     (let out = \<lparr>sf_Bsize = statfsBlockSize, sf_Frsize = statfsBlockSize, sf_NameLen = statfsNameLen,
                 sf_Files = statfsFilesSentinel, sf_Ffree = statfsFilesSentinel, sf_Blocks = 0, sf_Bfree = 0, sf_Bavail = 0\<rparr>
      in if t \<le> 0 then out
         else let free = wrap64 (t - u); free' = (if free < 0 then 0 else free)
              in out\<lparr>sf_Blocks := t div statfsBlockSize, sf_Bfree := free' div statfsBlockSize,
                     sf_Bavail := free' div statfsBlockSize\<rparr>)"

definition root_Statfs :: "int \<Rightarrow> int \<Rightarrow> ('s, 'h) RootNode \<Rightarrow> ('s, StatfsOut \<times> ('s, 'h) RootNode) op" where
  "root_Statfs t0 t1 r = andThen (currentQuota t0 t1 r) (\<lambda>((t, u), r'). returning (statfs_blocks t u, r'))"

section \<open>Panics\<close>

named_theorems contained \<open>operations that do not panic\<close>

lemma returning_contained [contained]: "fst (returning a s) \<noteq> Panics"
  by (simp add: returning_def)

lemma andThen_contained:
  "fst (m s) \<noteq> Panics \<Longrightarrow> (\<And>a s1. m s = (Returns a, s1) \<Longrightarrow> fst (k a s1) \<noteq> Panics) \<Longrightarrow> fst (andThen m k s) \<noteq> Panics"
  by (cases "m s"; cases "fst (m s)") (auto simp: andThen_def)

lemma andThen_Panics: "m s = (Panics, s1) \<Longrightarrow> andThen m k s = (Panics, s1)"
  by (simp add: andThen_def)

lemma andThen_Returns: "m s = (Returns a, s1) \<Longrightarrow> andThen m k s = k a s1"
  by (simp add: andThen_def)

lemma recovering_contained [contained]: "fst (recovering v m s) \<noteq> Panics"
  by (auto simp: recovering_def split: prod.splits outcome.splits)

lemma recovering_Panics: "m s = (Panics, s1) \<Longrightarrow> recovering v m s = (Returns (v, EIO), s1)"
  by (simp add: recovering_def)

lemma recovering_Returns: "m s = (Returns r, s1) \<Longrightarrow> recovering v m s = (Returns r, s1)"
  by (simp add: recovering_def)

lemma status_contained [contained]: "fst (m s) \<noteq> Panics \<Longrightarrow> fst (status m s) \<noteq> Panics"
  unfolding status_def by (rule andThen_contained) (auto simp: contained)

lemma gate_contained [contained]: "fst (m s) \<noteq> Panics \<Longrightarrow> fst (gate d caller v m s) \<noteq> Panics"
  by (simp add: gate_def contained)

lemma prefetch_all_contained:
  "(\<And>p s. p \<in> set ps \<Longrightarrow> fst (p s) \<noteq> Panics) \<Longrightarrow> fst (prefetch_all ps s) \<noteq> Panics"
proof (induction ps arbitrary: s)
  case (Cons p ps)
  have "fst (andThen p (\<lambda>_. prefetch_all ps) s) \<noteq> Panics"
    by (rule andThen_contained) (simp_all add: Cons)
  then show ?case by simp
qed (simp add: contained)

text \<open>A handler whose prefetches do not panic, and a distribution that serves targets only.\<close>

definition prefetch_quiet :: "('s, 'h, 'n, 'f, 'l) interfaces \<Rightarrow> 's sched \<Rightarrow> bool" where
  "prefetch_quiet I sched \<longleftrightarrow>
     (\<forall>l p s. ln_prefetch I l = Some p \<longrightarrow> fst (p s) \<noteq> Panics) \<and> (\<forall>ps. set (sched ps) \<subseteq> set ps)"

lemma prefetchFileAttrs_contained:
  assumes "prefetch_quiet I sched"
  shows "fst (prefetchFileAttrs I sched h s) \<noteq> Panics"
  unfolding prefetchFileAttrs_def
proof (rule prefetch_all_contained)
  fix p s'
  assume "p \<in> set (sched (prefetch_targets I (map snd (rh_children h))))"
  then have "p \<in> set (prefetch_targets I (map snd (rh_children h)))"
    using assms by (auto simp: prefetch_quiet_def)
  then obtain l where "ln_prefetch I l = Some p"
    by (auto simp: prefetch_targets_def List.map_filter_def split: if_splits)
  then show "fst (p s') \<noteq> Panics" using assms by (auto simp: prefetch_quiet_def)
qed

text \<open>The requests whose method defers a \<^verbatim>\<open>recover\<close>: all but \<^verbatim>\<open>Setattr\<close>.\<close>

fun recovers :: "('h, 'n, 'f) request \<Rightarrow> bool" where
  "recovers (RSetattr f i) = False"
| "recovers _ = True"

lemma OpendirHandle_contained:
  assumes "prefetch_quiet I sched"
  shows "fst (dispatch_OpendirHandle I sched d caller s) \<noteq> Panics"
  unfolding dispatch_OpendirHandle_def
proof (rule gate_contained, rule andThen_contained)
  fix a s1
  show "fst ((case a of (h, e) \<Rightarrow> case h of None \<Rightarrow> returning (None, e)
      | Some h \<Rightarrow> andThen (prefetchFileAttrs I sched h) (\<lambda>_. returning (Some h, OK))) s1) \<noteq> Panics"
  proof (cases a)
    case (Pair h e)
    then show ?thesis
    proof (cases h)
      case (Some h')
      have "fst (andThen (prefetchFileAttrs I sched h') (\<lambda>_. returning (Some h', OK)) s1) \<noteq> Panics"
        by (rule andThen_contained) (simp_all add: prefetchFileAttrs_contained [OF assms] contained)
      with Pair Some show ?thesis by simp
    qed (simp add: contained)
  qed
qed (rule recovering_contained)

lemma Getattr_contained: "fst (dispatch_Getattr I d caller s) \<noteq> Panics"
  by (simp add: dispatch_Getattr_def Let_def contained)

lemmas recovering_methods = dispatch_Readdir_def dispatch_Lookup_def dispatch_Create_def dispatch_Mkdir_def
  dispatch_Open_def dispatch_Release_def dispatch_Fsync_def dispatch_Flush_def dispatch_Read_def dispatch_Write_def
  dispatch_Unlink_def dispatch_Rmdir_def dispatch_Rename_def dispatch_Readlink_def dispatch_Symlink_def


text \<open>A namespace for examples: one node, every operation counts its calls; writing panics.\<close>

definition count_call :: "'a \<Rightarrow> (nat, 'a) op" where
  "count_call a s = (Returns a, s + 1)"

definition demo_attr :: Attr where
  "demo_attr = zero_attr\<lparr>at_Mode := S_IFREG OR 0x180, at_Nlink := 1\<rparr>"

definition demo_interfaces :: "(nat, unit, unit, unit, unit) interfaces" where
  "demo_interfaces =
     \<lparr>hd_Getattr = (\<lambda>h. count_call (demo_attr\<lparr>at_Mode := S_IFDIR OR 0x140\<rparr>, OK)),
      hd_Readdir = (\<lambda>h. count_call ([\<lparr>fe_Name = ''a'', fe_Mode = S_IFREG, fe_Link = Some ()\<rparr>], OK)),
      hd_Lookup = (\<lambda>h name. count_call (if name = ''a'' then (Some (), OK) else (None, ENOENT))),
      nd_Getattr = (\<lambda>n. count_call (demo_attr, OK)),
      nd_dir = (\<lambda>n. False),
      nd_Readdir = (\<lambda>n. count_call ([], OK)),
      nd_Lookup = (\<lambda>n name. count_call (None, ENOENT)),
      nd_Setattr = (\<lambda>n. Some (\<lambda>f i s. (Panics, s + 1))),
      nd_Open = (\<lambda>n. Some (\<lambda>flags. count_call (Some (), OK))),
      nd_Read = (\<lambda>n. Some (\<lambda>f k off. count_call ([], OK))),
      nd_Write = (\<lambda>n. Some (\<lambda>f data off s. (Panics, s + 1))),
      nd_Release = (\<lambda>n. Some (\<lambda>f. count_call OK)),
      nd_Fsync = (\<lambda>n. None), nd_Flush = (\<lambda>n. None), nd_Readlink = (\<lambda>n. None), nd_Forget = (\<lambda>n. None),
      nd_InodeNumber = (\<lambda>n. Some 7),
      tg_Create = (\<lambda>t. None), tg_Mkdir = (\<lambda>t. None), tg_Unlink = (\<lambda>t. None), tg_Rmdir = (\<lambda>t. None),
      tg_Rename = (\<lambda>t. None), tg_Symlink = (\<lambda>t. None),
      ln_prefetch = (\<lambda>l. Some (count_call ()))\<rparr>"

lemmas op_simps = returning_def andThen_def recovering_def count_call_def status_def plain_def gate_def checkAccess_def

definition demo_file :: "(unit, unit) DispatchNode" where
  "demo_file = \<lparr>dp_handler = (), dp_node = Some (), dp_isRoot = False, dp_uid = 1000, dp_gid = 1000\<rparr>"

lemma demo_quiet: "prefetch_quiet demo_interfaces (\<lambda>ps. ps)"
  by (simp add: prefetch_quiet_def demo_interfaces_def count_call_def)

lemma demo_write_panics:
  "serve demo_interfaces (\<lambda>ps. ps) demo_file (Some 1000) (RWrite None [1] 0) 4 = (Returns EIO, 5)"
  by (simp add: dispatch_Write_def op_simps on_node_def demo_interfaces_def demo_file_def)


text \<open>\<^verbatim>\<open>Setattr\<close> is the exception: a panic of the node leaves the method.\<close>

lemma setattr_panic_escapes:
  "serve demo_interfaces (\<lambda>ps. ps) demo_file (Some 1000)
     (RSetattr None \<lparr>si_mode = Some 0x1A4, si_chown = False, si_size = None, si_mtime = None\<rparr>) 4 = (Panics, 5)"
  by (simp add: dispatch_Setattr_def op_simps translate_setattr_def SetattrMode_def demo_interfaces_def demo_file_def)

section \<open>Access\<close>

text \<open>
  The nodes the kernel can hold: those of the registered namespaces, and what their methods and the directory
  handles return.  A handle is read and released any number of times between its opening and a lookup.
\<close>

inductive handle_used :: "('h, 'n, 'l) readdirHandle \<Rightarrow> ('h, 'n, 'l) readdirHandle \<Rightarrow> bool" for h where
  hu_open: "handle_used h h"
| hu_read: "handle_used h h1 \<Longrightarrow> handle_used h (snd (handle_Readdirent h1))"
| hu_release: "handle_used h h1 \<Longrightarrow> handle_used h (handle_Releasedir h1)"

inductive held ::
    "('s, 'h, 'n, 'f, 'l) interfaces \<Rightarrow> ('s, 'h) RootNode \<Rightarrow> ('h, 'n) DispatchNode \<Rightarrow> bool" for I r where
  held_root: "root_Lookup I r name s = (Returns (Some (d, att), e), s1) \<Longrightarrow> held I r d"
| held_lookup: "held I r d \<Longrightarrow> dispatch_Lookup I d caller name s = (Returns (Some (d', att), e), s1) \<Longrightarrow> held I r d'"
| held_create: "held I r d \<Longrightarrow> dispatch_Create I d caller name flags mode s = (Returns (Some ((d', att), f), e), s1) \<Longrightarrow> held I r d'"
| held_mkdir: "held I r d \<Longrightarrow> dispatch_Mkdir I d caller name mode s = (Returns (Some (d', att), e), s1) \<Longrightarrow> held I r d'"
| held_symlink: "held I r d \<Longrightarrow> dispatch_Symlink I d caller tgt name s = (Returns (Some (d', att), e), s1) \<Longrightarrow> held I r d'"
| held_handle: "held I r d \<Longrightarrow> dispatch_OpendirHandle I sched d caller s = (Returns (Some h, e), s1) \<Longrightarrow> handle_used h h' \<Longrightarrow>
    handle_Lookup I h' name s2 = (Returns (Some (Inr (d', att)), e'), s3) \<Longrightarrow> held I r d'"

lemma andThen_ReturnsE:
  assumes "andThen m k s = (Returns b, s2)"
  obtains a s1 where "m s = (Returns a, s1)" "k a s1 = (Returns b, s2)"
  using assms by (auto simp: andThen_def split: prod.splits outcome.splits)

lemma recovering_SomeE:
  assumes "recovering None m s = (Returns (Some v, e), s1)"
  shows "m s = (Returns (Some v, e), s1)"
  using assms by (auto simp: recovering_def split: prod.splits outcome.splits)

lemma gate_SomeE:
  assumes "gate d caller None m s = (Returns (Some v, e), s1)"
  shows "m s = (Returns (Some v, e), s1)"
  using assms by (auto simp: gate_def returning_def split: if_splits)

lemma wrapChild_owner:
  "wrapChild I d n s = (Returns (Some (d', att), e), s1) \<Longrightarrow> dp_uid d' = dp_uid d \<and> dp_gid d' = dp_gid d"
  by (cases n) (auto simp: wrapChild_def child_dispatch_def returning_def elim!: andThen_ReturnsE)

lemma lookup_owner:
  assumes "dispatch_Lookup I d caller name s = (Returns (Some (d', att), e), s1)"
  shows "dp_uid d' = dp_uid d \<and> dp_gid d' = dp_gid d"
  using recovering_SomeE [OF gate_SomeE [OF assms [unfolded dispatch_Lookup_def]]]
  by (auto simp: returning_def elim!: andThen_ReturnsE split: if_splits dest: wrapChild_owner)

lemma create_owner:
  assumes "dispatch_Create I d caller name flags mode s = (Returns (Some ((d', att), f), e), s1)"
  shows "dp_uid d' = dp_uid d \<and> dp_gid d' = dp_gid d"
  using recovering_SomeE [OF gate_SomeE [OF assms [unfolded dispatch_Create_def]]]
  by (auto simp: returning_def child_dispatch_def elim!: andThen_ReturnsE split: if_splits option.splits)

lemma mkdir_owner:
  assumes "dispatch_Mkdir I d caller name mode s = (Returns (Some (d', att), e), s1)"
  shows "dp_uid d' = dp_uid d \<and> dp_gid d' = dp_gid d"
  using recovering_SomeE [OF gate_SomeE [OF assms [unfolded dispatch_Mkdir_def]]]
  by (auto simp: returning_def child_dispatch_def elim!: andThen_ReturnsE split: if_splits option.splits)

lemma symlink_owner:
  assumes "dispatch_Symlink I d caller tgt name s = (Returns (Some (d', att), e), s1)"
  shows "dp_uid d' = dp_uid d \<and> dp_gid d' = dp_gid d"
  using recovering_SomeE [OF gate_SomeE [OF assms [unfolded dispatch_Symlink_def]]]
  by (auto simp: returning_def on_target_def child_dispatch_def elim!: andThen_ReturnsE split: if_splits option.splits)

lemma opendir_dispatch:
  assumes "dispatch_OpendirHandle I sched d caller s = (Returns (Some h, e), s1)"
  shows "rh_dispatch h = d"
proof -
  obtain a s2 where a: "recovering None
          (andThen (dispatch_listing I d)
             (\<lambda>(entries, e). if e \<noteq> OK then returning (None, e)
                else andThen (buildReaddirHandle I d entries) (\<lambda>h. returning (Some h, OK)))) s = (Returns a, s2)"
      "(case a of (h, e) \<Rightarrow> case h of None \<Rightarrow> returning (None, e)
        | Some h \<Rightarrow> andThen (prefetchFileAttrs I sched h) (\<lambda>_. returning (Some h, OK))) s2 = (Returns (Some h, e), s1)"
    using gate_SomeE [OF assms [unfolded dispatch_OpendirHandle_def]] by (rule andThen_ReturnsE)
  obtain h0 e0 where "a = (Some h0, e0)"
    using a(2) by (cases a) (auto simp: returning_def split: option.splits)
  moreover from this a(2) have "h0 = h" by (auto simp: returning_def elim!: andThen_ReturnsE)
  ultimately have "a = (Some h, e0)" by simp
  from recovering_SomeE [OF a(1) [unfolded this]] show ?thesis
    by (auto simp: returning_def buildReaddirHandle_def elim!: andThen_ReturnsE split: if_splits)
qed

lemma handle_used_dispatch: "handle_used h h' \<Longrightarrow> rh_dispatch h' = rh_dispatch h"
  by (induction rule: handle_used.induct) (simp_all add: handle_Readdirent_def handle_Releasedir_def)

lemma handle_owner:
  assumes "handle_Lookup I h name s = (Returns (Some (Inr (d', att)), e), s1)"
  shows "dp_uid d' = dp_uid (rh_dispatch h) \<and> dp_gid d' = dp_gid (rh_dispatch h)"
  using assms
  by (auto simp: handle_Lookup_def returning_def elim!: andThen_ReturnsE split: if_splits option.splits dest: wrapChild_owner)

lemma root_child:
  assumes "root_Lookup I r name s = (Returns (Some (d, att), e), s1)"
  shows "dp_uid d = rn_uid r \<and> dp_gid d = rn_gid r \<and> dp_isRoot d \<and> registry_Lookup (rn_registry r) name = Some (dp_handler d)"
  using assms by (auto simp: root_Lookup_def returning_def elim!: andThen_ReturnsE split: if_splits option.splits)

lemma held_owner: "held I r d \<Longrightarrow> dp_uid d = rn_uid r \<and> dp_gid d = rn_gid r"
proof (induction rule: held.induct)
  case (held_handle d sched caller s h e s1 h' name s2 d' att e' s3)
  show ?case
    using handle_owner [OF held_handle(4)] handle_used_dispatch [OF held_handle(3)] opendir_dispatch [OF held_handle(2)]
      held_handle.IH by simp
qed (auto dest: root_child lookup_owner create_owner mkdir_owner symlink_owner)

text \<open>The requests anyone may make: the attributes of a namespace, and closing what is open.\<close>

fun open_to_all :: "('h, 'n) DispatchNode \<Rightarrow> ('h, 'n, 'f) request \<Rightarrow> bool" where
  "open_to_all d RGetattr = dp_isRoot d"
| "open_to_all d (RRelease f) = True"
| "open_to_all d _ = False"

lemma gate_foreign: "u \<noteq> dp_uid d \<Longrightarrow> gate d (Some u) v m s = (Returns (v, EPERM), s)"
  by (simp add: gate_def checkAccess_def returning_def)


definition demo_root :: "(nat, unit) RootNode" where
  "demo_root = NewRoot (registry_Register ''drive'' () NewRegistry) 0 0 1000 1000"

lemma demo_held: "held demo_interfaces demo_root demo_file"
proof -
  have "root_Lookup demo_interfaces demo_root ''drive'' 0
      = (Returns (Some (\<lparr>dp_handler = (), dp_node = None, dp_isRoot = True, dp_uid = 1000, dp_gid = 1000\<rparr>, (S_IFDIR, 0),
          Some \<lparr>eo_attr = demo_attr\<lparr>at_Mode := S_IFDIR OR 0x140\<rparr>, eo_uid = 1000, eo_gid = 1000\<rparr>), OK), 1)"
    by (simp add: root_Lookup_def demo_root_def registry_Lookup_def registry_Register_def NewRegistry_def NewRoot_def
      op_simps demo_interfaces_def)
  from held_root [OF this]
  have "held demo_interfaces demo_root \<lparr>dp_handler = (), dp_node = None, dp_isRoot = True, dp_uid = 1000, dp_gid = 1000\<rparr>" .
  moreover have "dispatch_Lookup demo_interfaces \<lparr>dp_handler = (), dp_node = None, dp_isRoot = True, dp_uid = 1000, dp_gid = 1000\<rparr>
      None ''a'' 1 = (Returns (Some (demo_file, (at_Mode demo_attr AND S_IFMT, 7),
          Some \<lparr>eo_attr = demo_attr, eo_uid = 1000, eo_gid = 1000\<rparr>), OK), 3)"
    by (simp add: dispatch_Lookup_def dispatch_find_def op_simps wrapChild_def childStableAttr_def child_dispatch_def
      demo_interfaces_def demo_file_def)
  ultimately show ?thesis by (rule held_lookup)
qed


section \<open>Namespaces and quota\<close>

fun register_all :: "(string \<times> 'h) list \<Rightarrow> (string, 'h) gomap \<Rightarrow> (string, 'h) gomap" where
  "register_all [] r = r"
| "register_all ((p, h) # hs) r = register_all hs (registry_Register p h r)"

lemma register_all_lookup: "map_of (register_all hs r) p = (case map_of (rev hs) p of None \<Rightarrow> map_of r p | Some h \<Rightarrow> Some h)"
  by (induction hs r rule: register_all.induct) (auto simp: registry_Register_def map_add_def split: option.splits)

lemma register_all_distinct: "distinct (keys r) \<Longrightarrow> distinct (keys (register_all hs r))"
  by (induction hs r rule: register_all.induct) (simp_all add: registry_Register_def)

lemma map_of_keys: "map_of m k \<noteq> None \<longleftrightarrow> k \<in> set (keys m)"
  by (simp add: map_of_eq_None_iff)

text \<open>
  C34: the root of the mount lists every registered prefix once, in order, after the dot entries; a name is looked up
  exactly when it is listed, at the handler registered last, and a name that is not listed is ENOENT without a
  handler being asked.
\<close>

theorem namespaces_listed:
  fixes hs :: "(string \<times> 'h) list" and I :: "('s, 'h, 'n, 'f, 'l) interfaces"
  shows "map fst (root_Readdir (NewRoot (register_all hs NewRegistry) sec nsec uid gid :: ('s, 'h) RootNode)) = ''.'' # ''..'' # sorted_list_of_set (fst ` set hs)
    \<and> root_Lookup I (NewRoot (register_all hs NewRegistry) sec nsec uid gid) name s =
        (case map_of (rev hs) name of
           None \<Rightarrow> (Returns (None, ENOENT), s)
         | Some h \<Rightarrow> andThen (hd_Getattr I h) (\<lambda>(attr, e). returning (if e \<noteq> OK then (None, e)
             else (Some (\<lparr>dp_handler = h, dp_node = None, dp_isRoot = True, dp_uid = uid, dp_gid = gid\<rparr>,
                         (S_IFDIR, 0), Some \<lparr>eo_attr = attr, eo_uid = uid, eo_gid = gid\<rparr>), OK))) s)
    \<and> (map_of (rev hs) name = None \<longleftrightarrow> name \<notin> set (registry_List (register_all hs NewRegistry)))"
proof -
  let ?r = "register_all hs NewRegistry"
  have look: "map_of ?r p = map_of (rev hs) p" for p
    by (simp add: register_all_lookup NewRegistry_def split: option.splits)
  have "set (keys ?r) = {p. map_of ?r p \<noteq> None}" by (auto simp: map_of_eq_None_iff image_iff)
  also have "\<dots> = fst ` set hs" by (auto simp: look map_of_eq_None_iff image_iff)
  finally have ks: "set (keys ?r) = fst ` set hs" .
  have d: "distinct (keys ?r)" by (simp add: register_all_distinct NewRegistry_def)
  have l: "registry_List ?r = sorted_list_of_set (fst ` set hs)"
    unfolding registry_List_def
    by (rule sorted_distinct_set_unique) (use d ks in simp_all)
  have "name \<notin> set (registry_List ?r) \<longleftrightarrow> map_of (rev hs) name = None"
    by (simp add: l map_of_eq_None_iff)
  moreover have "root_Lookup I (NewRoot ?r sec nsec uid gid) name s =
        (case map_of (rev hs) name of
           None \<Rightarrow> (Returns (None, ENOENT), s)
         | Some h \<Rightarrow> andThen (hd_Getattr I h) (\<lambda>(attr, e). returning (if e \<noteq> OK then (None, e)
             else (Some (\<lparr>dp_handler = h, dp_node = None, dp_isRoot = True, dp_uid = uid, dp_gid = gid\<rparr>,
                         (S_IFDIR, 0), Some \<lparr>eo_attr = attr, eo_uid = uid, eo_gid = gid\<rparr>), OK))) s)"
    by (simp add: root_Lookup_def NewRoot_def registry_Lookup_def look returning_def split: option.splits cong: if_cong)
  ultimately show ?thesis by (simp add: root_Readdir_def NewRoot_def l comp_def)
qed

text \<open>The values reported are those of the last answer of the callback, the cache included.\<close>

text \<open>
  The block counts fit the quota: what is reported is the quota rounded down to blocks, at most the total is
  free as long as the used storage is not negative, nothing is free when more is used than there is, and an
  unknown quota is reported as zero blocks; the constant fields are always the same.
\<close>

theorem statfs_bounds:
  assumes "t \<le> maxInt64" and "- (2 ^ 63) \<le> u" and "u \<le> maxInt64"
  shows "sf_Bsize (statfs_blocks t u) = 4096 \<and> sf_Frsize (statfs_blocks t u) = 4096
    \<and> sf_Bavail (statfs_blocks t u) = sf_Bfree (statfs_blocks t u)
    \<and> 0 \<le> sf_Bfree (statfs_blocks t u)
    \<and> (t \<le> 0 \<longrightarrow> sf_Blocks (statfs_blocks t u) = 0 \<and> sf_Bfree (statfs_blocks t u) = 0)
    \<and> (0 < t \<longrightarrow> sf_Blocks (statfs_blocks t u) * 4096 \<le> t \<and> t < (sf_Blocks (statfs_blocks t u) + 1) * 4096)
    \<and> (0 < t \<and> 0 \<le> u \<longrightarrow> sf_Bfree (statfs_blocks t u) = max 0 (t - u) div 4096
                         \<and> sf_Bfree (statfs_blocks t u) \<le> sf_Blocks (statfs_blocks t u))
    \<and> (0 \<le> u \<and> t \<le> u \<longrightarrow> sf_Bfree (statfs_blocks t u) = 0)"
proof -
  have "0 < t \<Longrightarrow> 0 \<le> u \<Longrightarrow> wrap64 (t - u) = t - u"
    using assms by (intro wrap64_id) (simp_all add: maxInt64_def)
  then show ?thesis
    by (auto simp: statfs_blocks_def statfsBlockSize_def Let_def zdiv_mono1 max_def)
qed

lemma statfs_bounds_witness:
  "sf_Blocks (statfs_blocks 10000 4000) * 4096 \<le> 10000 \<and> sf_Bfree (statfs_blocks 10000 4000) = 1"
  using statfs_bounds [of 10000 4000] by (simp add: maxInt64_def)

text \<open>A quota with negative use reports more free blocks than there are.\<close>

lemma negative_use: "sf_Bfree (statfs_blocks 8192 (-4096)) > sf_Blocks (statfs_blocks 8192 (-4096))"
  by (simp add: statfs_blocks_def statfsBlockSize_def maxInt64_def)

fun statfs_calls :: "(int \<times> int) list \<Rightarrow> ('s, 'h) RootNode \<Rightarrow> ('s, StatfsOut list \<times> ('s, 'h) RootNode) op" where
  "statfs_calls [] r = returning ([], r)"
| "statfs_calls ((t0, t1) # ts) r =
     andThen (root_Statfs t0 t1 r)
       (\<lambda>(out, r1). andThen (statfs_calls ts r1) (\<lambda>(outs, r2). returning (out # outs, r2)))"

lemma statfs_hit:
  assumes "rn_quota r \<noteq> None" and "rn_quotaValid r" and "t0 - rn_quotaAt r < quotaCacheTTL"
  shows "root_Statfs t0 t1 r s = (Returns (statfs_blocks (rn_quotaTotal r) (rn_quotaUsed r), r), s)"
  using assms by (auto simp: root_Statfs_def currentQuota_def andThen_def returning_def)

lemma statfs_hits:
  "rn_quota r \<noteq> None \<Longrightarrow> rn_quotaValid r \<Longrightarrow> (\<forall>x\<in>set ts. fst x - rn_quotaAt r < quotaCacheTTL) \<Longrightarrow>
   statfs_calls ts r s = (Returns (replicate (length ts) (statfs_blocks (rn_quotaTotal r) (rn_quotaUsed r)), r), s)"
proof (induction ts)
  case (Cons x ts)
  obtain t0 t1 where x: "x = (t0, t1)" by (cases x)
  from Cons.prems x have h: "root_Statfs t0 t1 r s = (Returns (statfs_blocks (rn_quotaTotal r) (rn_quotaUsed r), r), s)"
    by (intro statfs_hit) simp_all
  from Cons have "statfs_calls ts r s = (Returns (replicate (length ts) (statfs_blocks (rn_quotaTotal r) (rn_quotaUsed r)), r), s)"
    by simp
  with h x show ?case by (simp add: andThen_def returning_def)
qed (simp add: returning_def)

text \<open>
  Once the quota has been fetched, every statfs of the next minute is answered from it without asking the
  service again; a fetch that fails later leaves the last figures in place and is reported as them.
\<close>

theorem quota_cached:
  assumes q: "rn_quota r = Some quota"
    and miss: "\<not> (rn_quotaValid r \<and> t0 - rn_quotaAt r < quotaCacheTTL)"
    and ok: "quota s = (Returns (Some (t, u)), s1)"
    and soon: "\<forall>x\<in>set ts. fst x < t1 + quotaCacheTTL"
    and late: "t1 + quotaCacheTTL \<le> t2" and fails: "quota s1 = (Returns None, s2)"
  shows "\<exists>r'. statfs_calls ((t0, t1) # ts) r s = (Returns (replicate (Suc (length ts)) (statfs_blocks t u), r'), s1)
    \<and> root_Statfs t2 t3 r' s1 = (Returns (statfs_blocks t u, r'), s2)"
proof -
  let ?r = "r\<lparr>rn_quotaTotal := t, rn_quotaUsed := u, rn_quotaAt := t1, rn_quotaValid := True\<rparr>"
  have first: "root_Statfs t0 t1 r s = (Returns (statfs_blocks t u, ?r), s1)"
    using q miss ok by (auto simp: root_Statfs_def currentQuota_def andThen_def returning_def)
  have "statfs_calls ts ?r s1 = (Returns (replicate (length ts) (statfs_blocks t u), ?r), s1)"
    using statfs_hits [of ?r ts s1] q soon by force
  with first have "statfs_calls ((t0, t1) # ts) r s = (Returns (replicate (Suc (length ts)) (statfs_blocks t u), ?r), s1)"
    by (simp add: andThen_def returning_def)
  moreover have "root_Statfs t2 t3 ?r s1 = (Returns (statfs_blocks t u, ?r), s2)"
    using q late fails by (simp add: root_Statfs_def currentQuota_def andThen_def returning_def)
  ultimately show ?thesis by blast
qed

text \<open>A callback that answers once.\<close>

definition one_answer :: "nat quotaFunc" where
  "one_answer s = (Returns (if s = 0 then Some (10000, 4000) else None), s + 1)"

lemma quota_cached_witness:
  "\<exists>r'. statfs_calls [(5, 9), (20, 21), (30, 31)] (demo_root\<lparr>rn_quota := Some one_answer\<rparr>) 0
      = (Returns (replicate (Suc (length [(20 :: int, 21 :: int), (30, 31)])) (statfs_blocks 10000 4000), r'), 1)
    \<and> root_Statfs (9 + quotaCacheTTL) 0 r' 1 = (Returns (statfs_blocks 10000 4000, r'), 2)"
  by (rule quota_cached [where quota = one_answer])
    (simp_all add: demo_root_def NewRoot_def one_answer_def quotaCacheTTL_def)

end
