(* ===== verification/DrivePath.thy ===== *)
theory DrivePath
  imports DriveReaddir ShortID
begin

text \<open>
  From a path of the command line to a share and a link: the normalisation of \<^verbatim>\<open>api/drive/path.go\<close>, the URIs of
  \<^verbatim>\<open>internal/cli/drive/path.go\<close>, the resolution of shares in \<^verbatim>\<open>api/drive/client_share.go\<close> and
  \<^verbatim>\<open>client_path.go\<close>, and the renaming of a share, \<^verbatim>\<open>share_rename.go\<close>.
\<close>

section \<open>Normal paths\<close>

definition trim_prefix :: "string \<Rightarrow> string \<Rightarrow> string" where
  "trim_prefix p s = (if prefix p s then drop (length p) s else s)"

fun join_slash :: "string list \<Rightarrow> string" where
  "join_slash [] = []"
| "join_slash [p] = p"
| "join_slash (p # q # ps) = p @ ''/'' @ join_slash (q # ps)"

fun normal_parts :: "string list \<Rightarrow> string list \<Rightarrow> string list" where
  "normal_parts parts [] = parts"
| "normal_parts parts (p # ps) =
     (if p = [] \<or> p = ''.'' then normal_parts parts ps
      else if p = ''..'' then normal_parts (if parts \<noteq> [] then butlast parts else parts) ps
      else normal_parts (parts @ [p]) ps)"

text \<open>\<open>None\<close> is \<^verbatim>\<open>ErrInvalidPath\<close>.\<close>

definition NormalizePath :: "string \<Rightarrow> string option" where
  "NormalizePath raw =
     (let raw = trim_prefix ''/'' raw;
          trailingSlash = (if suffix ''/'' raw then ''/'' else []);
          result = join_slash (normal_parts [] (split_slash raw)) @ trailingSlash
      in if result = [] \<or> result = ''/'' then None else Some result)"

text \<open>The segments of a normal path.\<close>

definition proper :: "string \<Rightarrow> bool" where
  "proper p \<longleftrightarrow> p \<noteq> [] \<and> p \<noteq> ''.'' \<and> p \<noteq> ''..'' \<and> CHR ''/'' \<notin> set p"

lemma split_slash_nonempty [simp]: "split_slash s \<noteq> []"
  by (induction s) (auto split: list.split)

lemma split_slash_clean: "p \<in> set (split_slash s) \<Longrightarrow> CHR ''/'' \<notin> set p"
  by (induction s arbitrary: p) (auto split: if_splits list.splits)

lemma split_word: "CHR ''/'' \<notin> set p \<Longrightarrow> split_slash p = [p]"
  by (induction p) auto

lemma split_cons: "CHR ''/'' \<notin> set p \<Longrightarrow> split_slash (p @ CHR ''/'' # s) = p # split_slash s"
  by (induction p) (auto split: list.split)

lemma split_join: "ps \<noteq> [] \<Longrightarrow> \<forall>p\<in>set ps. CHR ''/'' \<notin> set p \<Longrightarrow> split_slash (join_slash ps) = ps"
  by (induction ps rule: join_slash.induct) (simp_all add: split_word split_cons)

lemma split_join_trailing:
  "ps \<noteq> [] \<Longrightarrow> \<forall>p\<in>set ps. CHR ''/'' \<notin> set p \<Longrightarrow> split_slash (join_slash ps @ ''/'') = ps @ [[]]"
  by (induction ps rule: join_slash.induct) (simp_all add: split_cons)

lemma normal_parts_proper:
  "\<forall>p\<in>set parts. proper p \<Longrightarrow> \<forall>p\<in>set ps. CHR ''/'' \<notin> set p \<Longrightarrow> \<forall>p\<in>set (normal_parts parts ps). proper p"
proof (induction parts ps rule: normal_parts.induct)
  case (2 parts p ps)
  have b: "\<forall>x\<in>set (butlast parts). proper x" using "2.prems"(1) by (auto dest: in_set_butlastD)
  have c: "\<forall>x\<in>set ps. CHR ''/'' \<notin> set x" "CHR ''/'' \<notin> set p" using "2.prems"(2) by auto
  show ?case
  proof (cases "p = [] \<or> p = ''.''")
    case True
    then show ?thesis using "2.IH"(1)[OF True "2.prems"(1) c(1)] by auto
  next
    case skip: False
    show ?thesis
    proof (cases "p = ''..''")
      case True
      show ?thesis using "2.IH"(2)[OF skip True _ c(1)] b "2.prems"(1) skip True by auto
    next
      case False
      then have "proper p" using skip c(2) by (simp add: proper_def)
      then have "\<forall>x\<in>set (parts @ [p]). proper x" using "2.prems"(1) by simp
      from "2.IH"(3)[OF skip False this c(1)] skip False show ?thesis by (simp only: normal_parts.simps if_False)
    qed
  qed
qed simp

lemma normal_parts_step: "proper p \<Longrightarrow> normal_parts parts (p # ps) = normal_parts (parts @ [p]) ps"
  by (simp add: proper_def)

lemma normal_parts_id: "\<forall>p\<in>set ps. proper p \<Longrightarrow> normal_parts parts (ps @ qs) = normal_parts (parts @ ps) qs"
  by (induction ps arbitrary: parts) (simp_all add: normal_parts_step del: normal_parts.simps)

lemma proper_ends: "proper p \<Longrightarrow> p \<noteq> [] \<and> hd p \<noteq> CHR ''/'' \<and> last p \<noteq> CHR ''/''"
  unfolding proper_def using hd_in_set[of p] last_in_set[of p] by metis

lemma join_not_slash: "ps \<noteq> [] \<Longrightarrow> \<forall>p\<in>set ps. proper p \<Longrightarrow> join_slash ps \<noteq> [] \<and> hd (join_slash ps) \<noteq> CHR ''/''"
  by (induction ps rule: join_slash.induct) (simp_all add: proper_ends)

lemma join_no_suffix: "ps \<noteq> [] \<Longrightarrow> \<forall>p\<in>set ps. proper p \<Longrightarrow> last (join_slash ps) \<noteq> CHR ''/''"
proof (induction ps rule: join_slash.induct)
  case (3 p q ps)
  then show ?case using join_not_slash[of "q # ps"] by simp
qed (simp_all add: proper_ends)

lemma normalize_parts:
  assumes "NormalizePath raw = Some p"
  obtains ps t where "ps \<noteq> []" "\<forall>x\<in>set ps. proper x" "t = [] \<or> t = ''/''" "p = join_slash ps @ t"
    "ps = normal_parts [] (split_slash (trim_prefix ''/'' raw))"
proof -
  let ?ps = "normal_parts [] (split_slash (trim_prefix ''/'' raw))"
  have pr: "\<forall>x\<in>set ?ps. proper x"
    by (rule normal_parts_proper) (use split_slash_clean in auto)
  show thesis
  proof (rule that[of ?ps "if suffix ''/'' (trim_prefix ''/'' raw) then ''/'' else []"])
    show "?ps \<noteq> []" using assms by (auto simp: NormalizePath_def Let_def split: if_splits)
    show "p = join_slash ?ps @ (if suffix ''/'' (trim_prefix ''/'' raw) then ''/'' else [])"
      using assms by (auto simp: NormalizePath_def Let_def split: if_splits)
  qed (use pr in auto)
qed

lemma normalize_form:
  assumes "NormalizePath raw = Some p"
  shows "NormalizePath p = Some p \<and>
    (\<exists>ps t. ps \<noteq> [] \<and> (\<forall>x\<in>set ps. proper x) \<and> t \<in> {[], ''/''} \<and> p = join_slash ps @ t)"
proof -
  from assms obtain ps t where ps: "ps \<noteq> []" "\<forall>x\<in>set ps. proper x" and t: "t = [] \<or> t = ''/''" and p: "p = join_slash ps @ t"
    by (rule normalize_parts)
  have cl: "\<forall>x\<in>set ps. CHR ''/'' \<notin> set x" using ps(2) by (simp add: proper_def)
  have ne: "join_slash ps \<noteq> []" "hd (join_slash ps) \<noteq> CHR ''/''" using join_not_slash[OF ps] by auto
  then have trim: "trim_prefix ''/'' p = p"
    unfolding p by (cases "join_slash ps") (auto simp: trim_prefix_def)
  have norm: "normal_parts [] (split_slash p) = ps"
    using t normal_parts_id[OF ps(2), of "[]" "[]"] normal_parts_id[OF ps(2), of "[]" "[[]]"]
    by (auto simp: p split_join[OF ps(1) cl] split_join_trailing[OF ps(1) cl])
  have suf: "suffix ''/'' p \<longleftrightarrow> t = ''/''"
  proof (cases "t = ''/''")
    case False
    with t have "p = join_slash ps" by (simp add: p)
    with join_no_suffix[OF ps] ne(1) show ?thesis using False by (auto simp: suffix_def)
  qed (simp add: p suffix_def)
  have nt: "p \<noteq> ''/''" "p \<noteq> []" using ne unfolding p by (cases "join_slash ps"; simp)+
  have pt: "join_slash ps @ (if t = ''/'' then ''/'' else []) = p" using t by (auto simp: p)
  have "NormalizePath p = Some p"
    using nt ne(1) by (simp add: NormalizePath_def Let_def trim norm suf pt)
  with ps t p show ?thesis by blast
qed

lemma normalize_fixed: "NormalizePath raw = Some p \<Longrightarrow> NormalizePath p = Some p"
  by (rule conjunct1[OF normalize_form])

text \<open>
  C40: a normalised path is a fixed point of the normalisation and consists of proper segments, none of them empty,
  dot or dot-dot, with at most one slash after the last.
\<close>

theorem normalize_idempotent:
  assumes "NormalizePath raw = Some p"
  shows "NormalizePath p = Some p \<and>
    (\<exists>ps t. ps \<noteq> [] \<and> (\<forall>x\<in>set ps. proper x) \<and> t \<in> {[], ''/''} \<and> p = join_slash ps @ t)"
  by (rule normalize_form[OF assms])

lemma normalize_idempotent_witness:
  "NormalizePath (the (NormalizePath ''/a/./b/../c//'')) = Some ''a/c/'' \<and> NormalizePath ''/a/./b/../c//'' = Some ''a/c/''"
proof
  show n: "NormalizePath ''/a/./b/../c//'' = Some ''a/c/''"
    by (simp add: NormalizePath_def Let_def trim_prefix_def suffix_def)
  show "NormalizePath (the (NormalizePath ''/a/./b/../c//'')) = Some ''a/c/''"
    using normalize_idempotent[OF n] n by simp
qed

section \<open>URIs\<close>

datatype uriErr = UriNoScheme string | UriNoShare

text \<open>\<^verbatim>\<open>strings.SplitN(s, "/", 2)\<close>: the text before the first slash, and after it if there is one.\<close>

definition cut_slash :: "string \<Rightarrow> string \<times> string option" where
  "cut_slash s = (case dropWhile (\<lambda>c. c \<noteq> CHR ''/'') s of
                    [] \<Rightarrow> (takeWhile (\<lambda>c. c \<noteq> CHR ''/'') s, None)
                  | _ # rest \<Rightarrow> (takeWhile (\<lambda>c. c \<noteq> CHR ''/'') s, Some rest))"

definition parseProtonURI :: "string \<Rightarrow> uriErr + string \<times> string" where
  "parseProtonURI rawPath =
     (if \<not> prefix ''proton://'' rawPath then Inl (UriNoScheme rawPath)
      else let remainder = trim_prefix ''proton://'' rawPath
           in if remainder = [] then Inl UriNoShare
              else if prefix ''/'' remainder
              then (let pathPart = trim_prefix ''/'' remainder
                    in if pathPart = [] then Inr ([], [])
                       else Inr ([], case NormalizePath pathPart of None \<Rightarrow> [] | Some p \<Rightarrow> p))
              else (case cut_slash remainder of
                      (sharePart, None) \<Rightarrow> Inr (sharePart, [])
                    | (sharePart, Some rest) \<Rightarrow>
                        if rest = [] then Inr (sharePart, [])
                        else Inr (sharePart, case NormalizePath rest of None \<Rightarrow> [] | Some p \<Rightarrow> p)))"

definition parsePath :: "string \<Rightarrow> string" where
  "parsePath rawPath =
     (case parseProtonURI rawPath of
        Inl _ \<Rightarrow> []
      | Inr (sharePart, pathPart) \<Rightarrow>
          if sharePart = [] \<and> pathPart = [] then []
          else if pathPart = [] then sharePart
          else if sharePart = [] then pathPart
          else sharePart @ ''/'' @ pathPart)"

lemma cut_slash_word: "CHR ''/'' \<notin> set w \<Longrightarrow> cut_slash (w @ CHR ''/'' # s) = (w, Some s)"
proof -
  assume "CHR ''/'' \<notin> set w"
  then have w: "\<forall>c\<in>set w. c \<noteq> CHR ''/''" by auto
  have "dropWhile (\<lambda>c. c \<noteq> CHR ''/'') (w @ CHR ''/'' # s) = CHR ''/'' # s"
    "takeWhile (\<lambda>c. c \<noteq> CHR ''/'') (w @ CHR ''/'' # s) = w"
    using w by (simp_all add: dropWhile_append2 takeWhile_append2)
  then show ?thesis by (simp add: cut_slash_def)
qed

lemma trim_prefix_append [simp]: "trim_prefix p (p @ s) = s"
  by (simp add: trim_prefix_def)

lemma trim_uri: "trim_prefix ''proton://'' (CHR ''p'' # CHR ''r'' # CHR ''o'' # CHR ''t'' # CHR ''o'' # CHR ''n'' # CHR '':'' # CHR ''/'' # CHR ''/'' # s) = s"
  by (simp add: trim_prefix_def)

lemma cut_slash_share: "cut_slash s = (w, r) \<Longrightarrow> CHR ''/'' \<notin> set w"
  by (auto simp: cut_slash_def split: list.splits dest: set_takeWhileD)

text \<open>
  C37: a URI is its share and its path.  Written out for a share without slashes and a normalised path it is parsed
  into them, the empty share being the root share, and whatever is accepted is a share without slashes and a path
  that is empty or normalised.
\<close>

theorem uri_roundtrip:
  assumes "CHR ''/'' \<notin> set sh" and "NormalizePath p = Some p"
  shows "parseProtonURI (''proton://'' @ sh @ ''/'' @ p) = Inr (sh, p) \<and>
    (\<forall>raw sh' p'. parseProtonURI raw = Inr (sh', p') \<longrightarrow> CHR ''/'' \<notin> set sh' \<and> (p' = [] \<or> NormalizePath p' = Some p'))"
proof
  have ne: "p \<noteq> []" using assms(2) by (auto simp: NormalizePath_def trim_prefix_def suffix_def)
  show "parseProtonURI (''proton://'' @ sh @ ''/'' @ p) = Inr (sh, p)"
  proof (cases sh)
    case Nil
    then show ?thesis using assms(2) ne by (simp add: parseProtonURI_def Let_def trim_uri) (simp add: trim_prefix_def)
  next
    case (Cons c cs)
    have "cut_slash (sh @ CHR ''/'' # p) = (sh, Some p)" by (rule cut_slash_word[OF assms(1)])
    then show ?thesis using assms ne Cons by (simp add: parseProtonURI_def Let_def trim_uri)
  qed
  show "\<forall>raw sh' p'. parseProtonURI raw = Inr (sh', p') \<longrightarrow> CHR ''/'' \<notin> set sh' \<and> (p' = [] \<or> NormalizePath p' = Some p')"
  proof (intro allI impI)
    fix raw sh' p'
    assume "parseProtonURI raw = Inr (sh', p')"
    then show "CHR ''/'' \<notin> set sh' \<and> (p' = [] \<or> NormalizePath p' = Some p')"
      by (auto simp: parseProtonURI_def Let_def split: if_splits prod.splits option.splits dest: cut_slash_share normalize_fixed)
  qed
qed

lemma uri_roundtrip_witness: "parseProtonURI ''proton://Photos/2024/a.jpg'' = Inr (''Photos'', ''2024/a.jpg'')"
proof -
  have "NormalizePath ''2024/a.jpg'' = Some ''2024/a.jpg''"
    by (simp add: NormalizePath_def Let_def trim_prefix_def suffix_def)
  from conjunct1[OF uri_roundtrip[OF _ this, of "''Photos''"]] show ?thesis by simp
qed

text \<open>
  The display form forgets whether the share was the root share: \<^verbatim>\<open>mv\<close> builds the parent of its destination from it
  and so looks for a share with the name of the first folder.
\<close>

lemma parsePath_forgets_root:
  "parsePath ''proton:///docs/new'' = parsePath ''proton://docs/new''"
  "parseProtonURI ''proton:///docs/new'' = Inr ([], ''docs/new'')"
  "parseProtonURI ''proton://docs/new'' = Inr (''docs'', ''new'')"
  by (simp_all add: parsePath_def parseProtonURI_def trim_prefix_def cut_slash_def NormalizePath_def Let_def suffix_def)

section \<open>Shares\<close>

datatype ShareType = ShareTypeMain | ShareTypeStandard | ShareTypeDevice | ShareTypePhotos | ShareTypeOther nat

record ShareMetadata =
  sm_ShareID :: string
  sm_LinkID :: string
  sm_VolumeID :: string
  sm_Type :: ShareType
  sm_Creator :: string

record protonShare =
  ps_meta :: ShareMetadata
  ps_AddressID :: string
  ps_Key :: string

text \<open>A resolved share: \<open>rs_share\<close> is the part of it its links read.\<close>

record 'kr rootShare =
  rs_proton :: protonShare
  rs_keyRing :: "'kr option"
  rs_link :: lref
  rs_share :: Share

abbreviation rs_type :: "'kr rootShare \<Rightarrow> ShareType" where
  "rs_type s \<equiv> sm_Type (ps_meta (rs_proton s))"

abbreviation rs_ID :: "'kr rootShare \<Rightarrow> string" where
  "rs_ID s \<equiv> sm_ShareID (ps_meta (rs_proton s))"

datatype shareErr = ShApi string | ShNoAddressKey string string | ShKeyRing string | ShNotFound | ShAmbiguous string
  | ShPath readErr | ShShortID shortidErr | ErrNotStandardShare | ShName string | ShNilKeyRing string | ShRename string string
  | ShURI uriErr | ErrInvalidPath

text \<open>The API client for shares, and what renaming asks of cryptography and randomness.\<close>

record ('dv, 'h, 'kr) shareEnv =
  se_env :: "('dv, 'h, 'kr) driveEnv"
  se_order :: "nat \<Rightarrow> nat list"
  se_extra :: nat
  se_ListShares :: "bool \<Rightarrow> 'h \<Rightarrow> (string + ShareMetadata list) \<times> 'h"
  se_GetShare :: "string \<Rightarrow> 'h \<Rightarrow> (string + protonShare) \<times> 'h"
  se_encryptName :: "'kr \<Rightarrow> 'kr \<Rightarrow> string \<Rightarrow> string + string"
  se_random :: "'h \<Rightarrow> (string + string) \<times> 'h"
  se_hash :: "protonLink \<Rightarrow> string"
  se_PutRename :: "string \<Rightarrow> string \<Rightarrow> string \<times> string \<times> string \<times> string \<Rightarrow> 'h \<Rightarrow> string option \<times> 'h"

definition FormatShareType :: "ShareType \<Rightarrow> string" where
  "FormatShareType st =
     (case st of ShareTypeMain \<Rightarrow> ''main'' | ShareTypeStandard \<Rightarrow> ''shared'' | ShareTypeDevice \<Rightarrow> ''device''
      | ShareTypePhotos \<Rightarrow> ''photos'' | ShareTypeOther n \<Rightarrow> ''unknown('' @ showNat n @ '')'')"

definition share_IsSystemShare :: "'kr rootShare \<Rightarrow> bool" where
  "share_IsSystemShare s \<longleftrightarrow> rs_type s = ShareTypeMain \<or> rs_type s = ShareTypePhotos \<or> rs_type s = ShareTypeDevice"

definition share_IsShared :: "'kr rootShare \<Rightarrow> bool" where
  "share_IsShared s \<longleftrightarrow> rs_type s = ShareTypeStandard"

definition ListSharesMetadata ::
    "('dv, 'h, 'kr) shareEnv \<Rightarrow> bool \<Rightarrow> ('dv, 'h, 'kr) Client \<Rightarrow> (shareErr + ShareMetadata list) \<times> ('dv, 'h, 'kr) Client" where
  "ListSharesMetadata S allShares c =
     (case se_ListShares S allShares (bs_net (dc_store c)) of
        (Inl e, h) \<Rightarrow> (Inl (ShApi e), set_net h c) | (Inr ms, h) \<Rightarrow> (Inr ms, set_net h c))"

text \<open>The cache levels of a share.\<close>

definition applyShareConfig :: "('dv, 'h, 'kr) Client \<Rightarrow> protonShare \<Rightarrow> Share \<Rightarrow> Share" where
  "applyShareConfig c ps share =
     (let share1 = share\<lparr>sh_MemoryCacheLevel := CacheMetadata\<rparr>
      in if sm_Type (ps_meta ps) = ShareTypeMain \<or> sm_Type (ps_meta ps) = ShareTypePhotos
         then share1\<lparr>sh_DiskCacheLevel := DiskCacheDisabled\<rparr>
         else case dc_Shares c of
                None \<Rightarrow> share1
              | Some shares \<Rightarrow>
                  (case map_of shares (sm_ShareID (ps_meta ps)) of
                     None \<Rightarrow> share1 | Some sc \<Rightarrow> share1\<lparr>sh_DiskCacheLevel := sc_DiskCache sc\<rparr>))"

definition NewShare :: "protonShare \<Rightarrow> Share" where
  "NewShare ps =
     \<lparr>sh_ShareID = sm_ShareID (ps_meta ps), sh_AddressID = ps_AddressID ps, sh_Key = ps_Key ps,
      sh_VolumeID = sm_VolumeID (ps_meta ps), sh_MemoryCacheLevel = CacheDisabled, sh_DiskCacheLevel = DiskCacheDisabled\<rparr>"

definition GetShare ::
    "('dv, 'h, 'kr) shareEnv \<Rightarrow> string \<Rightarrow> ('dv, 'h, 'kr) Client \<Rightarrow> (shareErr + 'kr rootShare) \<times> ('dv, 'h, 'kr) Client" where
  "GetShare S i c =
     (case se_GetShare S i (bs_net (dc_store c)) of
        (Inl e, h) \<Rightarrow> (Inl (ShApi e), set_net h c)
      | (Inr ps, h) \<Rightarrow>
          let c1 = set_net h c
          in case map_of (dc_addressKeyRings c1) (ps_AddressID ps) of
               None \<Rightarrow> (Inl (ShNoAddressKey i (ps_AddressID ps)), c1)
             | Some addrKR \<Rightarrow>
                 (case de_ShareKeyRing (se_env S) (ps_Key ps) addrKR of
                    Inl e \<Rightarrow> (Inl (ShKeyRing e), c1)
                  | Inr shareKR \<Rightarrow>
                      (case de_GetLink (se_env S) (sm_ShareID (ps_meta ps)) (sm_LinkID (ps_meta ps)) (bs_net (dc_store c1)) of
                         (Inl e, h2) \<Rightarrow> (Inl (ShApi e), set_net h2 c1)
                       | (Inr p, h2) \<Rightarrow>
                           let share = applyShareConfig c ps (NewShare ps)
                           in case alloc_link (NewLink p None (Some share)) (set_net h2 c1) of
                                (r, c2) \<Rightarrow>
                                  (Inr \<lparr>rs_proton = ps, rs_keyRing = Some shareKR, rs_link = r, rs_share = share\<rparr>,
                                   putLink (pl_LinkID p) r c2))))"

definition ResolveShareByType ::
    "('dv, 'h, 'kr) shareEnv \<Rightarrow> ShareType \<Rightarrow> ('dv, 'h, 'kr) Client \<Rightarrow> (shareErr + 'kr rootShare) \<times> ('dv, 'h, 'kr) Client" where
  "ResolveShareByType S st c =
     (case ListSharesMetadata S True c of
        (Inl e, c1) \<Rightarrow> (Inl e, c1)
      | (Inr metas, c1) \<Rightarrow>
          (case find (\<lambda>m. sm_Type m = st) metas of None \<Rightarrow> (Inl ShNotFound, c1) | Some m \<Rightarrow> GetShare S (sm_ShareID m) c1))"

text \<open>The scan of all shares: the last match of either kind, and how many there are.\<close>

record 'kr scan =
  sn_name :: "'kr rootShare option"
  sn_names :: nat
  sn_id :: "'kr rootShare option"
  sn_ids :: nat

definition scan_one ::
    "('dv, 'h, 'kr) shareEnv \<Rightarrow> string \<Rightarrow> ShareMetadata \<Rightarrow> 'kr scan \<Rightarrow> ('dv, 'h, 'kr) Client
      \<Rightarrow> 'kr scan \<times> ('dv, 'h, 'kr) Client" where
  "scan_one S nameOrID m a c =
     (case GetShare S (sm_ShareID m) c of
        (Inl _, c1) \<Rightarrow> (a, c1)
      | (Inr share, c1) \<Rightarrow>
          let a1 = (if prefix nameOrID (sm_ShareID m) then a\<lparr>sn_id := Some share, sn_ids := sn_ids a + 1\<rparr> else a)
          in case link_Name (se_env S) (rs_link share) c1 of
               (Inl _, c2) \<Rightarrow> (a1, c2)
             | (Inr n, c2) \<Rightarrow> (if n = nameOrID then a1\<lparr>sn_name := Some share, sn_names := sn_names a1 + 1\<rparr> else a1, c2))"

fun scan_shares ::
    "('dv, 'h, 'kr) shareEnv \<Rightarrow> string \<Rightarrow> ShareMetadata list \<Rightarrow> 'kr scan \<Rightarrow> ('dv, 'h, 'kr) Client
      \<Rightarrow> 'kr scan \<times> ('dv, 'h, 'kr) Client" where
  "scan_shares S nameOrID [] a c = (a, c)"
| "scan_shares S nameOrID (m # ms) a c = (case scan_one S nameOrID m a c of (a1, c1) \<Rightarrow> scan_shares S nameOrID ms a1 c1)"

definition scan_result :: "string \<Rightarrow> 'kr scan \<Rightarrow> shareErr + 'kr rootShare" where
  "scan_result nameOrID a =
     (if sn_names a = 1 \<and> sn_ids a = 0 then Inr (the (sn_name a))
      else if sn_names a = 0 \<and> sn_ids a = 1 then Inr (the (sn_id a))
      else if sn_names a = 1 \<and> sn_ids a = 1
      then (if rs_ID (the (sn_name a)) = rs_ID (the (sn_id a)) then Inr (the (sn_name a)) else Inl (ShAmbiguous nameOrID))
      else if sn_names a > 1 then Inl (ShAmbiguous nameOrID)
      else if sn_ids a > 1 then Inl (ShAmbiguous nameOrID)
      else Inl ShNotFound)"

definition ResolveShare ::
    "('dv, 'h, 'kr) shareEnv \<Rightarrow> string \<Rightarrow> bool \<Rightarrow> ('dv, 'h, 'kr) Client \<Rightarrow> (shareErr + 'kr rootShare) \<times> ('dv, 'h, 'kr) Client" where
  "ResolveShare S nameOrID allShares c =
     (case ListSharesMetadata S allShares c of
        (Inl e, c1) \<Rightarrow> (Inl e, c1)
      | (Inr metas, c1) \<Rightarrow>
          if nameOrID \<in> sm_ShareID ` set metas then GetShare S nameOrID c1
          else (case scan_shares S nameOrID metas \<lparr>sn_name = None, sn_names = 0, sn_id = None, sn_ids = 0\<rparr> c1 of
                  (a, c2) \<Rightarrow> (scan_result nameOrID a, c2)))"

definition ResolveShareComponent ::
    "('dv, 'h, 'kr) shareEnv \<Rightarrow> string \<Rightarrow> ('dv, 'h, 'kr) Client \<Rightarrow> (shareErr + 'kr rootShare) \<times> ('dv, 'h, 'kr) Client" where
  "ResolveShareComponent S sharePart c =
     (if sharePart = [] then ResolveShareByType S ShareTypeMain c
      else if prefix ''{'' sharePart \<and> suffix ''}'' sharePart then GetShare S (butlast (tl sharePart)) c
      else if sharePart = ''Photos'' then ResolveShareByType S ShareTypePhotos c
      else ResolveShare S sharePart True c)"

definition resolve_in_share ::
    "('dv, 'h, 'kr) shareEnv \<Rightarrow> 'kr rootShare \<Rightarrow> string \<Rightarrow> ('dv, 'h, 'kr) Client
      \<Rightarrow> (shareErr + lref \<times> 'kr rootShare) \<times> ('dv, 'h, 'kr) Client" where
  "resolve_in_share S share pathPart c =
     (if pathPart = [] then (Inr (rs_link share, share), c)
      else (case ResolvePath (se_env S) (se_order S) (se_extra S) (rs_link share) pathPart c of
              (Inl e, c1) \<Rightarrow> (Inl (ShPath e), c1) | (Inr r, c1) \<Rightarrow> (Inr (r, share), c1)))"

definition ResolveDrivePath ::
    "('dv, 'h, 'kr) shareEnv \<Rightarrow> string \<Rightarrow> ('dv, 'h, 'kr) Client
      \<Rightarrow> (shareErr + lref \<times> 'kr rootShare) \<times> ('dv, 'h, 'kr) Client" where
  "ResolveDrivePath S rawPath c =
     (case NormalizePath rawPath of
        None \<Rightarrow> (Inl ErrInvalidPath, c)
      | Some path \<Rightarrow>
          (case cut_slash path of
             (sharePart, rest) \<Rightarrow>
               (case ResolveShareComponent S sharePart c of
                  (Inl e, c1) \<Rightarrow> (Inl e, c1)
                | (Inr share, c1) \<Rightarrow> resolve_in_share S share (case rest of None \<Rightarrow> [] | Some p \<Rightarrow> p) c1)))"

definition resolveShareByShortID ::
    "('dv, 'h, 'kr) shareEnv \<Rightarrow> string \<Rightarrow> ('dv, 'h, 'kr) Client \<Rightarrow> (shareErr + 'kr rootShare) \<times> ('dv, 'h, 'kr) Client" where
  "resolveShareByShortID S pfx c =
     (case ListSharesMetadata S True c of
        (Inl e, c1) \<Rightarrow> (Inl e, c1)
      | (Inr metas, c1) \<Rightarrow>
          (case Resolve (map sm_ShareID metas) pfx of Inl e \<Rightarrow> (Inl (ShShortID e), c1) | Inr full \<Rightarrow> GetShare S full c1))"

definition ResolveProtonPath ::
    "('dv, 'h, 'kr) shareEnv \<Rightarrow> string \<Rightarrow> ('dv, 'h, 'kr) Client
      \<Rightarrow> (shareErr + lref \<times> 'kr rootShare) \<times> ('dv, 'h, 'kr) Client" where
  "ResolveProtonPath S rawPath c =
     (case parseProtonURI rawPath of
        Inl e \<Rightarrow> (Inl (ShURI e), c)
      | Inr (sharePart, pathPart) \<Rightarrow>
          (case ResolveShareComponent S sharePart c of
             (Inr share, c1) \<Rightarrow> resolve_in_share S share pathPart c1
           | (Inl e, c1) \<Rightarrow>
               if e = ShNotFound
               then (case resolveShareByShortID S sharePart c1 of
                       (Inr share, c2) \<Rightarrow> resolve_in_share S share pathPart c2
                     | (Inl _, c2) \<Rightarrow> (Inl e, c2))
               else (Inl e, c1)))"

definition VolumeOrigin ::
    "('dv, 'h, 'kr) shareEnv \<Rightarrow> string \<Rightarrow> ('dv, 'h, 'kr) Client \<Rightarrow> string \<times> ('dv, 'h, 'kr) Client" where
  "VolumeOrigin S volumeID c =
     (case ListSharesMetadata S True c of
        (Inl _, c1) \<Rightarrow> (''unknown'', c1)
      | (Inr metas, c1) \<Rightarrow>
          (case find (\<lambda>m. sm_VolumeID m = volumeID \<and> sm_Type m \<in> {ShareTypeMain, ShareTypePhotos}) metas of
             None \<Rightarrow> ''unknown'' | Some m \<Rightarrow> if sm_Type m = ShareTypeMain then ''root'' else ''photos'', c1))"

definition ValidateShareName :: "string \<Rightarrow> string option" where
  "ValidateShareName name =
     (if name = [] then Some ''share name must not be empty''
      else if CHR ''/'' \<in> set name then Some ''share name must not contain path separators''
      else if length name > 255 then Some ''share name must not exceed 255 bytes''
      else None)"

text \<open>\<open>None\<close> is success.  The request carries name, hash, signing address and the original hash.\<close>

definition ShareRename ::
    "('dv, 'h, 'kr) shareEnv \<Rightarrow> 'kr rootShare \<Rightarrow> string \<Rightarrow> ('dv, 'h, 'kr) Client \<Rightarrow> shareErr option \<times> ('dv, 'h, 'kr) Client" where
  "ShareRename S share newName c =
     (if rs_type share \<noteq> ShareTypeStandard then (Some ErrNotStandardShare, c)
      else case ValidateShareName newName of
             Some e \<Rightarrow> (Some (ShName e), c)
           | None \<Rightarrow>
               (case rs_keyRing share of
                  None \<Rightarrow> (Some (ShNilKeyRing (rs_ID share)), c)
                | Some shareKR \<Rightarrow>
                    (case map_of (dc_addressKeyRings c) (ps_AddressID (rs_proton share)) of
                       None \<Rightarrow> (Some (ShNoAddressKey (rs_ID share) (ps_AddressID (rs_proton share))), c)
                     | Some addrKR \<Rightarrow>
                         (case se_encryptName S shareKR addrKR newName of
                            Inl e \<Rightarrow> (Some (ShRename (rs_ID share) e), c)
                          | Inr enc \<Rightarrow>
                              (case se_random S (bs_net (dc_store c)) of
                                 (Inl e, h) \<Rightarrow> (Some (ShRename (rs_ID share) e), set_net h c)
                               | (Inr hash, h) \<Rightarrow>
                                   (case se_PutRename S (rs_ID share) (sm_LinkID (ps_meta (rs_proton share)))
                                           (enc, hash, sm_Creator (ps_meta (rs_proton share)), se_hash S (l_protonLink (lnk c (rs_link share)))) h of
                                      (Some e, h2) \<Rightarrow> (Some (ShRename (rs_ID share) e), set_net h2 c)
                                    | (None, h2) \<Rightarrow> (None, set_net h2 c)))))))"

section \<open>Resolving shares\<close>

text \<open>A service whose answers about shares and their roots do not depend on what was asked before.\<close>

definition share_laws :: "('dv, 'h, 'kr) shareEnv \<Rightarrow> bool" where
  "share_laws S \<longleftrightarrow>
     (\<forall>i h h'. fst (se_GetShare S i h) = fst (se_GetShare S i h')) \<and>
     (\<forall>sid i h h'. fst (de_GetLink (se_env S) sid i h) = fst (de_GetLink (se_env S) sid i h')) \<and>
     (\<forall>i h ps. fst (se_GetShare S i h) = Inr ps \<longrightarrow> sm_ShareID (ps_meta ps) = i)"

text \<open>The name of the share \<open>i\<close>, when it can be opened, as a client sees it that asks for nothing else.\<close>

definition share_name :: "('dv, 'h, 'kr) shareEnv \<Rightarrow> ('dv, 'h, 'kr) Client \<Rightarrow> string \<Rightarrow> string option option" where
  "share_name S c i =
     (case GetShare S i c of
        (Inl _, _) \<Rightarrow> None
      | (Inr s, c1) \<Rightarrow> Some (case fst (link_Name (se_env S) (rs_link s) c1) of Inl _ \<Rightarrow> None | Inr n \<Rightarrow> Some n))"

definition same_keys :: "('dv, 'h, 'kr) Client \<Rightarrow> ('dv, 'h, 'kr) Client \<Rightarrow> bool" where
  "same_keys c c' \<longleftrightarrow> dc_Shares c' = dc_Shares c \<and> dc_addresses c' = dc_addresses c \<and> dc_addressKeyRings c' = dc_addressKeyRings c"

lemma same_keys_refl [simp]: "same_keys c c" by (simp add: same_keys_def)

lemma same_keys_trans: "same_keys c c' \<Longrightarrow> same_keys c' c'' \<Longrightarrow> same_keys c c''"
  by (simp add: same_keys_def)

lemma lnk_alloc [simp]: "lnk (putLink i r (c\<lparr>dc_heap := dc_heap c @ [l]\<rparr>)) (length (dc_heap c)) = l"
  by (simp add: putLink_def)

lemma GetShare_result:
  assumes "GetShare S i c = (Inr s, c')"
  obtains p h where "rs_link s = length (dc_heap c)" "lnk c' (rs_link s) = NewLink p None (Some (rs_share s))"
    "fst (de_GetLink (se_env S) (sm_ShareID (ps_meta (rs_proton s))) (sm_LinkID (ps_meta (rs_proton s))) h) = Inr p"
    "rs_share s = applyShareConfig c (rs_proton s) (NewShare (rs_proton s))"
    "dc_linkTable c' = AList.update (pl_LinkID p) (rs_link s) (dc_linkTable c)"
    "dc_heap c' = dc_heap c @ [lnk c' (rs_link s)]" "same_keys c c'"
    "fst (se_GetShare S i (bs_net (dc_store c))) = Inr (rs_proton s)"
  using assms
  by (auto simp: GetShare_def alloc_link_def Let_def same_keys_def putLink_def split: sum.splits prod.splits option.splits)
    (metis fst_conv)

lemma GetShare_same_keys: "GetShare S i c = (q, c') \<Longrightarrow> same_keys c c'"
  by (auto simp: GetShare_def alloc_link_def Let_def same_keys_def putLink_def split: sum.splits prod.splits option.splits)

lemma root_Name:
  assumes "l_parentLink (lnk c r) = None"
  shows "same_keys c (snd (link_Name E r c))"
  using assms
  by (auto simp: link_Name_def getParentKeyRing_def same_keys_def upd_link_def split: sum.splits prod.splits option.splits)

text \<open>The outcome of \<open>GetShare\<close> and of the name of the root depend only on the service and the keys.\<close>

lemma share_name_stable:
  assumes "share_laws S" "same_keys c c'"
  shows "share_name S c' i = share_name S c i"
proof -
  have g: "fst (se_GetShare S i (bs_net (dc_store c'))) = fst (se_GetShare S i (bs_net (dc_store c)))"
    and l: "\<And>sid j h h'. fst (de_GetLink (se_env S) sid j h) = fst (de_GetLink (se_env S) sid j h')"
    using assms(1) by (auto simp: share_laws_def)
  have k: "dc_Shares c' = dc_Shares c" "dc_addresses c' = dc_addresses c" "dc_addressKeyRings c' = dc_addressKeyRings c"
    using assms(2) by (simp_all add: same_keys_def)
  obtain x h h' where x: "se_GetShare S i (bs_net (dc_store c)) = (x, h)" "se_GetShare S i (bs_net (dc_store c')) = (x, h')"
    using g by (metis prod.collapse)
  show ?thesis
  proof (cases x)
    case (Inl e)
    with x show ?thesis by (simp add: share_name_def GetShare_def)
  next
    case (Inr ps)
    obtain y h2 h2' where y: "de_GetLink (se_env S) (sm_ShareID (ps_meta ps)) (sm_LinkID (ps_meta ps)) h = (y, h2)"
      "de_GetLink (se_env S) (sm_ShareID (ps_meta ps)) (sm_LinkID (ps_meta ps)) h' = (y, h2')"
      using l by (metis prod.collapse)
    show ?thesis
      using x y Inr
      by (simp add: share_name_def GetShare_def Let_def alloc_link_def k applyShareConfig_def link_Name_def getParentKeyRing_def
          share_getKeyRing_def decryptName_def address_keyring_def NewLink_def putLink_def
        split: option.splits sum.splits prod.splits)
  qed
qed

text \<open>What a scan has found among the shares \<open>ms\<close>.\<close>

definition matches_name :: "('dv, 'h, 'kr) shareEnv \<Rightarrow> ('dv, 'h, 'kr) Client \<Rightarrow> string \<Rightarrow> ShareMetadata \<Rightarrow> bool" where
  "matches_name S c n m \<longleftrightarrow> share_name S c (sm_ShareID m) = Some (Some n)"

definition matches_id :: "('dv, 'h, 'kr) shareEnv \<Rightarrow> ('dv, 'h, 'kr) Client \<Rightarrow> string \<Rightarrow> ShareMetadata \<Rightarrow> bool" where
  "matches_id S c n m \<longleftrightarrow> share_name S c (sm_ShareID m) \<noteq> None \<and> prefix n (sm_ShareID m)"

definition tally :: "(ShareMetadata \<Rightarrow> bool) \<Rightarrow> ShareMetadata list \<Rightarrow> nat \<Rightarrow> 'kr rootShare option \<Rightarrow> bool" where
  "tally P ms k found \<longleftrightarrow> k = length (filter P ms) \<and>
     (k \<noteq> 0 \<longrightarrow> (\<exists>s m. found = Some s \<and> m \<in> set ms \<and> P m \<and> rs_ID s = sm_ShareID m))"

definition scanned ::
    "('dv, 'h, 'kr) shareEnv \<Rightarrow> ('dv, 'h, 'kr) Client \<Rightarrow> string \<Rightarrow> ShareMetadata list \<Rightarrow> 'kr scan \<Rightarrow> bool" where
  "scanned S c n ms a \<longleftrightarrow>
     tally (matches_name S c n) ms (sn_names a) (sn_name a) \<and> tally (matches_id S c n) ms (sn_ids a) (sn_id a)"

lemma tally_hit: "tally P ms k found \<Longrightarrow> P m \<Longrightarrow> rs_ID s = sm_ShareID m \<Longrightarrow> tally P (ms @ [m]) (Suc k) (Some s)"
  by (auto simp: tally_def)

lemma tally_miss: "tally P ms k found \<Longrightarrow> \<not> P m \<Longrightarrow> tally P (ms @ [m]) k found"
  by (auto simp: tally_def)

lemma scan_one_scanned:
  assumes "share_laws S" "same_keys c0 c" "scanned S c0 n ms a" "scan_one S n m a c = (a', c')"
  shows "same_keys c0 c' \<and> scanned S c0 n (ms @ [m]) a'"
proof -
  have sn: "share_name S c0 (sm_ShareID m) = share_name S c (sm_ShareID m)"
    using share_name_stable[OF assms(1,2)] by simp
  obtain q c1 where q: "GetShare S (sm_ShareID m) c = (q, c1)" by force
  have k1: "same_keys c0 c1" using assms(2) GetShare_same_keys[OF q] by (rule same_keys_trans)
  show ?thesis
  proof (cases q)
    case (Inl e)
    then have "share_name S c0 (sm_ShareID m) = None" unfolding sn using q by (simp add: share_name_def)
    then have "\<not> matches_name S c0 n m" "\<not> matches_id S c0 n m" by (simp_all add: matches_name_def matches_id_def)
    then show ?thesis using assms(3,4) Inl q k1 by (simp add: scan_one_def scanned_def tally_miss)
  next
    case (Inr s)
    with q have gs: "GetShare S (sm_ShareID m) c = (Inr s, c1)" by simp
    obtain p where r: "l_parentLink (lnk c1 (rs_link s)) = None" and ps: "fst (se_GetShare S (sm_ShareID m) (bs_net (dc_store c))) = Inr (rs_proton s)"
      using gs by (rule GetShare_result) (simp add: NewLink_def)
    have i: "rs_ID s = sm_ShareID m" using ps assms(1) by (auto simp: share_laws_def)
    obtain z c2 where z: "link_Name (se_env S) (rs_link s) c1 = (z, c2)" by force
    have k2: "same_keys c0 c2" using same_keys_trans[OF k1 root_Name[OF r, of "se_env S"]] z by simp
    have v: "share_name S c0 (sm_ShareID m) = Some (case z of Inl _ \<Rightarrow> None | Inr x \<Rightarrow> Some x)"
      unfolding sn using gs z by (simp add: share_name_def)
    have mn: "matches_name S c0 n m \<longleftrightarrow> z = Inr n" and mi: "matches_id S c0 n m \<longleftrightarrow> prefix n (sm_ShareID m)"
      using v by (auto simp: matches_name_def matches_id_def split: sum.splits)
    obtain x where x: "x = (if prefix n (sm_ShareID m) then a\<lparr>sn_id := Some s, sn_ids := sn_ids a + 1\<rparr> else a)" by simp
    have a1: "tally (matches_name S c0 n) ms (sn_names x) (sn_name x)" "tally (matches_id S c0 n) (ms @ [m]) (sn_ids x) (sn_id x)"
      using assms(3) i mi by (auto simp: x scanned_def intro: tally_hit tally_miss)
    have "a' = (if z = Inr n then x\<lparr>sn_name := Some s, sn_names := sn_names x + 1\<rparr> else x)" "c' = c2"
      using assms(4) gs z by (auto simp: scan_one_def Let_def x split: sum.splits)
    then show ?thesis using k2 a1 i mn by (cases "z = Inr n") (auto simp: scanned_def intro: tally_hit tally_miss)
  qed
qed

lemma scan_shares_scanned:
  "share_laws S \<Longrightarrow> same_keys c0 c \<Longrightarrow> scanned S c0 n ms a \<Longrightarrow> scan_shares S n ms' a c = (a', c') \<Longrightarrow>
     scanned S c0 n (ms @ ms') a'"
proof (induction ms' arbitrary: ms a c)
  case (Cons m ms')
  obtain a1 c1 where one: "scan_one S n m a c = (a1, c1)" by force
  with Cons.prems(4) have rest: "scan_shares S n ms' a1 c1 = (a', c')" by simp
  from scan_one_scanned[OF Cons.prems(1-3) one] Cons.IH[OF Cons.prems(1) _ _ rest, of "ms @ [m]"] show ?case by simp
qed simp

lemma filter_single:
  assumes "length (filter P xs) = 1" "x \<in> set xs" "P x" "y \<in> set xs" "P y"
  shows "x = y"
proof -
  obtain z where "filter P xs = [z]" using assms(1) by (cases "filter P xs") auto
  moreover have "x \<in> set (filter P xs)" "y \<in> set (filter P xs)" using assms by auto
  ultimately show ?thesis by simp
qed

text \<open>
  C36: the share a text stands for is never a guess.  It is the share with that identifier, or the only share with
  that name and the only one whose identifier starts with the text, whichever of the two there is; several
  candidates are an error.
\<close>

theorem resolve_share_unique:
  assumes laws: "share_laws S"
    and metas: "fst (se_ListShares S allShares (bs_net (dc_store c))) = Inr metas"
    and found: "fst (ResolveShare S n allShares c) = Inr s"
  shows "rs_ID s = n \<or>
    (\<exists>m\<in>set metas. sm_ShareID m = rs_ID s \<and> (matches_name S c n m \<or> matches_id S c n m)) \<and>
    (\<forall>m\<in>set metas. matches_name S c n m \<or> matches_id S c n m \<longrightarrow> sm_ShareID m = rs_ID s)"
proof -
  obtain h where l: "se_ListShares S allShares (bs_net (dc_store c)) = (Inr metas, h)" using metas by (metis prod.collapse)
  let ?c1 = "set_net h c" and ?a = "\<lparr>sn_name = None, sn_names = 0, sn_id = None, sn_ids = 0\<rparr>"
  have ls: "ListSharesMetadata S allShares c = (Inr metas, ?c1)" using l by (simp add: ListSharesMetadata_def)
  show ?thesis
  proof (cases "n \<in> sm_ShareID ` set metas")
    case True
    with found ls have "fst (GetShare S n ?c1) = Inr s" by (simp add: ResolveShare_def)
    then obtain c2 where "GetShare S n ?c1 = (Inr s, c2)" by (metis prod.collapse)
    then have "fst (se_GetShare S n (bs_net (dc_store ?c1))) = Inr (rs_proton s)" by (rule GetShare_result) simp
    then show ?thesis using laws by (auto simp: share_laws_def)
  next
    case False
    obtain a c2 where sc: "scan_shares S n metas ?a ?c1 = (a, c2)" by force
    have r: "scan_result n a = Inr s" using found ls False sc by (simp add: ResolveShare_def)
    have k: "same_keys c ?c1" by (simp add: same_keys_def)
    have s0: "scanned S c n [] ?a" by (simp add: scanned_def tally_def)
    have sd: "scanned S c n metas a" using scan_shares_scanned[OF laws k s0 sc] by simp
    have nm: "sn_names a \<noteq> 0 \<Longrightarrow> \<exists>t m. sn_name a = Some t \<and> m \<in> set metas \<and> matches_name S c n m \<and> rs_ID t = sm_ShareID m"
      and im: "sn_ids a \<noteq> 0 \<Longrightarrow> \<exists>t m. sn_id a = Some t \<and> m \<in> set metas \<and> matches_id S c n m \<and> rs_ID t = sm_ShareID m"
      and nc: "sn_names a = length (filter (matches_name S c n) metas)"
      and ic: "sn_ids a = length (filter (matches_id S c n) metas)"
      using sd by (auto simp: scanned_def tally_def)
    have n0: "sn_names a = 0 \<Longrightarrow> m \<in> set metas \<Longrightarrow> \<not> matches_name S c n m" for m
      using nc by (simp add: filter_empty_conv)
    have i0: "sn_ids a = 0 \<Longrightarrow> m \<in> set metas \<Longrightarrow> \<not> matches_id S c n m" for m
      using ic by (simp add: filter_empty_conv)
    have n1: "sn_names a = 1 \<Longrightarrow> m \<in> set metas \<Longrightarrow> matches_name S c n m \<Longrightarrow> m' \<in> set metas \<Longrightarrow> matches_name S c n m' \<Longrightarrow> m = m'" for m m'
      using nc by (intro filter_single[of "matches_name S c n" metas]) simp_all
    have i1: "sn_ids a = 1 \<Longrightarrow> m \<in> set metas \<Longrightarrow> matches_id S c n m \<Longrightarrow> m' \<in> set metas \<Longrightarrow> matches_id S c n m' \<Longrightarrow> m = m'" for m m'
      using ic by (intro filter_single[of "matches_id S c n" metas]) simp_all
    consider "sn_names a = 1" "sn_ids a = 0" "s = the (sn_name a)" | "sn_names a = 0" "sn_ids a = 1" "s = the (sn_id a)"
      | "sn_names a = 1" "sn_ids a = 1" "s = the (sn_name a)" "rs_ID s = rs_ID (the (sn_id a))"
      using r by (auto simp: scan_result_def split: if_splits)
    then show ?thesis
    proof cases
      case 1
      then obtain t m where t: "sn_name a = Some t" "m \<in> set metas" "matches_name S c n m" "rs_ID t = sm_ShareID m" using nm by auto
      have s: "sm_ShareID m = rs_ID s" using t 1 by simp
      have "sm_ShareID x = rs_ID s" if "x \<in> set metas" "matches_name S c n x \<or> matches_id S c n x" for x
        using n1[OF 1(1) that(1) _ t(2,3)] i0[OF 1(2) that(1)] that(2) s by blast
      with t(2,3) s show ?thesis by blast
    next
      case 2
      then obtain t m where t: "sn_id a = Some t" "m \<in> set metas" "matches_id S c n m" "rs_ID t = sm_ShareID m" using im by auto
      have s: "sm_ShareID m = rs_ID s" using t 2 by simp
      have "sm_ShareID x = rs_ID s" if "x \<in> set metas" "matches_name S c n x \<or> matches_id S c n x" for x
        using i1[OF 2(2) that(1) _ t(2,3)] n0[OF 2(1) that(1)] that(2) s by blast
      with t(2,3) s show ?thesis by blast
    next
      case 3
      then obtain t m where t: "sn_name a = Some t" "m \<in> set metas" "matches_name S c n m" "rs_ID t = sm_ShareID m" using nm by auto
      from 3 obtain u m' where u: "sn_id a = Some u" "m' \<in> set metas" "matches_id S c n m'" "rs_ID u = sm_ShareID m'" using im by auto
      have s: "sm_ShareID m = rs_ID s" "sm_ShareID m' = rs_ID s" using t u 3 by simp_all
      have "sm_ShareID x = rs_ID s" if "x \<in> set metas" "matches_name S c n x \<or> matches_id S c n x" for x
        using i1[OF 3(2) that(1) _ u(2,3)] n1[OF 3(1) that(1) _ t(2,3)] that(2) s by blast
      with t(2,3) s(1) show ?thesis by blast
    qed
  qed
qed

text \<open>Two shared folders, named after their links.\<close>

definition demo_share_meta :: "string \<Rightarrow> ShareMetadata" where
  "demo_share_meta i = \<lparr>sm_ShareID = i, sm_LinkID = ''L'' @ i, sm_VolumeID = ''v'', sm_Type = ShareTypeStandard, sm_Creator = ''a''\<rparr>"

definition demo_shares :: "((string, bytes) gomap, nat, nat) shareEnv" where
  "demo_shares =
     \<lparr>se_env = demo_env\<lparr>de_GetLink := (\<lambda>sid i h. (Inr (demo_link i), h + 1))\<rparr>, se_order = (\<lambda>n. [0..<n]), se_extra = 0,
      se_ListShares = (\<lambda>a h. (Inr [demo_share_meta ''s1'', demo_share_meta ''s2''], h + 1)),
      se_GetShare = (\<lambda>i h. (Inr \<lparr>ps_meta = demo_share_meta i, ps_AddressID = ''A'', ps_Key = ''k''\<rparr>, h + 1)),
      se_encryptName = (\<lambda>k a n. Inr n), se_random = (\<lambda>h. (Inr ''00'', h)), se_hash = pl_LinkID,
      se_PutRename = (\<lambda>sid i r h. (None, h + 1))\<rparr>"

lemma resolve_share_unique_witness:
  "\<exists>s. fst (ResolveShare demo_shares ''Ls1'' True (NewClient [(''a'', ''A'')] [(''A'', 5)] 0)) = Inr s \<and>
     (rs_ID s = ''Ls1'' \<or>
      (\<exists>m\<in>set [demo_share_meta ''s1'', demo_share_meta ''s2'']. sm_ShareID m = rs_ID s \<and>
         (matches_name demo_shares (NewClient [(''a'', ''A'')] [(''A'', 5)] 0) ''Ls1'' m \<or>
          matches_id demo_shares (NewClient [(''a'', ''A'')] [(''A'', 5)] 0) ''Ls1'' m)))"
proof -
  let ?c = "NewClient [(''a'', ''A'')] [(''A'', 5)] 0 :: ((string, bytes) gomap, nat, nat) Client"
  have laws: "share_laws demo_shares" by (simp add: share_laws_def demo_shares_def demo_share_meta_def)
  have metas: "fst (se_ListShares demo_shares True (bs_net (dc_store ?c))) = Inr [demo_share_meta ''s1'', demo_share_meta ''s2'']"
    by (simp add: demo_shares_def)
  have "\<exists>s. fst (ResolveShare demo_shares ''Ls1'' True ?c) = Inr s"
    by (simp add: ResolveShare_def ListSharesMetadata_def demo_shares_def demo_share_meta_def scan_one_def GetShare_def
      NewClient_def demo_env_def Let_def alloc_link_def link_Name_def getParentKeyRing_def share_getKeyRing_def decryptName_def
      address_keyring_def NewLink_def putLink_def applyShareConfig_def NewShare_def caches_names_def demo_link_def upd_link_def
      scan_result_def)
  then obtain s where s: "fst (ResolveShare demo_shares ''Ls1'' True ?c) = Inr s" ..
  from resolve_share_unique[OF laws metas s] s show ?thesis by blast
qed

text \<open>
  Opening a share again builds a new object for its root and puts it into the link table: whoever holds the earlier
  object keeps a listing that no invalidation by identifier reaches.
\<close>

lemma reopened_share_orphaned:
  assumes "GetShare S i c = (Inr s, c1)" and "GetShare S i c1 = (Inr t, c2)"
  shows "rs_link s < rs_link t \<and> (\<exists>rootID. map_of (dc_linkTable c2) rootID = Some (rs_link t))"
proof -
  obtain p :: protonLink where p: "rs_link s = length (dc_heap c)" "dc_heap c1 = dc_heap c @ [lnk c1 (rs_link s)]"
    using assms(1) by (rule GetShare_result) simp
  obtain q :: protonLink where q: "rs_link t = length (dc_heap c1)" "dc_linkTable c2 = AList.update (pl_LinkID q) (rs_link t) (dc_linkTable c1)"
    using assms(2) by (rule GetShare_result) blast
  from arg_cong[OF p(2), of length] have "length (dc_heap c1) = Suc (length (dc_heap c))" by simp
  with p q show ?thesis by auto
qed

end
