(* ===== verification/DriveMutate.thy ===== *)
theory DriveMutate
  imports DriveReaddir Base64
begin

text \<open>
  Changing the tree: moving and renaming, \<^verbatim>\<open>api/drive/move.go\<close>, removing, \<^verbatim>\<open>client_remove.go\<close>, and creating
  folders, \<^verbatim>\<open>mkdir.go\<close>, with the key handling of \<^verbatim>\<open>crypto.go\<close>.  The primitives of OpenPGP and the requests
  of the API client are parameters.
\<close>

section \<open>Steps that may fail\<close>

text \<open>A step with a result or an error over the client: \<open>attempt\<close> goes on only after a result.\<close>

definition attempt :: "('e + 'a) \<times> 'c \<Rightarrow> ('a \<Rightarrow> 'c \<Rightarrow> ('e + 'b) \<times> 'c) \<Rightarrow> ('e + 'b) \<times> 'c" where
  "attempt m k = (case m of (Inl e, c) \<Rightarrow> (Inl e, c) | (Inr a, c) \<Rightarrow> k a c)"

text \<open>A computation without effect, with its error wrapped.\<close>

definition wrapping :: "('x \<Rightarrow> 'e) \<Rightarrow> ('x + 'a) \<Rightarrow> 'c \<Rightarrow> ('e + 'a) \<times> 'c" where
  "wrapping w r c = (map_sum w id r, c)"

lemma attempt_Inl [simp]: "attempt (Inl e, c) k = (Inl e, c)" by (simp add: attempt_def)
lemma attempt_Inr [simp]: "attempt (Inr a, c) k = k a c" by (simp add: attempt_def)

lemma map_sum_eq_Inr [simp]: "map_sum w id r = Inr a \<longleftrightarrow> r = Inr a" by (cases r) simp_all

lemma attempt_InrE:
  assumes "attempt m k = (Inr b, c')"
  obtains a c1 where "m = (Inr a, c1)" "k a c1 = (Inr b, c')"
  using assms by (auto simp: attempt_def split: prod.splits sum.splits)

lemma attempt_InlE:
  assumes "attempt m k = (Inl e, c')"
  obtains "m = (Inl e, c')" | a c1 where "m = (Inr a, c1)" "k a c1 = (Inl e, c')"
  using assms by (auto simp: attempt_def split: prod.splits sum.splits)

section \<open>Parameters\<close>

text \<open>The sentinels of the service that the code tells apart.\<close>

datatype apiErr = ApiFileNameExist | ApiFolderNameExist | ApiDraftExist | ApiStatus nat | ApiOther string

datatype driveFail =
    FNotAFolder
  | FNotEmpty string
  | FRootShare                          \<comment> \<open>the link is a share root\<close>
  | FKeyRing linkErr
  | FKeyNotFound string
  | FNilShareKeyRing
  | FCrypto string
  | FList readErr
  | FApi apiErr
  | FTrash string
  | FStat string

record moveLinkReq =
  mr_ParentLinkID :: string
  mr_Name :: string
  mr_Hash :: string
  mr_OriginalHash :: string
  mr_NodePassphrase :: string
  mr_NodePassphraseSignature :: string
  mr_SignatureAddress :: string

record createFolderReq =
  cf_ParentLinkID :: string
  cf_Name :: string
  cf_Hash :: string
  cf_NodeKey :: string
  cf_NodeHashKey :: string
  cf_NodePassphrase :: string
  cf_NodePassphraseSignature :: string
  cf_SignatureAddress :: string

text \<open>
  OpenPGP, the fields of a raw link that only requests carry, and the requests.  Randomness and time come from the
  state of the network.
\<close>

record ('h, 'kr) pgp =
  pg_token :: "'h \<Rightarrow> (string + bytes) \<times> 'h"
  pg_generateKey :: "string \<Rightarrow> 'h \<Rightarrow> (string + string) \<times> 'h"
  pg_encrypt :: "'kr \<Rightarrow> string \<Rightarrow> string + bytes"
  pg_decrypt :: "'kr \<Rightarrow> bytes \<Rightarrow> string + string"
  pg_armor :: "bytes \<Rightarrow> string + string"
  pg_unarmor :: "string \<Rightarrow> string + bytes"
  pg_sign :: "'kr \<Rightarrow> string \<Rightarrow> string + bytes"
  pg_armorSig :: "bytes \<Rightarrow> string + string"
  pg_unarmorSig :: "string \<Rightarrow> string + bytes"
  pg_verify :: "'kr \<Rightarrow> string \<Rightarrow> bytes \<Rightarrow> string option"
  pg_unlock :: "string \<Rightarrow> string \<Rightarrow> string + 'kr"
  pg_split :: "string \<Rightarrow> string + bytes \<times> bytes"      \<comment> \<open>key packet and data packet\<close>
  pg_join :: "bytes \<times> bytes \<Rightarrow> string + string"
  pg_decryptSK :: "'kr \<Rightarrow> bytes \<Rightarrow> string + bytes"
  pg_encryptSK :: "'kr \<Rightarrow> bytes \<Rightarrow> string + bytes"
  pg_encryptName :: "string \<Rightarrow> 'kr \<Rightarrow> 'kr \<Rightarrow> string + string"
  pg_hashKey :: "protonLink \<Rightarrow> 'kr \<Rightarrow> 'kr \<Rightarrow> string + bytes"
  pg_nameHash :: "string \<Rightarrow> bytes \<Rightarrow> string + string"
  pg_nodeHashKey :: "'kr \<Rightarrow> 'h \<Rightarrow> (string + string) \<times> 'h"

record ('dv, 'h, 'kr) mutateEnv =
  mu_env :: "('dv, 'h, 'kr) driveEnv"
  mu_order :: "nat \<Rightarrow> nat list"
  mu_extra :: nat
  mu_pgp :: "('h, 'kr) pgp"
  mu_Hash :: "protonLink \<Rightarrow> string"
  mu_NodePassphrase :: "protonLink \<Rightarrow> string"
  mu_NodePassphraseSignature :: "protonLink \<Rightarrow> string"
  mu_shareKR :: "Share \<Rightarrow> 'kr option"
  mu_MoveLink :: "string \<Rightarrow> string \<Rightarrow> moveLinkReq \<Rightarrow> 'h \<Rightarrow> apiErr option \<times> 'h"
  mu_CreateFolder :: "string \<Rightarrow> createFolderReq \<Rightarrow> 'h \<Rightarrow> (apiErr + string) \<times> 'h"
  mu_DeleteChildren :: "string \<Rightarrow> string \<Rightarrow> string \<Rightarrow> 'h \<Rightarrow> apiErr option \<times> 'h"
  mu_TrashChildren :: "string \<Rightarrow> string \<Rightarrow> string \<Rightarrow> 'h \<Rightarrow> apiErr option \<times> 'h"
  mu_trashDelete :: "string \<Rightarrow> string list \<Rightarrow> 'h \<Rightarrow> (string + (string \<times> nat \<times> string) list) \<times> 'h"
  mu_EmptyTrash :: "string \<Rightarrow> 'h \<Rightarrow> apiErr option \<times> 'h"

abbreviation net :: "('dv, 'h, 'kr) Client \<Rightarrow> 'h" where "net c \<equiv> bs_net (dc_store c)"

text \<open>A request: the state of the network goes through it.\<close>

definition requesting :: "('x \<Rightarrow> 'e) \<Rightarrow> ('h \<Rightarrow> ('x + 'a) \<times> 'h) \<Rightarrow> ('dv, 'h, 'kr) Client \<Rightarrow> ('e + 'a) \<times> ('dv, 'h, 'kr) Client" where
  "requesting w f c = (case f (net c) of (r, h) \<Rightarrow> (map_sum w id r, set_net h c))"

definition sending :: "('x \<Rightarrow> 'e) \<Rightarrow> ('h \<Rightarrow> 'x option \<times> 'h) \<Rightarrow> ('dv, 'h, 'kr) Client \<Rightarrow> ('e + unit) \<times> ('dv, 'h, 'kr) Client" where
  "sending w f c = (case f (net c) of (r, h) \<Rightarrow> (case r of None \<Rightarrow> Inr () | Some e \<Rightarrow> Inl (w e), set_net h c))"

section \<open>Keys\<close>

definition addrKRForLink :: "('dv, 'h, 'kr) Client \<Rightarrow> protonLink \<Rightarrow> driveFail + 'kr" where
  "addrKRForLink c p =
     (case address_keyring c (pl_SignatureEmail p) of None \<Rightarrow> Inl (FKeyNotFound (pl_SignatureEmail p)) | Some kr \<Rightarrow> Inr kr)"

definition signatureAddress :: "protonLink \<Rightarrow> driveFail + string" where
  "signatureAddress p = (if pl_SignatureEmail p \<noteq> [] then Inr (pl_SignatureEmail p) else Inl (FKeyNotFound (pl_LinkID p)))"

text \<open>Key, encrypted passphrase and signature of a new node.\<close>

definition generateNodeKeys ::
    "('h, 'kr) pgp \<Rightarrow> 'kr \<Rightarrow> 'kr \<Rightarrow> 'h \<Rightarrow> (string + string \<times> string \<times> string) \<times> 'h" where
  "generateNodeKeys G parentKR addrKR h =
     attempt (pg_token G h) (\<lambda>passphrase h1.
       let passphraseB64 = b64_encode passphrase
       in attempt (pg_generateKey G passphraseB64 h1) (\<lambda>key h2.
            attempt (pg_encrypt G parentKR passphraseB64, h2) (\<lambda>enc h3.
              attempt (pg_armor G enc, h3) (\<lambda>encArm h4.
                attempt (pg_sign G addrKR passphraseB64, h4) (\<lambda>sig h5.
                  attempt (pg_armorSig G sig, h5) (\<lambda>sigArm h6. (Inr (key, encArm, sigArm), h6)))))))"

definition unlockKeyRing :: "('h, 'kr) pgp \<Rightarrow> 'kr \<Rightarrow> 'kr \<Rightarrow> string \<Rightarrow> string \<Rightarrow> string \<Rightarrow> string + 'kr" where
  "unlockKeyRing G parentKR addrKR key passphrase passphraseSig =
     (case pg_unarmor G passphrase of Inl e \<Rightarrow> Inl e
      | Inr enc \<Rightarrow> (case pg_decrypt G parentKR enc of Inl e \<Rightarrow> Inl e
      | Inr dec \<Rightarrow> (case pg_unarmorSig G passphraseSig of Inl e \<Rightarrow> Inl e
      | Inr sig \<Rightarrow> (case pg_verify G addrKR dec sig of Some e \<Rightarrow> Inl e
      | None \<Rightarrow> pg_unlock G key dec))))"

definition reencryptKeyPacket :: "('h, 'kr) pgp \<Rightarrow> 'kr \<Rightarrow> 'kr \<Rightarrow> string \<Rightarrow> string + string" where
  "reencryptKeyPacket G srcKR dstKR passphrase =
     (case pg_split G passphrase of Inl e \<Rightarrow> Inl e
      | Inr (keyPacket, dataPacket) \<Rightarrow> (case pg_decryptSK G srcKR keyPacket of Inl e \<Rightarrow> Inl e
      | Inr sessionKey \<Rightarrow> (case pg_encryptSK G dstKR sessionKey of Inl e \<Rightarrow> Inl e
      | Inr newKeyPacket \<Rightarrow> pg_join G (newKeyPacket, dataPacket))))"

section \<open>Moving\<close>

abbreviation raw :: "('dv, 'h, 'kr) Client \<Rightarrow> lref \<Rightarrow> protonLink" where "raw c r \<equiv> l_protonLink (lnk c r)"

text \<open>The keyring the passphrase of a link is encrypted for now.\<close>

definition oldParentKeyRing ::
    "('dv, 'h, 'kr) mutateEnv \<Rightarrow> lref \<Rightarrow> ('dv, 'h, 'kr) Client \<Rightarrow> (driveFail + 'kr) \<times> ('dv, 'h, 'kr) Client" where
  "oldParentKeyRing M r c =
     (case l_parentLink (lnk c r) of
        Some p \<Rightarrow> apfst (map_sum FKeyRing id) (link_KeyRing (mu_env M) p c)
      | None \<Rightarrow> (case Option.bind (l_share (lnk c r)) (mu_shareKR M) of None \<Rightarrow> (Inl FNilShareKeyRing, c) | Some kr \<Rightarrow> (Inr kr, c)))"

definition build_move ::
    "('dv, 'h, 'kr) mutateEnv \<Rightarrow> lref \<Rightarrow> lref \<Rightarrow> string \<Rightarrow> ('dv, 'h, 'kr) Client \<Rightarrow> (driveFail + moveLinkReq) \<times> ('dv, 'h, 'kr) Client" where
  "build_move M r newParent newName c =
     (let G = mu_pgp M in
      attempt (apfst (map_sum FKeyRing id) (link_KeyRing (mu_env M) newParent c)) (\<lambda>newParentKR c1.
      attempt (addrKRForLink c1 (raw c1 r), c1) (\<lambda>addrKR c1.
      attempt (signatureAddress (raw c1 r), c1) (\<lambda>sigAddr c1.
      attempt (wrapping FCrypto (pg_encryptName G newName addrKR newParentKR) c1) (\<lambda>name c1.
      attempt (wrapping FCrypto (pg_hashKey G (raw c1 newParent) newParentKR addrKR) c1) (\<lambda>hashKey c1.
      attempt (wrapping FCrypto (pg_nameHash G newName hashKey) c1) (\<lambda>hash c1.
      attempt (oldParentKeyRing M r c1) (\<lambda>oldParentKR c2.
      attempt (wrapping FCrypto (reencryptKeyPacket G oldParentKR newParentKR (mu_NodePassphrase M (raw c2 r))) c2) (\<lambda>pass c2.
        (Inr \<lparr>mr_ParentLinkID = pl_LinkID (raw c2 newParent), mr_Name = name, mr_Hash = hash,
              mr_OriginalHash = mu_Hash M (raw c2 r), mr_NodePassphrase = pass,
              mr_NodePassphraseSignature = mu_NodePassphraseSignature M (raw c2 r), mr_SignatureAddress = sigAddr\<rparr>, c2))))))))))"

text \<open>What a client forgets of a folder whose children have changed.\<close>

definition forget_parent :: "lref \<Rightarrow> ('dv, 'h, 'kr) Client \<Rightarrow> ('dv, 'h, 'kr) Client" where
  "forget_parent p c = InvalidateChildren p (deleteLink (pl_LinkID (raw c p)) c)"

definition Move ::
    "('dv, 'h, 'kr) mutateEnv \<Rightarrow> Share \<Rightarrow> lref \<Rightarrow> lref \<Rightarrow> string \<Rightarrow> ('dv, 'h, 'kr) Client \<Rightarrow> (driveFail + unit) \<times> ('dv, 'h, 'kr) Client" where
  "Move M share r newParent newName c =
     (if pl_Type (raw c newParent) \<noteq> LinkTypeFolder then (Inl FNotAFolder, c)
      else attempt (build_move M r newParent newName c) (\<lambda>req c1.
           attempt (sending FApi (mu_MoveLink M (sh_ShareID share) (pl_LinkID (raw c1 r)) req) c1) (\<lambda>_ c2.
             let c3 = deleteLink (pl_LinkID (raw c2 r)) c2;
                 c4 = (case l_parentLink (lnk c3 r) of None \<Rightarrow> c3 | Some p \<Rightarrow> forget_parent p c3)
             in (Inr (), forget_parent newParent c4))))"

definition Rename ::
    "('dv, 'h, 'kr) mutateEnv \<Rightarrow> Share \<Rightarrow> lref \<Rightarrow> string \<Rightarrow> ('dv, 'h, 'kr) Client \<Rightarrow> (driveFail + unit) \<times> ('dv, 'h, 'kr) Client" where
  "Rename M share r newName c =
     (case l_parentLink (lnk c r) of None \<Rightarrow> (Inl FRootShare, c) | Some p \<Rightarrow> Move M share r p newName c)"

section \<open>Removing\<close>

record RemoveOpts =
  ro_Recursive :: bool
  ro_Permanent :: bool

definition SuccessCode :: nat where "SuccessCode = 1000"

definition deleteTrashedLinks ::
    "('dv, 'h, 'kr) mutateEnv \<Rightarrow> string \<Rightarrow> string list \<Rightarrow> ('dv, 'h, 'kr) Client \<Rightarrow> (driveFail + unit) \<times> ('dv, 'h, 'kr) Client" where
  "deleteTrashedLinks M volumeID linkIDs c =
     attempt (requesting FTrash (mu_trashDelete M volumeID linkIDs) c) (\<lambda>responses c1.
       case find (\<lambda>(i, code, err). code \<noteq> SuccessCode) responses of
         Some (i, code, err) \<Rightarrow> (Inl (FTrash err), c1)
       | None \<Rightarrow> (Inr (), c1))"

definition Remove ::
    "('dv, 'h, 'kr) mutateEnv \<Rightarrow> Share \<Rightarrow> lref \<Rightarrow> RemoveOpts \<Rightarrow> ('dv, 'h, 'kr) Client \<Rightarrow> (driveFail + unit) \<times> ('dv, 'h, 'kr) Client" where
  "Remove M share r opts c =
     (case l_parentLink (lnk c r) of
        None \<Rightarrow> (Inl FRootShare, c)
      | Some parent \<Rightarrow>
          attempt
            (if pl_Type (raw c r) = LinkTypeFolder \<and> \<not> ro_Recursive opts
             then attempt (apfst (map_sum FList id) (ListChildren (mu_env M) (mu_order M) r c)) (\<lambda>children c1.
                    if children \<noteq> []
                    then (case link_Name (mu_env M) r c1 of
                            (n, c2) \<Rightarrow> (Inl (FNotEmpty (case n of Inl _ \<Rightarrow> [] | Inr name \<Rightarrow> name)), c2))
                    else (Inr (), c1))
             else (Inr (), c))
            (\<lambda>_ c1.
               let i = pl_LinkID (raw c1 r); pid = pl_LinkID (raw c1 parent); s = sh_ShareID share in
               if pl_State (raw c1 r) = LinkStateTrashed \<and> \<not> ro_Permanent opts then (Inr (), c1)
               else attempt
                 (if pl_State (raw c1 r) = LinkStateTrashed then deleteTrashedLinks M (sh_VolumeID share) [i] c1
                  else if ro_Permanent opts then sending FApi (mu_DeleteChildren M s pid i) c1
                  else sending FApi (mu_TrashChildren M s pid i) c1)
                 (\<lambda>_ c2. (Inr (), eraseCacheEntry (mu_env M) i (forget_parent parent (deleteLink i c2))))))"

definition client_EmptyTrash ::
    "('dv, 'h, 'kr) mutateEnv \<Rightarrow> Share \<Rightarrow> ('dv, 'h, 'kr) Client \<Rightarrow> (driveFail + unit) \<times> ('dv, 'h, 'kr) Client" where
  "client_EmptyTrash M share c = sending FApi (mu_EmptyTrash M (sh_ShareID share)) c"

section \<open>Folders\<close>

definition MkDir ::
    "('dv, 'h, 'kr) mutateEnv \<Rightarrow> Share \<Rightarrow> lref \<Rightarrow> string \<Rightarrow> ('dv, 'h, 'kr) Client \<Rightarrow> (driveFail + lref) \<times> ('dv, 'h, 'kr) Client" where
  "MkDir M share parent name c =
     (let G = mu_pgp M in
      if pl_Type (raw c parent) \<noteq> LinkTypeFolder then (Inl FNotAFolder, c)
      else
      attempt (apfst (map_sum FKeyRing id) (link_KeyRing (mu_env M) parent c)) (\<lambda>parentKR c1.
      attempt (addrKRForLink c1 (raw c1 parent), c1) (\<lambda>addrKR c1.
      attempt (requesting FCrypto (generateNodeKeys G parentKR addrKR) c1) (\<lambda>(nodeKey, passEnc, passSig) c2.
      attempt (signatureAddress (raw c2 parent), c2) (\<lambda>sigAddr c2.
      attempt (wrapping FCrypto (pg_encryptName G name addrKR parentKR) c2) (\<lambda>encName c2.
      attempt (wrapping FCrypto (pg_hashKey G (raw c2 parent) parentKR addrKR) c2) (\<lambda>hashKey c2.
      attempt (wrapping FCrypto (pg_nameHash G name hashKey) c2) (\<lambda>hash c2.
      attempt (wrapping FCrypto (unlockKeyRing G parentKR addrKR nodeKey passEnc passSig) c2) (\<lambda>newNodeKR c2.
      attempt (requesting FCrypto (pg_nodeHashKey G newNodeKR) c2) (\<lambda>nodeHashKey c3.
      attempt (requesting FApi (mu_CreateFolder M (sh_ShareID share)
          \<lparr>cf_ParentLinkID = pl_LinkID (raw c3 parent), cf_Name = encName, cf_Hash = hash, cf_NodeKey = nodeKey,
           cf_NodeHashKey = nodeHashKey, cf_NodePassphrase = passEnc, cf_NodePassphraseSignature = passSig,
           cf_SignatureAddress = sigAddr\<rparr>) c3) (\<lambda>newID c4.
        apfst (map_sum FStat id) (StatLink (mu_env M) share (Some parent) newID (forget_parent parent c4)))))))))))))"

fun mkdir_parts ::
    "('dv, 'h, 'kr) mutateEnv \<Rightarrow> Share \<Rightarrow> string list \<Rightarrow> lref \<Rightarrow> ('dv, 'h, 'kr) Client \<Rightarrow> (driveFail + lref) \<times> ('dv, 'h, 'kr) Client" where
  "mkdir_parts M share [] cur c = (Inr cur, c)"
| "mkdir_parts M share (name # names) cur c =
     (let look = (\<lambda>c. apfst (map_sum FList id) (link_Lookup (mu_env M) (mu_order M) (mu_extra M) cur name c)) in
      if name = [] \<or> name = ''.'' then mkdir_parts M share names cur c
      else attempt (look c) (\<lambda>child c1.
        case child of
          Some t \<Rightarrow> if pl_Type (raw c1 t) \<noteq> LinkTypeFolder then (Inl FNotAFolder, c1) else mkdir_parts M share names t c1
        | None \<Rightarrow>
            (case MkDir M share cur name c1 of
               (Inr t, c2) \<Rightarrow> mkdir_parts M share names t c2
             | (Inl e, c2) \<Rightarrow>
                 if e = FApi ApiFolderNameExist
                 then attempt (look c2) (\<lambda>again c3.
                        case again of Some t \<Rightarrow> mkdir_parts M share names t c3 | None \<Rightarrow> (Inl e, c3))
                 else (Inl e, c2))))"

definition MkDirAll ::
    "('dv, 'h, 'kr) mutateEnv \<Rightarrow> Share \<Rightarrow> lref \<Rightarrow> string \<Rightarrow> ('dv, 'h, 'kr) Client \<Rightarrow> (driveFail + lref) \<times> ('dv, 'h, 'kr) Client" where
  "MkDirAll M share root path c =
     (let path = trim_slashes path in if path = [] then (Inr root, c) else mkdir_parts M share (split_slash path) root c)"

section \<open>What a change does to the client\<close>

lemma keys_only_keyring:
  assumes "keys_only c c'" "t < length (dc_heap c)"
  obtains k where "lnk c' t = (lnk c t)\<lparr>l_cachedKeyRing := k\<rparr>"
  using assms unfolding keys_only_def by blast

lemma keys_only_trans:
  assumes "keys_only c c1" "keys_only c1 c2"
  shows "keys_only c c2"
  unfolding keys_only_def
proof (intro conjI allI impI)
  show "dc_store c2 = dc_store c" "dc_linkTable c2 = dc_linkTable c" "length (dc_heap c2) = length (dc_heap c)"
    using assms by (simp_all add: keys_only_def)
  fix t
  assume t: "t < length (dc_heap c)"
  then have t1: "t < length (dc_heap c1)" using assms(1) by (simp add: keys_only_def)
  obtain k1 where 1: "lnk c1 t = (lnk c t)\<lparr>l_cachedKeyRing := k1\<rparr>" using assms(1) t by (rule keys_only_keyring)
  obtain k2 where 2: "lnk c2 t = (lnk c1 t)\<lparr>l_cachedKeyRing := k2\<rparr>" using assms(2) t1 by (rule keys_only_keyring)
  show "lnk c2 t = (lnk c t)\<lparr>l_cachedKeyRing := l_cachedKeyRing (lnk c2 t)\<rparr>" by (simp add: 1 2)
qed

lemma keys_only_lnk:
  assumes "keys_only c c'" "t < length (dc_heap c)"
  shows "l_protonLink (lnk c' t) = l_protonLink (lnk c t)" "l_parentLink (lnk c' t) = l_parentLink (lnk c t)"
    "l_share (lnk c' t) = l_share (lnk c t)" "l_cachedChildIDs (lnk c' t) = l_cachedChildIDs (lnk c t)"
proof -
  obtain k where "lnk c' t = (lnk c t)\<lparr>l_cachedKeyRing := k\<rparr>" using assms by (rule keys_only_keyring)
  then show "l_protonLink (lnk c' t) = l_protonLink (lnk c t)" "l_parentLink (lnk c' t) = l_parentLink (lnk c t)"
    "l_share (lnk c' t) = l_share (lnk c t)" "l_cachedChildIDs (lnk c' t) = l_cachedChildIDs (lnk c t)" by simp_all
qed

lemma keys_only_frame: "keys_only c c' \<Longrightarrow> dc_store c' = dc_store c \<and> dc_linkTable c' = dc_linkTable c \<and> length (dc_heap c') = length (dc_heap c)"
  by (simp add: keys_only_def)

lemma forget_parent_frame [simp]:
  "dc_store (forget_parent p c) = dc_store c" "dc_linkTable (forget_parent p c) = AList.delete (pl_LinkID (raw c p)) (dc_linkTable c)"
  "length (dc_heap (forget_parent p c)) = length (dc_heap c)"
  by (simp_all add: forget_parent_def InvalidateChildren_def deleteLink_def upd_link_def)

lemma forget_parent_lnk:
  "lnk (forget_parent p c) t = (if t = p \<and> p < length (dc_heap c) then (lnk c p)\<lparr>l_cachedChildIDs := None\<rparr> else lnk c t)"
  by (simp add: forget_parent_def InvalidateChildren_def deleteLink_def upd_link_def nth_update_if)

lemma deleteLink_frame [simp]:
  "dc_store (deleteLink i c) = dc_store c" "dc_heap (deleteLink i c) = dc_heap c" "dc_linkTable (deleteLink i c) = AList.delete i (dc_linkTable c)"
  by (simp_all add: deleteLink_def)

text \<open>A keyring of a link, as a step: the result is the derived one and only keyrings are stored.\<close>

lemma KeyRing_step:
  assumes "good E c" "r < length (dc_heap c)" "apfst (map_sum FKeyRing id) (link_KeyRing E r c) = (res, c')"
  shows "good E c' \<and> keys_only c c' \<and> acc_step E c c' \<and> res = map_sum FKeyRing id (pure_keyring E c (Suc r) r)"
proof -
  obtain q c1 where q: "link_KeyRing E r c = (q, c1)" by force
  from KeyRing_spec[OF assms(1,2) q] have k: "q = pure_keyring E c (Suc r) r" "acc_step E c c1" "keys_only c c1" by blast+
  from assms(3) q have "res = map_sum FKeyRing id q" "c' = c1" by simp_all
  with k acc_stepD(1)[OF k(2)] show ?thesis by (simp only: simp_thms)
qed

text \<open>The session key and the data a passphrase message holds for the owner of a keyring.\<close>

definition opens :: "('h, 'kr) pgp \<Rightarrow> 'kr \<Rightarrow> string \<Rightarrow> (bytes \<times> bytes) option" where
  "opens G kr msg =
     (case pg_split G msg of Inl _ \<Rightarrow> None
      | Inr (kp, dp) \<Rightarrow> (case pg_decryptSK G kr kp of Inl _ \<Rightarrow> None | Inr sk \<Rightarrow> Some (sk, dp)))"

definition pgp_laws :: "('h, 'kr) pgp \<Rightarrow> bool" where
  "pgp_laws G \<longleftrightarrow>
     (\<forall>kr sk kp. pg_encryptSK G kr sk = Inr kp \<longrightarrow> pg_decryptSK G kr kp = Inr sk) \<and>
     (\<forall>x msg. pg_join G x = Inr msg \<longrightarrow> pg_split G msg = Inr x)"

lemma reencrypt_opens:
  assumes "pgp_laws G" "reencryptKeyPacket G src dst msg = Inr msg'"
  shows "opens G dst msg' = opens G src msg \<and> opens G src msg \<noteq> None"
proof -
  obtain kp dp sk kp' where s: "pg_split G msg = Inr (kp, dp)" "pg_decryptSK G src kp = Inr sk"
    "pg_encryptSK G dst sk = Inr kp'" "pg_join G (kp', dp) = Inr msg'"
    using assms(2) by (auto simp: reencryptKeyPacket_def split: sum.splits prod.splits)
  with assms(1) have "pg_decryptSK G dst kp' = Inr sk" "pg_split G msg' = Inr (kp', dp)" by (auto simp: pgp_laws_def)
  with s show ?thesis by (simp add: opens_def)
qed

text \<open>The keyring the parent of a link derives from the raw links.\<close>

definition parent_keyring :: "('dv, 'h, 'kr) mutateEnv \<Rightarrow> ('dv, 'h, 'kr) Client \<Rightarrow> lref \<Rightarrow> 'kr option" where
  "parent_keyring M c r =
     (case l_parentLink (lnk c r) of
        Some p \<Rightarrow> (case pure_keyring (mu_env M) c (Suc p) p of Inl _ \<Rightarrow> None | Inr kr \<Rightarrow> Some kr)
      | None \<Rightarrow> Option.bind (l_share (lnk c r)) (mu_shareKR M))"

lemma oldParent_step:
  assumes "good (mu_env M) c" "r < length (dc_heap c)" "oldParentKeyRing M r c = (res, c')"
  shows "keys_only c c' \<and> (\<forall>kr. res = Inr kr \<longrightarrow> parent_keyring M c r = Some kr)"
proof (cases "l_parentLink (lnk c r)")
  case None
  then show ?thesis using assms(3) by (auto simp: oldParentKeyRing_def parent_keyring_def split: option.splits)
next
  case (Some p)
  have p: "p < length (dc_heap c)" using good_cachedD(3)[OF assms(1,2) Some] assms(2) by simp
  from assms(3) Some have "apfst (map_sum FKeyRing id) (link_KeyRing (mu_env M) p c) = (res, c')"
    by (simp add: oldParentKeyRing_def)
  from KeyRing_step[OF assms(1) p this] Some show ?thesis
    by (auto simp: parent_keyring_def simp del: pure_keyring.simps split: sum.splits)
qed

text \<open>Building the request changes nothing but cached keyrings, and the request carries the node's key.\<close>

lemma build_move_step:
  assumes g: "good (mu_env M) c" and r: "r < length (dc_heap c)" and np: "np < length (dc_heap c)"
    and run: "build_move M r np newName c = (res, c')"
  shows "keys_only c c' \<and> (\<forall>req. res = Inr req \<longrightarrow>
    mr_ParentLinkID req = pl_LinkID (raw c np) \<and> mr_OriginalHash req = mu_Hash M (raw c r) \<and>
    (\<exists>kr okr. pure_keyring (mu_env M) c (Suc np) np = Inr kr \<and> parent_keyring M c r = Some okr \<and>
       reencryptKeyPacket (mu_pgp M) okr kr (mu_NodePassphrase M (raw c r)) = Inr (mr_NodePassphrase req)))"
proof -
  obtain q c1 where q: "apfst (map_sum FKeyRing id) (link_KeyRing (mu_env M) np c) = (q, c1)" by force
  note s1 = KeyRing_step[OF g np q]
  have k1: "keys_only c c1" and g1: "good (mu_env M) c1" and st: "acc_step (mu_env M) c c1"
    and qv: "q = map_sum FKeyRing id (pure_keyring (mu_env M) c (Suc np) np)"
    using s1 by (blast+)
  have r1: "r < length (dc_heap c1)" using r keys_only_frame[OF k1] by simp
  show ?thesis
  proof (cases q)
    case (Inl e)
    with run q k1 show ?thesis by (auto simp: build_move_def)
  next
    case (Inr kr)
    have kr: "pure_keyring (mu_env M) c (Suc np) np = Inr kr"
      using qv Inr by (cases "pure_keyring (mu_env M) c (Suc np) np") (simp_all del: pure_keyring.simps)
    obtain o1 c2 where o1: "oldParentKeyRing M r c1 = (o1, c2)" by force
    note os = oldParent_step[OF g1 r1 o1]
    have k2: "keys_only c c2" using k1 os by (blast intro: keys_only_trans)
    have pk: "parent_keyring M c1 r = parent_keyring M c r"
    proof (cases "l_parentLink (lnk c r)")
      case (Some p)
      have "p < length (dc_heap c)" using good_cachedD(3)[OF g r Some] r by simp
      then have "pure_keyring (mu_env M) c1 (Suc p) p = pure_keyring (mu_env M) c (Suc p) p"
        using pure_keyring_static[OF acc_stepD(2)[OF st]] g by (simp add: good_def del: pure_keyring.simps)
      with Some show ?thesis using keys_only_lnk[OF k1 r] by (simp add: parent_keyring_def del: pure_keyring.simps)
    qed (use keys_only_lnk[OF k1 r] in \<open>simp add: parent_keyring_def\<close>)
    have "keys_only c c'"
      using run q Inr o1 k1 k2
      by (auto simp: build_move_def attempt_def wrapping_def Let_def split: sum.splits prod.splits)
    moreover have "mr_ParentLinkID req = pl_LinkID (raw c np) \<and> mr_OriginalHash req = mu_Hash M (raw c r) \<and>
        reencryptKeyPacket (mu_pgp M) (projr o1) kr (mu_NodePassphrase M (raw c r)) = Inr (mr_NodePassphrase req) \<and> isl o1 = False"
      if "res = Inr req" for req
      using run q Inr o1 that keys_only_lnk(1)[OF k2 r] keys_only_lnk(1)[OF k2 np]
      by (auto simp: build_move_def wrapping_def Let_def elim!: attempt_InrE split: sum.splits)
    ultimately show ?thesis using os kr pk by (metis sum.collapse(2))
  qed
qed

section \<open>Moving\<close>

text \<open>The identifiers whose entries a move drops, and the objects whose listings it drops.\<close>

definition moved_ids :: "('dv, 'h, 'kr) Client \<Rightarrow> lref \<Rightarrow> lref \<Rightarrow> string set" where
  "moved_ids c r np =
     {pl_LinkID (raw c r), pl_LinkID (raw c np)} \<union> (case l_parentLink (lnk c r) of None \<Rightarrow> {} | Some p \<Rightarrow> {pl_LinkID (raw c p)})"

lemma Move_cases:
  assumes g: "good (mu_env M) c" and r: "r < length (dc_heap c)" and np: "np < length (dc_heap c)"
    and run: "Move M share r np newName c = (res, c')"
  obtains (refused) e where "res = Inl e" "keys_only c c'"
  | (rejected) e c1 h where "res = Inl e" "keys_only c c1" "c' = set_net h c1"
  | (moved) req c1 h where "res = Inr ()" "build_move M r np newName c = (Inr req, c1)" "keys_only c c1"
      "mu_MoveLink M (sh_ShareID share) (pl_LinkID (raw c r)) req (net c) = (None, h)"
      "c' = forget_parent np (case l_parentLink (lnk c r) of
              None \<Rightarrow> deleteLink (pl_LinkID (raw c r)) (set_net h c1)
            | Some p \<Rightarrow> forget_parent p (deleteLink (pl_LinkID (raw c r)) (set_net h c1)))"
proof (cases "pl_Type (raw c np) \<noteq> LinkTypeFolder")
  case True
  with run have "res = Inl FNotAFolder" "c' = c" by (simp_all add: Move_def)
  then show thesis by (intro refused) simp_all
next
  case False
  obtain b c1 where b: "build_move M r np newName c = (b, c1)" by force
  note st = build_move_step[OF g r np b]
  have k: "keys_only c c1" using st by blast
  note l = keys_only_lnk[OF k r] and f = keys_only_frame[OF k]
  show thesis
  proof (cases b)
    case (Inl e)
    with run False b have "res = Inl e" "c' = c1" by (simp_all add: Move_def)
    then show thesis using k by (intro refused) simp_all
  next
    case (Inr req)
    obtain q h where q: "mu_MoveLink M (sh_ShareID share) (pl_LinkID (raw c r)) req (net c) = (q, h)" by force
    show thesis
    proof (cases q)
      case None
      with run False b Inr q l f have e: "res = Inr ()"
        "c' = forget_parent np (case l_parentLink (lnk c r) of
              None \<Rightarrow> deleteLink (pl_LinkID (raw c r)) (set_net h c1)
            | Some p \<Rightarrow> forget_parent p (deleteLink (pl_LinkID (raw c r)) (set_net h c1)))"
        by (simp_all add: Move_def sending_def Let_def split: option.splits)
      show thesis by (rule moved[OF e(1) b[unfolded Inr] k q[unfolded None] e(2)])
    next
      case (Some x)
      with run False b Inr q l f have "res = Inl (FApi x)" "c' = set_net h c1"
        by (simp_all add: Move_def sending_def)
      then show thesis using rejected k by blast
    qed
  qed
qed

text \<open>
  C35: a move sends the node's key along and leaves nothing stale in memory.  The request names the new parent and carries a
  passphrase that the new parent's keyring opens to what the old parent's opened the old one to; afterwards the
  link table has neither the link nor its parents, both parents have lost their kept listings, and every other
  entry and listing is as before.  A move that fails changes no entry and no listing.
\<close>

theorem move_effects:
  assumes "pgp_laws (mu_pgp M)" and "good (mu_env M) c" and "r < length (dc_heap c)" and "np < length (dc_heap c)"
    and "Move M share r np newName c = (res, c')"
  shows "(res = Inr () \<longrightarrow>
      (\<exists>req kr okr. mu_MoveLink M (sh_ShareID share) (pl_LinkID (raw c r)) req (net c) = (None, net c') \<and>
         mr_ParentLinkID req = pl_LinkID (raw c np) \<and> mr_OriginalHash req = mu_Hash M (raw c r) \<and>
         pure_keyring (mu_env M) c (Suc np) np = Inr kr \<and> parent_keyring M c r = Some okr \<and>
         opens (mu_pgp M) kr (mr_NodePassphrase req) = opens (mu_pgp M) okr (mu_NodePassphrase M (raw c r)) \<and>
         opens (mu_pgp M) kr (mr_NodePassphrase req) \<noteq> None) \<and>
      (\<forall>i. map_of (dc_linkTable c') i = (if i \<in> moved_ids c r np then None else map_of (dc_linkTable c) i)) \<and>
      (\<forall>t < length (dc_heap c). l_cachedChildIDs (lnk c' t) =
         (if t = np \<or> l_parentLink (lnk c r) = Some t then None else l_cachedChildIDs (lnk c t)))) \<and>
    (res \<noteq> Inr () \<longrightarrow> dc_linkTable c' = dc_linkTable c \<and>
      (\<forall>t < length (dc_heap c). l_cachedChildIDs (lnk c' t) = l_cachedChildIDs (lnk c t)))"
proof -
  note laws = assms(1) and g = assms(2) and r = assms(3) and np = assms(4) and run = assms(5)
  show ?thesis
    using g r np run
  proof (cases rule: Move_cases)
    case (refused e)
    then show ?thesis using keys_only_frame[OF refused(2)] keys_only_lnk(4)[OF refused(2)] by simp
  next
    case (rejected e c1 h)
    then show ?thesis using keys_only_frame[OF rejected(2)] keys_only_lnk(4)[OF rejected(2)] by simp
  next
    case (moved req c1 h)
    note k = moved(3) and c' = moved(5)
    from build_move_step[OF g r np moved(2)] obtain kr okr where req: "mr_ParentLinkID req = pl_LinkID (raw c np)"
      "mr_OriginalHash req = mu_Hash M (raw c r)"
      "pure_keyring (mu_env M) c (Suc np) np = Inr kr" "parent_keyring M c r = Some okr"
      "reencryptKeyPacket (mu_pgp M) okr kr (mu_NodePassphrase M (raw c r)) = Inr (mr_NodePassphrase req)"
      by blast
    note op = reencrypt_opens[OF laws req(5)]
    have net': "net c' = h" unfolding c' by (simp split: option.split)
    have len: "length (dc_heap c1) = length (dc_heap c)" and tab: "dc_linkTable c1 = dc_linkTable c"
      using keys_only_frame[OF k] by simp_all
    have pl: "p < length (dc_heap c)" if "l_parentLink (lnk c r) = Some p" for p
      using good_cachedD(3)[OF g r that] r by simp
    have rp: "raw c1 t = raw c t" "l_cachedChildIDs (lnk c1 t) = l_cachedChildIDs (lnk c t)" if "t < length (dc_heap c)" for t
      using keys_only_lnk[OF k that] by simp_all
    have A: "\<exists>req kr okr. mu_MoveLink M (sh_ShareID share) (pl_LinkID (raw c r)) req (net c) = (None, net c') \<and>
         mr_ParentLinkID req = pl_LinkID (raw c np) \<and> mr_OriginalHash req = mu_Hash M (raw c r) \<and>
         pure_keyring (mu_env M) c (Suc np) np = Inr kr \<and> parent_keyring M c r = Some okr \<and>
         opens (mu_pgp M) kr (mr_NodePassphrase req) = opens (mu_pgp M) okr (mu_NodePassphrase M (raw c r)) \<and>
         opens (mu_pgp M) kr (mr_NodePassphrase req) \<noteq> None"
    proof (intro exI conjI)
      show "mu_MoveLink M (sh_ShareID share) (pl_LinkID (raw c r)) req (net c) = (None, net c')" unfolding net' by (rule moved(4))
      show "opens (mu_pgp M) kr (mr_NodePassphrase req) \<noteq> None"
        unfolding conjunct1[OF op] by (rule conjunct2[OF op])
    qed (rule req conjunct1[OF op])+
    have tabs: "dc_linkTable c' = (case l_parentLink (lnk c r) of
          None \<Rightarrow> AList.delete (pl_LinkID (raw c np)) (AList.delete (pl_LinkID (raw c r)) (dc_linkTable c))
        | Some p \<Rightarrow> AList.delete (pl_LinkID (raw c np)) (AList.delete (pl_LinkID (raw c p)) (AList.delete (pl_LinkID (raw c r)) (dc_linkTable c))))"
    proof (cases "l_parentLink (lnk c r)")
      case None
      then show ?thesis using rp(1)[OF np] tab by (simp add: c')
    next
      case (Some p)
      have "raw (forget_parent p (deleteLink (pl_LinkID (raw c r)) (set_net h c1))) np = raw c np"
        using rp(1)[OF np] by (auto simp: forget_parent_lnk)
      with Some show ?thesis using rp(1)[OF pl[OF Some]] tab by (simp add: c')
    qed
    have B: "map_of (dc_linkTable c') i = (if i \<in> moved_ids c r np then None else map_of (dc_linkTable c) i)" for i
      unfolding tabs moved_ids_def by (cases "l_parentLink (lnk c r)") simp_all
    have C: "l_cachedChildIDs (lnk c' t) = (if t = np \<or> l_parentLink (lnk c r) = Some t then None else l_cachedChildIDs (lnk c t))"
      if t: "t < length (dc_heap c)" for t
    proof (cases "l_parentLink (lnk c r)")
      case None
      then show ?thesis using rp(2)[OF t] np len by (simp add: c' forget_parent_lnk)
    next
      case (Some p)
      then show ?thesis using rp(2)[OF t] np len pl[OF Some] by (auto simp: c' forget_parent_lnk)
    qed
    from A B C moved(1) show ?thesis by simp
  qed
qed

text \<open>
  The entry of the link on disk outlives the move, with the old name and the old parent: unlike \<^verbatim>\<open>Remove\<close>, \<^verbatim>\<open>Move\<close> does
  not erase it, and the next \<^verbatim>\<open>GetCachedLink\<close> finds it there.
\<close>

lemma move_keeps_disk_entry:
  assumes "good (mu_env M) c" "r < length (dc_heap c)" "np < length (dc_heap c)" "Move M share r np newName c = (res, c')"
  shows "bs_cache (dc_store c') = bs_cache (dc_store c)"
  using assms
proof (cases rule: Move_cases)
  case (refused e)
  then show ?thesis using keys_only_frame[OF refused(2)] by simp
next
  case (rejected e c1 h)
  then show ?thesis using keys_only_frame[OF rejected(2)] by simp
next
  case (moved req c1 h)
  then show ?thesis using keys_only_frame[OF moved(3)] by (simp split: option.split)
qed

section \<open>Removing\<close>

text \<open>
  C38: without the permanent option nothing is deleted, whatever the requests for deletion do; a folder that has
  children is not even trashed without the recursive option; and a share root is refused before anything is asked.
\<close>

theorem remove_only_trashes:
  fixes M :: "('dv, 'h, 'kr) mutateEnv"
  shows "(\<not> ro_Permanent opts \<longrightarrow>
      Remove (M\<lparr>mu_DeleteChildren := del, mu_trashDelete := tdel\<rparr>) share r opts c = Remove M share r opts c) \<and>
    (pl_Type (raw c r) = LinkTypeFolder \<and> \<not> ro_Recursive opts \<and> l_parentLink (lnk c r) \<noteq> None \<and>
     ListChildren (mu_env M) (mu_order M) r c = (Inr (x # xs), c1) \<longrightarrow>
       Remove (M\<lparr>mu_DeleteChildren := del, mu_trashDelete := tdel, mu_TrashChildren := trash\<rparr>) share r opts c = Remove M share r opts c \<and>
       (\<exists>n. fst (Remove M share r opts c) = Inl (FNotEmpty n))) \<and>
    (l_parentLink (lnk c r) = None \<longrightarrow> Remove M share r opts c = (Inl FRootShare, c))"
proof (intro conjI impI)
  assume "\<not> ro_Permanent opts"
  then show "Remove (M\<lparr>mu_DeleteChildren := del, mu_trashDelete := tdel\<rparr>) share r opts c = Remove M share r opts c"
    by (cases "l_parentLink (lnk c r)") (simp_all add: Remove_def Let_def cong: if_cong)
next
  assume h: "pl_Type (raw c r) = LinkTypeFolder \<and> \<not> ro_Recursive opts \<and> l_parentLink (lnk c r) \<noteq> None \<and>
     ListChildren (mu_env M) (mu_order M) r c = (Inr (x # xs), c1)"
  then show "Remove (M\<lparr>mu_DeleteChildren := del, mu_trashDelete := tdel, mu_TrashChildren := trash\<rparr>) share r opts c = Remove M share r opts c"
    by (auto simp: Remove_def split: prod.split)
  from h show "\<exists>n. fst (Remove M share r opts c) = Inl (FNotEmpty n)"
    by (auto simp: Remove_def split: prod.split)
qed (simp add: Remove_def)

section \<open>Folders\<close>

lemma resolveParts_folder:
  "''..'' \<notin> set parts \<Longrightarrow> resolveParts E ord extra parts cur c = (Inr t, c') \<Longrightarrow> pl_Type (raw c' t) = LinkTypeFolder \<Longrightarrow>
     pl_Type (raw c cur) = LinkTypeFolder"
  by (induction parts) (auto split: if_splits)

lemma mkdir_parts_existing:
  "''..'' \<notin> set parts \<Longrightarrow> resolveParts (mu_env M) (mu_order M) (mu_extra M) parts cur c = (Inr t, c') \<Longrightarrow>
     pl_Type (raw c' t) = LinkTypeFolder \<Longrightarrow> mkdir_parts M share parts cur c = (Inr t, c')"
proof (induction parts arbitrary: cur c)
  case (Cons part parts)
  show ?case
  proof (cases "part = [] \<or> part = ''.''")
    case True
    with Cons show ?thesis by auto
  next
    case False
    with Cons.prems obtain child c1 where child: "link_Lookup (mu_env M) (mu_order M) (mu_extra M) cur part c = (Inr (Some child), c1)"
      "resolveParts (mu_env M) (mu_order M) (mu_extra M) parts child c1 = (Inr t, c')"
      by (auto split: if_splits sum.splits prod.splits option.splits)
    have "pl_Type (raw c1 child) = LinkTypeFolder"
      by (rule resolveParts_folder[OF _ child(2) Cons.prems(3)]) (use Cons.prems(1) in simp)
    with child False Cons.IH[OF _ child(2) Cons.prems(3)] Cons.prems(1) show ?thesis by (simp add: Let_def)
  qed
qed simp

text \<open>
  C39: on a path of existing folders \<^verbatim>\<open>MkDirAll\<close> is the resolution of the path: it finds the folder, leaves the client as
  the resolution does and creates nothing.
\<close>

theorem mkdir_all_existing:
  assumes "''..'' \<notin> set (split_slash (trim_slashes path))"
    and "ResolvePath (mu_env M) (mu_order M) (mu_extra M) root path c = (Inr t, c')" and "pl_Type (raw c' t) = LinkTypeFolder"
  shows "MkDirAll M share root path c = (Inr t, c')"
  using assms by (auto simp: MkDirAll_def ResolvePath_def Let_def intro: mkdir_parts_existing split: if_splits)

section \<open>Examples\<close>

text \<open>A cipher with one passphrase message per keyring, and a service that accepts every request.\<close>

definition demo_pgp :: "(nat, nat) pgp" where
  "demo_pgp =
     \<lparr>pg_token = (\<lambda>h. (Inr [1], h)), pg_generateKey = (\<lambda>p h. (Inr ''key'', h)), pg_encrypt = (\<lambda>kr m. Inr [1]),
      pg_decrypt = (\<lambda>kr m. Inr ''p''), pg_armor = (\<lambda>m. Inr ''enc''), pg_unarmor = (\<lambda>m. Inr [1]), pg_sign = (\<lambda>kr m. Inr [2]),
      pg_armorSig = (\<lambda>m. Inr ''sig''), pg_unarmorSig = (\<lambda>m. Inr [2]), pg_verify = (\<lambda>kr m s. None), pg_unlock = (\<lambda>k p. Inr 4),
      pg_split = (\<lambda>m. if m = ''m2'' then Inr ([2], [7]) else if m = ''m1'' then Inr ([1], [7]) else Inl ''?''),
      pg_join = (\<lambda>x. if x = ([2], [7]) then Inr ''m2'' else Inl ''?''),
      pg_decryptSK = (\<lambda>kr kp. if kp = [1] \<or> kp = [2] then Inr [9] else Inl ''?''),
      pg_encryptSK = (\<lambda>kr sk. if sk = [9] then Inr [2] else Inl ''?''),
      pg_encryptName = (\<lambda>n a k. Inr n), pg_hashKey = (\<lambda>p k a. Inr [3]), pg_nameHash = (\<lambda>n k. Inr n),
      pg_nodeHashKey = (\<lambda>k h. (Inr ''nhk'', h))\<rparr>"

definition demo_mutate :: "((string, bytes) gomap, nat, nat) mutateEnv" where
  "demo_mutate =
     \<lparr>mu_env = demo_env, mu_order = (\<lambda>n. [0..<n]), mu_extra = 0, mu_pgp = demo_pgp, mu_Hash = pl_LinkID,
      mu_NodePassphrase = (\<lambda>p. ''m1''), mu_NodePassphraseSignature = (\<lambda>p. ''s''), mu_shareKR = (\<lambda>s. Some 5),
      mu_MoveLink = (\<lambda>s i r h. (None, h + 1)), mu_CreateFolder = (\<lambda>s r h. (Inr ''dir'', h + 1)),
      mu_DeleteChildren = (\<lambda>s p i h. (None, h + 1)), mu_TrashChildren = (\<lambda>s p i h. (None, h + 1)),
      mu_trashDelete = (\<lambda>v ls h. (Inr [], h + 1)), mu_EmptyTrash = (\<lambda>s h. (None, h + 1))\<rparr>"

lemma demo_pgp_laws: "pgp_laws (mu_pgp demo_mutate)"
  by (simp add: pgp_laws_def demo_mutate_def demo_pgp_def)

lemma move_effects_witness:
  "fst (Move demo_mutate demo_share 1 0 ''new'' demo_drive) = Inr () \<and>
   map_of (dc_linkTable (snd (Move demo_mutate demo_share 1 0 ''new'' demo_drive))) ''file='' = None \<and>
   l_cachedChildIDs (lnk (snd (Move demo_mutate demo_share 1 0 ''new'' demo_drive)) 0) = None"
proof -
  have f: "fst (Move demo_mutate demo_share 1 0 ''new'' demo_drive) = Inr ()" by code_simp
  have b: "1 < length (dc_heap demo_drive)" "0 < length (dc_heap demo_drive)" by (simp_all add: demo_drive_def)
  have i: "pl_LinkID (raw demo_drive 1) = ''file=''" by (simp add: demo_drive_def NewLink_def demo_link_def)
  have m: "Move demo_mutate demo_share 1 0 ''new'' demo_drive = (Inr (), snd (Move demo_mutate demo_share 1 0 ''new'' demo_drive))"
    using f by (metis prod.collapse)
  note t = move_effects[OF demo_pgp_laws demo_drive_good b m]
  have "\<forall>i. map_of (dc_linkTable (snd (Move demo_mutate demo_share 1 0 ''new'' demo_drive))) i =
      (if i \<in> moved_ids demo_drive 1 0 then None else map_of (dc_linkTable demo_drive) i)"
    and "\<forall>t < length (dc_heap demo_drive). l_cachedChildIDs (lnk (snd (Move demo_mutate demo_share 1 0 ''new'' demo_drive)) t) =
      (if t = 0 \<or> l_parentLink (lnk demo_drive 1) = Some t then None else l_cachedChildIDs (lnk demo_drive t))"
    using t by blast+
  with f b i show ?thesis by (simp add: moved_ids_def)
qed

lemma remove_only_trashes_witness:
  "let o1 = \<lparr>ro_Recursive = False, ro_Permanent = False\<rparr>; dead = (\<lambda>s p i h. (Some (ApiOther ''gone''), h)) in
   fst (Remove demo_mutate demo_share 1 o1 demo_drive) = Inr () \<and>
   Remove (demo_mutate\<lparr>mu_DeleteChildren := dead, mu_trashDelete := (\<lambda>v ls h. (Inl ''gone'', h))\<rparr>) demo_share 1 o1 demo_drive =
     Remove demo_mutate demo_share 1 o1 demo_drive"
proof -
  have f: "fst (Remove demo_mutate demo_share 1 \<lparr>ro_Recursive = False, ro_Permanent = False\<rparr> demo_drive) = Inr ()" by code_simp
  have "Remove (demo_mutate\<lparr>mu_DeleteChildren := (\<lambda>s p i h. (Some (ApiOther ''gone''), h)), mu_trashDelete := (\<lambda>v ls h. (Inl ''gone'', h))\<rparr>)
        demo_share 1 \<lparr>ro_Recursive = False, ro_Permanent = False\<rparr> demo_drive =
      Remove demo_mutate demo_share 1 \<lparr>ro_Recursive = False, ro_Permanent = False\<rparr> demo_drive"
    using remove_only_trashes[where M = demo_mutate and opts = "\<lparr>ro_Recursive = False, ro_Permanent = False\<rparr>"] by simp
  with f show ?thesis by (simp add: Let_def)
qed

lemma mkdir_all_existing_witness:
  "fst (MkDirAll demo_mutate demo_share 0 ''/dir/'' demo_drive) = Inr 3"
proof -
  let ?r = "ResolvePath (mu_env demo_mutate) (mu_order demo_mutate) (mu_extra demo_mutate) 0 ''/dir/'' demo_drive"
  have f: "fst ?r = Inr 3" and ty: "pl_Type (raw (snd ?r) 3) = LinkTypeFolder" by code_simp+
  have "''..'' \<notin> set (split_slash (trim_slashes ''/dir/''))" by code_simp
  moreover have "?r = (Inr 3, snd ?r)" using f by (metis prod.collapse)
  ultimately show ?thesis using mkdir_all_existing[OF _ _ ty, of "''/dir/''" demo_mutate 0] by simp
qed


text \<open>
  A folder that another client creates between the lookup and the request: the lookup has kept the listing, the
  refused request does not forget it, and the second lookup, meant to find the new folder, is answered from it.
\<close>

definition race_mutate :: "((string, bytes) gomap, nat, nat) mutateEnv" where
  "race_mutate = demo_mutate
     \<lparr>mu_env := demo_env\<lparr>de_ListChildren := (\<lambda>s i a h. (Inr (if h = 0 then [demo_link ''file=''] else [demo_link ''file='', demo_link ''dir'']), h + 1))\<rparr>,
      mu_CreateFolder := (\<lambda>s r h. (Inl ApiFolderNameExist, h + 1))\<rparr>"

lemma mkdir_retry_stale:
  "(case MkDirAll race_mutate demo_share 0 ''dir'' demo_drive of
      (res, c) \<Rightarrow> (res, fst (link_Lookup (mu_env race_mutate) (mu_order race_mutate) 0 0 ''dir'' (InvalidateChildren 0 c)))) =
   (Inl (FApi ApiFolderNameExist), Inr (Some 3))"
  by code_simp

end
